(* ===== verification/Prelude.thy ===== *)
theory Prelude
  imports Main "HOL-Library.Word" "HOL-Library.Multiset"
begin

unbundle bit_operations_syntax

text \<open>
  Shared ground of the development: the machine-integer conventions, byte buffers, decimal
  and hexadecimal text, and the list and bit lemmas that several components use.

  Integers. The C++ code works with \<^verbatim>\<open>std::uint64_t\<close> sizes and offsets (\<^verbatim>\<open>Size\<close>,
  \<^verbatim>\<open>Offset\<close>), \<^verbatim>\<open>std::uint32_t\<close> lengths and \<^verbatim>\<open>unsigned\<close> indices. They are modelled as
  \<^typ>\<open>nat\<close> with the wrap-around written out: \<open>u64\<close> and \<open>u32\<close> reduce a result modulo
  the width wherever the source arithmetic or a \<^verbatim>\<open>static_cast\<close> can leave it. Where the
  source works bit by bit (alignment masks, SHA-256, the XOR of the buddy scheme)
  the operations are those of \<open>HOL-Library.Word\<close> or the bitwise operations on \<^typ>\<open>nat\<close>.
  Subtractions that the source guards by a comparison are plain subtractions.
\<close>

section \<open>Collections of rewrite rules\<close>

named_theorems u_simps \<open>wrap-around arithmetic on in-range values\<close>
named_theorems buf_simps \<open>byte buffers: slices and positional writes\<close>

section \<open>Machine integers\<close>

type_synonym byte = "8 word"
type_synonym bytes = "8 word list"

definition u64 :: "nat \<Rightarrow> nat" where
  "u64 n = n mod 2 ^ 64"

definition u32 :: "nat \<Rightarrow> nat" where
  "u32 n = n mod 2 ^ 32"

abbreviation UINT64_MAX :: nat where
  "UINT64_MAX \<equiv> 2 ^ 64 - 1"

abbreviation UINT32_MAX :: nat where
  "UINT32_MAX \<equiv> 2 ^ 32 - 1"

abbreviation UINT16_MAX :: nat where
  "UINT16_MAX \<equiv> 2 ^ 16 - 1"

lemma u64_id [u_simps]: "n < 2 ^ 64 \<Longrightarrow> u64 n = n"
  by (simp add: u64_def)

lemma u32_id [u_simps]: "n < 2 ^ 32 \<Longrightarrow> u32 n = n"
  by (simp add: u32_def)

lemma u64_less [simp]: "u64 n < 2 ^ 64"
  by (simp add: u64_def)

lemma u32_less [simp]: "u32 n < 2 ^ 32"
  by (simp add: u32_def)

lemma block_end_le: "u mod bb + k \<le> bb \<Longrightarrow> u + k \<le> Suc (u div bb) * (bb :: nat)"
proof -
  assume "u mod bb + k \<le> bb"
  then have "u div bb * bb + (u mod bb + k) \<le> u div bb * bb + bb" by (rule add_left_mono)
  moreover have "u div bb * bb + (u mod bb + k) = u + k" by (simp only: add.assoc [symmetric] div_mult_mod_eq)
  ultimately show ?thesis by simp
qed

lemma div_mod_within:
  assumes "u mod b + j < (b :: nat)"
  shows "(u + j) div b = u div b" and "(u + j) mod b = u mod b + j"
proof -
  have e: "u + j = b * (u div b) + (u mod b + j)" by (metis add.assoc mult_div_mod_eq)
  show "(u + j) div b = u div b" 
  proof (rule div_nat_eqI)
    show "b * (u div b) \<le> u + j" using e by linarith
    show "u + j < b * Suc (u div b)" unfolding mult_Suc_right using e assms by linarith
  qed
  show "(u + j) mod b = u mod b + j" 
  proof (rule mod_nat_eqI)
    show "u mod b + j \<le> u + j" by simp
    have "u + j - (u mod b + j) = b * (u div b)" using e by linarith
    then show "b dvd u + j - (u mod b + j)" by simp
  qed (rule assms)
qed

lemma nat_mod_add_cancel: "((a::nat) + b) mod n = (a + c) mod n \<Longrightarrow> b mod n = c mod n"
proof (induction b c rule: linorder_wlog)
  case (le b c)
  then have "n dvd (a + c) - (a + b)" by (subst mod_eq_dvd_iff_nat [symmetric]) simp_all
  with le(1) show ?case by (simp add: mod_eq_dvd_iff_nat [symmetric])
qed (simp add: eq_commute)

lemma ceil_div_less_iff:
  assumes "0 < (s :: nat)"
  shows "c < (m + s - 1) div s \<longleftrightarrow> c * s < m"
proof -
  have "c < (m + s - 1) div s \<longleftrightarrow> Suc c * s \<le> m + s - 1"
    using assms by (simp only: less_eq_div_iff_mult_less_eq Suc_le_eq [symmetric])
  also have "\<dots> \<longleftrightarrow> c * s < m" using assms by auto
  finally show ?thesis .
qed

lemma unat_byte: "unat (b :: byte) < 256"
proof -
  have "unat b < 2 ^ LENGTH(8)" by (rule unsigned_less)
  then show ?thesis by simp
qed

section \<open>Byte buffers\<close>

text \<open>
  \<open>slice off len b\<close> is a \<^verbatim>\<open>subspan\<close>; \<open>write_at off d b\<close> is what \<^verbatim>\<open>memcpy\<close> into a buffer or
  POSIX \<^verbatim>\<open>pwrite\<close> into a regular file does: bytes beyond the end extend it, a gap reads as
  zeros.
\<close>

definition slice :: "nat \<Rightarrow> nat \<Rightarrow> 'a list \<Rightarrow> 'a list" where
  "slice off len b = take len (drop off b)"

definition write_at :: "nat \<Rightarrow> 'a::zero list \<Rightarrow> 'a list \<Rightarrow> 'a list" where
  "write_at off d b =
     take off (b @ replicate (off - length b) 0) @ d @ drop (off + length d) b"

lemma length_slice [buf_simps]: "length (slice off len b) = min len (length b - off)"
  by (simp add: slice_def)

lemma nth_slice [buf_simps]:
  "i < len \<Longrightarrow> off + i < length b \<Longrightarrow> slice off len b ! i = b ! (off + i)"
  by (simp add: slice_def)

lemma slice_all [buf_simps]: "slice 0 (length b) b = b"
  by (simp add: slice_def)

lemma slice_Nil [buf_simps]: "slice off 0 b = []"
  by (simp add: slice_def)

lemma slice_slice:
  "o2 + l2 \<le> l1 \<Longrightarrow> slice o2 l2 (slice o1 l1 b) = slice (o1 + o2) l2 b"
  by (simp add: slice_def drop_take min_def add.commute)

lemma slice_append_split:
  "slice off (m + n) b = slice off m b @ slice (off + m) n b"
  by (simp add: slice_def take_add add.commute)

lemma length_write_at [buf_simps]:
  "length (write_at off d b) = max (length b) (off + length d)"
  by (simp add: write_at_def)

lemma nth_write_at:
  assumes "i < max (length b) (off + length d)"
  shows "write_at off d b ! i =
    (if off \<le> i \<and> i < off + length d then d ! (i - off)
     else if i < length b then b ! i else 0)"
  using assms
  by (auto simp: write_at_def nth_append min_def)

lemma write_at_Nil: "off \<le> length b \<Longrightarrow> write_at off [] b = b"
  by (simp add: write_at_def)

lemma nth_write_at_frame:
  "i < length b \<Longrightarrow> i < off \<or> off + length d \<le> i \<Longrightarrow> write_at off d b ! i = b ! i"
  by (subst nth_write_at) auto

lemma nth_write_at_hit:
  "off \<le> i \<Longrightarrow> i < off + length d \<Longrightarrow> write_at off d b ! i = d ! (i - off)"
  by (subst nth_write_at) auto

text \<open>The byte a file holds at an offset; beyond its end there is a hole, which reads as zero.\<close>

definition byte_at :: "'a::zero list \<Rightarrow> nat \<Rightarrow> 'a" where
  "byte_at f i = (if i < length f then f ! i else 0)"

lemma byte_at_write_at:
  "byte_at (write_at off d b) i = (if off \<le> i \<and> i < off + length d then d ! (i - off) else byte_at b i)"
  by (auto simp: byte_at_def nth_write_at length_write_at)

lemma slice_byte_at:
  "off + len \<le> length f \<Longrightarrow> slice off len f = map (\<lambda>j. byte_at f (off + j)) [0..<len]"
  by (rule nth_equalityI) (auto simp: length_slice nth_slice byte_at_def)

section \<open>Bits\<close>

lemma nat_xor_one: "(k::nat) XOR 1 = (if even k then k + 1 else k - 1)"
  by (simp only: xor_one_eq) auto

lemma xor_scaled: "(k * 2 ^ n :: nat) XOR 2 ^ n = (k XOR 1) * 2 ^ n"
proof -
  have "push_bit n k XOR push_bit n 1 = push_bit n (k XOR 1)"
    by (simp only: push_bit_xor)
  then show ?thesis by (simp only: push_bit_eq_mult mult_1)
qed

lemma and_mask_mod: "(v::nat) AND (2 ^ n - 1) = v mod 2 ^ n"
  by (simp only: mask_eq_exp_minus_1 [symmetric] take_bit_eq_mask [symmetric] take_bit_eq_mod)

lemma and_mask_mod_Suc: "(v::nat) AND (2 ^ n - Suc 0) = v mod 2 ^ n"
  using and_mask_mod [of v n] by simp

section \<open>Lists\<close>

lemma length_filter_remove1:
  "x \<in> set xs \<Longrightarrow> length (filter P xs) = length (filter P (remove1 x xs)) + (if P x then 1 else 0)"
  by (induction xs) auto

lemma filter_butlast_last:
  "xs \<noteq> [] \<Longrightarrow> length (filter P xs) = length (filter P (butlast xs)) + (if P (last xs) then 1 else 0)"
  by (induction xs rule: rev_induct) auto

lemma distinct_count_filter:
  assumes "\<And>a. P a \<Longrightarrow> a \<in> set xs \<Longrightarrow> a = b"
  shows "distinct xs \<Longrightarrow> length (filter P xs) \<le> 1"
  using assms
proof (induction xs)
  case (Cons a xs)
  then show ?case
    by (cases "P a") (auto simp: filter_empty_conv)
qed simp

lemma sum_list_int: "sum_list (map (\<lambda>x. int (f x)) xs) = int (sum_list (map f xs))"
  by (induction xs) simp_all

lemma upt_split: "l \<le> r \<Longrightarrow> [0..<r] = [0..<l] @ map ((+) l) [0..<r - l]"
  by (rule nth_equalityI) (auto simp: nth_append)

lemma map_filter_remove1:
  "(\<And>y. y \<in> set L \<Longrightarrow> P y \<Longrightarrow> P x \<Longrightarrow> f y = f x \<Longrightarrow> y = x) \<Longrightarrow>
     map f (filter P (remove1 x L)) =
       (if P x then remove1 (f x) (map f (filter P L)) else map f (filter P L))"
proof (induction L)
  case (Cons y L)
  then have "map f (filter P (remove1 x L)) =
      (if P x then remove1 (f x) (map f (filter P L)) else map f (filter P L))"
    by auto
  with Cons.prems [of y] show ?case by auto
qed simp

section \<open>Decimal and hexadecimal text\<close>

text \<open>
  \<open>std::from_chars\<close> on an unsigned type reads the longest run of decimal digits (no sign, no
  blanks); it fails on an empty run and on a value out of the type's range. \<open>std::to_string\<close>
  and \<^verbatim>\<open>std::format("{}")\<close> print without leading zeros.
\<close>

definition is_dec :: "char \<Rightarrow> bool" where
  "is_dec c \<longleftrightarrow> 48 \<le> (of_char c :: nat) \<and> (of_char c :: nat) \<le> 57"

definition dec_val :: "string \<Rightarrow> nat" where
  "dec_val s = foldl (\<lambda>a c. 10 * a + (of_char c - 48)) 0 s"

definition from_chars_u :: "nat \<Rightarrow> string \<Rightarrow> (nat \<times> string) option" where
  "from_chars_u mx s =
     (let ds = takeWhile is_dec s in
      if ds = [] then None
      else if dec_val ds > mx then None
      else Some (dec_val ds, dropWhile is_dec s))"

fun digit_char :: "nat \<Rightarrow> char" where
  "digit_char n = char_of (48 + n)"

fun dec_str :: "nat \<Rightarrow> string" where
  "dec_str n = (if n < 10 then [digit_char n] else dec_str (n div 10) @ [digit_char (n mod 10)])"

declare dec_str.simps [simp del]

lemma is_dec_digit_char [simp]: "n < 10 \<Longrightarrow> is_dec (digit_char n)"
  by (simp add: is_dec_def)

lemma of_char_digit_char [simp]: "n < 10 \<Longrightarrow> (of_char (digit_char n) :: nat) = 48 + n"
  by simp

declare digit_char.simps [simp del]

lemma dec_val_snoc: "dec_val (s @ [c]) = 10 * dec_val s + (of_char c - 48)"
  by (simp add: dec_val_def)

lemma dec_str_nonempty [simp]: "dec_str n \<noteq> []"
  by (subst dec_str.simps) simp

lemma dec_str_digits: "\<forall>c \<in> set (dec_str n). is_dec c"
proof (induction n rule: dec_str.induct)
  case (1 n)
  then show ?case by (subst dec_str.simps) auto
qed

lemma dec_val_dec_str [simp]: "dec_val (dec_str n) = n"
proof (induction n rule: dec_str.induct)
  case (1 n)
  show ?case
  proof (cases "n < 10")
    case True
    then show ?thesis by (simp add: dec_str.simps [of n] dec_val_def)
  next
    case False
    with "1.IH" show ?thesis by (simp add: dec_str.simps [of n] dec_val_snoc)
  qed
qed

lemma from_chars_u_dec_str:
  "n \<le> mx \<Longrightarrow> from_chars_u mx (dec_str n) = Some (n, [])"
  by (simp add: from_chars_u_def dec_str_digits takeWhile_eq_all_conv [THEN iffD2]
      dropWhile_eq_Nil_conv [THEN iffD2])

lemma space_not_dec [simp]: "\<not> is_dec CHR '' ''"
  by (simp add: is_dec_def)

end
