(* ===== verification/Common.thy ===== *)
theory Common
  imports Prelude Complex_Main
begin

text \<open>
  The shared types and the operator configuration: \<^verbatim>\<open>common/types.hpp\<close> (sizes, alignment
  helpers), \<^verbatim>\<open>common/error.hpp\<close> and \<^verbatim>\<open>common/error.cpp\<close> (error codes and \<open>std::expected\<close>
  results), \<^verbatim>\<open>common/config.hpp\<close> and \<^verbatim>\<open>common/config.cpp\<close> (the configuration record and its
  validation).
\<close>

section \<open>Sizes and alignment (types.hpp)\<close>

definition KiB :: nat where "KiB = 1024"
definition MiB :: nat where "MiB = 1024 * KiB"
definition GiB :: nat where "GiB = 1024 * MiB"

definition kMaxObjectSize :: nat where "kMaxObjectSize = 1 * GiB"
definition kDeviceBlock :: nat where "kDeviceBlock = 4 * KiB"

definition is_power_of_two :: "nat \<Rightarrow> bool" where
  "is_power_of_two v \<longleftrightarrow>
     (of_nat v :: 64 word) \<noteq> 0 \<and> (of_nat v :: 64 word) AND (of_nat v - 1) = 0"

definition align_up :: "nat \<Rightarrow> nat \<Rightarrow> nat" where
  "align_up v a = unat (((of_nat v :: 64 word) + of_nat a - 1) AND NOT (of_nat a - 1))"

definition align_down :: "nat \<Rightarrow> nat \<Rightarrow> nat" where
  "align_down v a = unat ((of_nat v :: 64 word) AND NOT (of_nat a - 1))"

definition is_aligned :: "nat \<Rightarrow> nat \<Rightarrow> bool" where
  "is_aligned v a \<longleftrightarrow> (of_nat v :: 64 word) AND (of_nat a - 1) = 0"

datatype range_kind = Closed | From | Suffix

record byte_range =
  br_kind :: range_kind
  br_a :: nat
  br_b :: nat

lemmas size_defs = KiB_def MiB_def GiB_def kMaxObjectSize_def kDeviceBlock_def

section \<open>Errors (error.hpp, error.cpp)\<close>

datatype errc =
    ok
  | not_found
  | already_exists
  | cas_mismatch
  | out_of_space
  | out_of_memory
  | too_large
  | invalid_argument
  | invalid_protocol
  | io_error
  | unsupported
  | backpressure_timeout
  | would_block

record error =
  code :: errc
  detail :: string

type_synonym 'a result = "error + 'a"

abbreviation err :: "errc \<Rightarrow> string \<Rightarrow> 'a result" where
  "err c d \<equiv> Inl \<lparr>code = c, detail = d\<rparr>"

fun errc_to_string :: "errc \<Rightarrow> string" where
  "errc_to_string ok = ''ok''"
| "errc_to_string not_found = ''not_found''"
| "errc_to_string already_exists = ''already_exists''"
| "errc_to_string cas_mismatch = ''cas_mismatch''"
| "errc_to_string out_of_space = ''out_of_space''"
| "errc_to_string out_of_memory = ''out_of_memory''"
| "errc_to_string too_large = ''too_large''"
| "errc_to_string invalid_argument = ''invalid_argument''"
| "errc_to_string invalid_protocol = ''invalid_protocol''"
| "errc_to_string io_error = ''io_error''"
| "errc_to_string unsupported = ''unsupported''"
| "errc_to_string backpressure_timeout = ''backpressure_timeout''"
| "errc_to_string would_block = ''would_block''"

section \<open>Configuration (config.hpp)\<close>

datatype write_mode = evict_mode | block_mode
datatype cache_bypass_kind = o_direct | rwf_dontcache | buffered
datatype eviction_kind = sieve | s3fifo | tinylfu
datatype net_mode = blocking | async

record tier_sizes =
  ram_head :: nat
  ssd_prefix :: nat

record pool_config =
  dirs :: "string list"
  stripe_unit :: nat

record memory_config =
  total_bytes :: nat
  block_bytes :: nat
  lock_memory :: bool
  use_hugepages :: bool

text \<open>The watermarks are \<^verbatim>\<open>double\<close>s; their finite values are rationals.\<close>

record eviction_config =
  policy :: eviction_kind
  max_ssd_objects :: nat
  high_watermark :: rat
  low_watermark :: rat

record server_config =
  memcache_port :: nat
  http_port :: nat
  https_port :: nat
  enable_memcache :: bool
  enable_http :: bool
  enable_https :: bool
  tls_cert_paths :: "string list"
  tls_key_paths :: "string list"
  cores :: nat
  http_vhost :: bool
  key_on_query :: bool
  key_strip_slash :: bool
  http_index :: string
  sources :: "string list"
  io_chunk_bytes :: nat
  io_buffers :: nat
  io_timeout_ms :: nat
  ttl_reap_ms :: nat
  shutdown_grace_ms :: nat
  read_ahead :: bool
  net :: net_mode
  memory :: memory_config
  tiers :: tier_sizes
  ssd :: pool_config
  hdd :: pool_config
  eviction :: eviction_config
  memcache_write_mode :: write_mode
  http_write_mode :: write_mode
  cache_bypass :: cache_bypass_kind

definition default_tiers :: tier_sizes where
  "default_tiers = \<lparr>ram_head = 256 * KiB, ssd_prefix = 32 * MiB\<rparr>"

definition default_pool :: pool_config where
  "default_pool = \<lparr>dirs = [], stripe_unit = 64 * KiB\<rparr>"

definition default_memory :: memory_config where
  "default_memory = \<lparr>total_bytes = 1 * GiB, block_bytes = 1 * MiB, lock_memory = True,
     use_hugepages = True\<rparr>"

definition default_eviction :: eviction_config where
  "default_eviction = \<lparr>policy = s3fifo, max_ssd_objects = 0, high_watermark = 9 / 10,
     low_watermark = 8 / 10\<rparr>"

definition default_config :: server_config where
  "default_config = \<lparr>
     memcache_port = 11211, http_port = 8080, https_port = 8443,
     enable_memcache = True, enable_http = True, enable_https = False,
     tls_cert_paths = [], tls_key_paths = [], cores = 0,
     http_vhost = False, key_on_query = False, key_strip_slash = False,
     http_index = ''index.html'', sources = [],
     io_chunk_bytes = 256 * KiB, io_buffers = 64, io_timeout_ms = 30000,
     ttl_reap_ms = 1000, shutdown_grace_ms = 5000, read_ahead = True, net = async,
     memory = default_memory, tiers = default_tiers, ssd = default_pool, hdd = default_pool,
     eviction = default_eviction, memcache_write_mode = evict_mode,
     http_write_mode = block_mode, cache_bypass = o_direct\<rparr>"

lemmas default_defs = default_config_def default_tiers_def default_pool_def default_memory_def
  default_eviction_def

definition cfg_three_layer :: "server_config \<Rightarrow> bool" where
  "cfg_three_layer c \<longleftrightarrow> dirs (hdd c) \<noteq> []"

section \<open>Validation (config.cpp)\<close>

definition validate :: "server_config \<Rightarrow> unit result" where
  "validate c =
    (let m = memory c; t = tiers c in
     if \<not> is_power_of_two (block_bytes m) \<or> block_bytes m < kDeviceBlock then
       err invalid_argument ''memory.block_bytes must be a power of two >= 4 KiB''
     else if total_bytes m < block_bytes m then
       err invalid_argument ''memory.total_bytes must be >= block size''
     else if ram_head t > ssd_prefix t then
       err invalid_argument ''ram_head must be <= ssd_prefix (ADR-0006)''
     else if \<not> is_aligned (ram_head t) kDeviceBlock \<or> \<not> is_aligned (ssd_prefix t) kDeviceBlock then
       err invalid_argument ''tier sizes must be 4 KiB-aligned (O_DIRECT, ADR-0011)''
     else if ssd_prefix t > kMaxObjectSize then
       err invalid_argument ''ssd_prefix exceeds the maximum object size''
     else if ram_head t > block_bytes m then
       err invalid_argument ''ram_head must be <= memory.block_bytes (head fits one block)''
     else if \<not> is_power_of_two (io_chunk_bytes c) \<or> io_chunk_bytes c < kDeviceBlock then
       err invalid_argument ''io_chunk_bytes must be a power of two >= 4 KiB''
     else if io_buffers c = 0 then
       err invalid_argument ''io_buffers must be >= 1''
     else if dirs (ssd c) = [] then
       err invalid_argument ''at least one --ssd-dir is required''
     else if stripe_unit (ssd c) = 0 \<or> \<not> is_aligned (stripe_unit (ssd c)) kDeviceBlock then
       err invalid_argument ''ssd stripe_unit must be a nonzero multiple of 4 KiB''
     else if cfg_three_layer c \<and>
             (stripe_unit (hdd c) = 0 \<or> \<not> is_aligned (stripe_unit (hdd c)) kDeviceBlock) then
       err invalid_argument ''hdd stripe_unit must be a nonzero multiple of 4 KiB''
     else if cfg_three_layer c \<and> ssd_prefix t - ram_head t < stripe_unit (hdd c) then
       err invalid_argument
         ''ssd middle (ssd_prefix - ram_head) must be >= hdd stripe_unit (ADR-0006)''
     else if low_watermark (eviction c) \<le> 0 \<or> high_watermark (eviction c) > 1 \<or>
             low_watermark (eviction c) \<ge> high_watermark (eviction c) then
       err invalid_argument ''require 0 < low_watermark < high_watermark <= 1.0''
     else if \<not> enable_memcache c \<and> \<not> enable_http c \<and> \<not> enable_https c then
       err invalid_argument
         ''no listeners enabled (need at least one of memcache, HTTP, HTTPS)''
     else if length (tls_cert_paths c) \<noteq> length (tls_key_paths c) then
       err invalid_argument ''each --tls-cert needs a matching --tls-key''
     else if enable_https c \<and> tls_cert_paths c = [] then
       err invalid_argument ''HTTPS requires at least one --tls-cert/--tls-key pair''
     else Inr ())"

section \<open>Alignment lemmas\<close>

lemma power_two_word_minus_one:
  "k < 64 \<Longrightarrow> (of_nat (2 ^ k) :: 64 word) - 1 = mask k"
  by (simp add: mask_eq_exp_minus_1)

lemma unat_of_nat_64: "v < 2 ^ 64 \<Longrightarrow> unat (of_nat v :: 64 word) = v"
  by (simp add: unat_of_nat take_bit_eq_mod)

lemma unat_and_mask: "unat ((w :: 64 word) AND mask k) = unat w mod 2 ^ k"
  by (simp only: take_bit_eq_mask [symmetric] unsigned_take_bit_eq) (simp add: take_bit_eq_mod)

lemma unat_and_not_mask:
  "unat ((w :: 64 word) AND NOT (mask k)) = unat w div 2 ^ k * 2 ^ k"
proof -
  have split: "w = (w AND NOT (mask k)) + (w AND mask k)"
    by (subst disjunctive_add) (auto simp: bit_simps bit_eq_iff)
  have "w AND NOT (mask k) = w - (w AND mask k)"
    by (subst (2) split) simp
  moreover have "unat (w - (w AND mask k)) = unat w - unat (w AND mask k)"
    by (rule unat_sub) (simp add: word_and_le2)
  ultimately have "unat (w AND NOT (mask k)) = unat w - unat w mod 2 ^ k"
    by (simp add: unat_and_mask)
  then show ?thesis by (simp add: minus_mod_eq_div_mult)
qed
lemma align_up_eq:
  assumes "k < 64" and "v + 2 ^ k \<le> 2 ^ 64"
  shows "align_up v (2 ^ k) = (v + 2 ^ k - 1) div 2 ^ k * 2 ^ k"
proof -
  have "(of_nat v :: 64 word) + of_nat (2 ^ k) - 1 = of_nat (v + 2 ^ k - 1)"
    by (subst of_nat_diff) (simp_all add: Suc_leI)
  moreover have "v + 2 ^ k - 1 < (2 ^ 64 :: nat)"
    using assms(2) by (smt (verit) Suc_pred add_gr_0 diff_Suc_1 le_simps(3) pos2 zero_less_power)
  ultimately show ?thesis
    unfolding align_up_def power_two_word_minus_one [OF assms(1)]
    by (simp only: unat_and_not_mask unat_of_nat_64)
qed

lemma is_aligned_iff_dvd:
  assumes "k < 64" and "v < 2 ^ 64"
  shows "is_aligned v (2 ^ k) \<longleftrightarrow> 2 ^ k dvd v"
proof -
  have "is_aligned v (2 ^ k) \<longleftrightarrow> unat ((of_nat v :: 64 word) AND mask k) = 0"
    unfolding is_aligned_def power_two_word_minus_one [OF assms(1)] by (simp add: unat_eq_0)
  then show ?thesis
    by (simp add: unat_and_mask unat_of_nat_64 [OF assms(2)] dvd_eq_mod_eq_0)
qed

lemma kDeviceBlock_power: "kDeviceBlock = 2 ^ 12"
  by (simp add: size_defs)

lemma nat_and_pred_eq_0: "0 < (v::nat) \<Longrightarrow> v AND (v - 1) = 0 \<Longrightarrow> \<exists>k. v = 2 ^ k"
proof (induction v rule: less_induct)
  case (less v)
  show ?case
  proof (cases "even v")
    case True
    with less.prems obtain a where a: "v = 2 * a" "0 < a" by (auto elim!: evenE)
    have "(v - 1) div 2 = a - 1" using a by linarith
    then have "v AND (v - 1) = 2 * (a AND (a - 1))"
      using a by (subst and_rec) simp
    with less.prems(2) have "a AND (a - 1) = 0" by simp
    with less.IH [of a] a obtain k where "a = 2 ^ k" by auto
    with a have "v = 2 ^ Suc k" by simp
    then show ?thesis by blast
  next
    case False
    then obtain a where a: "v = 2 * a + 1" by (auto elim!: oddE)
    have "v AND (v - 1) = 2 * a"
      using a by (subst and_rec) simp
    with less.prems(2) a have "v = 2 ^ 0" by simp
    then show ?thesis by blast
  qed
qed

lemma is_power_of_two_iff:
  assumes "v < 2 ^ 64"
  shows "is_power_of_two v \<longleftrightarrow> (\<exists>k < 64. v = 2 ^ k)"
proof
  assume "\<exists>k < 64. v = 2 ^ k"
  then obtain k where k: "k < 64" "v = 2 ^ k" by blast
  have "(of_nat v :: 64 word) AND (of_nat v - 1) = 2 ^ k AND mask k"
    using k power_two_word_minus_one [OF k(1)] by simp
  also have "\<dots> = 0"
    by (rule bit_eqI) (auto simp: bit_simps)
  finally show "is_power_of_two v"
    using k assms by (simp add: is_power_of_two_def word_eq_iff_unsigned)
next
  assume p: "is_power_of_two v"
  have v: "0 < v" using p by (cases v) (simp_all add: is_power_of_two_def)
  have "unat ((of_nat v :: 64 word) AND (of_nat v - 1)) = v AND (v - 1)"
  proof -
    have "(of_nat v :: 64 word) - 1 = of_nat (v - 1)"
      using v by (subst of_nat_diff) simp_all
    then show ?thesis
      using assms by (simp only: unsigned_and_eq unat_of_nat_64 less_imp_diff_less)
  qed
  with p have "v AND (v - 1) = 0" by (simp add: is_power_of_two_def)
  with v obtain k where k: "v = 2 ^ k" using nat_and_pred_eq_0 by blast
  with assms have "k < 64" by (simp only: power_strict_increasing_iff)
  with k show "\<exists>k < 64. v = 2 ^ k" by blast
qed

lemma align_up_device:
  "v + kDeviceBlock \<le> 2 ^ 64 \<Longrightarrow>
     align_up v kDeviceBlock = (v + kDeviceBlock - 1) div kDeviceBlock * kDeviceBlock"
  using align_up_eq [of 12 v] by (simp only: kDeviceBlock_power)

lemma is_aligned_device:
  "v < 2 ^ 64 \<Longrightarrow> is_aligned v kDeviceBlock \<longleftrightarrow> kDeviceBlock dvd v"
  using is_aligned_iff_dvd [of 12 v] by (simp only: kDeviceBlock_power)

lemma align_up_bounds:
  assumes "v + kDeviceBlock \<le> 2 ^ 64"
  shows "v \<le> align_up v kDeviceBlock" and "align_up v kDeviceBlock < v + kDeviceBlock"
    and "kDeviceBlock dvd align_up v kDeviceBlock"
  unfolding align_up_device [OF assms]
  using div_mult_mod_eq [of "v + kDeviceBlock - 1" kDeviceBlock]
    mod_less_divisor [of kDeviceBlock "v + kDeviceBlock - 1"]
  by (simp_all add: kDeviceBlock_power)

lemma align_up_aligned:
  assumes "v + kDeviceBlock \<le> 2 ^ 64" and "kDeviceBlock dvd v"
  shows "align_up v kDeviceBlock = v"
proof -
  obtain q where "v = kDeviceBlock * q" using assms(2) by blast
  then show ?thesis
    unfolding align_up_device [OF assms(1)] by (simp add: kDeviceBlock_power)
qed

section \<open>What a validated configuration guarantees\<close>

text \<open>The size fields as the C++ types bound them.\<close>

definition sizes_in_range :: "server_config \<Rightarrow> bool" where
  "sizes_in_range c \<longleftrightarrow>
     total_bytes (memory c) < 2 ^ 64 \<and> block_bytes (memory c) < 2 ^ 64 \<and>
     ram_head (tiers c) < 2 ^ 64 \<and> ssd_prefix (tiers c) < 2 ^ 64 \<and>
     io_chunk_bytes c < 2 ^ 64 \<and> stripe_unit (ssd c) < 2 ^ 64 \<and> stripe_unit (hdd c) < 2 ^ 64"

lemma power_of_two_ge_device:
  assumes "v < 2 ^ 64" and "is_power_of_two v" and "\<not> v < kDeviceBlock"
  shows "\<exists>k. 12 \<le> k \<and> k < 64 \<and> v = 2 ^ k"
proof -
  obtain k where k: "k < 64" "v = 2 ^ k"
    using assms is_power_of_two_iff by blast
  with assms(3) have "12 \<le> k"
    by (simp only: kDeviceBlock_power not_less power_increasing_iff)
  with k show ?thesis by blast
qed

text \<open>
  A configuration that passes \<open>validate\<close> gives the storage engine everything it
  relies on: power-of-two RAM blocks and streaming chunks of at least a device block, at least
  one whole RAM block, device-block-aligned tier sizes with \<open>ram_head \<le> ssd_prefix \<le> 1 GiB\<close>
  and a head that fits one RAM block, at least one SSD directory, and stripe units that are
  positive multiples of the device block, the HDD one no larger than the SSD middle.
\<close>

lemma validate_sound:
  assumes "sizes_in_range c" and "validate c = Inr ()"
  shows "(\<exists>k. 12 \<le> k \<and> k < 64 \<and> block_bytes (memory c) = 2 ^ k) \<and>
    (\<exists>k. 12 \<le> k \<and> k < 64 \<and> io_chunk_bytes c = 2 ^ k) \<and>
    block_bytes (memory c) \<le> total_bytes (memory c) \<and>
    ram_head (tiers c) \<le> ssd_prefix (tiers c) \<and> ssd_prefix (tiers c) \<le> kMaxObjectSize \<and>
    ram_head (tiers c) \<le> block_bytes (memory c) \<and>
    kDeviceBlock dvd ram_head (tiers c) \<and> kDeviceBlock dvd ssd_prefix (tiers c) \<and>
    0 < io_buffers c \<and> dirs (ssd c) \<noteq> [] \<and>
    0 < stripe_unit (ssd c) \<and> kDeviceBlock dvd stripe_unit (ssd c) \<and>
    (cfg_three_layer c \<longrightarrow>
       0 < stripe_unit (hdd c) \<and> kDeviceBlock dvd stripe_unit (hdd c) \<and>
       ram_head (tiers c) + stripe_unit (hdd c) \<le> ssd_prefix (tiers c))"
proof -
  note r = assms(1) [unfolded sizes_in_range_def]
  note v = assms(2) [unfolded validate_def Let_def]
  have b: "is_power_of_two (block_bytes (memory c))" "\<not> block_bytes (memory c) < kDeviceBlock"
    using v by (simp_all split: if_split_asm)
  have i: "is_power_of_two (io_chunk_bytes c)" "\<not> io_chunk_bytes c < kDeviceBlock"
    using v by (simp_all split: if_split_asm)
  from v r show ?thesis
    using power_of_two_ge_device [OF _ b] power_of_two_ge_device [OF _ i]
    by (simp add: is_aligned_device not_less le_diff_conv2 add.commute split: if_split_asm)
qed

end
