(* ===== verification/Layout.thy ===== *)
theory Layout
  imports Common
begin

text \<open>
  Positional tiering (\<^verbatim>\<open>storage/layout.hpp\<close>, \<^verbatim>\<open>storage/layout.cpp\<close>): how an object's bytes split
  over the RAM head, the SSD prefix and the HDD tail, and which disk tier backs an offset.
\<close>

datatype tier = tier_ram | tier_ssd | tier_hdd

record object_layout =
  ol_size :: nat
  ol_ram_head_bytes :: nat
  ol_ssd_bytes :: nat
  ol_hdd_bytes :: nat

definition compute_layout :: "nat \<Rightarrow> tier_sizes \<Rightarrow> bool \<Rightarrow> object_layout" where
  "compute_layout sz t three_layer =
     (let head = min sz (ram_head t) in
      if sz \<le> ram_head t then
        \<lparr>ol_size = sz, ol_ram_head_bytes = head, ol_ssd_bytes = 0, ol_hdd_bytes = 0\<rparr>
      else if \<not> three_layer then
        \<lparr>ol_size = sz, ol_ram_head_bytes = head, ol_ssd_bytes = sz, ol_hdd_bytes = 0\<rparr>
      else if sz \<le> ssd_prefix t then
        \<lparr>ol_size = sz, ol_ram_head_bytes = head, ol_ssd_bytes = sz, ol_hdd_bytes = 0\<rparr>
      else
        \<lparr>ol_size = sz, ol_ram_head_bytes = head, ol_ssd_bytes = ssd_prefix t,
         ol_hdd_bytes = sz - ssd_prefix t\<rparr>)"

record placement =
  pm_tier :: tier
  pm_local :: nat

definition place :: "nat \<Rightarrow> object_layout \<Rightarrow> placement" where
  "place off l =
     (if off < ol_ssd_bytes l then \<lparr>pm_tier = tier_ssd, pm_local = off\<rparr>
      else \<lparr>pm_tier = tier_hdd, pm_local = off - ol_ssd_bytes l\<rparr>)"

text \<open>The tiers are ordered by their place in an object: RAM before SSD before HDD.\<close>

fun tier_rank :: "tier \<Rightarrow> nat" where
  "tier_rank tier_ram = 0"
| "tier_rank tier_ssd = 1"
| "tier_rank tier_hdd = 2"

instantiation tier :: linorder
begin

definition less_eq_tier :: "tier \<Rightarrow> tier \<Rightarrow> bool" where
  "less_eq_tier a b \<longleftrightarrow> tier_rank a \<le> tier_rank b"

definition less_tier :: "tier \<Rightarrow> tier \<Rightarrow> bool" where
  "less_tier a b \<longleftrightarrow> tier_rank a < tier_rank b"

instance
proof
  fix x y :: tier
  show "x \<le> y \<Longrightarrow> y \<le> x \<Longrightarrow> x = y"
    by (cases x; cases y) (simp_all add: less_eq_tier_def)
qed (auto simp: less_eq_tier_def less_tier_def)

end

lemmas layout_defs = compute_layout_def place_def Let_def

lemma layout_size [simp]: "ol_size (compute_layout sz t three) = sz"
  by (simp add: layout_defs)

lemma layout_head [simp]: "ol_ram_head_bytes (compute_layout sz t three) = min sz (ram_head t)"
  by (simp add: layout_defs)

lemma layout_small:
  "sz \<le> ram_head t \<Longrightarrow>
     ol_ssd_bytes (compute_layout sz t three) = 0 \<and> ol_hdd_bytes (compute_layout sz t three) = 0"
  by (simp add: layout_defs)

lemma layout_sum:
  "ram_head t < sz \<Longrightarrow>
     ol_ssd_bytes (compute_layout sz t three) + ol_hdd_bytes (compute_layout sz t three) = sz"
  by (simp add: layout_defs)

lemma layout_two_layer [simp]: "ol_hdd_bytes (compute_layout sz t False) = 0"
  by (simp add: layout_defs)

lemma layout_hdd_aligned:
  assumes "ram_head t \<le> ssd_prefix t" and "0 < ol_hdd_bytes (compute_layout sz t three)"
  shows "three" and "ol_ssd_bytes (compute_layout sz t three) = ssd_prefix t"
    and "ram_head t < sz"
  using assms by (auto simp: layout_defs split: if_splits)

text \<open>
  Property C27. The layout of an object loses and duplicates no byte: an object no larger than
  the RAM head lives there alone; a larger one is cut at \<open>ssd_bytes\<close> into an SSD part, which
  includes the cached head, and an HDD part, and \<open>place\<close> maps its offsets one to one onto
  the two parts, in order. The HDD part is non-empty only in three-layer mode and then
  starts at the device-aligned SSD prefix.
\<close>

theorem layout_partition:
  fixes sz t three
  assumes "ram_head t \<le> ssd_prefix t"
  defines "l \<equiv> compute_layout sz t three"
  shows "(sz \<le> ram_head t \<longrightarrow> ol_ram_head_bytes l = sz \<and> ol_ssd_bytes l = 0 \<and> ol_hdd_bytes l = 0) \<and>
    (ram_head t < sz \<longrightarrow>
       ol_ram_head_bytes l = ram_head t \<and> ram_head t \<le> ol_ssd_bytes l \<and>
       ol_ssd_bytes l + ol_hdd_bytes l = sz \<and>
       (0 < ol_hdd_bytes l \<longrightarrow> three \<and> ol_ssd_bytes l = ssd_prefix t) \<and>
       bij_betw (\<lambda>off. (pm_tier (place off l), pm_local (place off l))) {..<sz}
         ({tier_ssd} \<times> {..<ol_ssd_bytes l} \<union> {tier_hdd} \<times> {..<ol_hdd_bytes l}) \<and>
       (\<forall>i j. i \<le> j \<longrightarrow> pm_tier (place i l) \<le> pm_tier (place j l)))"
proof -
  have "bij_betw (\<lambda>off. (pm_tier (place off l), pm_local (place off l))) {..<sz}
      ({tier_ssd} \<times> {..<ol_ssd_bytes l} \<union> {tier_hdd} \<times> {..<ol_hdd_bytes l})"
    if big: "ram_head t < sz"
  proof -
    have sum: "ol_ssd_bytes l + ol_hdd_bytes l = sz" using layout_sum [OF big] by (simp add: l_def)
    show ?thesis
      by (rule bij_betw_byWitness [where f' = "\<lambda>(tr, x). if tr = tier_ssd then x else x + ol_ssd_bytes l"])
        (use sum in \<open>auto simp: place_def split: if_splits\<close>)
  qed
  moreover have "\<forall>i j. i \<le> j \<longrightarrow> pm_tier (place i l) \<le> pm_tier (place j l)"
    by (auto simp: place_def less_eq_tier_def)
  moreover have "ram_head t < sz \<longrightarrow> ram_head t \<le> ol_ssd_bytes l"
    using assms by (auto simp: l_def layout_defs)
  ultimately show ?thesis
    using layout_small [of sz t three] layout_sum [of t sz three]
      layout_hdd_aligned [OF assms(1), of sz three] by (auto simp: l_def)
qed

theorem layout_partition_witness:
  "ram_head default_tiers \<le> ssd_prefix default_tiers \<and>
   ol_hdd_bytes (compute_layout (40 * MiB) default_tiers True) = 8 * MiB \<and>
   ol_ssd_bytes (compute_layout (40 * MiB) default_tiers True) + 8 * MiB = 40 * MiB"
proof -
  have h: "ram_head default_tiers \<le> ssd_prefix default_tiers"
    by (simp add: default_tiers_def size_defs)
  have b: "ram_head default_tiers < 40 * MiB" by (simp add: default_tiers_def size_defs)
  have e: "ol_hdd_bytes (compute_layout (40 * MiB) default_tiers True) = 8 * MiB"
    by (simp add: layout_defs default_tiers_def size_defs)
  have "ol_ssd_bytes (compute_layout (40 * MiB) default_tiers True) +
      ol_hdd_bytes (compute_layout (40 * MiB) default_tiers True) = 40 * MiB"
    using layout_partition [OF h, of "40 * MiB" True] b by blast
  with h e show ?thesis by simp
qed

end
