(* ===== verification/Drive_Pool.thy ===== *)
theory Drive_Pool
  imports Layout
begin

text \<open>
  RAID-0 striping (\<^verbatim>\<open>storage/drive_pool.hpp\<close>, \<^verbatim>\<open>storage/drive_pool.cpp\<close>). A tier-local offset
  lies in chunk \<open>off div S\<close>; consecutive chunks go to consecutive drives, starting at a drive
  the object's hash picks. The sum \<^verbatim>\<open>key_hash + c\<close> is 64-bit and wraps.
\<close>

record drive_pool =
  dp_n :: nat
  dp_s :: nat

record read_segment =
  rs_drive :: nat
  rs_file_offset :: nat
  rs_length :: nat

definition dp_row_bytes :: "drive_pool \<Rightarrow> nat" where
  "dp_row_bytes p = u64 (dp_s p * dp_n p)"

definition drive_of :: "drive_pool \<Rightarrow> nat \<Rightarrow> nat \<Rightarrow> nat" where
  "drive_of p key_hash off =
     (let c = off div dp_s p in u32 (u64 (key_hash + c) mod dp_n p))"

definition file_offset_of :: "drive_pool \<Rightarrow> nat \<Rightarrow> nat" where
  "file_offset_of p off =
     (let c = off div dp_s p; row = c div dp_n p in u64 (row * dp_s p + off mod dp_s p))"

definition files_used :: "drive_pool \<Rightarrow> nat \<Rightarrow> nat" where
  "files_used p tier_bytes =
     (if tier_bytes = 0 then 0
      else let chunks = u64 (tier_bytes + dp_s p - 1) div dp_s p in
           u32 (if chunks < dp_n p then chunks else dp_n p))"

text \<open>
  The segment loop. A zero stripe unit, which the configuration check excludes, would divide
  by zero in the source; the guard on it only makes the recursion total.
\<close>

function plan_loop :: "drive_pool \<Rightarrow> nat \<Rightarrow> nat \<Rightarrow> nat \<Rightarrow> read_segment list" where
  "plan_loop p key_hash cur remaining =
     (if remaining = 0 \<or> dp_s p = 0 then []
      else
        let intra = cur mod dp_s p;
            seg_len = min remaining (dp_s p - intra)
        in \<lparr>rs_drive = drive_of p key_hash cur, rs_file_offset = file_offset_of p cur,
            rs_length = seg_len\<rparr>
           # plan_loop p key_hash (u64 (cur + seg_len)) (remaining - seg_len))"
  by pat_completeness auto
termination
  by (relation "measure (\<lambda>(p, kh, cur, remaining). remaining)") auto

declare plan_loop.simps [simp del]

definition plan_reads :: "drive_pool \<Rightarrow> nat \<Rightarrow> nat \<Rightarrow> nat \<Rightarrow> read_segment list" where
  "plan_reads p key_hash off len = plan_loop p key_hash off len"

section \<open>Where a byte lives\<close>

definition dp_ok :: "drive_pool \<Rightarrow> bool" where
  "dp_ok p \<longleftrightarrow> 0 < dp_n p \<and> dp_n p < 2 ^ 32 \<and> 0 < dp_s p \<and> dp_s p < 2 ^ 64"

definition byte_loc :: "drive_pool \<Rightarrow> nat \<Rightarrow> nat \<Rightarrow> nat \<times> nat" where
  "byte_loc p key_hash off = (drive_of p key_hash off, file_offset_of p off)"

text \<open>
  The chunk sum of an extent does not wrap, or wrapping is harmless because the number of
  drives divides \<open>2^64\<close>.
\<close>

definition no_wrap :: "drive_pool \<Rightarrow> nat \<Rightarrow> nat \<Rightarrow> bool" where
  "no_wrap p key_hash extent \<longleftrightarrow>
     dp_n p dvd 2 ^ 64 \<or> key_hash + extent div dp_s p < 2 ^ 64"

lemma drive_mod_exact: "dp_ok p \<Longrightarrow> u32 (x mod dp_n p) = x mod dp_n p"
  unfolding dp_ok_def by (intro u32_id) (metis mod_less_divisor order_less_trans)

lemma drive_of_less [simp]: "dp_ok p \<Longrightarrow> drive_of p kh off < dp_n p"
  by (simp add: drive_of_def drive_mod_exact) (simp add: dp_ok_def)

lemma drive_of_eq:
  assumes "dp_ok p" and "no_wrap p kh extent" and "off \<le> extent"
  shows "drive_of p kh off = (kh + off div dp_s p) mod dp_n p"
proof -
  have "u64 (kh + off div dp_s p) mod dp_n p = (kh + off div dp_s p) mod dp_n p"
  proof (cases "dp_n p dvd 2 ^ 64")
    case True
    then show ?thesis by (simp only: u64_def mod_mod_cancel)
  next
    case False
    with assms(2) have "kh + extent div dp_s p < 2 ^ 64" by (simp add: no_wrap_def)
    moreover have "off div dp_s p \<le> extent div dp_s p" using assms(3) by (rule div_le_mono)
    ultimately show ?thesis by (simp add: u64_id)
  qed
  then show ?thesis by (simp add: drive_of_def drive_mod_exact assms(1))
qed

lemma file_offset_le: "off div dp_s p div dp_n p * dp_s p + off mod dp_s p \<le> off"
proof -
  have "off div dp_s p div dp_n p * dp_s p \<le> off div dp_s p * dp_s p"
    by (intro mult_le_mono1) simp
  then show ?thesis using div_mult_mod_eq [of off "dp_s p"] by linarith
qed

lemma file_offset_eq:
  "off < 2 ^ 64 \<Longrightarrow>
     file_offset_of p off = off div dp_s p div dp_n p * dp_s p + off mod dp_s p"
  using file_offset_le [of off p] by (simp only: file_offset_of_def Let_def u64_id le_less_trans)


text \<open>Two bytes of an extent never share a drive and a file offset.\<close>

lemma byte_loc_inj:
  assumes ok: "dp_ok p" and nw: "no_wrap p kh extent" and ext: "extent \<le> 2 ^ 64"
  shows "inj_on (byte_loc p kh) {..<extent}"
proof (rule inj_onI)
  fix x y
  assume x: "x \<in> {..<extent}" and y: "y \<in> {..<extent}" and eq: "byte_loc p kh x = byte_loc p kh y"
  let ?s = "dp_s p" and ?n = "dp_n p"
  have s: "0 < ?s" using ok by (simp add: dp_ok_def)
  have "x div ?s div ?n * ?s + x mod ?s = y div ?s div ?n * ?s + y mod ?s"
    using eq x y ext by (simp add: byte_loc_def file_offset_eq)
  then have row: "x div ?s div ?n = y div ?s div ?n" and intra: "x mod ?s = y mod ?s"
    using s by (metis div_mult_self3 div_less mod_less_divisor add_0_right neq0_conv)
      (metis \<open>x div ?s div ?n * ?s + x mod ?s = y div ?s div ?n * ?s + y mod ?s\<close> mod_mult_self3 mod_mod_trivial)
  have "(kh + x div ?s) mod ?n = (kh + y div ?s) mod ?n"
    using eq x y drive_of_eq [OF ok nw] by (simp add: byte_loc_def)
  then have "x div ?s mod ?n = y div ?s mod ?n" by (rule nat_mod_add_cancel)
  with row have "x div ?s = y div ?s" by (metis div_mult_mod_eq)
  with intra show "x = y" by (metis div_mult_mod_eq)
qed

lemma byte_loc_in_chunk:
  assumes "dp_ok p" and "j < dp_s p - cur mod dp_s p" and "cur + j < 2 ^ 64"
  shows "byte_loc p kh (cur + j) = (drive_of p kh cur, file_offset_of p cur + j)"
proof -
  note in_chunk = div_mod_within [of cur "dp_s p" j]
  show ?thesis
    using assms(2,3) by (simp add: byte_loc_def drive_of_def file_offset_eq in_chunk)
qed

definition seg_bytes :: "read_segment \<Rightarrow> (nat \<times> nat) list" where
  "seg_bytes s = map (\<lambda>j. (rs_drive s, rs_file_offset s + j)) [0..<rs_length s]"

lemma plan_loop_bytes:
  "dp_ok p \<Longrightarrow> cur + remaining < 2 ^ 64 \<Longrightarrow>
     concat (map seg_bytes (plan_loop p kh cur remaining)) =
       map (\<lambda>i. byte_loc p kh (cur + i)) [0..<remaining]"
proof (induction p kh cur remaining rule: plan_loop.induct)
  case (1 p kh cur remaining)
  show ?case
  proof (cases "remaining = 0 \<or> dp_s p = 0")
    case True
    with "1.prems"(1) show ?thesis by (auto simp: plan_loop.simps dp_ok_def)
  next
    case False
    define l where "l = min remaining (dp_s p - cur mod dp_s p)"
    have l: "l \<le> remaining" "l \<le> dp_s p - cur mod dp_s p" by (simp_all add: l_def)
    have u: "u64 (cur + l) = cur + l" using l(1) "1.prems"(2) by (simp add: u64_id)
    have ih: "concat (map seg_bytes (plan_loop p kh (cur + l) (remaining - l))) =
        map (\<lambda>i. byte_loc p kh (cur + l + i)) [0..<remaining - l]"
      using "1.IH" [OF False refl refl] "1.prems" l(1) u by (simp add: l_def [symmetric])
    have head: "seg_bytes \<lparr>rs_drive = drive_of p kh cur, rs_file_offset = file_offset_of p cur,
        rs_length = l\<rparr> = map (\<lambda>i. byte_loc p kh (cur + i)) [0..<l]"
      using l "1.prems" by (auto simp: seg_bytes_def intro!: byte_loc_in_chunk [symmetric])
    have "[0..<remaining] = [0..<l] @ map ((+) l) [0..<remaining - l]"
      by (rule upt_split [OF l(1)])
    then show ?thesis
      using False head ih u
      by (simp add: plan_loop.simps [of p kh cur remaining] l_def [symmetric] Let_def comp_def add.assoc)
  qed
qed

lemma plan_loop_segs:
  "dp_ok p \<Longrightarrow> sg \<in> set (plan_loop p kh cur remaining) \<Longrightarrow>
     rs_drive sg < dp_n p \<and> 0 < rs_length sg \<and> rs_length sg \<le> dp_s p"
proof (induction p kh cur remaining rule: plan_loop.induct)
  case (1 p kh cur remaining)
  then show ?case
    by (subst (asm) (2) plan_loop.simps) (auto simp: Let_def dp_ok_def split: if_splits)
qed

lemma sum_seg_lengths: "sum_list (map rs_length segs) = length (concat (map seg_bytes segs))"
  by (induction segs) (simp_all add: seg_bytes_def)

text \<open>The chunks whose drives are opened: those that start in the extent, one row at most.\<close>

lemma files_used_iff:
  assumes "dp_ok p" and "extent + dp_s p < 2 ^ 64"
  shows "c < files_used p extent \<longleftrightarrow> c * dp_s p < extent \<and> c < dp_n p"
proof (cases "extent = 0")
  case False
  let ?ch = "(extent + dp_s p - 1) div dp_s p"
  have s: "0 < dp_s p" and n: "dp_n p < 2 ^ 32" using assms(1) by (auto simp: dp_ok_def)
  have "u64 (extent + dp_s p - 1) = extent + dp_s p - 1" using assms(2) by (intro u64_id) linarith
  moreover have "(if ?ch < dp_n p then ?ch else dp_n p) < 2 ^ 32" using n by auto
  ultimately have "files_used p extent = min ?ch (dp_n p)"
    using False by (auto simp: files_used_def Let_def u32_id min_def)
  then show ?thesis using ceil_div_less_iff [OF s] by (metis min_less_iff_conj)
qed (simp add: files_used_def)

section \<open>Properties\<close>

text \<open>
  \<open>plan_reads\<close> covers exactly the requested range, in logical order: laid end to
  end, the segments name for each offset of the range its drive and its offset in that
  drive's file; every segment is non-empty, stays in one chunk, and names an existing drive.
\<close>

lemma plan_reads_covers:
  assumes "dp_ok p" and "off + len < 2 ^ 64"
  shows "concat (map seg_bytes (plan_reads p kh off len)) =
      map (\<lambda>i. (drive_of p kh (off + i), file_offset_of p (off + i))) [0..<len] \<and>
    sum_list (map rs_length (plan_reads p kh off len)) = len \<and>
    (\<forall>sg \<in> set (plan_reads p kh off len).
       rs_drive sg < dp_n p \<and> 0 < rs_length sg \<and> rs_length sg \<le> dp_s p)"
  unfolding plan_reads_def sum_seg_lengths plan_loop_bytes [OF assms]
  using plan_loop_segs [OF assms(1)] by (simp add: byte_loc_def)

text \<open>
  Property C26. Striping stores every byte of an extent in a place of its own, and the drives
  whose files are opened (those of the first \<open>files_used\<close> chunks, pairwise different) are
  exactly the drives that hold bytes of the extent. The 64-bit sum of hash and chunk index
  must not wrap, unless the number of drives is a power of two.
\<close>

theorem striping_injective:
  assumes "dp_ok p" and "no_wrap p kh extent" and "extent + dp_s p < 2 ^ 64"
  shows "inj_on (\<lambda>off. (drive_of p kh off, file_offset_of p off)) {..<extent} \<and>
    drive_of p kh ` {..<extent} = (\<lambda>c. drive_of p kh (c * dp_s p)) ` {..<files_used p extent} \<and>
    inj_on (\<lambda>c. drive_of p kh (c * dp_s p)) {..<files_used p extent}"
proof (intro conjI)
  let ?s = "dp_s p" and ?n = "dp_n p" and ?f = "files_used p extent"
  have s: "0 < ?s" and n: "0 < ?n" "?n < 2 ^ 32" using assms(1) by (auto simp: dp_ok_def)
  show "inj_on (\<lambda>off. (drive_of p kh off, file_offset_of p off)) {..<extent}"
    using byte_loc_inj [OF assms(1,2)] assms(3) by (simp add: byte_loc_def [abs_def])
  note drive = drive_of_eq [OF assms(1,2)]
  have f: "c < ?f \<longleftrightarrow> c * ?s < extent \<and> c < ?n" for c
    by (rule files_used_iff [OF assms(1,3)])
  have first: "drive_of p kh (c * ?s) = (kh + c) mod ?n" if "c < ?f" for c
    using that s by (simp add: f drive)
  show "drive_of p kh ` {..<extent} = (\<lambda>c. drive_of p kh (c * ?s)) ` {..<?f}"
  proof (intro equalityI subsetI)
    fix d
    assume "d \<in> drive_of p kh ` {..<extent}"
    then obtain off where off: "off < extent" "d = (kh + off div ?s) mod ?n" by (auto simp: drive)
    let ?c = "off div ?s mod ?n"
    have "?c * ?s \<le> off div ?s * ?s" by (intro mult_le_mono1) simp
    also have "\<dots> \<le> off" by simp
    finally have "?c < ?f" using off(1) n by (simp add: f)
    moreover have "d = drive_of p kh (?c * ?s)"
      using first [OF \<open>?c < ?f\<close>] off(2) by (simp add: mod_add_right_eq)
    ultimately show "d \<in> (\<lambda>c. drive_of p kh (c * ?s)) ` {..<?f}" by blast
  qed (auto simp: f)
  show "inj_on (\<lambda>c. drive_of p kh (c * ?s)) {..<?f}"
  proof (rule inj_onI)
    fix c c'
    assume c: "c \<in> {..<?f}" "c' \<in> {..<?f}" and "drive_of p kh (c * ?s) = drive_of p kh (c' * ?s)"
    then have "(kh + c) mod ?n = (kh + c') mod ?n" by (simp add: first)
    then have "c mod ?n = c' mod ?n" by (rule nat_mod_add_cancel)
    with c show "c = c'" by (simp add: f)
  qed
qed

theorem striping_injective_witness:
  "dp_ok \<lparr>dp_n = 3, dp_s = 4096\<rparr> \<and> no_wrap \<lparr>dp_n = 3, dp_s = 4096\<rparr> 77 100000 \<and>
   inj_on (\<lambda>off. (drive_of \<lparr>dp_n = 3, dp_s = 4096\<rparr> 77 off, file_offset_of \<lparr>dp_n = 3, dp_s = 4096\<rparr> off))
     {..<100000}"
proof -
  have "dp_ok \<lparr>dp_n = 3, dp_s = 4096\<rparr>" "no_wrap \<lparr>dp_n = 3, dp_s = 4096\<rparr> 77 100000"
    by (simp_all add: dp_ok_def no_wrap_def)
  moreover from this have "inj_on (\<lambda>off. (drive_of \<lparr>dp_n = 3, dp_s = 4096\<rparr> 77 off,
      file_offset_of \<lparr>dp_n = 3, dp_s = 4096\<rparr> off)) {..<100000}"
    by (rule striping_injective [THEN conjunct1]) simp
  ultimately show ?thesis by blast
qed


end
