(* ===== verification/Striped_Io.thy ===== *)
theory Striped_Io
  imports Drive_Pool
begin

text \<open>
  Scatter and gather over a drive pool (\<^verbatim>\<open>storage/striped_io.cpp\<close>). An object's open files are
  a list with one entry per drive: \<open>Some ino\<close> for an open descriptor of inode \<open>ino\<close>, \<open>None\<close>
  for \<^verbatim>\<open>-1\<close>. The store maps inodes to contents. What the kernel answers is a parameter:
  \<open>pw ino off n\<close> is the result of a \<^verbatim>\<open>pwrite\<close> of \<open>n\<close> bytes (negative on error, possibly less
  than \<open>n\<close>), \<open>rd ino off n\<close> the result of a completed read, and \<open>sq i\<close> tells whether the
  \<open>i\<close>-th read found room in the submission queue, if need be after a flush.
\<close>

type_synonym store = "nat \<Rightarrow> bytes"
type_synonym fd_list = "nat option list"

section \<open>Writing\<close>

text \<open>The loop over partial writes of one segment.\<close>

function pwrite_loop ::
  "(nat \<Rightarrow> nat \<Rightarrow> nat \<Rightarrow> int) \<Rightarrow> nat \<Rightarrow> nat \<Rightarrow> bytes \<Rightarrow> store \<Rightarrow> store \<times> unit result" where
  "pwrite_loop pw ino fo src st =
     (if src = [] then (st, Inr ())
      else
        let w = pw ino fo (length src) in
        if w \<le> 0 then (st, err io_error ''pwrite failed'')
        else pwrite_loop pw ino (u64 (fo + nat w)) (drop (nat w) src)
               (st(ino := write_at fo (take (nat w) src) (st ino))))"
  by pat_completeness auto
termination
  by (relation "measure (\<lambda>(pw, ino, fo, src, st). length src)") auto

declare pwrite_loop.simps [simp del]

fun pwrite_segs ::
  "(nat \<Rightarrow> nat \<Rightarrow> nat \<Rightarrow> int) \<Rightarrow> fd_list \<Rightarrow> read_segment list \<Rightarrow> bytes \<Rightarrow> store \<Rightarrow>
     store \<times> unit result" where
  "pwrite_segs pw fds [] data st = (st, Inr ())"
| "pwrite_segs pw fds (s # segs) data st =
     (case fds ! rs_drive s of
        None \<Rightarrow> (st, err io_error ''pwrite failed'')
      | Some ino \<Rightarrow>
          (case pwrite_loop pw ino (rs_file_offset s) (take (rs_length s) data) st of
             (st', Inl e) \<Rightarrow> (st', Inl e)
           | (st', Inr u) \<Rightarrow> pwrite_segs pw fds segs (drop (rs_length s) data) st'))"

definition striped_pwrite ::
  "(nat \<Rightarrow> nat \<Rightarrow> nat \<Rightarrow> int) \<Rightarrow> drive_pool \<Rightarrow> nat \<Rightarrow> fd_list \<Rightarrow> nat \<Rightarrow> bytes \<Rightarrow> store \<Rightarrow>
     store \<times> unit result" where
  "striped_pwrite pw p key_hash fds off data st =
     pwrite_segs pw fds (plan_reads p key_hash off (length data)) data st"

section \<open>Reading\<close>

text \<open>
  Each completed read leaves its bytes in its slice of the output buffer. Completions arrive
  in any order, and neither the sum nor the error depends on it.
\<close>

fun read_segs ::
  "(nat \<Rightarrow> nat \<Rightarrow> nat \<Rightarrow> int) \<Rightarrow> store \<Rightarrow> fd_list \<Rightarrow> read_segment list \<Rightarrow> nat \<Rightarrow> bytes \<Rightarrow>
     (bytes \<times> int list)" where
  "read_segs rd st fds [] dst out = (out, [])"
| "read_segs rd st fds (s # segs) dst out =
     (let r = (case fds ! rs_drive s of None \<Rightarrow> - 1
               | Some ino \<Rightarrow> rd ino (rs_file_offset s) (rs_length s));
          got = (case fds ! rs_drive s of None \<Rightarrow> []
               | Some ino \<Rightarrow> slice (rs_file_offset s) (nat r) (st ino));
          (out', rs) = read_segs rd st fds segs (dst + rs_length s) (write_at dst got out)
      in (out', r # rs))"

definition striped_read ::
  "(nat \<Rightarrow> bool) \<Rightarrow> (nat \<Rightarrow> nat \<Rightarrow> nat \<Rightarrow> int) \<Rightarrow> store \<Rightarrow> drive_pool \<Rightarrow> nat \<Rightarrow> fd_list \<Rightarrow> nat \<Rightarrow> bytes \<Rightarrow>
     (bytes \<times> nat) result" where
  "striped_read sq rd st p key_hash fds off out =
     (let segs = plan_reads p key_hash off (length out) in
      if segs = [] then Inr (out, 0)
      else if \<not> list_all sq [0..<length segs] then err io_error ''submission queue full''
      else
        let (out', rs) = read_segs rd st fds segs 0 out in
        if list_ex (\<lambda>r. r < 0) rs then err io_error ''striped read failed''
        else Inr (out', nat (sum_list rs)))"

section \<open>Bytes at places\<close>

text \<open>
  The abstract side: a memory from places to bytes, written and read along a list of places.
\<close>

definition put_bytes :: "'l list \<Rightarrow> 'b list \<Rightarrow> ('l \<Rightarrow> 'b) \<Rightarrow> 'l \<Rightarrow> 'b" where
  "put_bytes ls bs m = fold (\<lambda>(l, b) m. m(l := b)) (zip ls bs) m"

lemma put_bytes_Nil [simp]: "put_bytes [] bs m = m"
  by (simp add: put_bytes_def)

lemma put_bytes_Cons [simp]: "put_bytes (l # ls) (b # bs) m = put_bytes ls bs (m(l := b))"
  by (simp add: put_bytes_def)

lemma put_bytes_append:
  "put_bytes (xs @ ys) bs m = put_bytes ys (drop (length xs) bs) (put_bytes xs (take (length xs) bs) m)"
proof -
  have "zip (xs @ ys) bs = zip xs (take (length xs) bs) @ zip ys (drop (length xs) bs)"
    by (simp add: zip_append1)
  then show ?thesis by (simp add: put_bytes_def)
qed

lemma put_bytes_other: "l \<notin> set ls \<Longrightarrow> put_bytes ls bs m l = m l"
  unfolding put_bytes_def
proof (induction ls arbitrary: bs m)
  case (Cons x ls)
  then show ?case by (cases bs) auto
qed simp

lemma put_bytes_nth:
  "distinct ls \<Longrightarrow> length bs = length ls \<Longrightarrow> i < length ls \<Longrightarrow> put_bytes ls bs m (ls ! i) = bs ! i"
proof (induction ls arbitrary: bs m i)
  case (Cons x ls)
  then obtain b bs' where bs: "bs = b # bs'" by (cases bs) auto
  with Cons show ?case by (cases i) (auto simp: put_bytes_other)
qed simp

text \<open>
  A placement gives each offset of an extent a place of its own. Whatever is written through
  it is read back, and other offsets keep their bytes.
\<close>

locale placement_map =
  fixes loc :: "'c \<Rightarrow> nat \<Rightarrow> 'l"
    and extent :: "'c \<Rightarrow> nat"
    and good :: "'c \<Rightarrow> bool"
  assumes loc_inj: "good c \<Longrightarrow> inj_on (loc c) {..<extent c}"
begin

lemma locs_distinct:
  "good c \<Longrightarrow> off + n \<le> extent c \<Longrightarrow> distinct (map (\<lambda>i. loc c (off + i)) [0..<n])"
proof -
  assume g: "good c" and n: "off + n \<le> extent c"
  have "inj_on (\<lambda>i. loc c (off + i)) {0..<n}"
  proof (rule inj_onI)
    fix x y
    assume "x \<in> {0..<n}" "y \<in> {0..<n}" and eq: "loc c (off + x) = loc c (off + y)"
    then show "x = y" using inj_onD [OF loc_inj [OF g] eq] n by simp
  qed
  then show ?thesis by (simp add: distinct_map)
qed

lemma put_get:
  assumes "good c" and "off + length bs \<le> extent c" and "x < extent c"
  shows "put_bytes (map (\<lambda>i. loc c (off + i)) [0..<length bs]) bs m (loc c x) =
    (if off \<le> x \<and> x < off + length bs then bs ! (x - off) else m (loc c x))"
proof (cases "off \<le> x \<and> x < off + length bs")
  case True
  then obtain j where j: "x = off + j" "j < length bs" by (metis le_Suc_ex nat_add_left_cancel_less)
  then show ?thesis
    using put_bytes_nth [OF locs_distinct [OF assms(1,2)], of bs j m] by simp
next
  case False
  have "loc c x \<notin> set (map (\<lambda>i. loc c (off + i)) [0..<length bs])"
  proof
    assume "loc c x \<in> set (map (\<lambda>i. loc c (off + i)) [0..<length bs])"
    then obtain i where i: "i < length bs" "loc c x = loc c (off + i)" by auto
    then have "x = off + i"
      using inj_onD [OF loc_inj [OF assms(1)] i(2)] assms(2,3) by simp
    with False i(1) show False by simp
  qed
  with False show ?thesis by (auto simp: put_bytes_other)
qed

lemma get_put:
  assumes "good c" and "off + length bs \<le> extent c"
  shows "map (\<lambda>i. put_bytes (map (\<lambda>i. loc c (off + i)) [0..<length bs]) bs m (loc c (off + i)))
    [0..<length bs] = bs"
  by (rule nth_equalityI) (use assms in \<open>auto simp: put_get\<close>)

end

interpretation stripes: placement_map "\<lambda>(p, kh, n). byte_loc p kh" "\<lambda>(p, kh, n). n"
  "\<lambda>(p, kh, n). dp_ok p \<and> no_wrap p kh n \<and> n \<le> 2 ^ 64"
  by unfold_locales (auto intro: byte_loc_inj)

section \<open>The pool as one array of bytes\<close>

definition disk :: "fd_list \<Rightarrow> store \<Rightarrow> nat \<times> nat \<Rightarrow> byte" where
  "disk fds st l =
     (if fst l < length fds
      then (case fds ! fst l of None \<Rightarrow> 0 | Some ino \<Rightarrow> byte_at (st ino) (snd l)) else 0)"

text \<open>One descriptor per drive, and no inode behind two of them.\<close>

definition fds_ok :: "drive_pool \<Rightarrow> fd_list \<Rightarrow> bool" where
  "fds_ok p fds \<longleftrightarrow> length fds = dp_n p \<and>
     (\<forall>d < length fds. \<forall>e < length fds. fds ! d \<noteq> None \<and> fds ! d = fds ! e \<longrightarrow> d = e)"

lemma pwrite_loop_frame:
  "pwrite_loop pw ino fo src st = (st', res) \<Longrightarrow> j \<noteq> ino \<Longrightarrow> st' j = st j"
proof (induction pw ino fo src st rule: pwrite_loop.induct)
  case (1 pw ino fo src st)
  then show ?case
    by (subst (asm) (2) pwrite_loop.simps) (auto simp: Let_def fun_upd_def split: if_splits)
qed

lemma pwrite_loop_ok:
  "pwrite_loop pw ino fo src st = (st', Inr u) \<Longrightarrow> fo + length src < 2 ^ 64 \<Longrightarrow>
     (\<forall>i. byte_at (st' ino) i =
       (if fo \<le> i \<and> i < fo + length src then src ! (i - fo) else byte_at (st ino) i)) \<and>
     length (st ino) \<le> length (st' ino) \<and> (src \<noteq> [] \<longrightarrow> fo + length src \<le> length (st' ino))"
proof (induction pw ino fo src st rule: pwrite_loop.induct)
  case (1 pw ino fo src st)
  show ?case
  proof (cases "src = []")
    case True
    with "1.prems" show ?thesis by (auto simp: pwrite_loop.simps)
  next
    case False
    define w where "w = nat (pw ino fo (length src))"
    let ?d = "take w src" and ?st = "st(ino := write_at fo (take w src) (st ino))"
    have pos: "\<not> pw ino fo (length src) \<le> 0" "0 < w"
      using "1.prems"(1) False by (auto simp: pwrite_loop.simps [of pw ino fo src] w_def Let_def split: if_splits)
    have run: "pwrite_loop pw ino (u64 (fo + w)) (drop w src) ?st = (st', Inr u)"
      using "1.prems"(1) False pos(1) by (simp add: pwrite_loop.simps [of pw ino fo src] w_def Let_def)
    show ?thesis
    proof (cases "w < length src")
      case True
      have u: "u64 (fo + w) = fo + w" using True "1.prems"(2) by (simp add: u64_id)
      have "(\<forall>i. byte_at (st' ino) i =
          (if fo + w \<le> i \<and> i < fo + w + length (drop w src) then drop w src ! (i - (fo + w))
           else byte_at (?st ino) i)) \<and>
        length (?st ino) \<le> length (st' ino) \<and>
        (drop w src \<noteq> [] \<longrightarrow> fo + w + length (drop w src) \<le> length (st' ino))"
        using True "1.prems"(2) by (intro "1.IH" [OF False refl pos(1), folded w_def, unfolded u, OF run [unfolded u]]) simp
      with True show ?thesis
        by (auto simp: byte_at_write_at length_write_at nth_append not_less)
    next
      case False
      then have "drop w src = []" "?d = src" by simp_all
      then have "st' = ?st" using run by (simp add: pwrite_loop.simps)
      with \<open>?d = src\<close> show ?thesis
        by (simp add: byte_at_write_at length_write_at)
    qed
  qed
qed

lemma seg_bytes_put:
  assumes "length bs = rs_length s"
  shows "put_bytes (seg_bytes s) bs m (d, x) =
    (if d = rs_drive s \<and> rs_file_offset s \<le> x \<and> x < rs_file_offset s + rs_length s
     then bs ! (x - rs_file_offset s) else m (d, x))"
proof (cases "d = rs_drive s \<and> rs_file_offset s \<le> x \<and> x < rs_file_offset s + rs_length s")
  case True
  then obtain j where j: "x = rs_file_offset s + j" "j < rs_length s"
    by (metis le_Suc_ex nat_add_left_cancel_less)
  have "distinct (seg_bytes s)" by (simp add: seg_bytes_def distinct_map inj_on_def)
  from put_bytes_nth [OF this, of bs j m] assms j True show ?thesis
    by (simp add: seg_bytes_def)
next
  case False
  then have "(d, x) \<notin> set (seg_bytes s)" by (auto simp: seg_bytes_def)
  with False show ?thesis by (auto simp: put_bytes_other)
qed

lemma pwrite_seg_disk:
  assumes "pwrite_loop pw ino (rs_file_offset s) bs st = (st', Inr u)"
    and "fds_ok p fds" and "rs_drive s < dp_n p" and "fds ! rs_drive s = Some ino"
    and "length bs = rs_length s" and "rs_file_offset s + rs_length s < 2 ^ 64"
  shows "disk fds st' = put_bytes (seg_bytes s) bs (disk fds st)"
proof
  fix l :: "nat \<times> nat"
  obtain d x where l: "l = (d, x)" by (cases l)
  note w = pwrite_loop_ok [OF assms(1)]
  have other: "fds ! d \<noteq> Some ino" if "d < length fds" "d \<noteq> rs_drive s"
    using assms(2-4) that unfolding fds_ok_def by (metis option.distinct(1))
  show "disk fds st' l = put_bytes (seg_bytes s) bs (disk fds st) l"
  proof (cases "d = rs_drive s")
    case True
    with w assms(2-6) show ?thesis
      by (simp add: l seg_bytes_put disk_def fds_ok_def)
  next
    case False
    with other pwrite_loop_frame [OF assms(1)] show ?thesis
      by (auto simp: l seg_bytes_put [OF assms(5)] disk_def split: option.splits)
  qed
qed

text \<open>What a successful write of a list of segments does to the array and to file lengths.\<close>

definition segs_ok :: "drive_pool \<Rightarrow> read_segment list \<Rightarrow> bool" where
  "segs_ok p segs \<longleftrightarrow> (\<forall>s \<in> set segs.
     rs_drive s < dp_n p \<and> 0 < rs_length s \<and> rs_file_offset s + rs_length s < 2 ^ 64)"

lemma pwrite_segs_frame:
  "pwrite_segs pw fds segs data st = (st', res) \<Longrightarrow> segs_ok p segs \<Longrightarrow> length fds = dp_n p \<Longrightarrow>
     Some j \<notin> set fds \<Longrightarrow> st' j = st j"
proof (induction pw fds segs data st rule: pwrite_segs.induct)
  case (2 pw fds s segs data st)
  have "fds ! rs_drive s \<noteq> Some j" using 2(3-5) by (auto simp: segs_ok_def in_set_conv_nth)
  with 2 show ?case
    by (auto simp: segs_ok_def split: option.splits prod.splits sum.splits
        dest: pwrite_loop_frame [where j = j])
qed simp

lemma pwrite_segs_disk:
  "pwrite_segs pw fds segs data st = (st', Inr u) \<Longrightarrow> fds_ok p fds \<Longrightarrow> segs_ok p segs \<Longrightarrow>
   length data = sum_list (map rs_length segs) \<Longrightarrow>
     disk fds st' = put_bytes (concat (map seg_bytes segs)) data (disk fds st) \<and>
     (\<forall>j. length (st j) \<le> length (st' j)) \<and>
     (\<forall>s \<in> set segs. \<exists>ino. fds ! rs_drive s = Some ino \<and> rs_file_offset s + rs_length s \<le> length (st' ino))"
proof (induction pw fds segs data st rule: pwrite_segs.induct)
  case (2 pw fds s segs data st)
  from "2.prems"(1) obtain ino st1 v where ino: "fds ! rs_drive s = Some ino"
    and st1: "pwrite_loop pw ino (rs_file_offset s) (take (rs_length s) data) st = (st1, Inr v)"
    and rest: "pwrite_segs pw fds segs (drop (rs_length s) data) st1 = (st', Inr u)"
    by (auto split: option.splits prod.splits sum.splits)
  have sok: "rs_drive s < dp_n p" "0 < rs_length s" "rs_file_offset s + rs_length s < 2 ^ 64"
    "segs_ok p segs" using "2.prems"(3) by (auto simp: segs_ok_def)
  have len: "length (take (rs_length s) data) = rs_length s" using "2.prems"(4) by simp
  note d1 = pwrite_seg_disk [OF st1 "2.prems"(2) sok(1) ino len sok(3)]
  note w1 = pwrite_loop_ok [OF st1, unfolded len, OF sok(3)]
  have grow: "length (st j) \<le> length (st1 j)" for j
    using w1 pwrite_loop_frame [OF st1, of j] by (cases "j = ino") auto
  note ih = "2.IH" [OF ino st1 [symmetric] refl rest "2.prems"(2) sok(4)]
  show ?case
    using ih d1 grow w1 ino sok(2) "2.prems"(4) le_trans
    by (auto simp: put_bytes_append seg_bytes_def comp_def) (fastforce intro: le_trans)+
qed simp


lemma plan_segs_ok:
  assumes "dp_ok p" and "off + len < 2 ^ 64"
  shows "segs_ok p (plan_reads p kh off len)"
proof -
  have "rs_file_offset sg + rs_length sg < 2 ^ 64" if sg: "sg \<in> set (plan_reads p kh off len)" for sg
  proof -
    have l: "0 < rs_length sg" using plan_loop_segs [OF assms(1)] sg by (auto simp: plan_reads_def)
    let ?b = "(rs_drive sg, rs_file_offset sg + (rs_length sg - 1))"
    have "?b \<in> set (seg_bytes sg)" using l by (auto simp: seg_bytes_def intro!: image_eqI [of _ _ "rs_length sg - 1"])
    with sg have "?b \<in> set (concat (map seg_bytes (plan_reads p kh off len)))" by auto
    then obtain i where i: "i < len" "?b = byte_loc p kh (off + i)"
      unfolding plan_reads_def plan_loop_bytes [OF assms] by auto
    then have "rs_file_offset sg + (rs_length sg - 1) \<le> off + i"
      using assms(2) file_offset_le [of "off + i" p] by (simp add: byte_loc_def file_offset_eq)
    with i(1) l assms(2) show ?thesis by linarith
  qed
  then show ?thesis
    using plan_loop_segs [OF assms(1)] by (auto simp: segs_ok_def plan_reads_def)
qed

lemma plan_reads_bytes:
  assumes "dp_ok p" and "off + len < 2 ^ 64"
  shows "concat (map seg_bytes (plan_reads p kh off len)) = map (\<lambda>i. byte_loc p kh (off + i)) [0..<len]"
    and "sum_list (map rs_length (plan_reads p kh off len)) = len"
  unfolding sum_seg_lengths plan_reads_def plan_loop_bytes [OF assms] by simp_all

lemma striped_pwrite_put:
  assumes "dp_ok p" and "fds_ok p fds" and "off + length data < 2 ^ 64"
    and "striped_pwrite pw p kh fds off data st = (st', Inr u)"
  shows "disk fds st' = put_bytes (map (\<lambda>i. byte_loc p kh (off + i)) [0..<length data]) data (disk fds st)"
    and "length (st j) \<le> length (st' j)"
    and "sg \<in> set (plan_reads p kh off (length data)) \<Longrightarrow>
      \<exists>ino. fds ! rs_drive sg = Some ino \<and> rs_file_offset sg + rs_length sg \<le> length (st' ino)"
  using pwrite_segs_disk [OF assms(4) [unfolded striped_pwrite_def] assms(2) plan_segs_ok [OF assms(1,3)]]
  by (simp_all add: plan_reads_bytes [OF assms(1,3)])

text \<open>Progress: a kernel that never fails lets every write finish.\<close>

lemma pwrite_loop_total:
  assumes "\<And>fo n. 0 < n \<Longrightarrow> 0 < pw ino fo n"
  shows "\<exists>st'. pwrite_loop pw ino fo src st = (st', Inr ())"
  using assms
proof (induction pw ino fo src st rule: pwrite_loop.induct)
  case (1 pw ino fo src st)
  show ?case
  proof (cases "src = []")
    case True
    then show ?thesis by (simp add: pwrite_loop.simps)
  next
    case False
    then have "\<not> pw ino fo (length src) \<le> 0" using "1.prems" [of "length src" fo] by simp
    with "1.IH" [OF False refl this "1.prems"] False show ?thesis
      by (simp add: pwrite_loop.simps [of pw ino fo src st] Let_def fun_upd_def)
  qed
qed

lemma pwrite_segs_total:
  assumes "\<And>ino fo n. 0 < n \<Longrightarrow> 0 < pw ino fo n" and "\<forall>s \<in> set segs. fds ! rs_drive s \<noteq> None"
  shows "\<exists>st'. pwrite_segs pw fds segs data st = (st', Inr ())"
  using assms(2)
proof (induction segs arbitrary: data st)
  case (Cons s segs)
  then obtain ino where ino: "fds ! rs_drive s = Some ino" by auto
  obtain st1 where "pwrite_loop pw ino (rs_file_offset s) (take (rs_length s) data) st = (st1, Inr ())"
    using pwrite_loop_total [of pw ino] assms(1) by metis
  with Cons ino show ?case by simp
qed simp

text \<open>A read of a regular file delivers what is there, up to the end of the file.\<close>

definition regular_read :: "store \<Rightarrow> nat \<Rightarrow> nat \<Rightarrow> nat \<Rightarrow> int" where
  "regular_read st ino off n = int (min n (length (st ino) - off))"

lemma read_segs_full:
  assumes "\<forall>s \<in> set segs. rs_drive s < length fds \<and> (\<exists>ino. fds ! rs_drive s = Some ino \<and>
      rs_file_offset s + rs_length s \<le> length (st ino))"
    and "length out = dst + sum_list (map rs_length segs)"
  shows "read_segs (regular_read st) st fds segs dst out =
    (take dst out @ map (disk fds st) (concat (map seg_bytes segs)), map (\<lambda>s. int (rs_length s)) segs)"
  using assms
proof (induction segs arbitrary: dst out)
  case (Cons s segs)
  then obtain ino where ino: "rs_drive s < length fds" "fds ! rs_drive s = Some ino"
    "rs_file_offset s + rs_length s \<le> length (st ino)" by auto
  let ?got = "slice (rs_file_offset s) (rs_length s) (st ino)"
  have r: "regular_read st ino (rs_file_offset s) (rs_length s) = int (rs_length s)"
    using ino(3) by (simp add: regular_read_def)
  have got: "?got = map (disk fds st) (seg_bytes s)"
    using ino by (simp add: slice_byte_at seg_bytes_def disk_def comp_def)
  have len: "length ?got = rs_length s" using ino(3) by (simp add: length_slice)
  have "take (dst + rs_length s) (write_at dst ?got out) = take dst out @ ?got"
    using Cons.prems(2) len by (simp add: write_at_def)
  with Cons ino(1,2) r got len show ?case
    by (simp add: length_write_at)
qed simp

section \<open>Properties\<close>

text \<open>
  Property C21. A striped write refines the update of one flat array: when it succeeds, the
  offsets of the extent it covers hold the data, every other offset of the extent keeps its
  byte, and no file outside the object's descriptors is touched, even when it fails.
\<close>

theorem striped_pwrite_refines:
  assumes "dp_ok p" and "fds_ok p fds" and "no_wrap p kh n" and "n < 2 ^ 64"
    and "off + length data \<le> n"
    and "striped_pwrite pw p kh fds off data st = (st', res)"
  shows "(res = Inr () \<longrightarrow> (\<forall>x < n. disk fds st' (drive_of p kh x, file_offset_of p x) =
       (if off \<le> x \<and> x < off + length data then data ! (x - off)
        else disk fds st (drive_of p kh x, file_offset_of p x)))) \<and>
    (\<forall>ino. Some ino \<notin> set fds \<longrightarrow> st' ino = st ino)"
proof -
  have o: "off + length data < 2 ^ 64" using assms(4,5) by simp
  have "length fds = dp_n p" using assms(2) by (simp add: fds_ok_def)
  from pwrite_segs_frame [OF assms(6) [unfolded striped_pwrite_def] plan_segs_ok [OF assms(1) o] this]
  have "\<forall>ino. Some ino \<notin> set fds \<longrightarrow> st' ino = st ino" by blast
  then show ?thesis
    using striped_pwrite_put(1) [OF assms(1,2) o, of pw kh st st'] assms(1,3-6)
      stripes.put_get [of "(p, kh, n)" off data _ "disk fds st"]
    by (auto simp: byte_loc_def)
qed

theorem striped_pwrite_refines_witness:
  "\<exists>st'. striped_pwrite (\<lambda>ino off n. int n) \<lparr>dp_n = 2, dp_s = 4\<rparr> 1 [Some 10, Some 11] 2 [7, 8, 9] (\<lambda>_. []) =
       (st', Inr ()) \<and>
     disk [Some 10, Some 11] st' (drive_of \<lparr>dp_n = 2, dp_s = 4\<rparr> 1 4, file_offset_of \<lparr>dp_n = 2, dp_s = 4\<rparr> 4) = 9"
proof -
  let ?p = "\<lparr>dp_n = 2, dp_s = 4\<rparr>" and ?fds = "[Some 10, Some (11::nat)]"
  have ok: "dp_ok ?p" "fds_ok ?p ?fds" "no_wrap ?p 1 5"
    by (auto simp: dp_ok_def fds_ok_def no_wrap_def less_Suc_eq)
  have "\<forall>s \<in> set (plan_reads ?p 1 2 3). ?fds ! rs_drive s \<noteq> None"
    using plan_segs_ok [OF ok(1), of 2 3 1] by (auto simp: segs_ok_def less_2_cases_iff)
  then obtain st' where e: "striped_pwrite (\<lambda>ino off n. int n) ?p 1 ?fds 2 [7, 8, 9] (\<lambda>_. []) = (st', Inr ())"
    using pwrite_segs_total [of "\<lambda>ino off n. int n" "plan_reads ?p 1 2 3" ?fds "[7, 8, 9]" "\<lambda>_. []"]
    by (auto simp: striped_pwrite_def numeral_3_eq_3)
  from striped_pwrite_refines [OF ok _ _ e] e show ?thesis by auto
qed

text \<open>
  Property C22. Write, then read: with the drives of the range open and a kernel whose writes
  make progress, however short each one is, \<open>striped_pwrite\<close> succeeds, and a
  \<open>striped_read\<close> of the same range then returns exactly the bytes written.
\<close>

theorem striped_round_trip:
  assumes "dp_ok p" and "fds_ok p fds" and "no_wrap p kh n" and "n < 2 ^ 64"
    and "off + length data \<le> n"
    and "\<forall>i < length data. fds ! drive_of p kh (off + i) \<noteq> None"
    and "\<And>ino fo k. 0 < k \<Longrightarrow> 0 < pw ino fo k"
    and "length out = length data" and "\<And>i. sq i"
  shows "\<exists>st'. striped_pwrite pw p kh fds off data st = (st', Inr ()) \<and>
    striped_read sq (regular_read st') st' p kh fds off out = Inr (data, length data)"
proof -
  have o: "off + length data < 2 ^ 64" using assms(4,5) by simp
  let ?segs = "plan_reads p kh off (length data)"
  note segs = plan_segs_ok [OF assms(1) o, of kh] and bytes = plan_reads_bytes [OF assms(1) o, of kh]
  have "fds ! rs_drive sg \<noteq> None" if sg: "sg \<in> set ?segs" for sg
  proof -
    have "(rs_drive sg, rs_file_offset sg) \<in> set (seg_bytes sg)"
      using segs sg by (force simp: seg_bytes_def segs_ok_def)
    with sg have "(rs_drive sg, rs_file_offset sg) \<in> set (concat (map seg_bytes ?segs))" by auto
    then show ?thesis unfolding bytes(1) using assms(6) by (auto simp: byte_loc_def)
  qed
  then obtain st' where w: "striped_pwrite pw p kh fds off data st = (st', Inr ())"
    using pwrite_segs_total [of pw ?segs fds data st, OF assms(7)] by (auto simp: striped_pwrite_def)
  note put = striped_pwrite_put [OF assms(1,2) o w]
  have len: "length fds = dp_n p" using assms(2) by (simp add: fds_ok_def)
  have "read_segs (regular_read st') st' fds ?segs 0 out =
      (map (disk fds st') (concat (map seg_bytes ?segs)), map (\<lambda>s. int (rs_length s)) ?segs)"
    using put(3) segs assms(8) bytes(2) len by (subst read_segs_full) (auto simp: segs_ok_def)
  moreover have "map (disk fds st') (concat (map seg_bytes ?segs)) = data"
    using stripes.get_put [of "(p, kh, n)" off data "disk fds st"] assms(1,3,4,5)
    by (simp add: bytes(1) put(1) comp_def)
  moreover have "sum_list (map (\<lambda>s. int (rs_length s)) ?segs) = int (length data)"
    using bytes(2) sum_list_int [of rs_length ?segs] by simp
  ultimately have "striped_read sq (regular_read st') st' p kh fds off out = Inr (data, length data)"
    using assms(8,9) bytes(2) by (auto simp: striped_read_def Let_def list_all_iff list_ex_iff)
  with w show ?thesis by blast
qed


theorem striped_round_trip_witness:
  "\<exists>st'. striped_pwrite (\<lambda>ino off n. 1) \<lparr>dp_n = 2, dp_s = 4\<rparr> 1 [Some 10, Some 11] 2 [7, 8, 9] (\<lambda>_. []) =
       (st', Inr ()) \<and>
     striped_read (\<lambda>_. True) (regular_read st') st' \<lparr>dp_n = 2, dp_s = 4\<rparr> 1 [Some 10, Some 11] 2 [0, 0, 0] =
       Inr ([7, 8, 9], length [7, 8, 9 :: byte])"
proof -
  let ?p = "\<lparr>dp_n = 2, dp_s = 4\<rparr>" and ?fds = "[Some 10, Some (11::nat)]"
  have ok: "dp_ok ?p" "fds_ok ?p ?fds" "no_wrap ?p 1 5"
    by (auto simp: dp_ok_def fds_ok_def no_wrap_def less_Suc_eq)
  have op: "\<forall>i < length [7, 8, 9 :: byte]. ?fds ! drive_of ?p 1 (2 + i) \<noteq> None"
  proof (intro allI impI)
    fix i
    have "drive_of ?p 1 (2 + i) < 2" using drive_of_less [OF ok(1)] by simp
    then have "drive_of ?p 1 (2 + i) = 0 \<or> drive_of ?p 1 (2 + i) = 1" by linarith
    then show "?fds ! drive_of ?p 1 (2 + i) \<noteq> None" by (elim disjE) simp_all
  qed
  show ?thesis
    by (rule striped_round_trip [OF ok _ _ op]) simp_all
qed

end
