(* ===== verification/Sha256.thy ===== *)
theory Sha256
  imports Prelude
begin

unbundle bit_operations_syntax

text \<open>
  The key hash (\<^verbatim>\<open>crypto/sha256.hpp\<close>, \<^verbatim>\<open>crypto/sha256.cpp\<close>): SHA-256 over 32-bit words, the
  64-bit bucket of a digest, and its hexadecimal form, which names the object's files.
\<close>

section \<open>The block function\<close>

type_synonym word32 = "32 word"
type_synonym digest = bytes

definition K :: "word32 list" where
  "K =
    [0x428a2f98, 0x71374491, 0xb5c0fbcf, 0xe9b5dba5, 0x3956c25b, 0x59f111f1, 0x923f82a4, 0xab1c5ed5] @
    [0xd807aa98, 0x12835b01, 0x243185be, 0x550c7dc3, 0x72be5d74, 0x80deb1fe, 0x9bdc06a7, 0xc19bf174] @
    [0xe49b69c1, 0xefbe4786, 0x0fc19dc6, 0x240ca1cc, 0x2de92c6f, 0x4a7484aa, 0x5cb0a9dc, 0x76f988da] @
    [0x983e5152, 0xa831c66d, 0xb00327c8, 0xbf597fc7, 0xc6e00bf3, 0xd5a79147, 0x06ca6351, 0x14292967] @
    [0x27b70a85, 0x2e1b2138, 0x4d2c6dfc, 0x53380d13, 0x650a7354, 0x766a0abb, 0x81c2c92e, 0x92722c85] @
    [0xa2bfe8a1, 0xa81a664b, 0xc24b8b70, 0xc76c51a3, 0xd192e819, 0xd6990624, 0xf40e3585, 0x106aa070] @
    [0x19a4c116, 0x1e376c08, 0x2748774c, 0x34b0bcb5, 0x391c0cb3, 0x4ed8aa4a, 0x5b9cca4f, 0x682e6ff3] @
    [0x748f82ee, 0x78a5636f, 0x84c87814, 0x8cc70208, 0x90befffa, 0xa4506ceb, 0xbef9a3f7, 0xc67178f2]"

definition rotr :: "word32 \<Rightarrow> nat \<Rightarrow> word32" where
  "rotr x n = drop_bit n x OR push_bit (32 - n) x"

definition load_word :: "bytes \<Rightarrow> nat \<Rightarrow> word32" where
  "load_word p i =
     push_bit 24 (ucast (p ! (i * 4))) OR push_bit 16 (ucast (p ! (i * 4 + 1))) OR
     push_bit 8 (ucast (p ! (i * 4 + 2))) OR ucast (p ! (i * 4 + 3))"

definition schedule_step :: "nat \<Rightarrow> word32 list \<Rightarrow> word32 list" where
  "schedule_step i w =
     (let s0 = rotr (w ! (i - 15)) 7 XOR rotr (w ! (i - 15)) 18 XOR drop_bit 3 (w ! (i - 15));
          s1 = rotr (w ! (i - 2)) 17 XOR rotr (w ! (i - 2)) 19 XOR drop_bit 10 (w ! (i - 2))
      in w @ [w ! (i - 16) + s0 + w ! (i - 7) + s1])"

type_synonym vars = "word32 \<times> word32 \<times> word32 \<times> word32 \<times> word32 \<times> word32 \<times> word32 \<times> word32"

fun sha_round :: "word32 list \<Rightarrow> nat \<Rightarrow> vars \<Rightarrow> vars" where
  "sha_round w i (a, b, c, d, e, f, g, h) =
     (let S1 = rotr e 6 XOR rotr e 11 XOR rotr e 25;
          ch = (e AND f) XOR (NOT e AND g);
          t1 = h + S1 + ch + K ! i + w ! i;
          S0 = rotr a 2 XOR rotr a 13 XOR rotr a 22;
          maj = (a AND b) XOR (a AND c) XOR (b AND c);
          t2 = S0 + maj
      in (t1 + t2, a, b, c, d + t1, e, f, g))"

definition sha256_block :: "word32 list \<Rightarrow> bytes \<Rightarrow> word32 list" where
  "sha256_block state p =
     (let w = fold schedule_step [16..<64] (map (load_word p) [0..<16]);
          (a, b, c, d, e, f, g, h) =
            fold (sha_round w) [0..<64]
              (state ! 0, state ! 1, state ! 2, state ! 3, state ! 4, state ! 5, state ! 6, state ! 7)
      in [state ! 0 + a, state ! 1 + b, state ! 2 + c, state ! 3 + d,
          state ! 4 + e, state ! 5 + f, state ! 6 + g, state ! 7 + h])"

section \<open>The digest\<close>

definition sha_init :: "word32 list" where
  "sha_init = [0x6a09e667, 0xbb67ae85, 0x3c6ef372, 0xa54ff53a,
               0x510e527f, 0x9b05688c, 0x1f83d9ab, 0x5be0cd19]"

definition be64 :: "nat \<Rightarrow> bytes" where
  "be64 bits = map (\<lambda>i. of_nat (bits div 2 ^ ((7 - i) * 8))) [0..<8]"

definition store_word :: "word32 \<Rightarrow> bytes" where
  "store_word x = [ucast (drop_bit 24 x AND 0xFF), ucast (drop_bit 16 x AND 0xFF),
     ucast (drop_bit 8 x AND 0xFF), ucast (x AND 0xFF)]"

definition sha_tail :: "bytes \<Rightarrow> nat \<Rightarrow> bytes" where
  "sha_tail remaining len =
     (let rem = length remaining; padlen = (if rem < 56 then 64 else 128)
      in remaining @ [0x80] @ replicate (padlen - rem - 1 - 8) 0 @ be64 (u64 (len * 8)))"

definition sha256 :: "bytes \<Rightarrow> digest" where
  "sha256 p =
     (let len = length p;
          full = len div 64;
          state = fold (\<lambda>i st. sha256_block st (slice (i * 64) 64 p)) [0..<full] sha_init;
          tail = sha_tail (drop (full * 64) p) len;
          state = sha256_block state (take 64 tail);
          state = (if length tail = 128 then sha256_block state (drop 64 tail) else state)
      in concat (map store_word state))"

definition str_bytes :: "string \<Rightarrow> bytes" where
  "str_bytes s = map of_char s"

definition hash_key :: "string \<Rightarrow> digest" where
  "hash_key key = sha256 (str_bytes key)"

text \<open>The first eight bytes, in the host's (little-endian) order.\<close>

definition digest_bucket :: "digest \<Rightarrow> nat" where
  "digest_bucket d = (\<Sum>i \<leftarrow> [0..<8]. unat (d ! i) * 256 ^ i)"

definition hex_digits :: string where
  "hex_digits = ''0123456789abcdef''"

definition digest_hex :: "digest \<Rightarrow> string" where
  "digest_hex d =
     concat (map (\<lambda>b. [hex_digits ! (unat b div 16 mod 16), hex_digits ! (unat b mod 16)]) d)"

section \<open>The padded message, as the standard has it\<close>

text \<open>
  FIPS 180-4 hashes a message by padding it (a one bit, zeros, the bit length as a 64-bit
  big-endian number) to a multiple of 64 bytes and folding the block function over all its
  blocks. The source never builds the padded message: it folds over the full blocks in place
  and pads only the tail.
\<close>

definition fips_pad :: "bytes \<Rightarrow> bytes" where
  "fips_pad p = p @ [0x80] @ replicate ((119 - length p mod 64) mod 64) 0 @ be64 (8 * length p)"

definition fips_digest :: "bytes \<Rightarrow> digest" where
  "fips_digest p =
     (let m = fips_pad p in
      concat (map store_word
        (fold (\<lambda>i st. sha256_block st (slice (i * 64) 64 m)) [0..<length m div 64] sha_init)))"

lemma length_be64 [simp]: "length (be64 n) = 8"
  by (simp add: be64_def)

lemma pad_zeros:
  "r < 64 \<Longrightarrow> (if r < 56 then 64 else 128) - r - 1 - 8 = (119 - r) mod (64 :: nat)"
proof (cases "r < 56")
  case True
  then have "119 - r = 64 + (55 - r)" by linarith
  then have "(119 - r) mod 64 = (55 - r) mod 64" by (simp only: mod_add_self1)
  also have "\<dots> = 55 - r" by (rule mod_less) simp
  finally show ?thesis using True by simp
qed simp

lemma length_sha_tail:
  "length rest < 64 \<Longrightarrow> length (sha_tail rest n) = (if length rest < 56 then 64 else 128)"
  by (simp add: sha_tail_def Let_def)

lemma fips_pad_split:
  assumes "length p < 2 ^ 61"
  shows "fips_pad p = take (length p div 64 * 64) p @ sha_tail (drop (length p div 64 * 64) p) (length p)"
proof -
  have r: "length p - length p div 64 * 64 = length p mod 64"
    using div_mult_mod_eq [of "length p" 64] by linarith
  have b: "u64 (length p * 8) = 8 * length p" using assms by (simp add: u64_id)
  have j: "take n p @ drop n p @ x = p @ x" for n x by (simp only: append_assoc [symmetric] append_take_drop_id)
  have z: "(if length p mod 64 < 56 then 64 else 128) - length p mod 64 - 1 - 8 =
      (119 - length p mod 64) mod 64" by (rule pad_zeros) simp
  show ?thesis
    unfolding fips_pad_def sha_tail_def Let_def length_drop r b z j ..
qed

lemma fold_blocks_prefix:
  "n * 64 \<le> length p \<Longrightarrow>
     fold (\<lambda>i st. sha256_block st (slice (i * 64) 64 (p @ q))) [0..<n] st =
     fold (\<lambda>i st. sha256_block st (slice (i * 64) 64 p)) [0..<n] st"
proof -
  assume n: "n * 64 \<le> length p"
  have "slice (i * 64) 64 (p @ q) = slice (i * 64) 64 p" if "i < n" for i
  proof -
    have "Suc i * 64 \<le> n * 64" using that by (intro mult_le_mono1) simp
    with n show ?thesis by (simp add: slice_def)
  qed
  then show ?thesis by (intro fold_cong) auto
qed

section \<open>Properties\<close>

text \<open>
  Property C28. The streaming digest equals the reference definition: folding the block
  function over the blocks of the padded message, for every key below \<open>2^61\<close> bytes.
\<close>

theorem sha256_fips:
  assumes "length p < 2 ^ 61"
  shows "sha256 p = fips_digest p"
proof -
  let ?f = "length p div 64"
  let ?head = "take (?f * 64) p" and ?tail = "sha_tail (drop (?f * 64) p) (length p)"
  let ?blk = "\<lambda>m i st. sha256_block st (slice (i * 64) 64 m)"
  have h: "length ?head = ?f * 64" by simp
  have r: "length (drop (?f * 64) p) < 64"
    using div_mult_mod_eq [of "length p" 64] mod_less_divisor [of 64 "length p"] by simp
  note t = length_sha_tail [OF r, of "length p"]
  note pad = fips_pad_split [OF assms]
  have first: "fold (?blk (fips_pad p)) [0..<?f] sha_init = fold (?blk p) [0..<?f] sha_init"
    using fold_blocks_prefix [of ?f ?head ?tail sha_init] fold_blocks_prefix [of ?f ?head "drop (?f * 64) p" sha_init]
    by (simp add: pad)
  have tl: "slice (?f * 64 + k) n (fips_pad p) = slice k n ?tail" for k n
    using h by (simp add: pad slice_def)
  have b0: "slice (?f * 64) 64 (fips_pad p) = take 64 ?tail"
    using tl [of 0 64] by (simp add: slice_def)
  show ?thesis
  proof (cases "length ?tail = 128")
    case True
    have n: "length (fips_pad p) div 64 = Suc (Suc ?f)" using True h by (simp add: pad)
    have b1: "slice (Suc ?f * 64) 64 (fips_pad p) = drop 64 ?tail"
      using tl [of 64 64] True by (simp add: slice_def add.commute)
    show ?thesis
      using True first b0 b1 by (simp add: sha256_def fips_digest_def Let_def n)
  next
    case False
    with t have l: "length ?tail = 64" by (simp split: if_splits)
    have n: "length (fips_pad p) div 64 = Suc ?f" using l h by (simp add: pad)
    show ?thesis
      using False first b0 by (simp add: sha256_def fips_digest_def Let_def n)
  qed
qed

theorem sha256_fips_witness: "sha256 (str_bytes ''hello'') = fips_digest (str_bytes ''hello'')"
  by (rule sha256_fips) (simp add: str_bytes_def)

lemma length_sha256_block [simp]: "length (sha256_block st p) = 8"
  by (simp add: sha256_block_def Let_def case_prod_unfold)

lemma length_sha256 [simp]: "length (sha256 p) = 32"
proof -
  have "length (concat (map store_word st)) = 4 * length st" for st
    by (induction st) (simp_all add: store_word_def)
  then show ?thesis by (simp add: sha256_def Let_def)
qed

lemma hash_key_length [simp]: "length (hash_key k) = 32"
  by (simp add: hash_key_def)

lemma digest_bucket_less: "digest_bucket d < 2 ^ 64"
proof -
  have b: "unat (d ! i) \<le> 255" for i using unat_byte [of "d ! i"] by simp
  have "digest_bucket d \<le> (\<Sum>i \<leftarrow> [0..<8]. 255 * 256 ^ i)"
    unfolding digest_bucket_def using b by (intro sum_list_mono mult_le_mono1)
  also have "\<dots> < 2 ^ 64" by (simp add: upt_rec)
  finally show ?thesis .
qed

lemma hex_digits_inj:
  assumes "i < 16" and "j < 16" and "hex_digits ! i = hex_digits ! j"
  shows "i = j"
proof -
  have "distinct hex_digits" by (simp add: hex_digits_def)
  with assms show ?thesis by (simp add: nth_eq_iff_index_eq hex_digits_def)
qed

lemma digest_hex_Cons:
  "digest_hex (b # d) = hex_digits ! (unat b div 16 mod 16) # hex_digits ! (unat b mod 16) # digest_hex d"
  by (simp add: digest_hex_def)

lemma unat_div_16: "unat (b :: byte) div 16 mod 16 = unat b div 16"
  using unat_byte [of b] by simp

text \<open>The file name of a digest: lower-case hexadecimal, different for different digests.\<close>

lemma digest_hex_injective:
  "length (digest_hex d) = 2 * length d \<and> set (digest_hex d) \<subseteq> set ''0123456789abcdef'' \<and>
   (digest_hex d = digest_hex d' \<longleftrightarrow> d = d')"
proof (intro conjI)
  show "length (digest_hex d) = 2 * length d"
    by (induction d) (simp_all add: digest_hex_Cons, simp add: digest_hex_def)
  have "hex_digits ! i \<in> set hex_digits" if "i < 16" for i
    using that by (intro nth_mem) (simp add: hex_digits_def)
  then show "set (digest_hex d) \<subseteq> set ''0123456789abcdef''"
    unfolding hex_digits_def [symmetric]
    by (induction d) (simp_all add: digest_hex_Cons, simp add: digest_hex_def)
  have "digest_hex d = digest_hex d' \<Longrightarrow> d = d'"
  proof (induction d arbitrary: d')
    case Nil
    then show ?case by (cases d') (simp_all add: digest_hex_def)
  next
    case (Cons b d)
    then obtain b' e where d': "d' = b' # e" by (cases d') (simp_all add: digest_hex_def)
    with Cons have "unat b div 16 mod 16 = unat b' div 16 mod 16" "unat b mod 16 = unat b' mod 16"
      by (auto simp: digest_hex_Cons intro: hex_digits_inj)
    then have "unat b = unat b'" unfolding unat_div_16 by (metis div_mult_mod_eq)
    with Cons d' show ?case by (simp add: digest_hex_Cons word_unat_eq_iff)
  qed
  then show "digest_hex d = digest_hex d' \<longleftrightarrow> d = d'" by blast
qed

end
