(* ===== verification/Pool_Files.thy ===== *)
theory Pool_Files
  imports Striped_Io Sha256
begin

text \<open>
  The file side of the tier manager (\<^verbatim>\<open>storage/tier_manager.cpp\<close>, classes \<^verbatim>\<open>ObjectFiles\<close> and
  \<^verbatim>\<open>Pool\<close>): per-drive directories, one file per drive and object, opened by name, published by
  rename, removed by unlink. A file system is a set of directories, each a map from names to
  inodes, and the contents of the inodes; an unlinked inode keeps its contents for whoever
  has it open. The kernel's choices (whether a call succeeds, how much it writes) are a
  record of functions.
\<close>

section \<open>Directories and inodes\<close>

record dir_fs =
  fs_dirs :: "nat \<Rightarrow> string \<rightharpoonup> nat"
  fs_store :: store
  fs_next :: nat

record kernel =
  kn_opendir :: "string \<Rightarrow> nat option"
  kn_open :: "nat \<Rightarrow> string \<Rightarrow> bool"
  kn_rename :: "nat \<Rightarrow> string \<Rightarrow> bool"
  kn_unlink :: "nat \<Rightarrow> string \<Rightarrow> bool"
  kn_pwrite :: "nat \<Rightarrow> nat \<Rightarrow> nat \<Rightarrow> int"
  kn_read :: "store \<Rightarrow> nat \<Rightarrow> nat \<Rightarrow> nat \<Rightarrow> int"
  kn_sq :: "nat \<Rightarrow> bool"

definition fs_openat :: "kernel \<Rightarrow> dir_fs \<Rightarrow> nat \<Rightarrow> string \<Rightarrow> bool \<Rightarrow> (nat \<times> dir_fs) option" where
  "fs_openat k fs dir name create =
     (if \<not> kn_open k dir name then None
      else case fs_dirs fs dir name of
        Some ino \<Rightarrow> Some (ino, fs)
      | None \<Rightarrow>
          if create
          then Some (fs_next fs,
                 fs\<lparr>fs_dirs := (fs_dirs fs)(dir := (fs_dirs fs dir)(name \<mapsto> fs_next fs)),
                    fs_store := (fs_store fs)(fs_next fs := []),
                    fs_next := fs_next fs + 1\<rparr>)
          else None)"

definition fs_renameat :: "kernel \<Rightarrow> dir_fs \<Rightarrow> nat \<Rightarrow> string \<Rightarrow> string \<Rightarrow> dir_fs option" where
  "fs_renameat k fs dir old new =
     (if \<not> kn_rename k dir old then None
      else case fs_dirs fs dir old of
        None \<Rightarrow> None
      | Some ino \<Rightarrow>
          Some (fs\<lparr>fs_dirs := (fs_dirs fs)(dir := (fs_dirs fs dir)(old := None, new \<mapsto> ino))\<rparr>))"

definition fs_unlinkat :: "kernel \<Rightarrow> dir_fs \<Rightarrow> nat \<Rightarrow> string \<Rightarrow> dir_fs" where
  "fs_unlinkat k fs dir name =
     (if kn_unlink k dir name
      then fs\<lparr>fs_dirs := (fs_dirs fs)(dir := (fs_dirs fs dir)(name := None))\<rparr> else fs)"

section \<open>Pool\<close>

record pool =
  pool_drives :: drive_pool
  pool_dirfds :: "nat list"
  pool_direct_io :: bool

text \<open>
  The move constructor and the move assignment copy the drive geometry and take over the
  directory descriptors; \<^verbatim>\<open>direct_io_\<close> is left at its default.
\<close>

definition pool_move :: "pool \<Rightarrow> pool" where
  "pool_move o' = \<lparr>pool_drives = pool_drives o', pool_dirfds = pool_dirfds o', pool_direct_io = False\<rparr>"

fun open_dirs :: "kernel \<Rightarrow> string list \<Rightarrow> nat list result" where
  "open_dirs k [] = Inr []"
| "open_dirs k (d # ds) =
     (case kn_opendir k d of
        None \<Rightarrow> err io_error (''open pool dir: '' @ d)
      | Some fd \<Rightarrow> (case open_dirs k ds of Inl e \<Rightarrow> Inl e | Inr fds \<Rightarrow> Inr (fd # fds)))"

text \<open>The pool leaves \<^verbatim>\<open>open\<close> inside a \<^verbatim>\<open>Result\<close>, into which it is moved.\<close>

definition pool_open :: "kernel \<Rightarrow> string list \<Rightarrow> nat \<Rightarrow> bool \<Rightarrow> pool result" where
  "pool_open k dir_names unit direct_io =
     (if dir_names = [] then err invalid_argument ''empty pool''
      else case open_dirs k dir_names of
        Inl e \<Rightarrow> Inl e
      | Inr fds \<Rightarrow>
          Inr (pool_move \<lparr>pool_drives = \<lparr>dp_n = u32 (length dir_names), dp_s = unit\<rparr>,
                 pool_dirfds = fds, pool_direct_io = direct_io\<rparr>))"

text \<open>The drive of the \<open>c\<close>-th chunk of an object, as the three loops below compute it.\<close>

definition chunk_drive :: "pool \<Rightarrow> digest \<Rightarrow> nat \<Rightarrow> nat" where
  "chunk_drive p d c = drive_of (pool_drives p) (digest_bucket d) (u64 (c * dp_s (pool_drives p)))"

fun open_loop ::
  "kernel \<Rightarrow> pool \<Rightarrow> digest \<Rightarrow> string \<Rightarrow> bool \<Rightarrow> nat list \<Rightarrow> fd_list \<Rightarrow> dir_fs \<Rightarrow> dir_fs \<times> fd_list result" where
  "open_loop k p d name create [] fds fs = (fs, Inr fds)"
| "open_loop k p d name create (c # cs) fds fs =
     (let dr = chunk_drive p d c in
      if fds ! dr \<noteq> None then open_loop k p d name create cs fds fs
      else case fs_openat k fs (pool_dirfds p ! dr) name create of
        None \<Rightarrow> (fs, err io_error (if create then ''openat (create) object file''
                                      else ''openat object file (not found?)''))
      | Some (ino, fs') \<Rightarrow> open_loop k p d name create cs (fds[dr := Some ino]) fs')"

text \<open>The number of files, \<^verbatim>\<open>used\<close>, is the expression of \<^verbatim>\<open>DrivePool::files_used\<close>.\<close>

definition open_object ::
  "kernel \<Rightarrow> pool \<Rightarrow> digest \<Rightarrow> nat \<Rightarrow> bool \<Rightarrow> string \<Rightarrow> dir_fs \<Rightarrow> dir_fs \<times> fd_list result" where
  "open_object k p d tier_bytes create suffix fs =
     (let fds = replicate (dp_n (pool_drives p)) None in
      if tier_bytes = 0 then (fs, Inr fds)
      else open_loop k p d (digest_hex d @ suffix) create
             [0..<files_used (pool_drives p) tier_bytes] fds fs)"

fun publish_loop :: "kernel \<Rightarrow> pool \<Rightarrow> digest \<Rightarrow> string \<Rightarrow> string \<Rightarrow> nat list \<Rightarrow> dir_fs \<Rightarrow> dir_fs \<times> unit result" where
  "publish_loop k p d tmp live [] fs = (fs, Inr ())"
| "publish_loop k p d tmp live (c # cs) fs =
     (case fs_renameat k fs (pool_dirfds p ! chunk_drive p d c) tmp live of
        None \<Rightarrow> (fs, err io_error ''renameat (publish) object file'')
      | Some fs' \<Rightarrow> publish_loop k p d tmp live cs fs')"

definition pool_publish :: "kernel \<Rightarrow> pool \<Rightarrow> digest \<Rightarrow> nat \<Rightarrow> string \<Rightarrow> dir_fs \<Rightarrow> dir_fs \<times> unit result" where
  "pool_publish k p d tier_bytes suffix fs =
     (if tier_bytes = 0 then (fs, Inr ())
      else publish_loop k p d (digest_hex d @ suffix) (digest_hex d)
             [0..<files_used (pool_drives p) tier_bytes] fs)"

definition unlink_object :: "kernel \<Rightarrow> pool \<Rightarrow> digest \<Rightarrow> nat \<Rightarrow> string \<Rightarrow> dir_fs \<Rightarrow> dir_fs" where
  "unlink_object k p d tier_bytes suffix fs =
     (if tier_bytes = 0 then fs
      else fold (\<lambda>c fs. fs_unlinkat k fs (pool_dirfds p ! chunk_drive p d c) (digest_hex d @ suffix))
             [0..<files_used (pool_drives p) tier_bytes] fs)"

section \<open>Well-formed file systems\<close>

text \<open>Names lead to allocated inodes, and no inode has two names.\<close>

definition fs_ok :: "dir_fs \<Rightarrow> bool" where
  "fs_ok fs \<longleftrightarrow>
     (\<forall>dir name ino. fs_dirs fs dir name = Some ino \<longrightarrow> ino < fs_next fs) \<and>
     (\<forall>dir name dir' name' ino. fs_dirs fs dir name = Some ino \<and> fs_dirs fs dir' name' = Some ino \<longrightarrow>
        dir = dir' \<and> name = name')"

lemma fs_openat_ok:
  assumes "fs_ok fs" and "fs_openat k fs dir name create = Some (ino, fs')"
  shows "fs_ok fs'" and "fs_dirs fs' dir name = Some ino"
    and "dir' \<noteq> dir \<or> name' \<noteq> name \<Longrightarrow> fs_dirs fs' dir' name' = fs_dirs fs dir' name'"
    and "i < fs_next fs \<Longrightarrow> fs_store fs' i = fs_store fs i"
    and "fs_next fs \<le> fs_next fs'" and "fs_dirs fs dir name = None \<Longrightarrow> ino = fs_next fs \<and> fs_store fs' ino = []"
    and "fs_dirs fs dir name = Some j \<Longrightarrow> ino = j \<and> fs' = fs"
proof -
  show "fs_ok fs'"
    using assms unfolding fs_ok_def fs_openat_def
    by (auto split: if_splits option.splits) (metis less_irrefl less_SucI)+
qed (use assms in \<open>auto simp: fs_openat_def split: if_splits option.splits\<close>)

lemma fs_renameat_ok:
  assumes "fs_ok fs" and "fs_renameat k fs dir old new = Some fs'" and "old \<noteq> new"
  shows "fs_ok fs'" and "fs_dirs fs' dir new = fs_dirs fs dir old" and "fs_dirs fs dir old \<noteq> None"
    and "dir' \<noteq> dir \<or> name' \<noteq> old \<and> name' \<noteq> new \<Longrightarrow> fs_dirs fs' dir' name' = fs_dirs fs dir' name'"
    and "fs_store fs' = fs_store fs" and "fs_next fs' = fs_next fs"
proof -
  show "fs_ok fs'"
    using assms unfolding fs_ok_def fs_renameat_def
    by (auto split: if_splits option.splits) metis+
qed (use assms in \<open>auto simp: fs_renameat_def split: if_splits option.splits\<close>)

lemma fs_unlinkat_ok:
  assumes "fs_ok fs"
  shows "fs_ok (fs_unlinkat k fs dir name)"
    and "dir' \<noteq> dir \<or> name' \<noteq> name \<Longrightarrow> fs_dirs (fs_unlinkat k fs dir name) dir' name' = fs_dirs fs dir' name'"
    and "fs_store (fs_unlinkat k fs dir name) = fs_store fs"
    and "fs_next (fs_unlinkat k fs dir name) = fs_next fs"
proof -
  show "fs_ok (fs_unlinkat k fs dir name)"
    using assms unfolding fs_ok_def fs_unlinkat_def by (auto split: if_splits) metis+
qed (auto simp: fs_unlinkat_def)

section \<open>Opening, publishing and unlinking an object\<close>

text \<open>One directory per drive, no directory twice.\<close>

definition pool_ok :: "pool \<Rightarrow> bool" where
  "pool_ok p \<longleftrightarrow> dp_ok (pool_drives p) \<and> length (pool_dirfds p) = dp_n (pool_drives p) \<and>
     distinct (pool_dirfds p)"

text \<open>
  \<open>fs_ext name fs fs'\<close>: files called \<open>name\<close> may have been created, empty, under fresh inodes;
  all else is as before.
\<close>

definition fs_ext :: "string \<Rightarrow> dir_fs \<Rightarrow> dir_fs \<Rightarrow> bool" where
  "fs_ext name fs fs' \<longleftrightarrow>
     (\<forall>dir nm. nm \<noteq> name \<longrightarrow> fs_dirs fs' dir nm = fs_dirs fs dir nm) \<and>
     (\<forall>dir ino. fs_dirs fs dir name = Some ino \<longrightarrow> fs_dirs fs' dir name = Some ino) \<and>
     (\<forall>dir ino. fs_dirs fs dir name = None \<and> fs_dirs fs' dir name = Some ino \<longrightarrow>
        fs_next fs \<le> ino \<and> fs_store fs' ino = []) \<and>
     fs_next fs \<le> fs_next fs' \<and> (\<forall>ino < fs_next fs. fs_store fs' ino = fs_store fs ino)"

lemma fs_ext_refl [simp]: "fs_ext name fs fs"
  by (auto simp: fs_ext_def)

lemma fs_ext_trans:
  assumes "fs_ext name fs fs1" and "fs_ok fs1" and "fs_ext name fs1 fs2"
  shows "fs_ext name fs fs2"
proof -
  have "fs_next fs \<le> ino \<and> fs_store fs2 ino = []"
    if n: "fs_dirs fs dir name = None" and s: "fs_dirs fs2 dir name = Some ino" for dir ino
  proof (cases "fs_dirs fs1 dir name")
    case None
    with assms(1,3) s show ?thesis unfolding fs_ext_def by (metis le_trans)
  next
    case (Some j)
    with assms(3) s have "j = ino" unfolding fs_ext_def by (metis option.inject)
    with Some assms(2) have "ino < fs_next fs1" by (simp add: fs_ok_def)
    with assms(1,3) n Some \<open>j = ino\<close> show ?thesis unfolding fs_ext_def by metis
  qed
  moreover have "fs_store fs2 ino = fs_store fs ino" if "ino < fs_next fs" for ino
  proof -
    have "ino < fs_next fs1" using that assms(1) by (simp add: fs_ext_def)
    with that assms(1,3) show ?thesis by (simp add: fs_ext_def)
  qed
  moreover have "fs_next fs \<le> fs_next fs2" using assms(1,3) by (simp add: fs_ext_def)
  moreover have "fs_dirs fs2 dir nm = fs_dirs fs dir nm" if "nm \<noteq> name" for dir nm
    using that assms(1,3) by (simp add: fs_ext_def)
  moreover have "fs_dirs fs2 dir name = Some ino" if "fs_dirs fs dir name = Some ino" for dir ino
    using that assms(1,3) by (simp add: fs_ext_def)
  ultimately show ?thesis unfolding fs_ext_def by blast
qed

lemma fs_openat_ext:
  assumes "fs_ok fs" and "fs_openat k fs dir name create = Some (ino, fs')"
  shows "fs_ext name fs fs'"
  using assms unfolding fs_ext_def fs_openat_def by (auto split: if_splits option.splits)

lemma chunk_drive_less: "pool_ok p \<Longrightarrow> chunk_drive p d c < dp_n (pool_drives p)"
  by (simp add: chunk_drive_def pool_ok_def)

lemma open_loop_ext:
  "open_loop k p d name create cs fds fs = (fs', res) \<Longrightarrow> fs_ok fs \<Longrightarrow>
     fs_ok fs' \<and> fs_ext name fs fs' \<and> (\<not> create \<longrightarrow> fs' = fs)"
proof (induction k p d name create cs fds fs rule: open_loop.induct)
  case (2 k p d name create c cs fds fs)
  show ?case
  proof (cases "fds ! chunk_drive p d c \<noteq> None")
    case True
    with 2 show ?thesis by (simp add: Let_def)
  next
    case False
    show ?thesis
    proof (cases "fs_openat k fs (pool_dirfds p ! chunk_drive p d c) name create")
      case None
      with False "2.prems" show ?thesis by (simp add: Let_def)
    next
      case (Some q)
      then obtain ino fs1 where q: "fs_openat k fs (pool_dirfds p ! chunk_drive p d c) name create = Some (ino, fs1)"
        by (cases q) simp
      note ok = fs_openat_ok(1) [OF "2.prems"(2) q] and ex = fs_openat_ext [OF "2.prems"(2) q]
      have "open_loop k p d name create cs (fds[chunk_drive p d c := Some ino]) fs1 = (fs', res)"
        using "2.prems"(1) False q by (simp add: Let_def)
      from "2.IH"(2) [OF refl False q refl this ok] fs_ext_trans [OF ex ok]
      have "fs_ok fs'" "fs_ext name fs fs'" "\<not> create \<longrightarrow> fs' = fs1" by auto
      moreover have "\<not> create \<longrightarrow> fs1 = fs" using q by (auto simp: fs_openat_def split: if_splits option.splits)
      ultimately show ?thesis by simp
    qed
  qed
qed simp

lemma open_loop_fds:
  "open_loop k p d name create cs fds fs = (fs', Inr fds') \<Longrightarrow> fs_ok fs \<Longrightarrow> pool_ok p \<Longrightarrow>
   length fds = dp_n (pool_drives p) \<Longrightarrow>
     length fds' = length fds \<and>
     (\<forall>dr < length fds. fds' ! dr =
        (if fds ! dr \<noteq> None then fds ! dr
         else if dr \<in> chunk_drive p d ` set cs then fs_dirs fs' (pool_dirfds p ! dr) name else None)) \<and>
     (\<forall>dr \<in> chunk_drive p d ` set cs. fds' ! dr \<noteq> None)"
proof (induction k p d name create cs fds fs rule: open_loop.induct)
  case (2 k p d name create c cs fds fs)
  let ?dr = "chunk_drive p d c"
  have drn: "?dr < length fds" using chunk_drive_less [OF "2.prems"(3)] "2.prems"(4) by simp
  show ?case
  proof (cases "fds ! ?dr \<noteq> None")
    case True
    with "2.prems"(1) have "open_loop k p d name create cs fds fs = (fs', Inr fds')" by (simp add: Let_def)
    from "2.IH"(1) [OF refl True this "2.prems"(2-4)] True drn show ?thesis by auto
  next
    case False
    then obtain ino fs1 where q: "fs_openat k fs (pool_dirfds p ! ?dr) name create = Some (ino, fs1)"
      and r: "open_loop k p d name create cs (fds[?dr := Some ino]) fs1 = (fs', Inr fds')"
      using "2.prems"(1) by (auto simp: Let_def split: option.splits)
    note ok = fs_openat_ok(1,2) [OF "2.prems"(2) q]
    have keep: "fs_dirs fs' (pool_dirfds p ! ?dr) name = Some ino"
      using open_loop_ext [OF r ok(1)] ok(2) unfolding fs_ext_def by blast
    have len: "length (fds[?dr := Some ino]) = dp_n (pool_drives p)" using "2.prems"(4) by simp
    from "2.IH"(2) [OF refl False q refl r ok(1) "2.prems"(3) len] keep drn False show ?thesis
      by (auto simp: nth_list_update split: if_splits)
  qed
qed simp

lemma open_object_ok:
  assumes "open_object k p d n create suffix fs = (fs', res)" and "fs_ok fs"
  shows "fs_ok fs'" and "fs_ext (digest_hex d @ suffix) fs fs'" and "\<not> create \<Longrightarrow> fs' = fs"
  using assms open_loop_ext [OF _ assms(2)] by (auto simp: open_object_def Let_def split: if_splits)

text \<open>A failed open is an I/O error.\<close>

lemma open_loop_error: "open_loop k p d name create cs fds fs = (fs', Inl e) \<Longrightarrow> code e = io_error"
  by (induction k p d name create cs fds fs rule: open_loop.induct)
    (auto simp: Let_def split: if_splits option.splits)

lemma open_object_error: "open_object k p d n create suffix fs = (fs', Inl e) \<Longrightarrow> code e = io_error"
  by (auto simp: open_object_def Let_def split: if_splits dest: open_loop_error)

text \<open>The descriptors of an opened object: those of the drives that hold its chunks.\<close>

lemma open_object_fds:
  assumes "open_object k p d n create suffix fs = (fs', Inr fds)" and "fs_ok fs" and "pool_ok p" and "0 < n"
  defines "used \<equiv> chunk_drive p d ` {..<files_used (pool_drives p) n}"
  shows "length fds = dp_n (pool_drives p)"
    and "dr < dp_n (pool_drives p) \<Longrightarrow> fds ! dr =
      (if dr \<in> used then fs_dirs fs' (pool_dirfds p ! dr) (digest_hex d @ suffix) else None)"
    and "dr \<in> used \<Longrightarrow> fds ! dr \<noteq> None"
    and "fds_ok (pool_drives p) fds"
proof -
  have r: "open_loop k p d (digest_hex d @ suffix) create [0..<files_used (pool_drives p) n]
      (replicate (dp_n (pool_drives p)) None) fs = (fs', Inr fds)"
    using assms(1,4) by (simp add: open_object_def)
  note l = open_loop_fds [OF r assms(2,3)]
  show len: "length fds = dp_n (pool_drives p)" using l by simp
  show nth: "fds ! dr = (if dr \<in> used then fs_dirs fs' (pool_dirfds p ! dr) (digest_hex d @ suffix) else None)"
    if "dr < dp_n (pool_drives p)" for dr
    using l that by (simp add: used_def atLeast0LessThan)
  have "\<forall>dr \<in> used. fds ! dr \<noteq> None" using l by (simp add: used_def atLeast0LessThan)
  then show "dr \<in> used \<Longrightarrow> fds ! dr \<noteq> None" by blast
  note ok' = open_object_ok(1) [OF assms(1,2)]
  have inj: "e = f" if "e < dp_n (pool_drives p)" "f < dp_n (pool_drives p)" "fds ! e \<noteq> None" "fds ! e = fds ! f" for e f
  proof -
    from that(3) obtain ino where i: "fds ! e = Some ino" by auto
    with that nth have "fs_dirs fs' (pool_dirfds p ! e) (digest_hex d @ suffix) = Some ino"
      "fs_dirs fs' (pool_dirfds p ! f) (digest_hex d @ suffix) = Some ino"
      by (auto split: if_splits)
    then have "pool_dirfds p ! e = pool_dirfds p ! f" using ok' unfolding fs_ok_def by blast
    with assms(3) that(1,2) show ?thesis by (simp add: pool_ok_def nth_eq_iff_index_eq)
  qed
  show "fds_ok (pool_drives p) fds" unfolding fds_ok_def using len inj by metis
qed

lemma suffix_name: "suffix \<noteq> [] \<Longrightarrow> digest_hex d @ suffix \<noteq> digest_hex d"
  by simp

lemma publish_loop_frame:
  "publish_loop k p d tmp live cs fs = (fs', res) \<Longrightarrow> fs_ok fs \<Longrightarrow> tmp \<noteq> live \<Longrightarrow>
     fs_ok fs' \<and> fs_store fs' = fs_store fs \<and> fs_next fs' = fs_next fs \<and>
     (\<forall>dir nm. (dir \<notin> (\<lambda>c. pool_dirfds p ! chunk_drive p d c) ` set cs \<or> nm \<noteq> tmp \<and> nm \<noteq> live) \<longrightarrow>
        fs_dirs fs' dir nm = fs_dirs fs dir nm)"
proof (induction k p d tmp live cs fs rule: publish_loop.induct)
  case (2 k p d tmp live c cs fs)
  show ?case
  proof (cases "fs_renameat k fs (pool_dirfds p ! chunk_drive p d c) tmp live")
    case (Some fs1)
    note r = fs_renameat_ok [OF "2.prems"(2) Some "2.prems"(3)]
    have "publish_loop k p d tmp live cs fs1 = (fs', res)" using "2.prems"(1) Some by simp
    from "2.IH" [OF Some this r(1) "2.prems"(3)] r show ?thesis by auto
  qed (use 2 in simp)
qed simp

lemma publish_loop_ok:
  assumes "publish_loop k p d tmp live cs fs = (fs', Inr u)" and "fs_ok fs" and "tmp \<noteq> live"
    and "distinct (map (\<lambda>c. pool_dirfds p ! chunk_drive p d c) cs)" and "c \<in> set cs"
  shows "fs_dirs fs' (pool_dirfds p ! chunk_drive p d c) live = fs_dirs fs (pool_dirfds p ! chunk_drive p d c) tmp"
  using assms
proof (induction k p d tmp live cs fs rule: publish_loop.induct)
  case (2 k p d tmp live c' cs fs)
  let ?dir = "\<lambda>c. pool_dirfds p ! chunk_drive p d c"
  obtain fs1 where f1: "fs_renameat k fs (?dir c') tmp live = Some fs1"
    "publish_loop k p d tmp live cs fs1 = (fs', Inr u)"
    using "2.prems"(1) by (auto split: option.splits)
  note r = fs_renameat_ok [OF "2.prems"(2) f1(1) "2.prems"(3)]
  note fr = publish_loop_frame [OF f1(2) r(1) "2.prems"(3)]
  show ?case
  proof (cases "c = c'")
    case True
    then have "?dir c \<notin> ?dir ` set cs" using "2.prems"(4) by auto
    with fr r(2) True show ?thesis by simp
  next
    case False
    then have m: "c \<in> set cs" using "2.prems"(5) by simp
    have "?dir c \<in> ?dir ` set cs" using m by (rule imageI)
    with "2.prems"(4) have "?dir c \<noteq> ?dir c'" by auto
    with "2.IH" [OF f1 r(1) "2.prems"(3) _ m] "2.prems"(4) r(4) show ?thesis by simp
  qed
qed simp

lemma unlink_object_ok:
  assumes "fs_ok fs"
  shows "fs_ok (unlink_object k p d n suffix fs)"
    and "fs_store (unlink_object k p d n suffix fs) = fs_store fs"
    and "fs_next (unlink_object k p d n suffix fs) = fs_next fs"
    and "nm \<noteq> digest_hex d @ suffix \<Longrightarrow> fs_dirs (unlink_object k p d n suffix fs) dir nm = fs_dirs fs dir nm"
proof -
  have "fs_ok fs' \<and> fs_store fs' = fs_store fs \<and> fs_next fs' = fs_next fs \<and>
      (nm \<noteq> digest_hex d @ suffix \<longrightarrow> fs_dirs fs' dir nm = fs_dirs fs dir nm)"
    if "fs' = fold (\<lambda>c fs. fs_unlinkat k fs (pool_dirfds p ! chunk_drive p d c) (digest_hex d @ suffix)) cs fs" for cs fs'
    using that assms
  proof (induction cs arbitrary: fs)
    case (Cons c cs)
    from Cons.IH [OF _ fs_unlinkat_ok(1) [OF Cons.prems(2)]] Cons.prems(1) fs_unlinkat_ok [OF Cons.prems(2)]
    show ?case by auto
  qed simp
  note this [OF refl, of "[0..<files_used (pool_drives p) n]"]
  with assms show "fs_ok (unlink_object k p d n suffix fs)"
    "fs_store (unlink_object k p d n suffix fs) = fs_store fs"
    "fs_next (unlink_object k p d n suffix fs) = fs_next fs"
    "nm \<noteq> digest_hex d @ suffix \<Longrightarrow> fs_dirs (unlink_object k p d n suffix fs) dir nm = fs_dirs fs dir nm"
    by (auto simp: unlink_object_def)
qed

text \<open>
  Asking for direct I/O has no effect: a pool that \<open>Pool::open\<close> returns never has
  the flag set, because the move into the result drops it, so object files are opened without
  \<^verbatim>\<open>O_DIRECT\<close>.
\<close>

theorem pool_open_drops_direct_io:
  "pool_open k dir_names unit direct_io = Inr p \<Longrightarrow> \<not> pool_direct_io p"
  by (auto simp: pool_open_def pool_move_def split: if_splits sum.splits)

definition ideal_kernel :: kernel where
  "ideal_kernel = \<lparr>kn_opendir = (\<lambda>s. Some (length s)), kn_open = (\<lambda>_ _. True), kn_rename = (\<lambda>_ _. True),
     kn_unlink = (\<lambda>_ _. True), kn_pwrite = (\<lambda>_ _ n. int n), kn_read = regular_read, kn_sq = (\<lambda>_. True)\<rparr>"

theorem pool_open_drops_direct_io_witness:
  "\<exists>p. pool_open ideal_kernel [''/mnt/ssd''] 65536 True = Inr p \<and> \<not> pool_direct_io p"
proof -
  obtain p where e: "pool_open ideal_kernel [''/mnt/ssd''] 65536 True = Inr p"
    by (simp add: pool_open_def ideal_kernel_def)
  show ?thesis using e pool_open_drops_direct_io [OF e] by blast
qed

end
