(* ===== verification/Region_Allocator.thy ===== *)
theory Region_Allocator
  imports Prelude
begin

text \<open>
  The contract of a RAM allocator, as the head cache relies on it: an allocation yields a
  region inside the arena that overlaps no live region, and giving one region back leaves the
  others alone. The locale is interpreted on \<^verbatim>\<open>BuddyAllocator\<close> (one arena) and on
  \<^verbatim>\<open>BufferPool\<close> (many arenas behind one address space).
\<close>

text \<open>A client script: allocate some bytes, or free the i-th live region.\<close>

datatype alloc_op = Alloc nat | Free nat

fun alloc_run ::
  "('s \<Rightarrow> nat \<Rightarrow> (nat \<times> 's) option) \<Rightarrow> ('s \<Rightarrow> nat \<Rightarrow> nat \<Rightarrow> 's) \<Rightarrow>
     's \<Rightarrow> (nat \<times> nat) list \<Rightarrow> alloc_op list \<Rightarrow> 's \<times> (nat \<times> nat) list" where
  "alloc_run al de s L [] = (s, L)"
| "alloc_run al de s L (Alloc n # ops) =
     (case al s n of
        None \<Rightarrow> alloc_run al de s L ops
      | Some (off, s') \<Rightarrow> alloc_run al de s' ((off, n) # L) ops)"
| "alloc_run al de s L (Free i # ops) =
     (if i < length L
      then alloc_run al de (de s (fst (L ! i)) (snd (L ! i))) (remove1 (L ! i) L) ops
      else alloc_run al de s L ops)"

text \<open>A property both operations keep holds after any script.\<close>

lemma alloc_run_keeps:
  assumes "\<And>s n off s'. P s \<Longrightarrow> al s n = Some (off, s') \<Longrightarrow> P s'"
    and "\<And>s off n. P s \<Longrightarrow> P (de s off n)"
  shows "P s \<Longrightarrow> alloc_run al de s L ops = (s', L') \<Longrightarrow> P s'"
proof (induction ops arbitrary: s L)
  case (Cons op ops)
  then show ?case
    by (cases op) (auto split: option.splits if_splits intro: assms)
qed simp

text \<open>No two regions of a list share an address.\<close>

primrec apart :: "(nat \<times> nat) list \<Rightarrow> bool" where
  "apart [] \<longleftrightarrow> True"
| "apart (r # L) \<longleftrightarrow>
     apart L \<and> (\<forall>r' \<in> set L. fst r + snd r \<le> fst r' \<or> fst r' + snd r' \<le> fst r)"

lemma apart_bytes_le:
  assumes "apart L" and "\<forall>r \<in> set L. fst r + snd r \<le> N"
  shows "sum_list (map snd L) \<le> N"
proof -
  let ?I = "\<lambda>r::nat \<times> nat. {fst r ..< fst r + snd r}"
  have "sum_list (map snd L) = card (\<Union> (?I ` set L))"
    using assms(1)
  proof (induction L)
    case (Cons r L)
    then have "?I r \<inter> \<Union> (?I ` set L) = {}"
      by fastforce
    with Cons show ?case
      by (simp add: card_Un_disjoint)
  qed simp
  also have "\<dots> \<le> card {..<N}"
    using assms(2) by (intro card_mono) fastforce+
  finally show ?thesis by simp
qed

lemma apart_shrink:
  assumes "apart (map (\<lambda>(off, n). (off, g n)) L)" and "\<forall>(off, n) \<in> set L. n \<le> g n"
  shows "apart L"
  using assms by (induction L) fastforce+

locale region_allocator =
  fixes alloc :: "'s \<Rightarrow> nat \<Rightarrow> (nat \<times> 's) option"
    and dealloc :: "'s \<Rightarrow> nat \<Rightarrow> nat \<Rightarrow> 's"
    and live :: "'s \<Rightarrow> (nat \<times> nat) list \<Rightarrow> bool"
    and capacity :: "'s \<Rightarrow> nat"
  assumes alloc_live: "live s L \<Longrightarrow> alloc s n = Some (off, s') \<Longrightarrow> live s' ((off, n) # L)"
    and dealloc_live:
      "live s L \<Longrightarrow> (off, n) \<in> set L \<Longrightarrow> live (dealloc s off n) (remove1 (off, n) L)"
    and live_bounds: "live s L \<Longrightarrow> (off, n) \<in> set L \<Longrightarrow> 0 < n \<and> off + n \<le> capacity s"
    and live_apart: "live s L \<Longrightarrow> apart L"
    and capacity_alloc: "live s L \<Longrightarrow> alloc s n = Some (off, s') \<Longrightarrow> capacity s' = capacity s"
    and capacity_dealloc: "live s L \<Longrightarrow> (off, n) \<in> set L \<Longrightarrow> capacity (dealloc s off n) = capacity s"
begin

text \<open>A new region stays in the arena and clear of every live region.\<close>

lemma alloc_disjoint:
  assumes "live s L" and "alloc s n = Some (off, s')"
  shows "0 < n \<and> off + n \<le> capacity s" and "(off', n') \<in> set L \<Longrightarrow> off + n \<le> off' \<or> off' + n' \<le> off"
proof -
  have l: "live s' ((off, n) # L)" using assms by (rule alloc_live)
  show "0 < n \<and> off + n \<le> capacity s"
    using live_bounds [OF l, of off n] capacity_alloc [OF assms] by simp
  show "(off', n') \<in> set L \<Longrightarrow> off + n \<le> off' \<or> off' + n' \<le> off"
    using live_apart [OF l] by fastforce
qed

text \<open>The live bytes fit the arena.\<close>

lemma live_bytes_le: "live s L \<Longrightarrow> sum_list (map snd L) \<le> capacity s"
  using apart_bytes_le [OF live_apart, of s L "capacity s"] live_bounds by fastforce

text \<open>Whatever the client script, the live regions stay in the arena and apart.\<close>

lemma alloc_run_live:
  "live s L \<Longrightarrow> alloc_run alloc dealloc s L ops = (s', L') \<Longrightarrow> live s' L' \<and> capacity s' = capacity s"
proof (induction ops arbitrary: s L)
  case (Cons op ops)
  show ?case
  proof (cases op)
    case (Alloc n)
    show ?thesis
    proof (cases "alloc s n")
      case None
      with Cons Alloc show ?thesis by simp
    next
      case (Some p)
      then obtain off t where p: "alloc s n = Some (off, t)" by (cases p) simp
      with Cons.prems Alloc have "alloc_run alloc dealloc t ((off, n) # L) ops = (s', L')" by simp
      from Cons.IH [OF alloc_live [OF Cons.prems(1) p] this] capacity_alloc [OF Cons.prems(1) p]
      show ?thesis by simp
    qed
  next
    case (Free i)
    show ?thesis
    proof (cases "i < length L")
      case True
      then have mem: "(fst (L ! i), snd (L ! i)) \<in> set L" by simp
      from True Cons.prems Free have
        "alloc_run alloc dealloc (dealloc s (fst (L ! i)) (snd (L ! i))) (remove1 (L ! i) L) ops = (s', L')"
        by simp
      with Cons.IH dealloc_live [OF Cons.prems(1) mem] capacity_dealloc [OF Cons.prems(1) mem]
      show ?thesis by simp
    next
      case False
      with Cons Free show ?thesis by simp
    qed
  qed
qed simp

end

end
