(* ===== verification/Buddy_Allocator.thy ===== *)
theory Buddy_Allocator
  imports Common Region_Allocator
begin

text \<open>
  The buddy allocator of \<^verbatim>\<open>core/buffer_pool.cpp\<close> (class \<^verbatim>\<open>BuddyAllocator\<close>): one power-of-two
  arena, split into power-of-two blocks. It is offset based and touches no memory. The free
  lists are stacks whose top is the last element, as \<^verbatim>\<open>std::vector\<close>'s \<^verbatim>\<open>push_back\<close> and
  \<^verbatim>\<open>pop_back\<close> have it. The invariant \<open>buddy_wf b A\<close> ties the state to a ghost list \<open>A\<close> of
  the live allocations (order and offset): every address of the arena lies in exactly one free
  or live block, and no two free buddies are left unmerged.
\<close>

section \<open>State and operations\<close>

record buddy =
  ba_arena_size :: nat
  ba_min_block :: nat
  ba_max_order :: nat
  ba_used :: nat
  ba_free :: "nat list list"

text \<open>
  \<^verbatim>\<open>for (Size bs = min_block_; bs < need; bs <<= 1) ++o;\<close>. With \<open>need \<le> 2^63\<close> the shift never
  leaves 64 bits; a zero block size, which no caller passes, would spin forever in the source.
\<close>

function order_loop :: "nat \<Rightarrow> nat \<Rightarrow> nat \<Rightarrow> nat" where
  "order_loop bs need ord =
     (if 0 < bs \<and> bs < need then order_loop (2 * bs) need (Suc ord) else ord)"
  by pat_completeness auto
termination
  by (relation "measure (\<lambda>(bs, need, ord). need - bs)") auto

declare order_loop.simps [simp del]

definition buddy_new :: "nat \<Rightarrow> nat \<Rightarrow> buddy" where
  "buddy_new arena_size min_block =
     (let ord = order_loop min_block arena_size 0 in
      \<lparr>ba_arena_size = arena_size, ba_min_block = min_block, ba_max_order = ord, ba_used = 0,
       ba_free = (replicate (ord + 1) []) [ord := [0]]\<rparr>)"

definition buddy_block_size :: "buddy \<Rightarrow> nat \<Rightarrow> nat" where
  "buddy_block_size b ord = u64 (ba_min_block b * 2 ^ ord)"

definition buddy_order_for :: "buddy \<Rightarrow> nat \<Rightarrow> nat" where
  "buddy_order_for b bytes =
     (let need = (if bytes < ba_min_block b then ba_min_block b else bytes)
      in order_loop (ba_min_block b) need 0)"

text \<open>\<^verbatim>\<open>while (o <= max_order_ && free_[o].empty()) ++o;\<close>\<close>

function find_free :: "nat list list \<Rightarrow> nat \<Rightarrow> nat \<Rightarrow> nat" where
  "find_free F mx ord = (if ord \<le> mx \<and> F ! ord = [] then find_free F mx (Suc ord) else ord)"
  by pat_completeness auto
termination
  by (relation "measure (\<lambda>(F, mx, ord). Suc mx - ord)") auto

declare find_free.simps [simp del]

text \<open>The splitting loop: each step frees the upper half of the block in hand.\<close>

function split_down :: "buddy \<Rightarrow> nat \<Rightarrow> nat \<Rightarrow> nat \<Rightarrow> nat list list \<Rightarrow> nat list list" where
  "split_down b target off ord F =
     (if target < ord then
        split_down b target off (ord - 1)
          (F[ord - 1 := F ! (ord - 1) @ [u64 (off + buddy_block_size b (ord - 1))]])
      else F)"
  by pat_completeness auto
termination
  by (relation "measure (\<lambda>(b, target, off, ord, F). ord)") auto

declare split_down.simps [simp del]

definition buddy_allocate :: "buddy \<Rightarrow> nat \<Rightarrow> (nat \<times> buddy) option" where
  "buddy_allocate b bytes =
     (if bytes = 0 \<or> bytes > ba_arena_size b then None
      else
        let target = buddy_order_for b bytes in
        if target > ba_max_order b then None
        else
          let ord = find_free (ba_free b) (ba_max_order b) target in
          if ord > ba_max_order b then None
          else
            let off = last (ba_free b ! ord);
                F = (ba_free b) [ord := butlast (ba_free b ! ord)]
            in Some (off, b\<lparr>ba_free := split_down b target off ord F,
                            ba_used := u64 (ba_used b + buddy_block_size b target)\<rparr>))"

text \<open>The coalescing loop: merge with the buddy as long as it is free.\<close>

function coalesce :: "buddy \<Rightarrow> nat \<Rightarrow> nat \<Rightarrow> nat list list \<Rightarrow> nat list list" where
  "coalesce b ord cur F =
     (let bud = cur XOR buddy_block_size b ord in
      if ord < ba_max_order b \<and> bud \<in> set (F ! ord) then
        coalesce b (Suc ord) (if cur < bud then cur else bud)
          (F[ord := remove1 bud (F ! ord)])
      else F[ord := F ! ord @ [cur]])"
  by pat_completeness auto
termination
  by (relation "measure (\<lambda>(b, ord, cur, F). ba_max_order b - ord)") auto

declare coalesce.simps [simp del]

definition buddy_deallocate :: "buddy \<Rightarrow> nat \<Rightarrow> nat \<Rightarrow> buddy" where
  "buddy_deallocate b off bytes =
     (let target = buddy_order_for b bytes in
      b\<lparr>ba_used := u64 (ba_used b + 2 ^ 64 - buddy_block_size b target),
        ba_free := coalesce b target off (ba_free b)\<rparr>)"

section \<open>Coverage: which blocks hold an address\<close>

definition covers :: "nat \<Rightarrow> nat \<Rightarrow> nat \<Rightarrow> bool" where
  "covers s off x \<longleftrightarrow> off \<le> x \<and> x < off + s"

definition cnt :: "nat \<Rightarrow> nat list \<Rightarrow> nat \<Rightarrow> nat" where
  "cnt s offs x = length (filter (\<lambda>off. covers s off x) offs)"

text \<open>Free blocks over \<open>x\<close>: the list at position \<open>o\<close> holds blocks of size \<open>s * 2 ^ o\<close>.\<close>

fun fcov :: "nat \<Rightarrow> nat list list \<Rightarrow> nat \<Rightarrow> nat" where
  "fcov s [] x = 0"
| "fcov s (fl # fls) x = cnt s fl x + fcov (2 * s) fls x"

definition acov :: "nat \<Rightarrow> (nat \<times> nat) list \<Rightarrow> nat \<Rightarrow> nat" where
  "acov mn A x = length (filter (\<lambda>(ord, off). covers (mn * 2 ^ ord) off x) A)"

definition faligned :: "nat \<Rightarrow> nat list list \<Rightarrow> bool" where
  "faligned mn F \<longleftrightarrow> (\<forall>ord < length F. \<forall>off \<in> set (F ! ord). mn * 2 ^ ord dvd off)"

definition fmerged :: "nat \<Rightarrow> nat list list \<Rightarrow> nat \<Rightarrow> bool" where
  "fmerged mn F mx \<longleftrightarrow>
     (\<forall>ord < mx. \<forall>off \<in> set (F ! ord). off XOR (mn * 2 ^ ord) \<notin> set (F ! ord))"

definition buddy_shape :: "buddy \<Rightarrow> bool" where
  "buddy_shape b \<longleftrightarrow>
     (\<exists>m. ba_min_block b = 2 ^ m \<and> ba_arena_size b = 2 ^ (m + ba_max_order b) \<and>
          m + ba_max_order b < 64) \<and>
     length (ba_free b) = Suc (ba_max_order b)"

definition buddy_wf :: "buddy \<Rightarrow> (nat \<times> nat) list \<Rightarrow> bool" where
  "buddy_wf b A \<longleftrightarrow>
     buddy_shape b \<and>
     faligned (ba_min_block b) (ba_free b) \<and>
     fmerged (ba_min_block b) (ba_free b) (ba_max_order b) \<and>
     (\<forall>(ord, off) \<in> set A. ord \<le> ba_max_order b \<and> ba_min_block b * 2 ^ ord dvd off) \<and>
     (\<forall>x. fcov (ba_min_block b) (ba_free b) x + acov (ba_min_block b) A x =
            (if x < ba_arena_size b then 1 else 0)) \<and>
     ba_used b = (\<Sum>(ord, off) \<leftarrow> A. ba_min_block b * 2 ^ ord)"

section \<open>Coverage lemmas\<close>

lemma cnt_Nil [simp]: "cnt s [] x = 0"
  by (simp add: cnt_def)

lemma cnt_snoc [simp]: "cnt s (offs @ [off]) x = cnt s offs x + of_bool (covers s off x)"
  by (simp add: cnt_def)

lemma cnt_remove1:
  "off \<in> set offs \<Longrightarrow> cnt s offs x = cnt s (remove1 off offs) x + of_bool (covers s off x)"
  using length_filter_remove1 [of off offs "\<lambda>off. covers s off x"] by (simp add: cnt_def)

lemma cnt_butlast:
  "offs \<noteq> [] \<Longrightarrow> cnt s offs x = cnt s (butlast offs) x + of_bool (covers s (last offs) x)"
  using filter_butlast_last [of offs "\<lambda>off. covers s off x"] by (simp add: cnt_def)

lemma cnt_pos: "off \<in> set offs \<Longrightarrow> covers s off x \<Longrightarrow> 0 < cnt s offs x"
  by (auto simp: cnt_def filter_empty_conv)

lemma fcov_update:
  "ord < length F \<Longrightarrow>
     fcov s (F[ord := l]) x + cnt (s * 2 ^ ord) (F ! ord) x = fcov s F x + cnt (s * 2 ^ ord) l x"
proof (induction F arbitrary: s ord)
  case (Cons fl F)
  show ?case
  proof (cases ord)
    case (Suc o')
    with Cons.prems Cons.IH [of o' "2 * s"] show ?thesis
      by (simp add: mult.assoc mult.left_commute)
  qed simp
qed simp

lemma fcov_ge_cnt: "ord < length F \<Longrightarrow> cnt (s * 2 ^ ord) (F ! ord) x \<le> fcov s F x"
proof (induction F arbitrary: s ord)
  case (Cons fl F)
  then show ?case
    using Cons.IH [of "ord - 1" "2 * s"]
    by (cases ord) (auto simp: mult.assoc mult.left_commute intro: trans_le_add2)
qed simp

lemma fcov_pos_ex:
  "0 < fcov s F x \<Longrightarrow> \<exists>ord < length F. \<exists>off \<in> set (F ! ord). covers (s * 2 ^ ord) off x"
proof (induction F arbitrary: s)
  case (Cons fl F)
  show ?case
  proof (cases "0 < cnt s fl x")
    case True
    then obtain off where "off \<in> set fl" "covers s off x"
      by (auto simp: cnt_def filter_empty_conv)
    then show ?thesis by (intro exI [of _ 0]) auto
  next
    case False
    with Cons.prems have "0 < fcov (2 * s) F x" by simp
    from Cons.IH [OF this] obtain ord off where
      "ord < length F" "off \<in> set (F ! ord)" "covers (2 * s * 2 ^ ord) off x" by blast
    then show ?thesis
      by (intro exI [of _ "Suc ord"]) (auto simp: mult.assoc mult.left_commute)
  qed
qed simp

lemma covers_split:
  "of_bool (covers (2 * s) off x) =
     (of_bool (covers s off x) + of_bool (covers s (off + s) x) :: nat)"
  by (auto simp: covers_def)

text \<open>Two buddies make up the block of twice the size at the lower offset.\<close>

lemma buddy_pair:
  assumes "s = 2 ^ n" and "s dvd cur"
  defines "bud \<equiv> cur XOR s"
  defines "lo \<equiv> (if cur < bud then cur else bud)"
  shows "of_bool (covers s cur x) + of_bool (covers s bud x) = (of_bool (covers (2 * s) lo x) :: nat)"
    and "2 * s dvd lo" and "bud \<noteq> cur"
proof -
  obtain k where k: "cur = k * s" using assms(2) by (metis dvd_def mult.commute)
  have bud: "bud = (if even k then (k + 1) * s else (k - 1) * s)"
    unfolding bud_def k assms(1) by (simp only: xor_scaled nat_xor_one split: if_split) simp
  have s: "0 < s" using assms(1) by simp
  have k1: "0 < k" if "odd k" using that by (cases k) auto
  show "bud \<noteq> cur"
    using s k1 unfolding bud k by auto
  have lo: "lo = (if even k then k * s else (k - 1) * s)"
    unfolding lo_def bud using k s k1 by auto
  show "2 * s dvd lo"
    unfolding lo by (auto elim!: evenE oddE)
  show "of_bool (covers s cur x) + of_bool (covers s bud x) = (of_bool (covers (2 * s) lo x) :: nat)"
  proof (cases "even k")
    case True
    have "(k + 1) * s = k * s + s" by simp
    with True show ?thesis
      unfolding lo bud k using covers_split [of s "k * s" x] by (simp add: add.commute)
  next
    case False
    then obtain j where j: "k = j + 1" using k1 by (metis Suc_eq_plus1 gr0_implies_Suc)
    then have "k * s = (k - 1) * s + s" by simp
    with False show ?thesis
      unfolding lo bud k using covers_split [of s "(k - 1) * s" x] by (simp only: if_False)
  qed
qed

section \<open>The loops under the invariant\<close>

lemma buddy_shapeD:
  assumes "buddy_shape b"
  obtains m where "ba_min_block b = 2 ^ m" and "ba_arena_size b = 2 ^ (m + ba_max_order b)"
    and "m + ba_max_order b < 64" and "length (ba_free b) = Suc (ba_max_order b)"
  using assms by (auto simp: buddy_shape_def)

lemma block_size_exact:
  assumes "buddy_shape b" and "ord \<le> ba_max_order b"
  shows "buddy_block_size b ord = ba_min_block b * 2 ^ ord"
    and "ba_min_block b * 2 ^ ord \<le> ba_arena_size b"
    and "ba_arena_size b < 2 ^ 64"
    and "0 < ba_min_block b * 2 ^ ord"
proof -
  obtain m where m: "ba_min_block b = 2 ^ m" "ba_arena_size b = 2 ^ (m + ba_max_order b)"
    "m + ba_max_order b < 64"
    using assms(1) by (rule buddy_shapeD)
  show "ba_min_block b * 2 ^ ord \<le> ba_arena_size b"
    unfolding m power_add [symmetric] using assms(2) by (intro power_increasing) auto
  moreover show "ba_arena_size b < 2 ^ 64"
    unfolding m using m(3) by (intro power_strict_increasing) auto
  ultimately show "buddy_block_size b ord = ba_min_block b * 2 ^ ord"
    unfolding buddy_block_size_def by (intro u64_id) (rule le_less_trans)
  show "0 < ba_min_block b * 2 ^ ord" by (simp add: m)
qed

lemma order_loop_spec:
  assumes "0 < bs"
  shows "order_loop bs need ord \<ge> ord \<and> need \<le> bs * 2 ^ (order_loop bs need ord - ord) \<and>
    (order_loop bs need ord = ord \<or> bs * 2 ^ (order_loop bs need ord - ord) < 2 * need)"
  using assms
proof (induction bs need ord rule: order_loop.induct)
  case (1 bs need ord)
  show ?case
  proof (cases "bs < need")
    case True
    define r where "r = order_loop (2 * bs) need (Suc ord)"
    have unf: "order_loop bs need ord = r"
      using True "1.prems" by (simp add: order_loop.simps [of bs need ord] r_def)
    have ih: "Suc ord \<le> r" "need \<le> 2 * bs * 2 ^ (r - Suc ord)"
      "r = Suc ord \<or> 2 * bs * 2 ^ (r - Suc ord) < 2 * need"
      using "1.IH" True "1.prems" unfolding r_def by auto
    have eq: "2 * bs * 2 ^ (r - Suc ord) = bs * 2 ^ (r - ord)"
      using ih(1) by (simp add: Suc_diff_le [symmetric] flip: power_Suc)
    have "bs * 2 ^ (r - ord) < 2 * need"
      using ih(3) True by (auto simp: eq [symmetric])
    then show ?thesis
      unfolding unf using ih(1,2) by (simp only: eq) simp
  next
    case False
    then show ?thesis by (simp add: order_loop.simps [of bs need ord])
  qed
qed

lemma buddy_order_for_spec:
  assumes "buddy_shape b"
  shows "bytes \<le> ba_min_block b * 2 ^ buddy_order_for b bytes"
    and "bytes \<le> ba_arena_size b \<Longrightarrow> buddy_order_for b bytes \<le> ba_max_order b"
proof -
  obtain m where m: "ba_min_block b = 2 ^ m" "ba_arena_size b = 2 ^ (m + ba_max_order b)"
    using assms by (rule buddy_shapeD)
  define need where "need = (if bytes < ba_min_block b then ba_min_block b else bytes)"
  define r where "r = buddy_order_for b bytes"
  have sp: "need \<le> 2 ^ m * 2 ^ r" "r = 0 \<or> 2 ^ m * 2 ^ r < 2 * need"
    using order_loop_spec [where bs = "ba_min_block b" and need = need and ord = 0]
    by (auto simp: r_def need_def buddy_order_for_def Let_def m)
  show "bytes \<le> ba_min_block b * 2 ^ buddy_order_for b bytes"
    using sp(1) by (rule_tac le_trans [of _ need]) (simp_all add: need_def m r_def)
  assume "bytes \<le> ba_arena_size b"
  then have "need \<le> 2 ^ (m + ba_max_order b)"
    by (auto simp: need_def m power_add)
  then have "2 * need \<le> 2 ^ Suc (m + ba_max_order b)" by simp
  with sp(2) have "r = 0 \<or> (2::nat) ^ (m + r) < 2 ^ Suc (m + ba_max_order b)"
    unfolding power_add [of 2 m r] by (auto intro: less_le_trans)
  then have "r \<le> ba_max_order b"
    by (auto simp only: power_strict_increasing_iff)
  then show "buddy_order_for b bytes \<le> ba_max_order b" by (simp add: r_def)
qed

lemma find_free_spec:
  "ord \<le> find_free F mx ord \<and> (\<forall>j. ord \<le> j \<longrightarrow> j < find_free F mx ord \<longrightarrow> F ! j = []) \<and>
   (find_free F mx ord \<le> mx \<longrightarrow> F ! find_free F mx ord \<noteq> [])"
proof (induction F mx ord rule: find_free.induct)
  case (1 F mx ord)
  show ?case
  proof (cases "ord \<le> mx \<and> F ! ord = []")
    case True
    then have unf: "find_free F mx ord = find_free F mx (Suc ord)"
      by (simp add: find_free.simps [of F mx ord])
    have "F ! j = []" if "ord \<le> j" and "j < find_free F mx (Suc ord)" for j
      using "1.IH" [OF True] True that by (cases "j = ord") auto
    with "1.IH" [OF True] show ?thesis
      unfolding unf by simp
  next
    case False
    then show ?thesis by (auto simp: find_free.simps [of F mx ord])
  qed
qed

lemma length_split_down [simp]: "length (split_down b target off ord F) = length F"
  by (induction b target off ord F rule: split_down.induct) (subst split_down.simps, simp)

lemma length_coalesce [simp]: "length (coalesce b ord cur F) = length F"
  by (induction b ord cur F rule: coalesce.induct) (subst coalesce.simps, simp add: Let_def)

lemma split_down_nth:
  "j < length F \<Longrightarrow> split_down b target off ord F ! j =
     (if target \<le> j \<and> j < ord then F ! j @ [u64 (off + buddy_block_size b j)] else F ! j)"
proof (induction b target off ord F rule: split_down.induct)
  case (1 b target off ord F)
  show ?case
  proof (cases "target < ord")
    case True
    with "1.IH" [OF True] "1.prems" show ?thesis
      by (subst split_down.simps) (auto simp: nth_list_update)
  next
    case False
    then show ?thesis by (subst split_down.simps) auto
  qed
qed

lemma split_down_cov:
  assumes "buddy_shape b" and "ord \<le> ba_max_order b" and "target \<le> ord"
    and "length F = Suc (ba_max_order b)" and "off + ba_min_block b * 2 ^ ord \<le> ba_arena_size b"
  shows "fcov (ba_min_block b) (split_down b target off ord F) x +
      of_bool (covers (ba_min_block b * 2 ^ target) off x) =
    fcov (ba_min_block b) F x + of_bool (covers (ba_min_block b * 2 ^ ord) off x)"
  using assms
proof (induction b target off ord F rule: split_down.induct)
  case (1 b target off ord F)
  show ?case
  proof (cases "target < ord")
    case True
    let ?mn = "ba_min_block b" and ?p = "ord - 1"
    let ?F = "F[?p := F ! ?p @ [u64 (off + buddy_block_size b ?p)]]"
    have p: "?p \<le> ba_max_order b" "?p < length F" "ord = Suc ?p" using True "1.prems" by auto
    have sz: "buddy_block_size b ?p = ?mn * 2 ^ ?p" "ba_arena_size b < 2 ^ 64"
      using block_size_exact [OF "1.prems"(1) p(1)] by auto
    have dbl: "?mn * 2 ^ ord = 2 * (?mn * 2 ^ ?p)" by (subst p(3)) simp
    have nowrap: "u64 (off + buddy_block_size b ?p) = off + ?mn * 2 ^ ?p"
      using "1.prems"(5) sz dbl by (simp add: u64_id)
    have "fcov ?mn ?F x = fcov ?mn F x + of_bool (covers (?mn * 2 ^ ?p) (off + ?mn * 2 ^ ?p) x)"
      using fcov_update [OF p(2), of ?mn "F ! ?p @ [u64 (off + buddy_block_size b ?p)]" x] nowrap
      by simp
    moreover have "fcov ?mn (split_down b target off ?p ?F) x +
        of_bool (covers (?mn * 2 ^ target) off x) =
      fcov ?mn ?F x + of_bool (covers (?mn * 2 ^ ?p) off x)"
      using True "1.prems" p dbl by (intro "1.IH") auto
    ultimately show ?thesis
      using True covers_split [of "?mn * 2 ^ ?p" off x]
      by (subst split_down.simps) (simp add: dbl)
  next
    case False
    with "1.prems" show ?thesis by (subst split_down.simps) simp
  qed
qed

lemma fmerged_push:
  assumes "fmerged mn F mx" and "ord < length F"
    and "ord < mx \<Longrightarrow> cur XOR (mn * 2 ^ ord) \<notin> set (F ! ord)"
    and "cur XOR (mn * 2 ^ ord) \<noteq> cur"
  shows "fmerged mn (F[ord := F ! ord @ [cur]]) mx"
proof -
  have "off XOR (mn * 2 ^ ord) \<noteq> cur" if "off \<in> set (F ! ord)" "ord < mx" for off
  proof
    assume "off XOR (mn * 2 ^ ord) = cur"
    then have "cur XOR (mn * 2 ^ ord) = off" by (auto simp: xor.assoc)
    with assms(3) that show False by simp
  qed
  with assms show ?thesis
    unfolding fmerged_def by (auto simp: nth_list_update)
qed

lemma fmerged_shrink:
  "fmerged mn F mx \<Longrightarrow> set l \<subseteq> set (F ! ord) \<Longrightarrow> fmerged mn (F[ord := l]) mx"
  unfolding fmerged_def
  by (cases "ord < length F") (auto simp: nth_list_update list_update_beyond)

lemma coalesce_spec:
  assumes "buddy_shape b" and "ord \<le> ba_max_order b" and "length F = Suc (ba_max_order b)"
    and "faligned (ba_min_block b) F" and "fmerged (ba_min_block b) F (ba_max_order b)"
    and "ba_min_block b * 2 ^ ord dvd cur"
  shows "fcov (ba_min_block b) (coalesce b ord cur F) x =
      fcov (ba_min_block b) F x + of_bool (covers (ba_min_block b * 2 ^ ord) cur x) \<and>
    faligned (ba_min_block b) (coalesce b ord cur F) \<and>
    fmerged (ba_min_block b) (coalesce b ord cur F) (ba_max_order b)"
  using assms
proof (induction b ord cur F rule: coalesce.induct)
  case (1 b ord cur F)
  let ?mn = "ba_min_block b"
  let ?s = "?mn * 2 ^ ord"
  define bud where "bud = cur XOR buddy_block_size b ord"
  obtain m where m: "?mn = 2 ^ m" using "1.prems"(1) by (rule buddy_shapeD)
  have s2: "?s = 2 ^ (m + ord)" by (simp add: m power_add)
  have sz: "buddy_block_size b ord = ?s"
    using "1.prems"(1,2) by (rule block_size_exact)
  have budx: "bud = cur XOR ?s" by (simp add: bud_def sz)
  note pair = buddy_pair [OF s2 "1.prems"(6), folded budx]
  have ord: "ord < length F" using "1.prems"(2,3) by simp
  show ?case
  proof (cases "ord < ba_max_order b \<and> bud \<in> set (F ! ord)")
    case True
    let ?lo = "if cur < bud then cur else bud"
    let ?F = "F[ord := remove1 bud (F ! ord)]"
    have unf: "coalesce b ord cur F = coalesce b (Suc ord) ?lo ?F"
      using True by (subst coalesce.simps) (simp add: bud_def [symmetric] Let_def)
    have fa: "faligned ?mn ?F"
      using "1.prems"(4) ord unfolding faligned_def
      by (auto simp: nth_list_update dest: notin_set_remove1 [rotated])
    have fm: "fmerged ?mn ?F (ba_max_order b)"
      using "1.prems"(5) by (rule fmerged_shrink) (rule set_remove1_subset)
    have al: "?mn * 2 ^ Suc ord dvd ?lo"
      using pair(2) by (simp add: mult.left_commute)
    have "fcov ?mn ?F x + of_bool (covers ?s bud x) = fcov ?mn F x"
      using fcov_update [OF ord, of ?mn "remove1 bud (F ! ord)" x] cnt_remove1 [of bud "F ! ord" ?s x]
        True by simp
    moreover have "of_bool (covers (?mn * 2 ^ Suc ord) ?lo x) =
        (of_bool (covers ?s cur x) + of_bool (covers ?s bud x) :: nat)"
      using pair(1) [of x] by (simp add: mult.left_commute)
    ultimately show ?thesis
      unfolding unf
      using "1.IH" [OF bud_def] True "1.prems"(1,3) fa fm al by simp
  next
    case False
    then have unf: "coalesce b ord cur F = F[ord := F ! ord @ [cur]]"
      by (subst coalesce.simps) (auto simp: bud_def [symmetric] Let_def)
    have "faligned ?mn (F[ord := F ! ord @ [cur]])"
      using "1.prems"(4,6) ord unfolding faligned_def by (auto simp: nth_list_update)
    moreover have "fmerged ?mn (F[ord := F ! ord @ [cur]]) (ba_max_order b)"
      using "1.prems"(5) ord False pair(3) by (intro fmerged_push) (auto simp: budx)
    moreover have "fcov ?mn (F[ord := F ! ord @ [cur]]) x = fcov ?mn F x + of_bool (covers ?s cur x)"
      using fcov_update [OF ord, of ?mn "F ! ord @ [cur]" x] by simp
    ultimately show ?thesis unfolding unf by simp
  qed
qed

section \<open>What the invariant says\<close>

lemma buddy_wfD:
  assumes "buddy_wf b A"
  shows "buddy_shape b" and "faligned (ba_min_block b) (ba_free b)"
    and "fmerged (ba_min_block b) (ba_free b) (ba_max_order b)"
    and "(ord, off) \<in> set A \<Longrightarrow> ord \<le> ba_max_order b \<and> ba_min_block b * 2 ^ ord dvd off"
    and "fcov (ba_min_block b) (ba_free b) x + acov (ba_min_block b) A x =
           (if x < ba_arena_size b then 1 else 0)"
    and "ba_used b = (\<Sum>(ord, off) \<leftarrow> A. ba_min_block b * 2 ^ ord)"
    and "length (ba_free b) = Suc (ba_max_order b)"
  using assms by (auto simp: buddy_wf_def buddy_shape_def)

lemma buddy_wfI:
  assumes "buddy_shape b" and "faligned (ba_min_block b) (ba_free b)"
    and "fmerged (ba_min_block b) (ba_free b) (ba_max_order b)"
    and "\<And>ord off. (ord, off) \<in> set A \<Longrightarrow> ord \<le> ba_max_order b \<and> ba_min_block b * 2 ^ ord dvd off"
    and "\<And>x. fcov (ba_min_block b) (ba_free b) x + acov (ba_min_block b) A x =
           (if x < ba_arena_size b then 1 else 0)"
    and "ba_used b = (\<Sum>(ord, off) \<leftarrow> A. ba_min_block b * 2 ^ ord)"
  shows "buddy_wf b A"
  using assms by (auto simp: buddy_wf_def)

lemma acov_Cons:
  "acov mn ((ord, off) # A) x = of_bool (covers (mn * 2 ^ ord) off x) + acov mn A x"
  by (simp add: acov_def)

lemma acov_remove1:
  "(ord, off) \<in> set A \<Longrightarrow>
     acov mn A x = acov mn (remove1 (ord, off) A) x + of_bool (covers (mn * 2 ^ ord) off x)"
  using length_filter_remove1 [of "(ord, off)" A "\<lambda>(ord, off). covers (mn * 2 ^ ord) off x"]
  by (simp add: acov_def)

lemma acov_pos: "(ord, off) \<in> set A \<Longrightarrow> covers (mn * 2 ^ ord) off x \<Longrightarrow> 0 < acov mn A x"
  by (simp add: acov_remove1)

lemma in_arena_if_covered:
  assumes "0 < s" and "\<And>x. covers s off x \<Longrightarrow> x < (N::nat)"
  shows "off + s \<le> N"
proof -
  have "covers s off (off + s - 1)" using assms(1) by (auto simp: covers_def)
  then have "off + s - 1 < N" by (rule assms(2))
  then show ?thesis using assms(1) by simp
qed

lemma buddy_free_range:
  assumes "buddy_wf b A" and "ord \<le> ba_max_order b" and "off \<in> set (ba_free b ! ord)"
  shows "off + ba_min_block b * 2 ^ ord \<le> ba_arena_size b"
proof (rule in_arena_if_covered)
  show "0 < ba_min_block b * 2 ^ ord"
    using block_size_exact [OF buddy_wfD(1) [OF assms(1)] assms(2)] by simp
  fix x
  assume "covers (ba_min_block b * 2 ^ ord) off x"
  then have "0 < cnt (ba_min_block b * 2 ^ ord) (ba_free b ! ord) x"
    using assms(3) by (rule cnt_pos [rotated])
  then have "0 < fcov (ba_min_block b) (ba_free b) x"
    using fcov_ge_cnt [of ord "ba_free b" "ba_min_block b" x] buddy_wfD(7) [OF assms(1)] assms(2)
    by simp
  then show "x < ba_arena_size b"
    using buddy_wfD(5) [OF assms(1), of x] by (simp split: if_splits)
qed

lemma buddy_live_range:
  assumes "buddy_wf b A" and "(ord, off) \<in> set A"
  shows "off + ba_min_block b * 2 ^ ord \<le> ba_arena_size b"
proof (rule in_arena_if_covered)
  show "0 < ba_min_block b * 2 ^ ord"
    using block_size_exact [OF buddy_wfD(1) [OF assms(1)], of ord] buddy_wfD(4) [OF assms] by simp
  fix x
  assume "covers (ba_min_block b * 2 ^ ord) off x"
  then have "0 < acov (ba_min_block b) A x"
    using assms(2) by (rule acov_pos [rotated])
  then show "x < ba_arena_size b"
    using buddy_wfD(5) [OF assms(1), of x] by (simp split: if_splits)
qed

text \<open>The bytes of the live blocks add up to the addresses they cover.\<close>

lemma card_covers: "off + s \<le> N \<Longrightarrow> card ({..<N} \<inter> Collect (covers s off)) = s"
proof -
  assume "off + s \<le> N"
  then have "{..<N} \<inter> Collect (covers s off) = {off..<off + s}"
    by (auto simp: covers_def)
  then show ?thesis by simp
qed

lemma sum_acov:
  "\<forall>(ord, off) \<in> set A. off + mn * 2 ^ ord \<le> N \<Longrightarrow>
     (\<Sum>x<N. acov mn A x) = (\<Sum>(ord, off) \<leftarrow> A. mn * 2 ^ ord)"
proof (induction A)
  case (Cons p A)
  obtain ord off where p: "p = (ord, off)" by (cases p)
  show ?case
    using Cons by (simp add: p acov_Cons sum.distrib card_covers)
qed (simp add: acov_def)

lemma live_sum_le:
  assumes "\<And>x. F x + acov mn A x = (if x < N then 1 else (0::nat))" and "0 < mn"
  shows "(\<Sum>(ord, off) \<leftarrow> A. mn * 2 ^ ord) \<le> N"
proof -
  have "off + mn * 2 ^ ord \<le> N" if "(ord, off) \<in> set A" for ord off
  proof (rule in_arena_if_covered)
    show "0 < mn * 2 ^ ord" using assms(2) by simp
    show "x < N" if "covers (mn * 2 ^ ord) off x" for x
      using assms(1) [of x] acov_pos [OF \<open>(ord, off) \<in> set A\<close> that] by (simp split: if_splits)
  qed
  then have "(\<Sum>(ord, off) \<leftarrow> A. mn * 2 ^ ord) = (\<Sum>x<N. acov mn A x)"
    by (intro sum_acov [symmetric]) auto
  also have "\<dots> \<le> (\<Sum>x<N. 1)"
    using assms(1) by (intro sum_mono) (metis le_add2 lessThan_iff)
  finally show ?thesis by simp
qed

lemma min_block_pos: "buddy_shape b \<Longrightarrow> 0 < ba_min_block b"
  by (auto simp: buddy_shape_def)

lemma buddy_used_le:
  assumes "buddy_wf b A"
  shows "ba_used b \<le> ba_arena_size b"
  unfolding buddy_wfD(6) [OF assms]
  by (rule live_sum_le [OF buddy_wfD(5) [OF assms] min_block_pos [OF buddy_wfD(1) [OF assms]]])

section \<open>Allocation and deallocation\<close>

lemma buddy_allocate_cases:
  assumes "buddy_wf b A" and "0 < bytes" and "bytes \<le> ba_arena_size b"
  obtains
    (full) "buddy_allocate b bytes = None"
      "\<forall>j. buddy_order_for b bytes \<le> j \<and> j \<le> ba_max_order b \<longrightarrow> ba_free b ! j = []"
  | (got) ord off where "buddy_order_for b bytes \<le> ord" "ord \<le> ba_max_order b"
      "off = last (ba_free b ! ord)" "ba_free b ! ord \<noteq> []"
      "\<forall>j. buddy_order_for b bytes \<le> j \<and> j < ord \<longrightarrow> ba_free b ! j = []"
      "buddy_allocate b bytes = Some (off,
         b\<lparr>ba_free := split_down b (buddy_order_for b bytes) off ord
              ((ba_free b) [ord := butlast (ba_free b ! ord)]),
           ba_used := u64 (ba_used b + buddy_block_size b (buddy_order_for b bytes))\<rparr>)"
proof -
  let ?t = "buddy_order_for b bytes"
  let ?o = "find_free (ba_free b) (ba_max_order b) ?t"
  have t: "?t \<le> ba_max_order b"
    using buddy_order_for_spec(2) [OF buddy_wfD(1) [OF assms(1)] assms(3)] .
  note f = find_free_spec [where F = "ba_free b" and mx = "ba_max_order b" and ord = ?t]
  show thesis
  proof (cases "?o \<le> ba_max_order b")
    case True
    with f t assms(2,3) show thesis
      by (intro got [of ?o]) (auto simp: buddy_allocate_def Let_def)
  next
    case False
    with f t assms(2,3) show thesis
      by (intro full) (auto simp: buddy_allocate_def Let_def)
  qed
qed

text \<open>The state after taking a block of order \<open>ord\<close> and splitting it down to the target.\<close>

lemma buddy_take_wf:
  assumes wf: "buddy_wf b A" and t: "t \<le> ord" and o: "ord \<le> ba_max_order b"
    and ne: "ba_free b ! ord \<noteq> []" and off: "off = last (ba_free b ! ord)"
    and empty: "\<forall>j. t \<le> j \<and> j < ord \<longrightarrow> ba_free b ! j = []"
    and b': "b' = b\<lparr>ba_free := split_down b t off ord ((ba_free b) [ord := butlast (ba_free b ! ord)]),
       ba_used := u64 (ba_used b + buddy_block_size b t)\<rparr>"
  shows "buddy_wf b' ((t, off) # A)"
proof -
  let ?mn = "ba_min_block b" and ?F = "(ba_free b) [ord := butlast (ba_free b ! ord)]"
  let ?F' = "split_down b t off ord ?F"
  note sh = buddy_wfD(1) [OF wf] and len = buddy_wfD(7) [OF wf]
  have olen: "ord < length (ba_free b)" using o len by simp
  have mem: "off \<in> set (ba_free b ! ord)" using ne off by simp
  have range: "off + ?mn * 2 ^ ord \<le> ba_arena_size b" by (rule buddy_free_range [OF wf o mem])
  have lim: "ba_arena_size b < 2 ^ 64" using block_size_exact(3) [OF sh o] .
  have dvd: "?mn * 2 ^ j dvd off" if "j \<le> ord" for j
  proof -
    have "?mn * 2 ^ j dvd ?mn * 2 ^ ord" using that by (intro mult_dvd_mono le_imp_power_dvd) auto
    also have "\<dots> dvd off" using buddy_wfD(2) [OF wf] olen mem by (auto simp: faligned_def)
    finally show ?thesis .
  qed
  have half: "u64 (off + buddy_block_size b j) = off + ?mn * 2 ^ j" if "j < ord" for j
  proof -
    have "?mn * 2 ^ j \<le> ?mn * 2 ^ ord" using that by (intro mult_le_mono2 power_increasing) auto
    with range lim have "off + ?mn * 2 ^ j < 2 ^ 64" by linarith
    then show ?thesis using block_size_exact(1) [OF sh, of j] that o by (simp add: u64_id)
  qed
  have nth: "?F' ! j = (if t \<le> j \<and> j < ord then [off + ?mn * 2 ^ j]
      else if j = ord then butlast (ba_free b ! ord) else ba_free b ! j)"
    if "j \<le> ba_max_order b" for j
    using that len olen empty half [of j] by (auto simp: split_down_nth nth_list_update)
  have al: "faligned ?mn ?F'"
    using buddy_wfD(2) [OF wf] len dvd unfolding faligned_def
    by (auto simp: nth less_Suc_eq_le dest: in_set_butlastD)
  obtain m where m: "?mn = 2 ^ m" using sh by (rule buddy_shapeD)
  have lone: "(off + ?mn * 2 ^ j) XOR (?mn * 2 ^ j) \<noteq> off + ?mn * 2 ^ j" if "j < ord" for j
    using that dvd [of j] by (intro buddy_pair(3) [of _ "m + j"]) (auto simp: m power_add)
  have me: "fmerged ?mn ?F' (ba_max_order b)"
    using buddy_wfD(3) [OF wf] lone unfolding fmerged_def
    by (auto simp: nth split: if_splits dest: in_set_butlastD)
  have cov: "fcov ?mn ?F' x + acov ?mn ((t, off) # A) x = (if x < ba_arena_size b then 1 else 0)" for x
  proof -
    have "fcov ?mn ?F' x + of_bool (covers (?mn * 2 ^ t) off x) =
      fcov ?mn ?F x + of_bool (covers (?mn * 2 ^ ord) off x)"
      by (rule split_down_cov [OF sh o t _ range]) (simp add: len)
    also have "\<dots> = fcov ?mn (ba_free b) x"
      using fcov_update [OF olen, of ?mn "butlast (ba_free b ! ord)" x]
        cnt_butlast [OF ne, of "?mn * 2 ^ ord" x] off by simp
    finally show ?thesis
      using buddy_wfD(5) [OF wf, of x] by (simp add: acov_Cons)
  qed
  have "?mn * 2 ^ t + ba_used b \<le> ba_arena_size b"
    using live_sum_le [OF cov min_block_pos [OF sh]] buddy_wfD(6) [OF wf] by simp
  then have used: "u64 (ba_used b + buddy_block_size b t) = ?mn * 2 ^ t + ba_used b"
    using block_size_exact(1) [OF sh, of t] t o lim by (simp add: u64_id add.commute)
  have "buddy_shape b'" using sh len by (simp add: buddy_shape_def b')
  then show ?thesis
    using al me cov used dvd [OF t] t o buddy_wfD(4,6) [OF wf]
    unfolding buddy_wf_def by (auto simp: b')
qed

lemma buddy_allocate_wf:
  assumes wf: "buddy_wf b A" and al: "buddy_allocate b bytes = Some (off, b')"
  shows "buddy_wf b' ((buddy_order_for b bytes, off) # A)"
    and "ba_arena_size b' = ba_arena_size b" and "ba_min_block b' = ba_min_block b"
    and "ba_max_order b' = ba_max_order b"
proof -
  have pre: "0 < bytes" "bytes \<le> ba_arena_size b"
    using al by (auto simp: buddy_allocate_def split: if_splits)
  show "buddy_wf b' ((buddy_order_for b bytes, off) # A)"
  proof (rule buddy_allocate_cases [OF wf pre], goal_cases)
    case 1
    with al show ?case by simp
  next
    case (2 ord off')
    with al show ?case by (intro buddy_take_wf [OF wf, of _ ord]) auto
  qed
  show "ba_arena_size b' = ba_arena_size b" "ba_min_block b' = ba_min_block b"
    "ba_max_order b' = ba_max_order b"
    using al by (auto simp: buddy_allocate_def Let_def split: if_splits)
qed

lemma buddy_deallocate_params [simp]:
  "ba_arena_size (buddy_deallocate b off bytes) = ba_arena_size b"
  "ba_min_block (buddy_deallocate b off bytes) = ba_min_block b"
  "ba_max_order (buddy_deallocate b off bytes) = ba_max_order b"
  by (simp_all add: buddy_deallocate_def Let_def)

lemma buddy_deallocate_wf:
  assumes wf: "buddy_wf b A" and live: "(buddy_order_for b bytes, off) \<in> set A"
  shows "buddy_wf (buddy_deallocate b off bytes) (remove1 (buddy_order_for b bytes, off) A)"
proof -
  let ?mn = "ba_min_block b" and ?t = "buddy_order_for b bytes"
  note sh = buddy_wfD(1) [OF wf] and len = buddy_wfD(7) [OF wf]
  have t: "?t \<le> ba_max_order b" and dvd: "?mn * 2 ^ ?t dvd off"
    using buddy_wfD(4) [OF wf live] by auto
  note co = coalesce_spec [OF sh t len buddy_wfD(2,3) [OF wf] dvd]
  note sz = block_size_exact [OF sh t]
  have used: "ba_used b = ?mn * 2 ^ ?t + (\<Sum>(ord, off) \<leftarrow> remove1 (?t, off) A. ?mn * 2 ^ ord)"
    unfolding buddy_wfD(6) [OF wf] using sum_list_map_remove1 [OF live, of "\<lambda>(ord, off). ?mn * 2 ^ ord"]
    by simp
  have "u64 (ba_used b + 2 ^ 64 - buddy_block_size b ?t) = ba_used b - ?mn * 2 ^ ?t"
  proof -
    have "ba_used b + 2 ^ 64 - buddy_block_size b ?t = (ba_used b - ?mn * 2 ^ ?t) + 2 ^ 64"
      using used sz(1) by simp
    moreover have "ba_used b - ?mn * 2 ^ ?t < 2 ^ 64"
      using buddy_used_le [OF wf] sz(3) by linarith
    ultimately show ?thesis by (simp add: u64_def)
  qed
  then have u: "ba_used (buddy_deallocate b off bytes) =
      (\<Sum>(ord, off) \<leftarrow> remove1 (?t, off) A. ?mn * 2 ^ ord)"
    using used by (simp add: buddy_deallocate_def Let_def)
  have free: "ba_free (buddy_deallocate b off bytes) = coalesce b ?t off (ba_free b)"
    by (simp add: buddy_deallocate_def Let_def)
  show ?thesis
  proof (rule buddy_wfI, unfold free buddy_deallocate_params u)
    show "buddy_shape (buddy_deallocate b off bytes)"
      using sh by (simp add: buddy_shape_def buddy_deallocate_def Let_def)
    show "fcov ?mn (coalesce b ?t off (ba_free b)) x + acov ?mn (remove1 (?t, off) A) x =
        (if x < ba_arena_size b then 1 else 0)" for x
      using co [of x] acov_remove1 [OF live, of ?mn x] buddy_wfD(5) [OF wf, of x] by simp
    show "ord \<le> ba_max_order b \<and> ?mn * 2 ^ ord dvd off'"
      if "(ord, off') \<in> set (remove1 (?t, off) A)" for ord off'
      using that buddy_wfD(4) [OF wf] notin_set_remove1 by fast
  qed (use co in simp_all)
qed

section \<open>A fresh arena, and a fully freed one\<close>

lemma fcov_replicate_Nil [simp]: "fcov s (replicate n []) x = 0"
  by (induction n arbitrary: s) auto

lemma order_loop_exact: "order_loop (2 ^ m) (2 ^ (m + k)) ord = ord + k"
proof (induction k arbitrary: m ord)
  case 0
  then show ?case by (subst order_loop.simps) simp
next
  case (Suc k)
  have "order_loop (2 ^ m) (2 ^ (m + Suc k)) ord = order_loop (2 ^ Suc m) (2 ^ (Suc m + k)) (Suc ord)"
  proof -
    have "(2::nat) ^ m < 2 ^ (m + Suc k)" by (rule power_strict_increasing) auto
    then show ?thesis by (subst order_loop.simps) simp
  qed
  also have "\<dots> = Suc ord + k" by (rule Suc.IH)
  finally show ?case by simp
qed

lemma buddy_new_eq:
  "buddy_new (2 ^ (m + k)) (2 ^ m) =
     \<lparr>ba_arena_size = 2 ^ (m + k), ba_min_block = 2 ^ m, ba_max_order = k, ba_used = 0,
      ba_free = replicate k [] @ [[0]]\<rparr>"
proof -
  have "replicate (k + 1) [] = replicate k [] @ [[] :: nat list]"
    by (simp add: replicate_append_same)
  then have "(replicate (k + 1) []) [k := [0]] = replicate k [] @ [[0::nat]]"
    by (simp only: list_update_append length_replicate) simp
  then show ?thesis
    by (simp only: buddy_new_def order_loop_exact Let_def add_0)
qed

lemma fcov_append_single: "fcov s (replicate k [] @ [fl]) x = cnt (s * 2 ^ k) fl x"
  by (induction k arbitrary: s) (simp_all add: mult.left_commute mult.assoc)

lemma buddy_new_wf:
  assumes "m + k < 64"
  shows "buddy_wf (buddy_new (2 ^ (m + k)) (2 ^ m)) []"
  unfolding buddy_new_eq
  by (rule buddy_wfI)
    (use assms in \<open>auto simp: buddy_shape_def faligned_def fmerged_def nth_append acov_def
      fcov_append_single cnt_def covers_def power_add\<close>)

section \<open>Coalescing leaves no free region split\<close>

lemma covers_aligned:
  assumes "0 < s" and "s dvd off"
  shows "covers s off x \<longleftrightarrow> off = x div s * s"
proof -
  obtain q where q: "off = q * s" using assms(2) by (metis dvd_def mult.commute)
  have "covers s off x \<longleftrightarrow> q * s \<le> x \<and> x < (q + 1) * s"
    by (simp add: covers_def q add.commute)
  also have "\<dots> \<longleftrightarrow> q = x div s"
    using assms(1) by (metis Suc_eq_plus1 div_nat_eqI div_times_less_eq_dividend
        dividend_less_div_times mult.commute add.commute mult_Suc)
  finally show ?thesis using assms(1) by (auto simp: q)
qed

lemma fcov_two:
  assumes "o1 < length F" and "o2 < length F" and "o1 \<noteq> o2"
  shows "cnt (s * 2 ^ o1) (F ! o1) x + cnt (s * 2 ^ o2) (F ! o2) x \<le> fcov s F x"
proof -
  have "cnt (s * 2 ^ o2) (F ! o2) x \<le> fcov s (F[o1 := []]) x"
    using fcov_ge_cnt [of o2 "F[o1 := []]" s x] assms by simp
  then show ?thesis using fcov_update [OF assms(1), of s "[]" x] by simp
qed

lemma free_block_unique:
  assumes wf: "buddy_wf b A" and "o1 \<le> ba_max_order b" and "o2 \<le> ba_max_order b"
    and "f1 \<in> set (ba_free b ! o1)" and "f2 \<in> set (ba_free b ! o2)"
    and "covers (ba_min_block b * 2 ^ o1) f1 x" and "covers (ba_min_block b * 2 ^ o2) f2 x"
  shows "o1 = o2 \<and> f1 = f2"
proof -
  let ?mn = "ba_min_block b" and ?F = "ba_free b"
  note len = buddy_wfD(7) [OF wf]
  have le1: "fcov ?mn ?F x \<le> 1"
    using buddy_wfD(5) [OF wf, of x] by (simp split: if_splits)
  have pos: "0 < cnt (?mn * 2 ^ o1) (?F ! o1) x" "0 < cnt (?mn * 2 ^ o2) (?F ! o2) x"
    using assms(4-7) by (auto intro: cnt_pos)
  have "o1 = o2"
    using fcov_two [of o1 ?F o2 ?mn x] pos le1 len assms(2,3) by (cases "o1 = o2") auto
  moreover have "f1 = f2"
  proof -
    have al: "?mn * 2 ^ o1 dvd f1" "?mn * 2 ^ o2 dvd f2"
      using buddy_wfD(2) [OF wf] assms(2-5) len by (auto simp: faligned_def)
    have "0 < ?mn * 2 ^ o1" using block_size_exact(4) [OF buddy_wfD(1) [OF wf] assms(2)] .
    then show ?thesis
      using assms(6,7) al \<open>o1 = o2\<close> by (simp add: covers_aligned)
  qed
  ultimately show ?thesis by simp
qed

lemma covers_div: "0 < s \<Longrightarrow> s dvd off \<Longrightarrow> covers s off x \<longleftrightarrow> x div s = off div s"
  by (auto simp: covers_aligned dvd_div_eq_iff)

lemma div_coarser: "(x::nat) div s = y div s \<Longrightarrow> s dvd S \<Longrightarrow> x div S = y div S"
  by (auto simp: div_mult2_eq elim!: dvdE)

lemma buddy_in_parent:
  assumes "s = (2::nat) ^ n" and "s dvd f"
  shows "(f XOR s) div (2 * s) = f div (2 * s)" and "s dvd f XOR s"
proof -
  have s: "0 < s" using assms(1) by simp
  define k where "k = f div s"
  have f: "f = k * s" using assms(2) by (simp add: k_def)
  have x: "f XOR s = (k XOR 1) * s" unfolding f assms(1) by (rule xor_scaled)
  show "s dvd f XOR s" unfolding x by simp
  have "(k XOR 1) div 2 = k div 2"
    by (simp only: nat_xor_one) (auto elim!: evenE oddE)
  then show "(f XOR s) div (2 * s) = f div (2 * s)"
    unfolding x using s by (simp add: f div_mult2_eq [of _ s 2, unfolded mult.commute [of s 2]])
qed

text \<open>An aligned region without live blocks is inside one free block of at least its order.\<close>

lemma free_region_block:
  assumes wf: "buddy_wf b A" and t: "t \<le> ba_max_order b"
    and al: "ba_min_block b * 2 ^ t dvd off" and r: "off + ba_min_block b * 2 ^ t \<le> ba_arena_size b"
    and fr: "\<And>x. covers (ba_min_block b * 2 ^ t) off x \<Longrightarrow> acov (ba_min_block b) A x = 0"
  shows "\<exists>ord. t \<le> ord \<and> ord \<le> ba_max_order b \<and> ba_free b ! ord \<noteq> []"
proof (rule ccontr)
  let ?mn = "ba_min_block b" and ?F = "ba_free b"
  let ?S = "?mn * 2 ^ t"
  assume "\<not> ?thesis"
  then have low: "ord < t" if "ord \<le> ba_max_order b" "f \<in> set (?F ! ord)" for ord f
    using that by (metis empty_iff list.set(1) not_less)
  note len = buddy_wfD(7) [OF wf] and sh = buddy_wfD(1) [OF wf]
  obtain m where m: "?mn = 2 ^ m" using sh by (rule buddy_shapeD)
  have pos: "0 < ?mn * 2 ^ ord" for ord by (simp add: m)
  have aln: "?mn * 2 ^ ord dvd f" if "ord \<le> ba_max_order b" "f \<in> set (?F ! ord)" for ord f
    using that buddy_wfD(2) [OF wf] len by (auto simp: faligned_def)
  define hits where "hits ord \<longleftrightarrow> ord \<le> ba_max_order b \<and> (\<exists>f \<in> set (?F ! ord). \<exists>x.
    covers ?S off x \<and> covers (?mn * 2 ^ ord) f x)" for ord
  have ex: "\<exists>ord f. ord \<le> ba_max_order b \<and> f \<in> set (?F ! ord) \<and> covers (?mn * 2 ^ ord) f x"
    if x: "covers ?S off x" for x
  proof -
    have "x < ba_arena_size b" using x r by (simp add: covers_def)
    then have "0 < fcov ?mn ?F x" using buddy_wfD(5) [OF wf, of x] fr [OF x] by simp
    from fcov_pos_ex [OF this] show ?thesis by (auto simp: len less_Suc_eq_le)
  qed
  have "covers ?S off off" by (simp add: covers_def m)
  from ex [OF this] this have "\<exists>ord. hits ord" by (auto simp: hits_def)
  then have hit: "hits (LEAST ord. hits ord)" by (rule LeastI_ex)
  define ord where "ord = (LEAST ord. hits ord)"
  from hit obtain f x where o: "ord \<le> ba_max_order b" and f: "f \<in> set (?F ! ord)"
    and x: "covers ?S off x" "covers (?mn * 2 ^ ord) f x"
    by (auto simp: hits_def ord_def)
  let ?s = "?mn * 2 ^ ord" and ?bud = "f XOR ?mn * 2 ^ ord"
  have ot: "ord < t" using low o f by blast
  have s2: "?s = 2 ^ (m + ord)" by (simp add: m power_add)
  note bp = buddy_in_parent [OF s2 aln [OF o f]]
  have up: "2 * ?s dvd ?mn * 2 ^ ord'" if "ord < ord'" for ord'
  proof -
    have "?mn * 2 ^ Suc ord dvd ?mn * 2 ^ ord'"
      using that by (intro mult_dvd_mono le_imp_power_dvd) auto
    then show ?thesis by (simp add: mult.left_commute)
  qed
  have "?s dvd ?S" using up [OF ot] by (rule dvd_trans [OF dvd_triv_right])
  moreover have "x div ?s = f div ?s" using x(2) by (simp only: covers_div [OF pos aln [OF o f]])
  ultimately have "x div ?S = f div ?S" by (rule div_coarser [rotated])
  then have "covers ?S off ?bud"
    using x(1) div_coarser [OF bp(1) up [OF ot]] by (simp only: covers_div [OF pos al])
  from ex [OF this] obtain ord' f' where o': "ord' \<le> ba_max_order b" "f' \<in> set (?F ! ord')"
    "covers (?mn * 2 ^ ord') f' ?bud" by blast
  with \<open>covers ?S off ?bud\<close> have "ord \<le> ord'"
    unfolding ord_def by (intro Least_le) (auto simp: hits_def)
  show False
  proof (cases "ord' = ord")
    case True
    with o' have "f' = ?bud"
      using aln [OF o'(1,2)] bp(2) by (simp only: covers_div [OF pos] dvd_div_eq_iff)
    then show False
      using buddy_wfD(3) [OF wf] f o'(2) True ot t by (auto simp: fmerged_def)
  next
    case False
    with \<open>ord \<le> ord'\<close> have "ord < ord'" by simp
    then have "covers (?mn * 2 ^ ord') f' f"
      using o'(3) div_coarser [OF bp(1) up] by (simp only: covers_div [OF pos aln [OF o'(1,2)]])
    moreover have "covers ?s f f" using pos by (simp add: covers_def)
    ultimately show False
      using free_block_unique [OF wf o'(1) o o'(2) f] False by blast
  qed
qed

section \<open>The allocator contract\<close>

text \<open>
  \<open>buddy_live b L\<close>: the live requests are \<open>L\<close>, each an offset and the byte count passed to
  \<open>buddy_allocate\<close>.
\<close>

definition buddy_blocks :: "buddy \<Rightarrow> (nat \<times> nat) list \<Rightarrow> (nat \<times> nat) list" where
  "buddy_blocks b L = map (\<lambda>(off, n). (buddy_order_for b n, off)) L"

definition buddy_live :: "buddy \<Rightarrow> (nat \<times> nat) list \<Rightarrow> bool" where
  "buddy_live b L \<longleftrightarrow> buddy_wf b (buddy_blocks b L) \<and> (\<forall>(off, n) \<in> set L. 0 < n)"

lemma buddy_wf_perm:
  assumes "mset A = mset A'" and "buddy_wf b A"
  shows "buddy_wf b A'"
proof (rule buddy_wfI)
  fix x
  have "mset (filter (\<lambda>(ord, off). covers (ba_min_block b * 2 ^ ord) off x) A) =
      mset (filter (\<lambda>(ord, off). covers (ba_min_block b * 2 ^ ord) off x) A')"
    by (simp add: assms(1))
  then have "acov (ba_min_block b) A x = acov (ba_min_block b) A' x"
    unfolding acov_def by (rule mset_eq_length)
  then show "fcov (ba_min_block b) (ba_free b) x + acov (ba_min_block b) A' x =
      (if x < ba_arena_size b then 1 else 0)"
    using buddy_wfD(5) [OF assms(2), of x] by simp
next
  have "sum_mset (image_mset (\<lambda>(ord, off). ba_min_block b * 2 ^ ord) (mset A)) =
      sum_mset (image_mset (\<lambda>(ord, off). ba_min_block b * 2 ^ ord) (mset A'))"
    by (simp add: assms(1))
  then show "ba_used b = (\<Sum>(ord, off) \<leftarrow> A'. ba_min_block b * 2 ^ ord)"
    unfolding buddy_wfD(6) [OF assms(2)] by (simp only: mset_map [symmetric] sum_mset_sum_list)
qed (use buddy_wfD [OF assms(2)] mset_eq_setD [OF assms(1)] in auto)

lemma buddy_order_for_cong: "ba_min_block b' = ba_min_block b \<Longrightarrow> buddy_order_for b' = buddy_order_for b"
  by (rule ext) (simp add: buddy_order_for_def)

lemma buddy_blocks_cong: "ba_min_block b' = ba_min_block b \<Longrightarrow> buddy_blocks b' L = buddy_blocks b L"
  by (simp add: buddy_blocks_def buddy_order_for_cong [of b' b])

lemma mset_map_remove1: "x \<in> set L \<Longrightarrow> mset (remove1 (f x) (map f L)) = mset (map f (remove1 x L))"
  by (simp add: image_mset_Diff)

lemma acov_apart:
  assumes "0 < mn" and "\<And>x. acov mn A x \<le> 1"
  shows "apart (map (\<lambda>(ord, off). (off, mn * 2 ^ ord)) A)"
  using assms(2)
proof (induction A)
  case (Cons p A)
  obtain ord off where p: "p = (ord, off)" by (cases p)
  have "acov mn A x \<le> 1" for x
    using Cons.prems [of x] by (simp add: p acov_Cons)
  then have "apart (map (\<lambda>(ord, off). (off, mn * 2 ^ ord)) A)" by (rule Cons.IH)
  moreover have "off + mn * 2 ^ ord \<le> off' \<or> off' + mn * 2 ^ ord' \<le> off"
    if mem: "(ord', off') \<in> set A" for ord' off'
  proof (rule ccontr)
    assume "\<not> ?thesis"
    then have "covers (mn * 2 ^ ord) off (max off off')" "covers (mn * 2 ^ ord') off' (max off off')"
      using assms(1) by (auto simp: covers_def)
    then have "2 \<le> acov mn (p # A) (max off off')"
      using acov_pos [OF mem, of mn "max off off'"] by (simp add: p acov_Cons)
    with Cons.prems [of "max off off'"] show False by simp
  qed
  ultimately show ?case by (force simp: p)
qed simp

lemma buddy_live_apart:
  assumes "buddy_live b L"
  shows "apart L"
proof -
  have wf: "buddy_wf b (buddy_blocks b L)" using assms by (simp add: buddy_live_def)
  have "acov (ba_min_block b) (buddy_blocks b L) x \<le> 1" for x
    using buddy_wfD(5) [OF wf, of x] by (simp split: if_splits)
  from acov_apart [OF min_block_pos [OF buddy_wfD(1) [OF wf]] this]
  have "apart (map (\<lambda>(off, n). (off, ba_min_block b * 2 ^ buddy_order_for b n)) L)"
    by (simp add: buddy_blocks_def comp_def case_prod_unfold)
  then show ?thesis
    by (rule apart_shrink) (auto intro: buddy_order_for_spec(1) [OF buddy_wfD(1) [OF wf]])
qed

interpretation buddy: region_allocator buddy_allocate buddy_deallocate buddy_live ba_arena_size
proof
  fix b L n off b'
  assume l: "buddy_live b L" and a: "buddy_allocate b n = Some (off, b')"
  note w = buddy_allocate_wf [OF _ a, of "buddy_blocks b L"]
  have "0 < n" using a by (auto simp: buddy_allocate_def split: if_splits)
  with l w show "buddy_live b' ((off, n) # L)" and "ba_arena_size b' = ba_arena_size b"
    by (auto simp: buddy_live_def buddy_blocks_def buddy_order_for_cong [of b' b])
next
  fix b L off n
  assume l: "buddy_live b L" and m: "(off, n) \<in> set L"
  let ?b = "buddy_deallocate b off n"
  have "(buddy_order_for b n, off) \<in> set (buddy_blocks b L)"
    using m by (force simp: buddy_blocks_def)
  from buddy_deallocate_wf [OF _ this] l
  have "buddy_wf ?b (remove1 (buddy_order_for b n, off) (buddy_blocks b L))"
    by (simp add: buddy_live_def)
  then have "buddy_wf ?b (buddy_blocks b (remove1 (off, n) L))"
    by (rule buddy_wf_perm [rotated])
      (use mset_map_remove1 [OF m, of "\<lambda>(off, n). (buddy_order_for b n, off)"] in
        \<open>simp only: buddy_blocks_def prod.case\<close>)
  then show "buddy_live ?b (remove1 (off, n) L)"
    using l buddy_blocks_cong [of ?b b] notin_set_remove1 by (fastforce simp: buddy_live_def)
  show "ba_arena_size ?b = ba_arena_size b" by simp
next
  fix b L off n
  assume l: "buddy_live b L" and m: "(off, n) \<in> set L"
  have "(buddy_order_for b n, off) \<in> set (buddy_blocks b L)"
    using m by (force simp: buddy_blocks_def)
  with l have "off + ba_min_block b * 2 ^ buddy_order_for b n \<le> ba_arena_size b"
    by (intro buddy_live_range [of b "buddy_blocks b L"]) (simp_all add: buddy_live_def)
  moreover have "n \<le> ba_min_block b * 2 ^ buddy_order_for b n"
    using l by (intro buddy_order_for_spec(1)) (simp add: buddy_live_def buddy_wf_def)
  ultimately show "0 < n \<and> off + n \<le> ba_arena_size b"
    using l m by (auto simp: buddy_live_def)
qed (rule buddy_live_apart)

section \<open>Properties\<close>

lemma buddy_allocate_region:
  assumes "buddy_live b L" and "buddy_allocate b n = Some (off, b')"
  shows "buddy_live b' ((off, n) # L) \<and>
    ba_min_block b * 2 ^ buddy_order_for b n dvd off \<and>
    n \<le> ba_min_block b * 2 ^ buddy_order_for b n \<and>
    off + ba_min_block b * 2 ^ buddy_order_for b n \<le> ba_arena_size b \<and>
    (\<forall>(off', n') \<in> set L. off + n \<le> off' \<or> off' + n' \<le> off)"
proof -
  have wf: "buddy_wf b (buddy_blocks b L)" using assms(1) by (simp add: buddy_live_def)
  note wf' = buddy_allocate_wf [OF wf assms(2)]
  have "ba_min_block b * 2 ^ buddy_order_for b n dvd off"
    using buddy_wfD(4) [OF wf'(1), of "buddy_order_for b n" off] by (simp add: wf'(3))
  moreover have "off + ba_min_block b * 2 ^ buddy_order_for b n \<le> ba_arena_size b"
    using buddy_live_range [OF wf'(1), of "buddy_order_for b n" off] by (simp add: wf'(2,3))
  ultimately show ?thesis
    using buddy.alloc_live [OF assms] buddy.alloc_disjoint(2) [OF assms]
      buddy_order_for_spec(1) [OF buddy_wfD(1) [OF wf]] by auto
qed

text \<open>
  Property C20. A successful allocation of \<open>n\<close> bytes returns a block that is aligned to its
  power-of-two size, holds at least \<open>n\<close> bytes, lies in the arena, overlaps no live
  allocation, and leaves a state in which exactly the new allocation has been added.
\<close>

theorem buddy_allocate_safe:
  assumes "buddy_live b L" and "buddy_allocate b n = Some (off, b')"
  shows "buddy_live b' ((off, n) # L) \<and>
    ba_min_block b * 2 ^ buddy_order_for b n dvd off \<and>
    n \<le> ba_min_block b * 2 ^ buddy_order_for b n \<and>
    off + ba_min_block b * 2 ^ buddy_order_for b n \<le> ba_arena_size b \<and>
    (\<forall>(off', n') \<in> set L. off + n \<le> off' \<or> off' + n' \<le> off)"
  using assms by (rule buddy_allocate_region)

theorem buddy_allocate_safe_witness:
  "buddy_live (buddy_new 16384 4096) [] \<and>
   (\<exists>b'. buddy_allocate (buddy_new 16384 4096) 5000 = Some (0, b') \<and> buddy_live b' [(0, 5000)])"
proof -
  have l: "buddy_live (buddy_new 16384 4096) []"
    using buddy_new_wf [of 12 2] by (simp add: buddy_live_def buddy_blocks_def)
  have n: "buddy_new 16384 4096 = \<lparr>ba_arena_size = 16384, ba_min_block = 4096, ba_max_order = 2,
      ba_used = 0, ba_free = [[], [], [0]]\<rparr>"
  proof -
    have "replicate 2 [] = [[], [] :: nat list]" by (simp add: numeral_2_eq_2)
    then show ?thesis using buddy_new_eq [of 12 2] by simp
  qed
  have "buddy_allocate (buddy_new 16384 4096) 5000 =
    Some (0, (buddy_new 16384 4096)\<lparr>ba_free := [[], [8192], []], ba_used := 8192\<rparr>)"
    by (simp add: n buddy_allocate_def buddy_order_for_def order_loop.simps
        find_free.simps split_down.simps buddy_block_size_def u64_def)
  with l buddy_allocate_safe [OF l] show ?thesis by blast
qed

lemma acov_zero_iff:
  "acov mn A x = 0 \<longleftrightarrow> (\<forall>(ord, off) \<in> set A. \<not> covers (mn * 2 ^ ord) off x)"
  by (auto simp: acov_def filter_empty_conv)

lemma buddy_allocate_None:
  assumes wf: "buddy_wf b A"
  shows "buddy_allocate b n = None \<longleftrightarrow>
    n = 0 \<or> n > ba_arena_size b \<or>
    (\<forall>j. buddy_order_for b n \<le> j \<and> j \<le> ba_max_order b \<longrightarrow> ba_free b ! j = [])"
proof (cases "n = 0 \<or> n > ba_arena_size b")
  case False
  then have "0 < n" "n \<le> ba_arena_size b" by auto
  then show ?thesis
    by (rule buddy_allocate_cases [OF wf]) (use False in auto)
qed (auto simp: buddy_allocate_def)

text \<open>
  Allocation fails only when it must: a request of \<open>n\<close> bytes, positive and no
  larger than the arena, is refused exactly when every aligned slot of the needed
  power-of-two size meets a live block. Coalescing therefore never leaves a usable slot
  unusable.
\<close>

theorem buddy_allocate_complete:
  assumes "buddy_live b L"
  shows "buddy_allocate b n \<noteq> None \<longleftrightarrow>
    0 < n \<and> n \<le> ba_arena_size b \<and>
    (\<exists>slot. let s = ba_min_block b * 2 ^ buddy_order_for b n in
       s dvd slot \<and> slot + s \<le> ba_arena_size b \<and>
       (\<forall>(off, n') \<in> set L. slot + s \<le> off \<or>
          off + ba_min_block b * 2 ^ buddy_order_for b n' \<le> slot))"
    (is "_ \<longleftrightarrow> _ \<and> _ \<and> (\<exists>slot. ?ok slot)")
proof -
  let ?mn = "ba_min_block b" and ?t = "buddy_order_for b n" and ?A = "buddy_blocks b L"
  have wf: "buddy_wf b ?A" using assms by (simp add: buddy_live_def)
  note sh = buddy_wfD(1) [OF wf]
  have pos: "0 < ?mn * 2 ^ ord" for ord using min_block_pos [OF sh] by simp
  have "buddy_allocate b n \<noteq> None" if pre: "0 < n" "n \<le> ba_arena_size b" and ok: "?ok slot" for slot
  proof -
    have t: "?t \<le> ba_max_order b" using buddy_order_for_spec(2) [OF sh pre(2)] .
    have "acov ?mn ?A x = 0" if "covers (?mn * 2 ^ ?t) slot x" for x
      using ok that unfolding acov_zero_iff
      by (fastforce simp: Let_def buddy_blocks_def covers_def)
    from free_region_block [OF wf t _ _ this] ok
    have "\<exists>ord. ?t \<le> ord \<and> ord \<le> ba_max_order b \<and> ba_free b ! ord \<noteq> []"
      by (auto simp: Let_def)
    then show ?thesis using pre by (auto simp: buddy_allocate_None [OF wf])
  qed
  moreover have "0 < n \<and> n \<le> ba_arena_size b \<and> (\<exists>slot. ?ok slot)"
    if al: "buddy_allocate b n = Some (off, b')" for off b'
  proof -
    have pre: "0 < n" "n \<le> ba_arena_size b"
      using al by (auto simp: buddy_allocate_def split: if_splits)
    have l': "buddy_live b' ((off, n) # L)" by (rule buddy.alloc_live [OF assms al])
    note w = buddy_allocate_wf [OF wf al]
    have "acov ?mn ((?t, off) # ?A) x \<le> 1" for x
      using buddy_wfD(5) [OF w(1), of x] by (simp add: w(3) split: if_splits)
    from acov_apart [OF min_block_pos [OF sh] this] buddy_allocate_region [OF assms al] pre
    have "?ok off" by (auto simp: Let_def buddy_blocks_def)
    with pre show ?thesis by blast
  qed
  ultimately show ?thesis by (cases "buddy_allocate b n") auto
qed

theorem buddy_allocate_complete_witness:
  "buddy_live (buddy_new 8192 4096) [] \<and> buddy_allocate (buddy_new 8192 4096) 4097 \<noteq> None"
proof -
  have l: "buddy_live (buddy_new 8192 4096) []"
    using buddy_new_wf [of 12 1] by (simp add: buddy_live_def buddy_blocks_def)
  have n: "buddy_new 8192 4096 = \<lparr>ba_arena_size = 8192, ba_min_block = 4096, ba_max_order = 1,
      ba_used = 0, ba_free = [[], [0]]\<rparr>"
    using buddy_new_eq [of 12 1] by simp
  have "buddy_order_for (buddy_new 8192 4096) 4097 = 1"
    by (simp add: n buddy_order_for_def order_loop.simps)
  with l show ?thesis
    unfolding buddy_allocate_complete [OF l] by (auto simp: n intro: exI [of _ 0])
qed

lemma buddy_drained:
  assumes wf: "buddy_wf b []" and m: "ba_min_block b = 2 ^ m" and k: "ba_arena_size b = 2 ^ (m + k)"
  shows "b = buddy_new (2 ^ (m + k)) (2 ^ m)"
proof -
  note sh = buddy_wfD(1) [OF wf] and len = buddy_wfD(7) [OF wf]
  let ?F = "ba_free b" and ?mx = "ba_max_order b" and ?mn = "ba_min_block b"
  obtain m' where "?mn = 2 ^ m'" "ba_arena_size b = 2 ^ (m' + ?mx)" using sh by (rule buddy_shapeD)
  with m k have mx: "?mx = k" by simp
  have arena: "?mn * 2 ^ k = ba_arena_size b" by (simp add: m k power_add)
  have "\<exists>ord. k \<le> ord \<and> ord \<le> ?mx \<and> ?F ! ord \<noteq> []"
    using arena by (intro free_region_block [OF wf, of k 0]) (auto simp: mx acov_def)
  then have ne: "?F ! k \<noteq> []" using mx by (metis le_antisym)
  have zero: "f = 0" if "f \<in> set (?F ! k)" for f
    using buddy_free_range [OF wf _ that] mx arena by simp
  have one: "fcov ?mn ?F 0 = 1"
    using buddy_wfD(5) [OF wf, of 0] by (simp add: k acov_def)
  have cz: "cnt (?mn * 2 ^ k) (?F ! k) 0 = length (?F ! k)"
    unfolding cnt_def using zero by (subst filter_True) (auto simp: covers_def m)
  then have "length (?F ! k) = 1"
    using fcov_ge_cnt [of k ?F ?mn 0] one ne len mx by (cases "?F ! k") auto
  then have Fk: "?F ! k = [0]" using zero by (cases "?F ! k") auto
  have "?F ! j = []" if "j < k" for j
  proof (rule ccontr)
    assume "?F ! j \<noteq> []"
    then obtain f where f: "f \<in> set (?F ! j)" by (cases "?F ! j") auto
    have jm: "j \<le> ?mx" and km: "k \<le> ?mx" and z: "0 \<in> set (?F ! k)" using that mx Fk by auto
    have "covers (?mn * 2 ^ j) f f" by (simp add: covers_def m)
    moreover have "f < ba_arena_size b"
      using buddy_free_range [OF wf jm f] block_size_exact(4) [OF sh jm] by linarith
    then have "covers (?mn * 2 ^ k) 0 f" by (simp add: covers_def arena)
    ultimately have "j = k" using free_block_unique [OF wf jm km f z] by blast
    with that show False by simp
  qed
  then have F: "?F = replicate k [] @ [[0]]"
    using len mx Fk by (intro nth_equalityI) (auto simp: nth_append less_Suc_eq)
  show ?thesis
    unfolding buddy_new_eq
    using F m k mx buddy_wfD(6) [OF wf] by (intro buddy.equality) auto
qed

text \<open>
  Starting from a fresh arena, after any sequence of allocations and frees the
  live regions lie in the arena and do not overlap; and once every region has been freed the
  allocator is back in its initial state, one free block that spans the whole arena.
\<close>

lemma buddy_script_restores:
  assumes "m + k < 64"
    and "alloc_run buddy_allocate buddy_deallocate (buddy_new (2 ^ (m + k)) (2 ^ m)) [] ops = (b, L)"
  shows "apart L \<and> (\<forall>(off, n) \<in> set L. 0 < n \<and> off + n \<le> 2 ^ (m + k)) \<and>
    (L = [] \<longrightarrow> b = buddy_new (2 ^ (m + k)) (2 ^ m))"
proof -
  let ?b0 = "buddy_new (2 ^ (m + k)) (2 ^ m)"
  have l0: "buddy_live ?b0 []"
    using buddy_new_wf [OF assms(1)] by (simp add: buddy_live_def buddy_blocks_def)
  note run = buddy.alloc_run_live [OF l0 assms(2)]
  have "ba_min_block b = 2 ^ m"
    by (rule alloc_run_keeps [where P = "\<lambda>b. ba_min_block b = 2 ^ m", OF _ _ _ assms(2)])
      (auto simp: buddy_new_eq buddy_allocate_def Let_def split: if_splits)
  moreover have "ba_arena_size b = 2 ^ (m + k)" using run by (simp add: buddy_new_eq)
  ultimately show ?thesis
    using run buddy.live_apart [of b L] buddy.live_bounds [of b L] buddy_drained [of b m k]
    by (auto simp: buddy_live_def buddy_blocks_def)
qed

end
