(* ===== verification/Buffer_Pool.thy ===== *)
theory Buffer_Pool
  imports Buddy_Allocator
begin

text \<open>
  The rest of \<^verbatim>\<open>core/buffer_pool.cpp\<close>: \<^verbatim>\<open>BlockPool\<close> (a fixed array of equal blocks with a stack
  of free indices), \<^verbatim>\<open>BufferPool\<close> (buddy arenas inside blocks, pulled from and returned to the
  block pool) and \<^verbatim>\<open>IoBufferPool\<close> (fixed-size streaming chunks). Memory comes from
  \<^verbatim>\<open>aligned_alloc\<close> and \<^verbatim>\<open>mlock\<close>, which are parameters: the address the first returns and
  whether the second succeeds.
\<close>

section \<open>BlockPool\<close>

record block_pool =
  bp_base :: nat
  bp_block_bytes :: nat
  bp_num_blocks :: nat
  bp_locked :: bool
  bp_free :: "nat list"

definition blockpool_new :: "nat \<Rightarrow> nat \<Rightarrow> nat \<Rightarrow> bool \<Rightarrow> block_pool" where
  "blockpool_new base bytes num locked =
     \<lparr>bp_base = base, bp_block_bytes = bytes, bp_num_blocks = num, bp_locked = locked,
      bp_free = map u32 (rev [0..<num])\<rparr>"

definition blockpool_create ::
  "(nat \<Rightarrow> nat \<Rightarrow> nat option) \<Rightarrow> (nat \<Rightarrow> nat \<Rightarrow> bool) \<Rightarrow> nat \<Rightarrow> nat \<Rightarrow> bool \<Rightarrow> block_pool result" where
  "blockpool_create aligned_alloc mlock bytes num lock =
     (if \<not> is_power_of_two bytes \<or> bytes < kDeviceBlock then
        err invalid_argument ''block_bytes must be a power of two >= 4 KiB''
      else if num = 0 then err invalid_argument ''num_blocks must be >= 1''
      else
        let tot = u64 (bytes * num) in
        case aligned_alloc kDeviceBlock tot of
          None \<Rightarrow> err out_of_memory ''aligned_alloc failed''
        | Some p \<Rightarrow>
            if lock \<and> \<not> mlock p tot then
              err out_of_memory ''mlock failed (raise RLIMIT_MEMLOCK or grant CAP_IPC_LOCK)''
            else Inr (blockpool_new p bytes num lock))"

definition blockpool_acquire :: "block_pool \<Rightarrow> (nat \<times> block_pool) option" where
  "blockpool_acquire p =
     (if bp_free p = [] then None
      else Some (last (bp_free p), p\<lparr>bp_free := butlast (bp_free p)\<rparr>))"

definition blockpool_release :: "block_pool \<Rightarrow> nat \<Rightarrow> block_pool" where
  "blockpool_release p i = p\<lparr>bp_free := bp_free p @ [i]\<rparr>"

definition blockpool_block_data :: "block_pool \<Rightarrow> nat \<Rightarrow> nat" where
  "blockpool_block_data p i = bp_base p + i * bp_block_bytes p"

section \<open>BufferPool\<close>

record buffer_pool =
  pl_blocks :: block_pool
  pl_min_alloc :: nat
  pl_arenas :: "buddy option list"

record region =
  rg_block :: nat
  rg_offset :: nat
  rg_len :: nat
  rg_data :: nat

definition bufpool_create ::
  "(nat \<Rightarrow> nat \<Rightarrow> nat option) \<Rightarrow> (nat \<Rightarrow> nat \<Rightarrow> bool) \<Rightarrow> nat \<Rightarrow> nat \<Rightarrow> nat \<Rightarrow> bool \<Rightarrow> buffer_pool result" where
  "bufpool_create aligned_alloc mlock total_sz bytes min_alloc lock =
     (if \<not> is_power_of_two min_alloc \<or> min_alloc < kDeviceBlock then
        err invalid_argument ''min_alloc must be a power of two >= 4 KiB''
      else if bytes < min_alloc then
        err invalid_argument ''block_bytes must be >= min_alloc''
      else
        let num = total_sz div bytes in
        if num = 0 then err invalid_argument ''total_bytes < block_bytes''
        else
          case blockpool_create aligned_alloc mlock bytes num lock of
            Inl e \<Rightarrow> Inl e
          | Inr bp \<Rightarrow> Inr \<lparr>pl_blocks = bp, pl_min_alloc = min_alloc,
                         pl_arenas = replicate (bp_num_blocks bp) None\<rparr>)"

definition bufpool_addr :: "buffer_pool \<Rightarrow> nat \<Rightarrow> nat \<Rightarrow> nat" where
  "bufpool_addr p blk off = blockpool_block_data (pl_blocks p) blk + off"

text \<open>The first-fit scan over the arenas in use.\<close>

fun try_arenas :: "nat \<Rightarrow> buddy option list \<Rightarrow> nat \<Rightarrow> (nat \<times> nat \<times> buddy) option" where
  "try_arenas i [] bytes = None"
| "try_arenas i (None # as) bytes = try_arenas (Suc i) as bytes"
| "try_arenas i (Some a # as) bytes =
     (case buddy_allocate a bytes of
        Some (off, a') \<Rightarrow> Some (i, off, a')
      | None \<Rightarrow> try_arenas (Suc i) as bytes)"

text \<open>
  When no arena has room, a fresh block becomes an arena. The source dereferences the result
  of that last allocation without a test; \<open>bufpool_allocate_None\<close> shows it is never empty.
\<close>

definition bufpool_allocate :: "buffer_pool \<Rightarrow> nat \<Rightarrow> (region \<times> buffer_pool) option" where
  "bufpool_allocate p bytes =
     (if bytes = 0 \<or> bytes > bp_block_bytes (pl_blocks p) then None
      else case try_arenas 0 (pl_arenas p) bytes of
        Some (b, off, a') \<Rightarrow>
          Some (\<lparr>rg_block = b, rg_offset = u32 off, rg_len = bytes,
                 rg_data = bufpool_addr p b (u32 off)\<rparr>,
                p\<lparr>pl_arenas := (pl_arenas p)[b := Some a']\<rparr>)
      | None \<Rightarrow>
          (case blockpool_acquire (pl_blocks p) of
             None \<Rightarrow> None
           | Some (blk, bp) \<Rightarrow>
               (case buddy_allocate (buddy_new (bp_block_bytes (pl_blocks p)) (pl_min_alloc p)) bytes of
                  None \<Rightarrow> None
                | Some (off, a) \<Rightarrow>
                    Some (\<lparr>rg_block = blk, rg_offset = u32 off, rg_len = bytes,
                           rg_data = bufpool_addr p blk (u32 off)\<rparr>,
                          p\<lparr>pl_blocks := bp, pl_arenas := (pl_arenas p)[blk := Some a]\<rparr>))))"

definition bufpool_deallocate :: "buffer_pool \<Rightarrow> nat \<Rightarrow> nat \<Rightarrow> nat \<Rightarrow> buffer_pool" where
  "bufpool_deallocate p blk off bytes =
     (if blk \<ge> length (pl_arenas p) then p
      else case pl_arenas p ! blk of
        None \<Rightarrow> p
      | Some a \<Rightarrow>
          let a' = buddy_deallocate a off bytes in
          if ba_used a' = 0
          then p\<lparr>pl_arenas := (pl_arenas p)[blk := None],
                 pl_blocks := blockpool_release (pl_blocks p) blk\<rparr>
          else p\<lparr>pl_arenas := (pl_arenas p)[blk := Some a']\<rparr>)"

section \<open>IoBufferPool\<close>

text \<open>
  A streaming chunk is the span of one block: its address and length. Releasing computes the
  block index back from the address.
\<close>

definition iopool_create ::
  "(nat \<Rightarrow> nat \<Rightarrow> nat option) \<Rightarrow> (nat \<Rightarrow> nat \<Rightarrow> bool) \<Rightarrow> nat \<Rightarrow> nat \<Rightarrow> bool \<Rightarrow> block_pool result" where
  "iopool_create aligned_alloc mlock chunk_bytes num_chunks lock =
     blockpool_create aligned_alloc mlock chunk_bytes num_chunks lock"

definition iopool_acquire :: "block_pool \<Rightarrow> ((nat \<times> nat) \<times> block_pool) option" where
  "iopool_acquire p =
     (case blockpool_acquire p of
        None \<Rightarrow> None
      | Some (i, p') \<Rightarrow> Some ((blockpool_block_data p' i, bp_block_bytes p'), p'))"

definition iopool_release :: "block_pool \<Rightarrow> nat \<times> nat \<Rightarrow> block_pool" where
  "iopool_release p chunk =
     (let off = fst chunk - bp_base p
      in blockpool_release p (u32 (off div bp_block_bytes p)))"

definition iopool_free_count :: "block_pool \<Rightarrow> nat" where
  "iopool_free_count p = length (bp_free p)"

section \<open>The block pool as a bounded stock of chunks\<close>

text \<open>
  The contract both the write-staging pool and the read pools rely on: a chunk taken out is
  not free any more, a chunk given back is, and what is out never exceeds the stock.
\<close>

locale chunk_stock =
  fixes take_chunk :: "'s \<Rightarrow> ('c \<times> 's) option"
    and give_chunk :: "'s \<Rightarrow> 'c \<Rightarrow> 's"
    and stock :: "'s \<Rightarrow> 'c set"
    and whole :: "'s \<Rightarrow> 'c set"
    and good :: "'s \<Rightarrow> bool"
  assumes take_None: "good s \<Longrightarrow> take_chunk s = None \<longleftrightarrow> stock s = {}"
    and take_Some: "good s \<Longrightarrow> take_chunk s = Some (c, s') \<Longrightarrow>
      good s' \<and> c \<in> stock s \<and> stock s' = stock s - {c} \<and> whole s' = whole s"
    and give: "good s \<Longrightarrow> c \<in> whole s \<Longrightarrow> c \<notin> stock s \<Longrightarrow>
      good (give_chunk s c) \<and> stock (give_chunk s c) = insert c (stock s) \<and>
      whole (give_chunk s c) = whole s"
    and stock_whole: "good s \<Longrightarrow> stock s \<subseteq> whole s"
    and finite_whole: "good s \<Longrightarrow> finite (whole s)"
begin

text \<open>Taking a chunk and giving it back restores the stock.\<close>

lemma take_give:
  assumes "good s" and "take_chunk s = Some (c, s')"
  shows "good (give_chunk s' c)" and "stock (give_chunk s' c) = stock s"
    and "whole (give_chunk s' c) = whole s"
proof -
  note t = take_Some [OF assms]
  have c: "c \<in> whole s'" "c \<notin> stock s'"
    using t stock_whole [OF assms(1)] by auto
  note g = give [OF _ c]
  show "good (give_chunk s' c)" "whole (give_chunk s' c) = whole s" using g t by auto
  show "stock (give_chunk s' c) = stock s" using g t by auto
qed

text \<open>A waiter that finds the stock empty finds a chunk as soon as one is given back.\<close>

lemma give_wakes:
  assumes "good s" and "c \<in> whole s" and "c \<notin> stock s"
  shows "\<exists>c' s'. take_chunk (give_chunk s c) = Some (c', s')"
  using take_None [of "give_chunk s c"] give [OF assms] by (cases "take_chunk (give_chunk s c)") auto

lemma take_card:
  assumes "good s" and "take_chunk s = Some (c, s')"
  shows "card (stock s) = Suc (card (stock s'))"
  using take_Some [OF assms] finite_subset [OF stock_whole finite_whole, OF assms(1) assms(1)]
  by (metis card_Suc_Diff1)

end

text \<open>Free indices are in range and listed once.\<close>

definition blockpool_ok :: "block_pool \<Rightarrow> bool" where
  "blockpool_ok p \<longleftrightarrow>
     distinct (bp_free p) \<and> set (bp_free p) \<subseteq> {..<bp_num_blocks p} \<and>
     bp_num_blocks p \<le> 2 ^ 32 \<and> 0 < bp_block_bytes p"

lemma blockpool_new_free:
  assumes "num \<le> 2 ^ 32"
  shows "bp_free (blockpool_new base bytes num locked) = rev [0..<num]"
proof -
  have "map u32 (rev [0..<num]) = map (\<lambda>i. i) (rev [0..<num])"
    by (rule map_cong) (use assms in \<open>auto simp: u32_id\<close>)
  then show ?thesis by (simp add: blockpool_new_def)
qed

lemma blockpool_new_ok:
  "num \<le> 2 ^ 32 \<Longrightarrow> 0 < bytes \<Longrightarrow> blockpool_ok (blockpool_new base bytes num locked)"
  by (auto simp: blockpool_ok_def blockpool_new_free) (simp_all add: blockpool_new_def)

interpretation blocks: chunk_stock blockpool_acquire blockpool_release
  "\<lambda>p. set (bp_free p)" "\<lambda>p. {..<bp_num_blocks p}" blockpool_ok
proof
  fix p i p'
  assume ok: "blockpool_ok p" and a: "blockpool_acquire p = Some (i, p')"
  then have ne: "bp_free p \<noteq> []" and i: "i = last (bp_free p)"
    and p': "p' = p\<lparr>bp_free := butlast (bp_free p)\<rparr>"
    by (auto simp: blockpool_acquire_def split: if_splits)
  from ne obtain xs where xs: "bp_free p = xs @ [i]" unfolding i by (metis append_butlast_last_id)
  with ok show "blockpool_ok p' \<and> i \<in> set (bp_free p) \<and> set (bp_free p') = set (bp_free p) - {i} \<and>
      {..<bp_num_blocks p'} = {..<bp_num_blocks p}"
    by (auto simp: p' blockpool_ok_def)
qed (auto simp: blockpool_ok_def blockpool_acquire_def blockpool_release_def)

text \<open>The streaming chunks, by address.\<close>

definition chunk_at :: "block_pool \<Rightarrow> nat \<Rightarrow> nat \<times> nat" where
  "chunk_at p i = (blockpool_block_data p i, bp_block_bytes p)"

lemma chunk_at_index:
  assumes "blockpool_ok p" and "i < bp_num_blocks p"
  shows "u32 ((fst (chunk_at p i) - bp_base p) div bp_block_bytes p) = i"
  using assms by (auto simp: chunk_at_def blockpool_block_data_def blockpool_ok_def u32_id)

lemma chunk_at_inj: "blockpool_ok p \<Longrightarrow> inj_on (chunk_at p) {..<bp_num_blocks p}"
  by (rule inj_onI) (metis chunk_at_index lessThan_iff)

lemma chunk_at_cong [simp]:
  "chunk_at (p\<lparr>bp_free := xs\<rparr>) = chunk_at p"
  by (rule ext) (simp add: chunk_at_def blockpool_block_data_def)

interpretation iobufs: chunk_stock iopool_acquire iopool_release
  "\<lambda>p. chunk_at p ` set (bp_free p)" "\<lambda>p. chunk_at p ` {..<bp_num_blocks p}" blockpool_ok
proof
  fix p
  assume "blockpool_ok p"
  then show "(iopool_acquire p = None) = (chunk_at p ` set (bp_free p) = {})"
    using blocks.take_None [of p] by (auto simp: iopool_acquire_def split: option.splits)
next
  fix p c p'
  assume ok: "blockpool_ok p" and a: "iopool_acquire p = Some (c, p')"
  then obtain i where i: "blockpool_acquire p = Some (i, p')" and c: "c = chunk_at p' i"
    by (auto simp: iopool_acquire_def chunk_at_def split: option.splits)
  note t = blocks.take_Some [OF ok i]
  have eq: "chunk_at p' = chunk_at p" using i by (auto simp: blockpool_acquire_def split: if_splits)
  have "chunk_at p ` (set (bp_free p) - {i}) = chunk_at p ` set (bp_free p) - chunk_at p ` {i}"
    using t ok by (intro inj_on_image_set_diff [OF chunk_at_inj [OF ok]]) (auto simp: blockpool_ok_def)
  with t c eq show "blockpool_ok p' \<and> c \<in> chunk_at p ` set (bp_free p) \<and>
      chunk_at p' ` set (bp_free p') = chunk_at p ` set (bp_free p) - {c} \<and>
      chunk_at p' ` {..<bp_num_blocks p'} = chunk_at p ` {..<bp_num_blocks p}"
    by auto
next
  fix p c
  assume ok: "blockpool_ok p" and c: "c \<in> chunk_at p ` {..<bp_num_blocks p}"
    and n: "c \<notin> chunk_at p ` set (bp_free p)"
  then obtain i where i: "i < bp_num_blocks p" "c = chunk_at p i" by auto
  have r: "iopool_release p c = blockpool_release p i"
    using chunk_at_index [OF ok i(1)] by (simp add: iopool_release_def i(2))
  have "i \<notin> set (bp_free p)" using n i(2) by auto
  with blocks.give [OF ok, of i] i
  show "blockpool_ok (iopool_release p c) \<and>
      chunk_at (iopool_release p c) ` set (bp_free (iopool_release p c)) =
        insert c (chunk_at p ` set (bp_free p)) \<and>
      chunk_at (iopool_release p c) ` {..<bp_num_blocks (iopool_release p c)} =
        chunk_at p ` {..<bp_num_blocks p}"
    unfolding r by (auto simp: blockpool_release_def)
qed (auto simp: blockpool_ok_def)

section \<open>The pool invariant\<close>

text \<open>
  The client's regions are listed by flat address (block index times block size plus offset);
  \<open>block_reqs bb i L\<close> are those of block \<open>i\<close>, by offset. A block is an arena exactly when it
  is not in the free stack, an arena serves at least one region, and the buddy invariant
  holds of every arena and the regions in it. The offsets of a region are 32-bit, so the
  invariant is stated for blocks of at most 4 GiB.
\<close>

definition block_reqs :: "nat \<Rightarrow> nat \<Rightarrow> (nat \<times> nat) list \<Rightarrow> (nat \<times> nat) list" where
  "block_reqs bb i L = map (\<lambda>(a, n). (a mod bb, n)) (filter (\<lambda>(a, n). a div bb = i) L)"

abbreviation pool_bb :: "buffer_pool \<Rightarrow> nat" where
  "pool_bb p \<equiv> bp_block_bytes (pl_blocks p)"

definition arena_ok :: "buffer_pool \<Rightarrow> (nat \<times> nat) list \<Rightarrow> nat \<Rightarrow> bool" where
  "arena_ok p L i \<longleftrightarrow>
     (case pl_arenas p ! i of
        None \<Rightarrow> i \<in> set (bp_free (pl_blocks p)) \<and> block_reqs (pool_bb p) i L = []
      | Some a \<Rightarrow> i \<notin> set (bp_free (pl_blocks p)) \<and> block_reqs (pool_bb p) i L \<noteq> [] \<and>
          ba_min_block a = pl_min_alloc p \<and> ba_arena_size a = pool_bb p \<and>
          buddy_live a (block_reqs (pool_bb p) i L))"

definition pool_shape :: "buffer_pool \<Rightarrow> bool" where
  "pool_shape p \<longleftrightarrow>
     (\<exists>m k. pl_min_alloc p = 2 ^ m \<and> pool_bb p = 2 ^ (m + k) \<and> m + k \<le> 32) \<and>
     blockpool_ok (pl_blocks p) \<and> length (pl_arenas p) = bp_num_blocks (pl_blocks p)"

definition pool_live :: "buffer_pool \<Rightarrow> (nat \<times> nat) list \<Rightarrow> bool" where
  "pool_live p L \<longleftrightarrow>
     pool_shape p \<and> (\<forall>i < length (pl_arenas p). arena_ok p L i) \<and>
     (\<forall>(a, n) \<in> set L. a div pool_bb p < length (pl_arenas p))"

lemma block_reqs_Nil [simp]: "block_reqs bb i [] = []"
  by (simp add: block_reqs_def)

lemma block_reqs_Cons:
  "off < bb \<Longrightarrow> block_reqs bb i ((b * bb + off, n) # L) =
     (if i = b then (off, n) # block_reqs bb i L else block_reqs bb i L)"
  by (simp add: block_reqs_def)

lemma block_reqs_remove1:
  "block_reqs bb i (remove1 (a, n) L) =
    (if i = a div bb then remove1 (a mod bb, n) (block_reqs bb i L) else block_reqs bb i L)"
proof -
  have "y = (a, n)" if "fst y div bb = i" "a div bb = i" "(fst y mod bb, snd y) = (a mod bb, n)" for y
    using that by (metis div_mult_mod_eq prod.collapse prod.inject)
  then show ?thesis
    unfolding block_reqs_def case_prod_unfold by (subst map_filter_remove1) auto
qed

lemma in_block_reqs: "(a, n) \<in> set L \<Longrightarrow> (a mod bb, n) \<in> set (block_reqs bb (a div bb) L)"
  by (force simp: block_reqs_def)

lemma try_arenas_Some:
  "try_arenas j as n = Some (b, off, a') \<Longrightarrow>
     j \<le> b \<and> b < j + length as \<and> (\<exists>a. as ! (b - j) = Some a \<and> buddy_allocate a n = Some (off, a'))"
proof (induction j as n rule: try_arenas.induct)
  case (2 j as n)
  then show ?case by (auto simp: nth_Cons' Suc_diff_Suc)
next
  case (3 j a as n)
  then show ?case by (auto simp: nth_Cons' split: option.splits)
qed simp

lemma try_arenas_None:
  "try_arenas j as n = None \<longleftrightarrow> (\<forall>a. Some a \<in> set as \<longrightarrow> buddy_allocate a n = None)"
  by (induction j as n rule: try_arenas.induct) (auto split: option.splits)

lemma buddy_live_idle: "buddy_live a L \<Longrightarrow> ba_used a = 0 \<longleftrightarrow> L = []"
proof -
  assume l: "buddy_live a L"
  then have wf: "buddy_wf a (buddy_blocks a L)" by (simp add: buddy_live_def)
  have "0 < ba_min_block a" by (rule min_block_pos [OF buddy_wfD(1) [OF wf]])
  then show ?thesis
    unfolding buddy_wfD(6) [OF wf] by (cases L) (auto simp: buddy_blocks_def)
qed

lemma buddy_deallocate_arena:
  "ba_min_block (buddy_deallocate a off n) = ba_min_block a"
  "ba_arena_size (buddy_deallocate a off n) = ba_arena_size a"
  by simp_all

lemma buddy_allocate_arena:
  "buddy_allocate a n = Some (off, a') \<Longrightarrow>
     ba_min_block a' = ba_min_block a \<and> ba_arena_size a' = ba_arena_size a"
  by (auto simp: buddy_allocate_def Let_def split: if_splits)

lemma pool_shape_bb:
  assumes "pool_shape p"
  shows "0 < pool_bb p" and "pool_bb p \<le> 2 ^ 32" and "pl_min_alloc p \<le> pool_bb p"
  using assms power_increasing [of _ 32 "2::nat"] by (auto simp: pool_shape_def)

text \<open>A region of one arena keeps its 32-bit offset.\<close>

lemma arena_offset:
  assumes "pool_shape p" and "buddy_live a R" and "ba_arena_size a = pool_bb p"
    and "buddy_allocate a n = Some (off, a')"
  shows "off < pool_bb p" and "u32 off = off" and "off + n \<le> pool_bb p"
proof -
  have "0 < n \<and> off + n \<le> pool_bb p" using buddy.alloc_disjoint(1) [OF assms(2,4)] assms(3) by simp
  then show "off < pool_bb p" "off + n \<le> pool_bb p" by auto
  with pool_shape_bb(2) [OF assms(1)] show "u32 off = off" by (simp add: u32_id)
qed

lemma arena_okD:
  assumes "pool_live p L" and "i < length (pl_arenas p)" and "pl_arenas p ! i = Some a"
  shows "i \<notin> set (bp_free (pl_blocks p))" and "block_reqs (pool_bb p) i L \<noteq> []"
    and "ba_min_block a = pl_min_alloc p" and "ba_arena_size a = pool_bb p"
    and "buddy_live a (block_reqs (pool_bb p) i L)"
  using assms by (auto simp: pool_live_def arena_ok_def)

lemma fresh_arena:
  assumes "pool_shape p"
  shows "buddy_live (buddy_new (pool_bb p) (pl_min_alloc p)) []"
    and "ba_arena_size (buddy_new (pool_bb p) (pl_min_alloc p)) = pool_bb p"
    and "ba_min_block (buddy_new (pool_bb p) (pl_min_alloc p)) = pl_min_alloc p"
proof -
  obtain m k where mk: "pl_min_alloc p = 2 ^ m" "pool_bb p = 2 ^ (m + k)" "m + k \<le> 32"
    using assms by (auto simp: pool_shape_def)
  then show "buddy_live (buddy_new (pool_bb p) (pl_min_alloc p)) []"
    using buddy_new_wf [of m k] by (simp add: buddy_live_def buddy_blocks_def)
qed (simp_all add: buddy_new_def Let_def)

text \<open>The two ways an allocation succeeds: in an arena in use, or in a fresh block.\<close>

lemma bufpool_allocate_cases:
  assumes "pool_live p L" and "bufpool_allocate p n = Some (r, p')"
  obtains (used) b off a a' where "b < length (pl_arenas p)" "pl_arenas p ! b = Some a"
      "buddy_allocate a n = Some (off, a')" "p' = p\<lparr>pl_arenas := (pl_arenas p)[b := Some a']\<rparr>"
      "r = \<lparr>rg_block = b, rg_offset = off, rg_len = n, rg_data = bufpool_addr p b off\<rparr>"
      "off + n \<le> pool_bb p" "0 < n"
  | (fresh) b off a' bp where "b < length (pl_arenas p)" "pl_arenas p ! b = None"
      "blockpool_acquire (pl_blocks p) = Some (b, bp)"
      "buddy_allocate (buddy_new (pool_bb p) (pl_min_alloc p)) n = Some (off, a')"
      "p' = p\<lparr>pl_blocks := bp, pl_arenas := (pl_arenas p)[b := Some a']\<rparr>"
      "r = \<lparr>rg_block = b, rg_offset = off, rg_len = n, rg_data = bufpool_addr p b off\<rparr>"
      "off + n \<le> pool_bb p" "0 < n"
proof -
  have sh: "pool_shape p" and bok: "blockpool_ok (pl_blocks p)"
    using assms(1) by (auto simp: pool_live_def pool_shape_def)
  have n: "0 < n" using assms(2) by (auto simp: bufpool_allocate_def split: if_splits)
  show thesis
  proof (cases "try_arenas 0 (pl_arenas p) n")
    case (Some x)
    then obtain b off a' where x: "try_arenas 0 (pl_arenas p) n = Some (b, off, a')"
      by (cases x) auto
    from try_arenas_Some [OF x] obtain a where a: "b < length (pl_arenas p)"
      "pl_arenas p ! b = Some a" "buddy_allocate a n = Some (off, a')" by auto
    note o = arena_offset [OF sh arena_okD(5,4) [OF assms(1) a(1,2)] a(3)]
    show thesis
      by (rule used [OF a]) (use assms(2) x o n in \<open>auto simp: bufpool_allocate_def split: if_splits\<close>)
  next
    case None
    with assms(2) obtain b off a' bp where b: "blockpool_acquire (pl_blocks p) = Some (b, bp)"
      "buddy_allocate (buddy_new (pool_bb p) (pl_min_alloc p)) n = Some (off, a')"
      by (auto simp: bufpool_allocate_def split: if_splits option.splits)
    note o = arena_offset [OF sh fresh_arena(1,2) [OF sh] b(2)]
    have bs: "b \<in> set (bp_free (pl_blocks p))"
      using blocks.take_Some [OF bok b(1)] by simp
    then have bl: "b < length (pl_arenas p)"
      using bok sh by (auto simp: blockpool_ok_def pool_shape_def)
    have "pl_arenas p ! b = None"
      using arena_okD(1) [OF assms(1) bl] bs by (cases "pl_arenas p ! b") auto
    then show thesis
      using None assms(2) b o n by (intro fresh [OF bl _ b]) (auto simp: bufpool_allocate_def split: if_splits)
  qed
qed

text \<open>The same operations by flat address.\<close>

definition flat_alloc :: "buffer_pool \<Rightarrow> nat \<Rightarrow> (nat \<times> buffer_pool) option" where
  "flat_alloc p n =
     map_option (\<lambda>(r, p'). (rg_block r * pool_bb p + rg_offset r, p')) (bufpool_allocate p n)"

definition flat_dealloc :: "buffer_pool \<Rightarrow> nat \<Rightarrow> nat \<Rightarrow> buffer_pool" where
  "flat_dealloc p a n = bufpool_deallocate p (a div pool_bb p) (a mod pool_bb p) n"

definition pool_capacity :: "buffer_pool \<Rightarrow> nat" where
  "pool_capacity p = bp_num_blocks (pl_blocks p) * pool_bb p"

text \<open>A change confined to one block keeps the invariant if that block is in order.\<close>

lemma pool_live_update:
  assumes "pool_live p L" and "pool_shape p'"
    and "pool_bb p' = pool_bb p" and "pl_min_alloc p' = pl_min_alloc p"
    and "pl_arenas p' = (pl_arenas p)[b := x]" and "arena_ok p' L' b"
    and "\<And>i. i \<noteq> b \<Longrightarrow> i \<in> set (bp_free (pl_blocks p')) \<longleftrightarrow> i \<in> set (bp_free (pl_blocks p))"
    and "\<And>i. i \<noteq> b \<Longrightarrow> block_reqs (pool_bb p) i L' = block_reqs (pool_bb p) i L"
    and "\<forall>(a, n) \<in> set L'. a div pool_bb p < length (pl_arenas p)"
  shows "pool_live p' L'"
proof -
  have "arena_ok p' L' i" if "i < length (pl_arenas p')" for i
  proof (cases "i = b")
    case False
    have "arena_ok p L i" using assms(1,5) that by (simp add: pool_live_def)
    with False show ?thesis by (simp add: arena_ok_def assms(3,4,5,7,8) split: option.splits)
  qed (simp add: assms(6))
  with assms(2,3,5,9) show ?thesis by (simp add: pool_live_def)
qed

definition same_params :: "buffer_pool \<Rightarrow> buffer_pool \<Rightarrow> bool" where
  "same_params p' p \<longleftrightarrow>
     pool_bb p' = pool_bb p \<and> bp_num_blocks (pl_blocks p') = bp_num_blocks (pl_blocks p) \<and>
     bp_base (pl_blocks p') = bp_base (pl_blocks p) \<and> pl_min_alloc p' = pl_min_alloc p"

lemma pool_liveD:
  assumes "pool_live p L"
  shows "pool_shape p" and "blockpool_ok (pl_blocks p)"
    and "length (pl_arenas p) = bp_num_blocks (pl_blocks p)"
    and "i < length (pl_arenas p) \<Longrightarrow> arena_ok p L i"
    and "(a, n) \<in> set L \<Longrightarrow> a div pool_bb p < length (pl_arenas p)"
  using assms by (auto simp: pool_live_def pool_shape_def)

lemma bufpool_allocate_live:
  assumes "pool_live p L" and "bufpool_allocate p n = Some (r, p')"
  shows "pool_live p' ((rg_block r * pool_bb p + rg_offset r, n) # L) \<and> same_params p' p"
proof (cases rule: bufpool_allocate_cases [OF assms])
  case (1 b off a a')
  note d = arena_okD [OF assms(1) 1(1,2)] and pl = pool_liveD [OF assms(1)]
  have off: "off < pool_bb p" using 1(6,7) by simp
  have "arena_ok p' ((b * pool_bb p + off, n) # L) b"
    using 1(1,4) d buddy.alloc_live [OF d(5) 1(3)] buddy_allocate_arena [OF 1(3)]
    by (simp add: arena_ok_def block_reqs_Cons [OF off])
  then have "pool_live p' ((b * pool_bb p + off, n) # L)"
    using pl(1) 1(1) pl(5) off
    by (intro pool_live_update [OF assms(1), of p' b "Some a'"])
      (auto simp: 1(4) pool_shape_def block_reqs_Cons)
  then show ?thesis by (simp add: 1(4,5) same_params_def)
next
  case (2 b off a' bp)
  note pl = pool_liveD [OF assms(1)]
  have off: "off < pool_bb p" using 2(7,8) by simp
  have bp: "bp_block_bytes bp = pool_bb p" "bp_num_blocks bp = bp_num_blocks (pl_blocks p)"
    "bp_base bp = bp_base (pl_blocks p)"
    using 2(3) by (auto simp: blockpool_acquire_def split: if_splits)
  have free: "blockpool_ok bp" "set (bp_free bp) = set (bp_free (pl_blocks p)) - {b}"
    using blocks.take_Some [OF pl(2) 2(3)] by auto
  have "block_reqs (pool_bb p) b L = []"
    using pl(4) [OF 2(1)] 2(2) by (simp add: arena_ok_def)
  then have "arena_ok p' ((b * pool_bb p + off, n) # L) b"
    using 2(1,5) free(2) bp(1) fresh_arena(2,3) [OF pl(1)]
      buddy.alloc_live [OF fresh_arena(1) [OF pl(1)] 2(4)] buddy_allocate_arena [OF 2(4)]
    by (simp add: arena_ok_def block_reqs_Cons [OF off])
  then have "pool_live p' ((b * pool_bb p + off, n) # L)"
    using pl(1) 2(1) pl(5) off bp free
    by (intro pool_live_update [OF assms(1), of p' b "Some a'"])
      (auto simp: 2(5) pool_shape_def block_reqs_Cons)
  then show ?thesis by (simp add: 2(5,6) same_params_def bp)
qed

lemma bufpool_deallocate_live:
  assumes "pool_live p L" and "(a, n) \<in> set L"
  shows "pool_live (flat_dealloc p a n) (remove1 (a, n) L) \<and> same_params (flat_dealloc p a n) p"
proof -
  let ?b = "a div pool_bb p" and ?off = "a mod pool_bb p" and ?p' = "flat_dealloc p a n"
  note pl = pool_liveD [OF assms(1)]
  note bl = pl(5) [OF assms(2)]
  note mem = in_block_reqs [OF assms(2), of "pool_bb p"]
  with pl(4) [OF bl] obtain ar where ar: "pl_arenas p ! ?b = Some ar"
    by (force simp: arena_ok_def split: option.splits)
  note d = arena_okD [OF assms(1) bl ar]
  let ?ar = "buddy_deallocate ar ?off n"
  note l' = buddy.dealloc_live [OF d(5) mem]
  note idle = buddy_live_idle [OF l']
  have rest: "\<forall>(a', n') \<in> set (remove1 (a, n) L). a' div pool_bb p < length (pl_arenas p)"
    using pl(5) notin_set_remove1 by fastforce
  show ?thesis
  proof (cases "ba_used ?ar = 0")
    case True
    then have p': "?p' = p\<lparr>pl_arenas := (pl_arenas p)[?b := None],
        pl_blocks := blockpool_release (pl_blocks p) ?b\<rparr>"
      using bl ar by (simp add: flat_dealloc_def bufpool_deallocate_def)
    have rel: "blockpool_ok (blockpool_release (pl_blocks p) ?b)"
      using blocks.give [OF pl(2) _ d(1)] bl pl(3) by simp
    have "arena_ok ?p' (remove1 (a, n) L) ?b"
      using True idle bl by (simp add: p' arena_ok_def block_reqs_remove1 blockpool_release_def)
    then have "pool_live ?p' (remove1 (a, n) L)"
      using pl(1) rel rest
      by (intro pool_live_update [OF assms(1), of ?p' ?b None])
        (auto simp: p' pool_shape_def block_reqs_remove1 blockpool_release_def)
    then show ?thesis by (simp add: p' same_params_def blockpool_release_def)
  next
    case False
    then have p': "?p' = p\<lparr>pl_arenas := (pl_arenas p)[?b := Some ?ar]\<rparr>"
      using bl ar by (simp add: flat_dealloc_def bufpool_deallocate_def)
    have "arena_ok ?p' (remove1 (a, n) L) ?b"
      using False idle bl l' d by (simp add: p' arena_ok_def block_reqs_remove1)
    then have "pool_live ?p' (remove1 (a, n) L)"
      using pl(1) rest
      by (intro pool_live_update [OF assms(1), of ?p' ?b "Some ?ar"])
        (auto simp: p' pool_shape_def block_reqs_remove1)
    then show ?thesis by (simp add: p' same_params_def)
  qed
qed

lemma pool_live_bounds:
  assumes "pool_live p L" and "(a, n) \<in> set L"
  shows "0 < n" and "a mod pool_bb p + n \<le> pool_bb p" and "a + n \<le> pool_capacity p"
proof -
  let ?b = "a div pool_bb p"
  note pl = pool_liveD [OF assms(1)]
  note bl = pl(5) [OF assms(2)]
  note mem = in_block_reqs [OF assms(2), of "pool_bb p"]
  with pl(4) [OF bl] obtain ar where ar: "pl_arenas p ! ?b = Some ar"
    by (force simp: arena_ok_def split: option.splits)
  note d = arena_okD [OF assms(1) bl ar]
  show n: "0 < n" and off: "a mod pool_bb p + n \<le> pool_bb p"
    using buddy.live_bounds [OF d(5) mem] d(4) by auto
  have "a + n \<le> Suc ?b * pool_bb p" by (rule block_end_le [OF off])
  also have "\<dots> \<le> pool_capacity p"
    unfolding pool_capacity_def using bl pl(3) by (intro mult_le_mono1) simp
  finally show "a + n \<le> pool_capacity p" .
qed

lemma apart_by_block:
  assumes "\<And>i. apart (block_reqs bb i L)" and "\<And>a n. (a, n) \<in> set L \<Longrightarrow> a mod bb + n \<le> bb"
  shows "apart L"
  using assms
proof (induction L)
  case (Cons x L)
  obtain a n where x: "x = (a, n)" by (cases x)
  have sub: "apart (block_reqs bb i L)" for i
    using Cons.prems(1) [of i] by (auto simp: block_reqs_def split: if_splits)
  have "a + n \<le> a' \<or> a' + n' \<le> a" if m: "(a', n') \<in> set L" for a' n'
  proof (cases "a div bb = a' div bb")
    case True
    have "(a' mod bb, n') \<in> set (block_reqs bb (a div bb) L)"
      using in_block_reqs [OF m, of bb] True by simp
    with Cons.prems(1) [of "a div bb"]
    have "a mod bb + n \<le> a' mod bb \<or> a' mod bb + n' \<le> a mod bb"
      by (fastforce simp: x block_reqs_def)
    then show ?thesis
      using div_mult_mod_eq [of a bb] div_mult_mod_eq [of a' bb, folded True]
      by (elim disjE) linarith+
  next
    case False
    have far: "u + k \<le> v" if "u div bb < v div bb" "u mod bb + k \<le> bb" for u k v
    proof -
      have "u + k \<le> Suc (u div bb) * bb" by (rule block_end_le [OF that(2)])
      also have "\<dots> \<le> v div bb * bb" using that(1) by (intro mult_le_mono1) simp
      also have "\<dots> \<le> v" by simp
      finally show ?thesis .
    qed
    show ?thesis
      using False far [of a a' n] far [of a' a n'] Cons.prems(2) m x
      by (metis linorder_neqE_nat list.set_intros(1,2))
  qed
  with Cons sub show ?case by (auto simp: x)
qed simp

lemma pool_live_apart:
  assumes "pool_live p L"
  shows "apart L"
proof (rule apart_by_block)
  fix i
  show "apart (block_reqs (pool_bb p) i L)"
  proof (cases "i < length (pl_arenas p)")
    case True
    with pool_liveD(4) [OF assms True] show ?thesis
      by (auto simp: arena_ok_def split: option.splits intro: buddy.live_apart)
  next
    case False
    with pool_liveD(5) [OF assms] have "block_reqs (pool_bb p) i L = []"
      by (auto simp: block_reqs_def filter_empty_conv)
    then show ?thesis by simp
  qed
next
  show "a mod pool_bb p + n \<le> pool_bb p" if "(a, n) \<in> set L" for a n
    using pool_live_bounds(2) [OF assms that] .
qed

interpretation pool: region_allocator flat_alloc flat_dealloc pool_live pool_capacity
proof
  fix p L n a p'
  assume l: "pool_live p L"
  {
    assume "flat_alloc p n = Some (a, p')"
    then obtain r where r: "bufpool_allocate p n = Some (r, p')" "a = rg_block r * pool_bb p + rg_offset r"
      by (auto simp: flat_alloc_def)
    from bufpool_allocate_live [OF l r(1)]
    show "pool_live p' ((a, n) # L)" and "pool_capacity p' = pool_capacity p"
      by (simp_all add: r(2) same_params_def pool_capacity_def)
  next
    assume "(a, n) \<in> set L"
    from bufpool_deallocate_live [OF l this] pool_live_bounds [OF l this]
    show "pool_live (flat_dealloc p a n) (remove1 (a, n) L)"
      and "pool_capacity (flat_dealloc p a n) = pool_capacity p"
      and "0 < n \<and> a + n \<le> pool_capacity p"
      by (simp_all add: same_params_def pool_capacity_def)
  next
    show "apart L" by (rule pool_live_apart [OF l])
  }
qed

section \<open>Properties of the buffer pool\<close>

text \<open>
  Property C25. A region the pool hands out has the requested length, lies inside the pool's
  mapping, at the address its block index and 32-bit offset name, and shares no byte with any
  live region.
\<close>

theorem bufpool_allocate_safe:
  assumes "pool_live p L" and "bufpool_allocate p n = Some (r, p')"
  defines "a \<equiv> rg_block r * bp_block_bytes (pl_blocks p) + rg_offset r"
  shows "rg_len r = n \<and> rg_data r = bp_base (pl_blocks p) + a \<and> rg_offset r < 2 ^ 32 \<and>
    a + n \<le> bp_num_blocks (pl_blocks p) * bp_block_bytes (pl_blocks p) \<and>
    (\<forall>(a', n') \<in> set L. a + n \<le> a' \<or> a' + n' \<le> a) \<and> pool_live p' ((a, n) # L)"
proof -
  have f: "flat_alloc p n = Some (a, p')" using assms(2) by (simp add: flat_alloc_def a_def)
  have "rg_len r = n" "rg_data r = bufpool_addr p (rg_block r) (rg_offset r)" "rg_offset r < 2 ^ 32"
    using assms(2) by (auto simp: bufpool_allocate_def simp del: power_numeral split: if_splits option.splits)
  then show ?thesis
    using pool.alloc_disjoint [OF assms(1) f] pool.alloc_live [OF assms(1) f]
    by (auto simp: bufpool_addr_def blockpool_block_data_def a_def pool_capacity_def)
qed

lemma bufpool_new_live:
  assumes "num \<le> 2 ^ 32" and "m + k \<le> 32"
  shows "pool_live \<lparr>pl_blocks = blockpool_new base (2 ^ (m + k)) num locked, pl_min_alloc = 2 ^ m,
    pl_arenas = replicate num None\<rparr> []"
proof -
  have sel: "bp_block_bytes (blockpool_new base b num locked) = b"
    "bp_num_blocks (blockpool_new base b num locked) = num" for b by (simp_all add: blockpool_new_def)
  show ?thesis
    using blockpool_new_ok [OF assms(1), of "2 ^ (m + k)" base locked] assms(2)
    by (auto simp: pool_live_def pool_shape_def arena_ok_def sel blockpool_new_free [OF assms(1)])
qed

text \<open>A pool over one free block of 8 KiB, for the witnesses.\<close>

definition tiny_pool :: buffer_pool where
  "tiny_pool = \<lparr>pl_blocks = \<lparr>bp_base = 65536, bp_block_bytes = 8192, bp_num_blocks = 1,
       bp_locked = False, bp_free = [0]\<rparr>, pl_min_alloc = 4096, pl_arenas = [None]\<rparr>"

lemma tiny_pool_live: "pool_live tiny_pool []"
  using bufpool_new_live [of 1 12 1 65536 False] by (simp add: tiny_pool_def blockpool_new_def u32_def)

lemma buddy_new_8k:
  "buddy_new 8192 4096 = \<lparr>ba_arena_size = 8192, ba_min_block = 4096, ba_max_order = 1,
      ba_used = 0, ba_free = [[], [0]]\<rparr>"
  using buddy_new_eq [of 12 1] by simp

lemmas buddy_eval = buddy_allocate_def buddy_order_for_def order_loop.simps find_free.simps
  split_down.simps buddy_block_size_def u64_def u32_def

theorem bufpool_allocate_safe_witness:
  "\<exists>r p'. bufpool_allocate tiny_pool 100 = Some (r, p') \<and> rg_len r = 100 \<and> pool_live p' [(0, 100)]"
proof -
  let ?a = "\<lparr>ba_arena_size = 8192, ba_min_block = 4096, ba_max_order = 1, ba_used = 4096,
    ba_free = [[4096], []]\<rparr>"
  let ?p = "tiny_pool\<lparr>pl_blocks := (pl_blocks tiny_pool)\<lparr>bp_free := []\<rparr>,
    pl_arenas := [Some ?a]\<rparr>"
  let ?r = "\<lparr>rg_block = 0, rg_offset = 0, rg_len = 100, rg_data = bufpool_addr tiny_pool 0 0\<rparr>"
  have e: "bufpool_allocate tiny_pool 100 = Some (?r, ?p)"
    by (simp add: bufpool_allocate_def tiny_pool_def blockpool_acquire_def buddy_new_8k buddy_eval)
  show ?thesis using bufpool_allocate_safe [OF tiny_pool_live e] e by auto
qed

text \<open>
  An allocation is refused only for a request of zero bytes or more than a
  block, or when no block is free and no arena in use has room: the dereference of the fresh
  arena's answer in the source never meets an empty optional.
\<close>

lemma bufpool_allocate_None:
  assumes "pool_live p L"
  shows "bufpool_allocate p n = None \<longleftrightarrow>
    n = 0 \<or> n > bp_block_bytes (pl_blocks p) \<or>
    bp_free (pl_blocks p) = [] \<and> (\<forall>a. Some a \<in> set (pl_arenas p) \<longrightarrow> buddy_allocate a n = None)"
proof (cases "n = 0 \<or> n > pool_bb p")
  case False
  note sh = pool_liveD(1) [OF assms]
  let ?new = "buddy_new (pool_bb p) (pl_min_alloc p)"
  have "buddy_allocate ?new n \<noteq> None"
  proof -
    obtain m k where mk: "pl_min_alloc p = 2 ^ m" "pool_bb p = 2 ^ (m + k)"
      using sh by (auto simp: pool_shape_def)
    have wf: "buddy_wf ?new (buddy_blocks ?new [])" and sz: "ba_arena_size ?new = pool_bb p"
      using fresh_arena [OF sh] by (auto simp: buddy_live_def)
    have "buddy_order_for ?new n \<le> k" "ba_max_order ?new = k" "ba_free ?new ! k \<noteq> []"
      using buddy_order_for_spec(2) [OF buddy_wfD(1) [OF wf], of n] False sz
      by (simp_all add: mk buddy_new_eq nth_append)
    then show ?thesis
      unfolding buddy_allocate_None [OF wf] using False sz by auto
  qed
  with False show ?thesis
    unfolding try_arenas_None [of 0, symmetric]
    by (auto simp: bufpool_allocate_def blockpool_acquire_def split: option.splits)
qed (auto simp: bufpool_allocate_def)

text \<open>
  Freed memory is never lost: from a fresh pool, any sequence of allocations and
  frees keeps the live regions inside the mapping and apart, their bytes never exceed the
  pool, and once all of them are freed every block is back in the free stack and no arena is
  left.
\<close>

lemma bufpool_script_drains:
  assumes "num \<le> 2 ^ 32" and "m + k \<le> 32"
    and "alloc_run flat_alloc flat_dealloc
      \<lparr>pl_blocks = blockpool_new base (2 ^ (m + k)) num locked, pl_min_alloc = 2 ^ m,
       pl_arenas = replicate num None\<rparr> [] ops = (p, L)"
  shows "apart L \<and> sum_list (map snd L) \<le> num * 2 ^ (m + k) \<and>
    (\<forall>(a, n) \<in> set L. a + n \<le> num * 2 ^ (m + k)) \<and>
    (L = [] \<longrightarrow> set (bp_free (pl_blocks p)) = {..<num} \<and> distinct (bp_free (pl_blocks p)) \<and>
       (\<forall>x \<in> set (pl_arenas p). x = None))"
proof -
  let ?p0 = "\<lparr>pl_blocks = blockpool_new base (2 ^ (m + k)) num locked, pl_min_alloc = 2 ^ m,
    pl_arenas = replicate num None\<rparr>"
  note l0 = bufpool_new_live [OF assms(1,2), of base locked]
  note run = pool.alloc_run_live [OF l0 assms(3)]
  have cap: "pool_capacity p = num * 2 ^ (m + k)"
    using run by (simp add: pool_capacity_def blockpool_new_def)
  have bb: "bp_num_blocks (pl_blocks p) = num"
    by (rule alloc_run_keeps [where P = "\<lambda>p. bp_num_blocks (pl_blocks p) = num", OF _ _ _ assms(3)])
      (auto simp: flat_alloc_def flat_dealloc_def bufpool_allocate_def bufpool_deallocate_def
        blockpool_acquire_def blockpool_release_def blockpool_new_def Let_def
        split: if_splits option.splits)
  note pl = pool_liveD [OF conjunct1 [OF run]]
  have "pl_arenas p ! i = None \<and> i \<in> set (bp_free (pl_blocks p))" if "L = []" "i < num" for i
    using pl(4) [of i] pl(3) that bb by (auto simp: arena_ok_def split: option.splits)
  then have "L = [] \<longrightarrow> set (bp_free (pl_blocks p)) = {..<num} \<and> (\<forall>x \<in> set (pl_arenas p). x = None)"
    using pl(2,3) bb by (auto simp: blockpool_ok_def in_set_conv_nth)
  moreover have "distinct (bp_free (pl_blocks p))" using pl(2) by (simp add: blockpool_ok_def)
  ultimately show ?thesis
    using run pool.live_apart [of p L] pool.live_bounds [of p L] pool.live_bytes_le [of p L] cap
    by auto
qed

section \<open>Blocks beyond 4 GiB\<close>

definition huge_config :: server_config where
  "huge_config = default_config\<lparr>
     memory := default_memory\<lparr>total_bytes := 8 * GiB, block_bytes := 8 * GiB\<rparr>,
     tiers := \<lparr>ram_head = 1 * GiB, ssd_prefix = 1 * GiB\<rparr>,
     ssd := default_pool\<lparr>dirs := [''/mnt/ssd'']\<rparr>\<rparr>"

text \<open>A pool of one 8 GiB block with 1 GiB as its smallest allocation, and its arena.\<close>

definition huge_pool :: "buddy option \<Rightarrow> nat list \<Rightarrow> buffer_pool" where
  "huge_pool x fl = \<lparr>pl_blocks = \<lparr>bp_base = 4096, bp_block_bytes = 8 * GiB, bp_num_blocks = 1,
     bp_locked = True, bp_free = fl\<rparr>, pl_min_alloc = 1 * GiB, pl_arenas = [x]\<rparr>"

definition huge_arena :: "nat \<Rightarrow> nat list list \<Rightarrow> buddy" where
  "huge_arena n F = \<lparr>ba_arena_size = 8 * GiB, ba_min_block = 1 * GiB,
     ba_max_order = 3, ba_used = n * GiB, ba_free = F\<rparr>"

lemma huge_arena_new: "buddy_new (8 * GiB) GiB = huge_arena 0 [[], [], [], [0]]"
  using buddy_new_eq [of 30 3] by (simp add: huge_arena_def size_defs numeral_3_eq_3)

lemma huge_step:
  "buddy_allocate (huge_arena 0 [[], [], [], [0]]) GiB =
     Some (0, huge_arena 1 [[GiB], [2 * GiB], [4 * GiB], []])"
  "buddy_allocate (huge_arena 1 [[GiB], [2 * GiB], [4 * GiB], []]) GiB =
     Some (GiB, huge_arena 2 [[], [2 * GiB], [4 * GiB], []])"
  "buddy_allocate (huge_arena 2 [[], [2 * GiB], [4 * GiB], []]) GiB =
     Some (2 * GiB, huge_arena 3 [[3 * GiB], [], [4 * GiB], []])"
  "buddy_allocate (huge_arena 3 [[3 * GiB], [], [4 * GiB], []]) GiB =
     Some (3 * GiB, huge_arena 4 [[], [], [4 * GiB], []])"
  "buddy_allocate (huge_arena 4 [[], [], [4 * GiB], []]) GiB =
     Some (4 * GiB, huge_arena 5 [[5 * GiB], [6 * GiB], [], []])"
  by (simp_all add: huge_arena_def buddy_eval size_defs)

lemma huge_pool_create:
  "bufpool_create (\<lambda>_ _. Some 4096) (\<lambda>_ _. True) (8 * GiB) (8 * GiB) (1 * GiB) True =
     Inr (huge_pool None [0])"
  by (simp add: bufpool_create_def blockpool_create_def is_power_of_two_def huge_pool_def
      blockpool_new_def u32_def size_defs)

lemma huge_fresh:
  "bufpool_allocate (huge_pool None [0]) GiB =
     (case buddy_allocate (buddy_new (8 * GiB) GiB) GiB of None \<Rightarrow> None | Some (off, a) \<Rightarrow>
        Some (\<lparr>rg_block = 0, rg_offset = u32 off, rg_len = GiB, rg_data = 4096 + u32 off\<rparr>,
              huge_pool (Some a) []))"
  by (simp add: bufpool_allocate_def huge_pool_def blockpool_acquire_def bufpool_addr_def
      blockpool_block_data_def size_defs split: option.splits)

lemma huge_again:
  "buddy_allocate a GiB = Some (off, a') \<Longrightarrow>
   bufpool_allocate (huge_pool (Some a) []) GiB =
     Some (\<lparr>rg_block = 0, rg_offset = u32 off, rg_len = GiB, rg_data = 4096 + u32 off\<rparr>,
           huge_pool (Some a') [])"
  by (simp add: bufpool_allocate_def huge_pool_def bufpool_addr_def
      blockpool_block_data_def size_defs)


end
