(* ===== verification/S3_Fifo.thy ===== *)
theory S3_Fifo
  imports Common Sha256
begin

text \<open>
  Cache eviction: the policy interface (\<^verbatim>\<open>storage/eviction.hpp\<close>, \<^verbatim>\<open>storage/eviction.cpp\<close>) as a
  locale, and the S3-FIFO policy (\<^verbatim>\<open>storage/s3fifo.hpp\<close>, \<^verbatim>\<open>storage/s3fifo.cpp\<close>) that
  implements it: a small and a main FIFO queue with lazily dropped entries, a visited bit per
  resident item, and a ghost queue that remembers recent victims.
\<close>

section \<open>The policy interface\<close>

locale eviction_policy =
  fixes ins :: "'s \<Rightarrow> digest \<Rightarrow> 's"
    and tch :: "'s \<Rightarrow> digest \<Rightarrow> 's"
    and del :: "'s \<Rightarrow> digest \<Rightarrow> 's"
    and evict :: "'s \<Rightarrow> digest option \<times> 's"
    and tracked :: "'s \<Rightarrow> digest set"
    and good :: "'s \<Rightarrow> bool"
  assumes ins_law: "good s \<Longrightarrow> good (ins s d) \<and> tracked (ins s d) = insert d (tracked s)"
    and tch_law: "good s \<Longrightarrow> good (tch s d) \<and> tracked (tch s d) = tracked s"
    and del_law: "good s \<Longrightarrow> good (del s d) \<and> tracked (del s d) = tracked s - {d}"
    and evict_None: "good s \<Longrightarrow> evict s = (None, s') \<Longrightarrow> good s' \<and> tracked s = {} \<and> tracked s' = {}"
    and evict_Some: "good s \<Longrightarrow> evict s = (Some d, s') \<Longrightarrow>
      good s' \<and> d \<in> tracked s \<and> tracked s' = tracked s - {d}"
    and tracked_finite: "good s \<Longrightarrow> finite (tracked s)"
begin

text \<open>A policy that tracks anything has a victim.\<close>

lemma evict_total:
  assumes "good s" and "tracked s \<noteq> {}"
  obtains d s' where "evict s = (Some d, s')"
  using evict_None [OF assms(1)] assms(2) by (cases "evict s"; cases "fst (evict s)") auto

text \<open>
  Evicting until the policy is dry: fuel as large as the number of tracked items is enough,
  and the victims are those items, each once.
\<close>

lemma drain_victims:
  fixes drain :: "nat \<Rightarrow> 's \<Rightarrow> digest list"
  assumes step: "\<And>n s. drain (Suc n) s =
      (case evict s of (None, s') \<Rightarrow> [] | (Some d, s') \<Rightarrow> d # drain n s')"
    and base: "\<And>s. drain 0 s = []"
  shows "good s \<Longrightarrow> card (tracked s) \<le> n \<Longrightarrow> set (drain n s) = tracked s \<and> distinct (drain n s)"
proof (induction n arbitrary: s)
  case 0
  then show ?case using tracked_finite [of s] by (simp add: base)
next
  case (Suc n)
  show ?case
  proof (cases "tracked s = {}")
    case True
    then have "\<nexists>d s'. evict s = (Some d, s')" using evict_Some [OF Suc.prems(1)] by blast
    then have "fst (evict s) = None" by (metis option.exhaust prod.collapse)
    with True show ?thesis by (simp add: step case_prod_unfold)
  next
    case False
    with Suc.prems(1) obtain d s' where e: "evict s = (Some d, s')" by (rule evict_total)
    note l = evict_Some [OF Suc.prems(1) e]
    have "card (tracked s') \<le> n"
      using l Suc.prems(2) tracked_finite [OF Suc.prems(1)] by (simp add: card_Diff_singleton)
    with Suc.IH [of s'] l e show ?thesis by (auto simp: step)
  qed
qed

end

section \<open>S3-FIFO\<close>

datatype s3_queue = Q_small | Q_main

record s3_entry =
  se_q :: s3_queue
  se_visited :: bool

record s3fifo_state =
  s3_small :: "digest list"
  s3_main :: "digest list"
  s3_ghost :: "digest list"
  s3_meta :: "digest \<rightharpoonup> s3_entry"
  s3_ghost_set :: "digest set"
  s3_cap :: nat
  s3_small_n :: nat
  s3_main_n :: nat

definition s3_new :: "nat \<Rightarrow> s3fifo_state" where
  "s3_new capacity_hint =
     \<lparr>s3_small = [], s3_main = [], s3_ghost = [], s3_meta = Map.empty, s3_ghost_set = {},
      s3_cap = (if capacity_hint = 0 then 1 else capacity_hint), s3_small_n = 0, s3_main_n = 0\<rparr>"

definition s3_insert :: "s3fifo_state \<Rightarrow> digest \<Rightarrow> s3fifo_state" where
  "s3_insert s d =
     (case s3_meta s d of
        Some e \<Rightarrow> s\<lparr>s3_meta := (s3_meta s)(d \<mapsto> e\<lparr>se_visited := True\<rparr>)\<rparr>
      | None \<Rightarrow>
          if d \<in> s3_ghost_set s
          then s\<lparr>s3_ghost_set := s3_ghost_set s - {d},
                 s3_meta := (s3_meta s)(d \<mapsto> \<lparr>se_q = Q_main, se_visited = False\<rparr>),
                 s3_main := s3_main s @ [d], s3_main_n := s3_main_n s + 1\<rparr>
          else s\<lparr>s3_meta := (s3_meta s)(d \<mapsto> \<lparr>se_q = Q_small, se_visited = False\<rparr>),
                 s3_small := s3_small s @ [d], s3_small_n := s3_small_n s + 1\<rparr>)"

definition s3_touch :: "s3fifo_state \<Rightarrow> digest \<Rightarrow> s3fifo_state" where
  "s3_touch s d =
     (case s3_meta s d of
        None \<Rightarrow> s
      | Some e \<Rightarrow> s\<lparr>s3_meta := (s3_meta s)(d \<mapsto> e\<lparr>se_visited := True\<rparr>)\<rparr>)"

definition s3_remove :: "s3fifo_state \<Rightarrow> digest \<Rightarrow> s3fifo_state" where
  "s3_remove s d =
     (let s = (case s3_meta s d of
                 None \<Rightarrow> s
               | Some e \<Rightarrow>
                   (if se_q e = Q_small then s\<lparr>s3_small_n := s3_small_n s - 1\<rparr>
                    else s\<lparr>s3_main_n := s3_main_n s - 1\<rparr>)\<lparr>s3_meta := (s3_meta s)(d := None)\<rparr>)
      in s\<lparr>s3_ghost_set := s3_ghost_set s - {d}\<rparr>)"

text \<open>Pop stale entries (removed, or moved to the other queue) until a resident one.\<close>

fun pop_front_resident ::
  "(digest \<rightharpoonup> s3_entry) \<Rightarrow> s3_queue \<Rightarrow> digest list \<Rightarrow> digest option \<times> digest list" where
  "pop_front_resident m which [] = (None, [])"
| "pop_front_resident m which (d # q) =
     (case m d of
        Some e \<Rightarrow> if se_q e = which then (Some d, q) else pop_front_resident m which q
      | None \<Rightarrow> pop_front_resident m which q)"

fun ghost_trim :: "nat \<Rightarrow> digest list \<Rightarrow> digest set \<Rightarrow> digest list \<times> digest set" where
  "ghost_trim cap [] gs = ([], gs)"
| "ghost_trim cap (g # q) gs =
     (if length (g # q) > cap then ghost_trim cap q (gs - {g}) else (g # q, gs))"

definition ghost_push :: "s3fifo_state \<Rightarrow> digest \<Rightarrow> s3fifo_state" where
  "ghost_push s d =
     (let (q, gs) = ghost_trim (s3_cap s) (s3_ghost s @ [d]) (insert d (s3_ghost_set s))
      in s\<lparr>s3_ghost := q, s3_ghost_set := gs\<rparr>)"

lemma pop_front_length:
  "pop_front_resident m which q = (Some d, q') \<Longrightarrow> length q' < length q"
  by (induction m which q rule: pop_front_resident.induct) (auto split: option.splits if_splits)

text \<open>The two loops of \<^verbatim>\<open>evict\<close>: promote or evict from small, second chance in main.\<close>

function evict_small :: "s3fifo_state \<Rightarrow> digest option \<times> s3fifo_state" where
  "evict_small s =
     (case pop_front_resident (s3_meta s) Q_small (s3_small s) of
        (None, q) \<Rightarrow> (None, s\<lparr>s3_small := q\<rparr>)
      | (Some d, q) \<Rightarrow>
          let s1 = s\<lparr>s3_small := q, s3_small_n := s3_small_n s - 1\<rparr> in
          if se_visited (the (s3_meta s d))
          then evict_small (s1\<lparr>s3_meta := (s3_meta s)(d \<mapsto> \<lparr>se_q = Q_main, se_visited = False\<rparr>),
                              s3_main := s3_main s @ [d], s3_main_n := s3_main_n s + 1\<rparr>)
          else (Some d, ghost_push (s1\<lparr>s3_meta := (s3_meta s)(d := None)\<rparr>) d))"
  by pat_completeness auto
termination
  by (relation "measure (\<lambda>s. length (s3_small s))") (auto dest: pop_front_length [OF sym])

declare evict_small.simps [simp del]

definition visited_in :: "(digest \<rightharpoonup> s3_entry) \<Rightarrow> digest \<Rightarrow> bool" where
  "visited_in m d \<longleftrightarrow> (case m d of None \<Rightarrow> False | Some e \<Rightarrow> se_visited e)"

lemma pop_front_visited:
  "pop_front_resident m which q = (Some d, q') \<Longrightarrow>
     m d \<noteq> None \<and> se_q (the (m d)) = which \<and> d \<in> set q \<and> set q' \<subseteq> set q \<and>
     length (filter (visited_in m) q') + of_bool (visited_in m d) \<le> length (filter (visited_in m) q)"
  by (induction m which q rule: pop_front_resident.induct)
    (auto split: option.splits if_splits)

lemma second_chance_decreases:
  assumes pop: "pop_front_resident m which q0 = (Some d, q)" and v: "se_visited (the (m d))"
  shows "length (filter (visited_in (m(d \<mapsto> (the (m d))\<lparr>se_visited := False\<rparr>))) (q @ [d])) <
    length (filter (visited_in m) q0)"
proof -
  let ?m = "m(d \<mapsto> (the (m d))\<lparr>se_visited := False\<rparr>)"
  note f = pop_front_visited [OF pop]
  have "visited_in m d" using f v by (auto simp: visited_in_def)
  moreover have "length (filter (visited_in ?m) q) \<le> length (filter (visited_in m) q)"
  proof -
    have "filter (visited_in ?m) q = filter (visited_in ?m) (filter (visited_in m) q)"
      unfolding filter_filter by (rule filter_cong) (auto simp: visited_in_def)
    then show ?thesis by (metis length_filter_le)
  qed
  moreover have "\<not> visited_in ?m d" by (simp add: visited_in_def)
  ultimately show ?thesis using f by simp
qed

function evict_main :: "s3fifo_state \<Rightarrow> digest option \<times> s3fifo_state" where
  "evict_main s =
     (case pop_front_resident (s3_meta s) Q_main (s3_main s) of
        (None, q) \<Rightarrow> (None, s\<lparr>s3_main := q\<rparr>)
      | (Some d, q) \<Rightarrow>
          if se_visited (the (s3_meta s d))
          then evict_main (s\<lparr>s3_meta := (s3_meta s)(d \<mapsto> (the (s3_meta s d))\<lparr>se_visited := False\<rparr>),
                             s3_main := q @ [d]\<rparr>)
          else (Some d, s\<lparr>s3_main := q, s3_main_n := s3_main_n s - 1,
                         s3_meta := (s3_meta s)(d := None)\<rparr>))"
  by pat_completeness auto
termination
  by (relation "measure (\<lambda>s. length (filter (visited_in (s3_meta s)) (s3_main s)))")
    (auto simp del: filter_append intro: second_chance_decreases [OF sym])

declare evict_main.simps [simp del]

definition s3_evict :: "s3fifo_state \<Rightarrow> digest option \<times> s3fifo_state" where
  "s3_evict s =
     (if s3_small_n s = 0 \<and> s3_main_n s = 0 then (None, s)
      else
        let from_small =
              (if s3_small_n s = 0 then False
               else if s3_main_n s = 0 then True
               else s3_small_n s \<ge> max 1 (s3_cap s div 10))
        in if from_small
           then (case evict_small s of
                   (Some d, s') \<Rightarrow> (Some d, s')
                 | (None, s') \<Rightarrow> evict_main s')
           else evict_main s)"

definition s3_resident :: "s3fifo_state \<Rightarrow> nat" where
  "s3_resident s = card (dom (s3_meta s))"

definition s3_contains :: "s3fifo_state \<Rightarrow> digest \<Rightarrow> bool" where
  "s3_contains s d \<longleftrightarrow> s3_meta s d \<noteq> None"

definition s3_in_main :: "s3fifo_state \<Rightarrow> digest \<Rightarrow> bool option" where
  "s3_in_main s d = map_option (\<lambda>e. se_q e = Q_main) (s3_meta s d)"

text \<open>Every configured kind gives S3-FIFO today.\<close>

definition make_eviction_policy :: "eviction_kind \<Rightarrow> nat \<Rightarrow> s3fifo_state" where
  "make_eviction_policy kind capacity_hint =
     (if kind = s3fifo then s3_new capacity_hint else s3_new capacity_hint)"

section \<open>Invariant\<close>

definition items :: "(digest \<rightharpoonup> s3_entry) \<Rightarrow> s3_queue \<Rightarrow> digest set" where
  "items m which = {d. \<exists>e. m d = Some e \<and> se_q e = which}"

text \<open>
  The counters are the numbers of resident items per queue, every resident item has an entry
  in its queue, and the ghost structures stay within the capacity.
\<close>

definition s3_ok :: "s3fifo_state \<Rightarrow> bool" where
  "s3_ok s \<longleftrightarrow>
     finite (dom (s3_meta s)) \<and>
     s3_small_n s = card (items (s3_meta s) Q_small) \<and>
     s3_main_n s = card (items (s3_meta s) Q_main) \<and>
     items (s3_meta s) Q_small \<subseteq> set (s3_small s) \<and>
     items (s3_meta s) Q_main \<subseteq> set (s3_main s) \<and>
     length (s3_ghost s) \<le> s3_cap s \<and> s3_ghost_set s \<subseteq> set (s3_ghost s)"

lemma s3_okD:
  assumes "s3_ok s"
  shows "finite (dom (s3_meta s))" and "s3_small_n s = card (items (s3_meta s) Q_small)"
    and "s3_main_n s = card (items (s3_meta s) Q_main)"
    and "items (s3_meta s) Q_small \<subseteq> set (s3_small s)"
    and "items (s3_meta s) Q_main \<subseteq> set (s3_main s)"
    and "length (s3_ghost s) \<le> s3_cap s" and "s3_ghost_set s \<subseteq> set (s3_ghost s)"
  using assms by (simp_all add: s3_ok_def)

lemma items_upd [simp]:
  "items (m(d \<mapsto> e)) which = (if se_q e = which then insert d (items m which) else items m which - {d})"
  "items (m(d := None)) which = items m which - {d}"
  by (auto simp: items_def)

lemma items_upd_if [simp]:
  "items (\<lambda>a. if a = d then Some e else m a) which =
     (if se_q e = which then insert d (items m which) else items m which - {d})"
  using items_upd(1) [of m d e which] by (simp add: fun_upd_def)

lemma items_dom: "dom m = items m Q_small \<union> items m Q_main"
  by (auto simp: items_def) (metis s3_queue.exhaust)

lemma items_finite: "finite (dom m) \<Longrightarrow> finite (items m which)"
  by (rule finite_subset [of _ "dom m"]) (auto simp: items_def)

lemma items_disjoint: "d \<in> items m which \<Longrightarrow> which' \<noteq> which \<Longrightarrow> d \<notin> items m which'"
  by (auto simp: items_def)

lemma in_items: "m d = Some e \<Longrightarrow> d \<in> items m which \<longleftrightarrow> se_q e = which"
  by (auto simp: items_def)

lemma not_in_items: "m d = None \<Longrightarrow> d \<notin> items m which"
  by (auto simp: items_def)

lemma pop_front_None:
  "pop_front_resident m which q = (None, q') \<Longrightarrow> q' = [] \<and> set q \<inter> items m which = {}"
  by (induction m which q rule: pop_front_resident.induct)
    (auto simp: items_def split: option.splits if_splits)

lemma pop_front_Some:
  "pop_front_resident m which q = (Some d, q') \<Longrightarrow>
     d \<in> items m which \<and> set q \<inter> items m which - {d} \<subseteq> set q'"
  by (induction m which q rule: pop_front_resident.induct)
    (auto simp: items_def split: option.splits if_splits)

lemma ghost_trim_ok:
  "ghost_trim cap q gs = (q', gs') \<Longrightarrow> gs \<subseteq> set q \<Longrightarrow> length q' \<le> cap \<and> gs' \<subseteq> set q' \<and> gs' \<subseteq> gs"
proof (induction cap q gs rule: ghost_trim.induct)
  case (2 cap g q gs)
  then show ?case by (auto split: if_splits)
qed simp

lemma ghost_push_ok:
  "s3_ok s \<Longrightarrow> s3_ok (ghost_push s d) \<and> s3_meta (ghost_push s d) = s3_meta s"
proof -
  assume ok: "s3_ok s"
  obtain q gs where t: "ghost_trim (s3_cap s) (s3_ghost s @ [d]) (insert d (s3_ghost_set s)) = (q, gs)"
    by (metis surj_pair)
  have "insert d (s3_ghost_set s) \<subseteq> set (s3_ghost s @ [d])" using s3_okD(7) [OF ok] by auto
  from ghost_trim_ok [OF t this] ok show ?thesis by (simp add: ghost_push_def t s3_ok_def)
qed

lemma card_remove_item:
  "finite (dom m) \<Longrightarrow> d \<in> items m which \<Longrightarrow> card (items m which - {d}) = card (items m which) - 1"
  by (rule card_Diff_singleton)

lemma evict_small_spec:
  "s3_ok s \<Longrightarrow> evict_small s = (r, s') \<Longrightarrow>
     s3_ok s' \<and>
     (case r of
        None \<Rightarrow> dom (s3_meta s') = dom (s3_meta s) \<and> s3_small_n s' = 0
      | Some d \<Rightarrow> d \<in> dom (s3_meta s) \<and> dom (s3_meta s') = dom (s3_meta s) - {d})"
proof (induction s rule: evict_small.induct)
  case (1 s)
  note ok = s3_okD [OF "1.prems"(1)]
  obtain p q where pop: "pop_front_resident (s3_meta s) Q_small (s3_small s) = (p, q)"
    by (metis surj_pair)
  show ?case
  proof (cases p)
    case None
    with pop_front_None [of "s3_meta s"] pop ok(4) have "items (s3_meta s) Q_small = {}" "q = []"
      by blast+
    with None pop "1.prems" ok show ?thesis
      by (auto simp: evict_small.simps [of s] s3_ok_def)
  next
    case (Some d)
    note d = pop_front_Some [OF pop [unfolded Some]]
    have dm: "d \<notin> items (s3_meta s) Q_main" using d items_disjoint by blast
    have dd: "d \<in> dom (s3_meta s)" using d items_dom by blast
    have sub: "items (s3_meta s) Q_small - {d} \<subseteq> set q" using d ok(4) by blast
    note fin = items_finite [OF ok(1)]
    let ?s1 = "s\<lparr>s3_small := q, s3_small_n := s3_small_n s - 1\<rparr>"
    show ?thesis
    proof (cases "se_visited (the (s3_meta s d))")
      case True
      let ?s2 = "?s1\<lparr>s3_meta := (s3_meta s)(d \<mapsto> \<lparr>se_q = Q_main, se_visited = False\<rparr>),
        s3_main := s3_main s @ [d], s3_main_n := s3_main_n s + 1\<rparr>"
      have "s3_ok ?s2"
        using ok sub dm d fin by (auto simp: s3_ok_def)
      moreover have "evict_small ?s2 = (r, s')"
        using "1.prems"(2) True pop Some by (simp add: evict_small.simps [of s] Let_def)
      ultimately show ?thesis
        using "1.IH" [OF pop [symmetric] Some refl True] dd by (auto simp: insert_absorb split: option.splits)
    next
      case False
      have "s3_ok (?s1\<lparr>s3_meta := (s3_meta s)(d := None)\<rparr>)"
        using ok sub dm d fin by (auto simp: s3_ok_def)
      from ghost_push_ok [OF this, of d] False pop Some "1.prems"(2) dd show ?thesis
        by (auto simp: evict_small.simps [of s] Let_def)
    qed
  qed
qed

lemma evict_main_spec:
  "s3_ok s \<Longrightarrow> evict_main s = (r, s') \<Longrightarrow>
     s3_ok s' \<and>
     (case r of
        None \<Rightarrow> dom (s3_meta s') = dom (s3_meta s) \<and> items (s3_meta s) Q_main = {} \<and>
          items (s3_meta s') Q_small = items (s3_meta s) Q_small
      | Some d \<Rightarrow> d \<in> dom (s3_meta s) \<and> dom (s3_meta s') = dom (s3_meta s) - {d})"
proof (induction s rule: evict_main.induct)
  case (1 s)
  note ok = s3_okD [OF "1.prems"(1)]
  obtain p q where pop: "pop_front_resident (s3_meta s) Q_main (s3_main s) = (p, q)"
    by (metis surj_pair)
  show ?case
  proof (cases p)
    case None
    with pop_front_None [of "s3_meta s"] pop ok(5) have "items (s3_meta s) Q_main = {}" "q = []"
      by blast+
    with None pop "1.prems" ok show ?thesis
      by (auto simp: evict_main.simps [of s] s3_ok_def)
  next
    case (Some d)
    note d = pop_front_Some [OF pop [unfolded Some]]
    have ds: "d \<notin> items (s3_meta s) Q_small" using d items_disjoint by blast
    have dd: "d \<in> dom (s3_meta s)" using d items_dom by blast
    have sub: "items (s3_meta s) Q_main - {d} \<subseteq> set q" using d ok(5) by blast
    have q: "se_q (the (s3_meta s d)) = Q_main" using d by (auto simp: items_def)
    note fin = items_finite [OF ok(1)]
    show ?thesis
    proof (cases "se_visited (the (s3_meta s d))")
      case True
      let ?s2 = "s\<lparr>s3_meta := (s3_meta s)(d \<mapsto> (the (s3_meta s d))\<lparr>se_visited := False\<rparr>),
        s3_main := q @ [d]\<rparr>"
      have "s3_ok ?s2"
        using ok sub ds d fin q by (auto simp: s3_ok_def insert_absorb)
      moreover have "evict_main ?s2 = (r, s')"
        using "1.prems"(2) True pop Some by (simp add: evict_main.simps [of s])
      ultimately show ?thesis
        using "1.IH" [OF pop [symmetric] Some True] dd ds d q
        by (auto simp: insert_absorb split: option.splits)
    next
      case False
      with ok sub ds d fin pop Some "1.prems"(2) dd show ?thesis
        by (auto simp: evict_main.simps [of s] s3_ok_def)
    qed
  qed
qed

text \<open>What the small pass evicts, and when it evicts nothing.\<close>

lemma evict_small_cold:
  "evict_small s = (r, s') \<Longrightarrow>
     (case r of
        None \<Rightarrow> items (s3_meta s) Q_small \<subseteq> set (s3_small s) \<longrightarrow>
          (\<forall>d \<in> items (s3_meta s) Q_small. se_visited (the (s3_meta s d)))
      | Some d \<Rightarrow> d \<in> items (s3_meta s) Q_small \<and> \<not> se_visited (the (s3_meta s d)) \<and>
          s3_meta s' d = None \<and> s3_cap s' = s3_cap s \<and>
          (s3_ghost s', s3_ghost_set s') =
            ghost_trim (s3_cap s) (s3_ghost s @ [d]) (insert d (s3_ghost_set s)))"
proof (induction s rule: evict_small.induct)
  case (1 s)
  obtain p q where pop: "pop_front_resident (s3_meta s) Q_small (s3_small s) = (p, q)"
    by (metis surj_pair)
  show ?case
  proof (cases p)
    case None
    with pop "1.prems" pop_front_None [OF pop [unfolded None]] show ?thesis
      by (auto simp: evict_small.simps [of s])
  next
    case (Some d)
    note d = pop_front_Some [OF pop [unfolded Some]]
    let ?s1 = "s\<lparr>s3_small := q, s3_small_n := s3_small_n s - 1\<rparr>"
    show ?thesis
    proof (cases "se_visited (the (s3_meta s d))")
      case True
      let ?s2 = "?s1\<lparr>s3_meta := (s3_meta s)(d \<mapsto> \<lparr>se_q = Q_main, se_visited = False\<rparr>),
        s3_main := s3_main s @ [d], s3_main_n := s3_main_n s + 1\<rparr>"
      have "evict_small ?s2 = (r, s')"
        using "1.prems" True pop Some by (simp add: evict_small.simps [of s] Let_def)
      from "1.IH" [OF pop [symmetric] Some refl True this] d True show ?thesis
        by (auto split: option.splits if_splits)
    next
      case False
      with pop Some "1.prems" d show ?thesis
        by (auto simp: evict_small.simps [of s] Let_def ghost_push_def split: prod.splits)
    qed
  qed
qed

lemma evict_main_queue:
  "evict_main s = (Some d, s') \<Longrightarrow> d \<in> items (s3_meta s) Q_main"
proof (induction s rule: evict_main.induct)
  case (1 s)
  obtain p q where pop: "pop_front_resident (s3_meta s) Q_main (s3_main s) = (p, q)"
    by (metis surj_pair)
  with "1.prems" obtain x where x: "p = Some x" by (cases p) (auto simp: evict_main.simps [of s])
  note i = pop_front_Some [OF pop [unfolded x]]
  show ?case
  proof (cases "se_visited (the (s3_meta s x))")
    case True
    with "1.prems" pop x have e: "evict_main (s\<lparr>s3_meta := (s3_meta s)(x \<mapsto> (the (s3_meta s x))\<lparr>se_visited := False\<rparr>),
        s3_main := q @ [x]\<rparr>) = (Some d, s')" by (simp add: evict_main.simps [of s])
    have "se_q (the (s3_meta s x)) = Q_main" using i by (auto simp: items_def)
    with "1.IH" [OF pop [symmetric] x True e] i show ?thesis
      by (auto simp: items_def split: if_splits)
  next
    case False
    with "1.prems" pop x i show ?thesis by (simp add: evict_main.simps [of s])
  qed
qed

lemma s3_evict_cases:
  assumes "s3_ok s" and "s3_evict s = (r, s')"
  obtains (idle) "r = None" "s' = s" "dom (s3_meta s) = {}"
  | (small) d where "r = Some d" "evict_small s = (Some d, s')"
  | (drained) s1 where "evict_small s = (None, s1)" "evict_main s1 = (r, s')"
  | (main) "evict_main s = (r, s')" "\<not> (0 < s3_small_n s \<and> s3_main_n s = 0)" "0 < s3_main_n s"
proof (cases "s3_small_n s = 0 \<and> s3_main_n s = 0")
  case True
  note ok = s3_okD [OF assms(1)]
  have "items (s3_meta s) Q_small = {}" "items (s3_meta s) Q_main = {}"
    using True ok(2,3) items_finite [OF ok(1)] by auto
  with True assms(2) show thesis by (intro idle) (auto simp: s3_evict_def items_dom)
next
  case False
  obtain p s1 where e: "evict_small s = (p, s1)" by (metis surj_pair)
  show thesis
  proof (cases "0 < s3_small_n s \<and> (s3_main_n s = 0 \<or> s3_small_n s \<ge> max 1 (s3_cap s div 10))")
    case True
    then show thesis
      using assms(2) False e small drained
      by (cases p) (auto simp: s3_evict_def Let_def split: if_splits)
  next
    case no: False
    then show thesis
      using assms(2) False by (intro main) (auto simp: s3_evict_def Let_def split: if_splits)
  qed
qed

lemma s3_evict_spec:
  assumes "s3_ok s" and "s3_evict s = (r, s')"
  shows "s3_ok s' \<and>
    (case r of
       None \<Rightarrow> dom (s3_meta s) = {} \<and> dom (s3_meta s') = {}
     | Some d \<Rightarrow> d \<in> dom (s3_meta s) \<and> dom (s3_meta s') = dom (s3_meta s) - {d})"
  using assms
proof (cases rule: s3_evict_cases)
  case idle
  with assms(1) show ?thesis by simp
next
  case (small d)
  with evict_small_spec [OF assms(1)] show ?thesis by fastforce
next
  case (drained s1)
  note sm = evict_small_spec [OF assms(1) drained(1)]
  then have ok1: "s3_ok s1" and d1: "dom (s3_meta s1) = dom (s3_meta s)" and "s3_small_n s1 = 0"
    by auto
  then have "items (s3_meta s1) Q_small = {}"
    using s3_okD(1,2) [OF ok1] items_finite by fastforce
  with evict_main_spec [OF ok1 drained(2)] d1 items_dom [of "s3_meta s1"] show ?thesis
    by (auto split: option.splits)
next
  case main
  note mn = evict_main_spec [OF assms(1) main(1)]
  have "items (s3_meta s) Q_main \<noteq> {}" using main(3) s3_okD(3) [OF assms(1)] by auto
  with mn show ?thesis by (auto split: option.splits)
qed

lemma s3_new_ok: "s3_ok (s3_new n)" and s3_new_dom [simp]: "dom (s3_meta (s3_new n)) = {}"
  by (auto simp: s3_ok_def s3_new_def items_def)

lemma s3_insert_ok:
  assumes "s3_ok s"
  shows "s3_ok (s3_insert s d)" and "dom (s3_meta (s3_insert s d)) = insert d (dom (s3_meta s))"
proof -
  note ok = s3_okD [OF assms] and fin = items_finite [OF s3_okD(1) [OF assms]]
  show "dom (s3_meta (s3_insert s d)) = insert d (dom (s3_meta s))"
    by (auto simp: s3_insert_def split: option.splits if_splits)
  show "s3_ok (s3_insert s d)"
  proof (cases "s3_meta s d")
    case None
    with not_in_items [of "s3_meta s" d] ok fin show ?thesis
      by (auto simp: s3_insert_def s3_ok_def card_insert_if)
  next
    case (Some e)
    have "items ((s3_meta s)(d \<mapsto> e\<lparr>se_visited := True\<rparr>)) which = items (s3_meta s) which" for which
      using in_items [of "s3_meta s" d e] Some by (auto simp: insert_absorb)
    with Some ok show ?thesis by (simp add: s3_insert_def s3_ok_def del: items_upd)
  qed
qed

lemma s3_touch_ok:
  assumes "s3_ok s"
  shows "s3_ok (s3_touch s d)" and "dom (s3_meta (s3_touch s d)) = dom (s3_meta s)"
proof -
  show "dom (s3_meta (s3_touch s d)) = dom (s3_meta s)"
    by (auto simp: s3_touch_def split: option.splits)
  show "s3_ok (s3_touch s d)"
  proof (cases "s3_meta s d")
    case (Some e)
    then have "s3_touch s d = s3_insert s d" by (simp add: s3_touch_def s3_insert_def)
    then show ?thesis using s3_insert_ok(1) [OF assms] by simp
  qed (simp add: s3_touch_def assms)
qed

lemma s3_remove_ok:
  assumes "s3_ok s"
  shows "s3_ok (s3_remove s d)" and "dom (s3_meta (s3_remove s d)) = dom (s3_meta s) - {d}"
proof -
  note ok = s3_okD [OF assms] and fin = items_finite [OF s3_okD(1) [OF assms]]
  show "dom (s3_meta (s3_remove s d)) = dom (s3_meta s) - {d}"
    by (auto simp: s3_remove_def Let_def split: option.splits)
  show "s3_ok (s3_remove s d)"
  proof (cases "s3_meta s d")
    case None
    with ok show ?thesis by (auto simp: s3_remove_def s3_ok_def)
  next
    case (Some e)
    have "items (s3_meta s) which - {d} = items (s3_meta s) which" if "which \<noteq> se_q e" for which
      using in_items [of "s3_meta s" d e which] Some that by auto
    moreover have "d \<in> items (s3_meta s) (se_q e)" using in_items [of "s3_meta s" d e] Some by simp
    ultimately show ?thesis
      using Some ok fin by (cases "se_q e") (auto simp: s3_remove_def s3_ok_def Let_def)
  qed
qed

interpretation s3pol: eviction_policy s3_insert s3_touch s3_remove s3_evict "\<lambda>s. dom (s3_meta s)" s3_ok
proof
  fix s d s'
  assume ok: "s3_ok s"
  show "s3_ok (s3_insert s d) \<and> dom (s3_meta (s3_insert s d)) = insert d (dom (s3_meta s))"
    "s3_ok (s3_touch s d) \<and> dom (s3_meta (s3_touch s d)) = dom (s3_meta s)"
    "s3_ok (s3_remove s d) \<and> dom (s3_meta (s3_remove s d)) = dom (s3_meta s) - {d}"
    "finite (dom (s3_meta s))"
    by (intro conjI s3_insert_ok s3_touch_ok s3_remove_ok s3_okD(1) ok)+
  show "s3_evict s = (None, s') \<Longrightarrow> s3_ok s' \<and> dom (s3_meta s) = {} \<and> dom (s3_meta s') = {}"
    "s3_evict s = (Some d, s') \<Longrightarrow>
       s3_ok s' \<and> d \<in> dom (s3_meta s) \<and> dom (s3_meta s') = dom (s3_meta s) - {d}"
    using s3_evict_spec [OF ok, of None s'] s3_evict_spec [OF ok, of "Some d" s'] by simp_all
qed

section \<open>Properties\<close>

text \<open>Evicting until nothing is left, with the number of resident items as fuel.\<close>

fun s3_drain :: "nat \<Rightarrow> s3fifo_state \<Rightarrow> digest list" where
  "s3_drain 0 s = []"
| "s3_drain (Suc n) s =
     (case s3_evict s of (None, s') \<Rightarrow> [] | (Some d, s') \<Rightarrow> d # s3_drain n s')"

text \<open>
  Property C23. Eviction keeps the policy's invariant and its promise: with something resident
  it always returns a victim, the victim was resident and is not any more, and all others
  stay; with nothing resident it returns none. Repeating it returns every resident item
  exactly once, so a caller that evicts to make room always gets through.
\<close>

theorem s3_evict_contract:
  assumes "s3_ok s" and "s3_evict s = (r, s')"
  shows "s3_ok s' \<and>
    (case r of
       None \<Rightarrow> dom (s3_meta s) = {}
     | Some d \<Rightarrow> d \<in> dom (s3_meta s) \<and> dom (s3_meta s') = dom (s3_meta s) - {d}) \<and>
    set (s3_drain (s3_resident s) s) = dom (s3_meta s) \<and> distinct (s3_drain (s3_resident s) s)"
proof -
  have "set (s3_drain (s3_resident s) s) = dom (s3_meta s) \<and> distinct (s3_drain (s3_resident s) s)"
    by (rule s3pol.drain_victims [where drain = s3_drain]) (simp_all add: assms(1) s3_resident_def)
  with s3_evict_spec [OF assms] show ?thesis by (simp split: option.splits)
qed

theorem s3_evict_contract_witness:
  "s3_ok (s3_insert (s3_new 4) [1]) \<and> set (s3_drain 1 (s3_insert (s3_new 4) [1])) = {[1]}"
proof -
  have ok: "s3_ok (s3_insert (s3_new 4) [1])" by (rule s3_insert_ok(1) [OF s3_new_ok])
  have d: "dom (s3_meta (s3_insert (s3_new 4) [1])) = {[1]}"
    by (simp add: s3_insert_ok(2) [OF s3_new_ok])
  obtain r s' where e: "s3_evict (s3_insert (s3_new 4) [1]) = (r, s')" by (metis surj_pair)
  show ?thesis using ok d s3_evict_contract [OF ok e] by (simp add: s3_resident_def)
qed

lemma ghost_trim_keeps:
  assumes "1 \<le> cap" and "d \<notin> set q"
  shows "d \<in> gs \<Longrightarrow> d \<in> snd (ghost_trim cap (q @ [d]) gs)"
  using assms
proof (induction q arbitrary: gs)
  case (Cons g q)
  then show ?case by (cases "length (g # q @ [d]) > cap") auto
qed auto

text \<open>
  The small queue sheds cold items first: an item evicted while in the small
  queue had not been hit since it was inserted, unless every item of that queue had been hit.
  A cold item so evicted is remembered: if its digest was not already in the ghost queue,
  inserting it again puts it straight into the main queue.
\<close>

theorem s3_small_queue_discipline:
  assumes "s3_ok s" and "s3_evict s = (Some d, s')" and "s3_in_main s d = Some False"
  shows "(\<not> se_visited (the (s3_meta s d)) \<or>
      (\<forall>x. s3_in_main s x = Some False \<longrightarrow> se_visited (the (s3_meta s x)))) \<and>
    (\<not> se_visited (the (s3_meta s d)) \<and> 1 \<le> s3_cap s \<and> d \<notin> set (s3_ghost s) \<longrightarrow>
       s3_in_main (s3_insert s' d) d = Some True)"
proof -
  have it: "x \<in> items (s3_meta s) Q_small \<longleftrightarrow> s3_in_main s x = Some False" for x
    by (auto simp: items_def s3_in_main_def) (metis s3_queue.exhaust)
  have ds: "d \<in> items (s3_meta s) Q_small" using assms(3) by (simp add: it)
  from assms(1,2) show ?thesis
  proof (cases rule: s3_evict_cases)
    case (small x)
    with evict_small_cold [OF small(2)]
    have c: "\<not> se_visited (the (s3_meta s d))" "s3_meta s' d = None"
      "(s3_ghost s', s3_ghost_set s') = ghost_trim (s3_cap s) (s3_ghost s @ [d]) (insert d (s3_ghost_set s))"
      by auto
    have "d \<in> s3_ghost_set s'" if "1 \<le> s3_cap s" "d \<notin> set (s3_ghost s)"
      using ghost_trim_keeps [OF that, of "insert d (s3_ghost_set s)"] c(3) [symmetric] by simp
    with c(1,2) show ?thesis by (simp add: s3_insert_def s3_in_main_def)
  next
    case (drained s1)
    with evict_small_cold [OF drained(1)] s3_okD(4) [OF assms(1)]
    have "\<forall>x \<in> items (s3_meta s) Q_small. se_visited (the (s3_meta s x))" by simp
    with ds it show ?thesis by blast
  next
    case main
    with evict_main_queue ds items_disjoint [of d "s3_meta s" Q_small Q_main] show ?thesis by blast
  qed simp
qed

theorem s3_small_queue_discipline_witness:
  "\<exists>d s'. s3_evict (s3_insert (s3_new 4) [1]) = (Some d, s') \<and> s3_in_main (s3_insert s' d) d = Some True"
proof -
  let ?s = "s3_insert (s3_new 4) [1]"
  let ?t = "\<lparr>s3_small = [], s3_main = [], s3_ghost = [[1]], s3_meta = (s3_meta ?s)([1] := None),
      s3_ghost_set = {[1]}, s3_cap = 4, s3_small_n = 0, s3_main_n = 0\<rparr>"
  have ok: "s3_ok ?s" by (rule s3_insert_ok(1) [OF s3_new_ok])
  have e: "s3_evict ?s = (Some [1], ?t)"
    by (simp add: s3_evict_def s3_insert_def s3_new_def evict_small.simps ghost_push_def)
  have m: "s3_in_main ?s [1] = Some False" "\<not> se_visited (the (s3_meta ?s [1]))" "1 \<le> s3_cap ?s"
    "[1] \<notin> set (s3_ghost ?s)"
    by (simp_all add: s3_in_main_def s3_insert_def s3_new_def)
  show ?thesis using e s3_small_queue_discipline [OF ok e m(1)] m by blast
qed

text \<open>
  Property C38. The queues themselves are not bounded: re-inserting and removing one digest,
  as every overwrite of a RAM-resident object does, leaves a stale entry in the small queue
  each time, although nothing is resident. Only an eviction would clear them.
\<close>

theorem s3_stale_entries_grow:
  "length (s3_small (((\<lambda>s. s3_remove (s3_insert s d) d) ^^ n) (s3_new c))) = n \<and>
   s3_resident (((\<lambda>s. s3_remove (s3_insert s d) d) ^^ n) (s3_new c)) = 0"
proof -
  let ?s = "((\<lambda>s. s3_remove (s3_insert s d) d) ^^ n) (s3_new c)"
  have "length (s3_small ?s) = n \<and> s3_meta ?s = Map.empty \<and> s3_ghost_set ?s = {}"
    by (induction n) (auto simp: s3_new_def s3_insert_def s3_remove_def)
  then show ?thesis by (simp add: s3_resident_def)
qed

end
