(* ===== verification/Object_Index.thy ===== *)
theory Object_Index
  imports Sha256 "HOL-Library.AList"
begin

text \<open>
  The in-RAM object index (\<^verbatim>\<open>storage/index.hpp\<close>, \<^verbatim>\<open>storage/index.cpp\<close>): metadata records in a
  power-of-two number of hash-map shards, chosen by the low bits of a digest's bucket. A shard
  is an association list without duplicate keys; its order stands for the unspecified
  iteration order of \<^verbatim>\<open>std::unordered_map\<close>. Each method holds its shard's lock for its whole
  body, so a method is one atomic step.
\<close>

section \<open>Metadata\<close>

definition kNone :: nat where "kNone = 0xFFFFFFFF"

record head_loc =
  hl_block :: nat
  hl_offset :: nat
  hl_len :: nat

definition no_head :: head_loc where
  "no_head = \<lparr>hl_block = kNone, hl_offset = 0, hl_len = 0\<rparr>"

definition head_is_resident :: "head_loc \<Rightarrow> bool" where
  "head_is_resident h \<longleftrightarrow> hl_block h \<noteq> kNone"

record object_meta =
  om_size :: nat
  om_flags :: nat
  om_expiry :: nat
  om_etag :: nat
  om_head :: head_loc

definition is_expired :: "object_meta \<Rightarrow> nat \<Rightarrow> bool" where
  "is_expired m now \<longleftrightarrow> om_expiry m \<noteq> 0 \<and> om_expiry m \<le> now"

section \<open>The sharded index\<close>

type_synonym shard = "(digest \<times> object_meta) list"

record index =
  ix_shards :: "shard list"
  ix_mask :: nat

definition index_new :: "nat \<Rightarrow> index" where
  "index_new shard_bits = \<lparr>ix_shards = replicate (2 ^ shard_bits) [], ix_mask = 2 ^ shard_bits - 1\<rparr>"

definition shard_for :: "index \<Rightarrow> digest \<Rightarrow> nat" where
  "shard_for ix d = digest_bucket d AND ix_mask ix"

definition index_lookup :: "index \<Rightarrow> digest \<Rightarrow> object_meta option" where
  "index_lookup ix d = map_of (ix_shards ix ! shard_for ix d) d"

definition index_contains :: "index \<Rightarrow> digest \<Rightarrow> bool" where
  "index_contains ix d \<longleftrightarrow> map_of (ix_shards ix ! shard_for ix d) d \<noteq> None"

definition upd_shard :: "index \<Rightarrow> digest \<Rightarrow> (shard \<Rightarrow> shard) \<Rightarrow> index" where
  "upd_shard ix d f =
     ix\<lparr>ix_shards := (ix_shards ix)[shard_for ix d := f (ix_shards ix ! shard_for ix d)]\<rparr>"

definition index_set :: "index \<Rightarrow> digest \<Rightarrow> object_meta \<Rightarrow> index" where
  "index_set ix d m = upd_shard ix d (AList.update d m)"

definition index_add :: "index \<Rightarrow> digest \<Rightarrow> object_meta \<Rightarrow> bool \<times> index" where
  "index_add ix d m =
     (if index_contains ix d then (False, ix) else (True, upd_shard ix d (AList.update d m)))"

definition index_replace :: "index \<Rightarrow> digest \<Rightarrow> object_meta \<Rightarrow> bool \<times> index" where
  "index_replace ix d m =
     (case map_of (ix_shards ix ! shard_for ix d) d of
        None \<Rightarrow> (False, ix)
      | Some m' \<Rightarrow> (True, upd_shard ix d (AList.update d m)))"

definition index_erase :: "index \<Rightarrow> digest \<Rightarrow> bool \<times> index" where
  "index_erase ix d = (index_contains ix d, upd_shard ix d (AList.delete d))"

definition index_set_head :: "index \<Rightarrow> digest \<Rightarrow> head_loc \<Rightarrow> bool \<times> index" where
  "index_set_head ix d loc =
     (case map_of (ix_shards ix ! shard_for ix d) d of
        None \<Rightarrow> (False, ix)
      | Some m \<Rightarrow> (True, upd_shard ix d (AList.update d (m\<lparr>om_head := loc\<rparr>))))"

definition index_update_expiry :: "index \<Rightarrow> digest \<Rightarrow> nat \<Rightarrow> bool \<times> index" where
  "index_update_expiry ix d expiry =
     (case map_of (ix_shards ix ! shard_for ix d) d of
        None \<Rightarrow> (False, ix)
      | Some m \<Rightarrow> (True, upd_shard ix d (AList.update d (m\<lparr>om_expiry := expiry\<rparr>))))"

definition index_size :: "index \<Rightarrow> nat" where
  "index_size ix = sum_list (map length (ix_shards ix))"

definition index_clear :: "index \<Rightarrow> index" where
  "index_clear ix = ix\<lparr>ix_shards := map (\<lambda>_. []) (ix_shards ix)\<rparr>"

definition expired_keys :: "index \<Rightarrow> nat \<Rightarrow> digest list" where
  "expired_keys ix now =
     concat (map (\<lambda>sh. map fst (filter (\<lambda>(d, m). is_expired m now) sh)) (ix_shards ix))"

section \<open>Invariant\<close>

text \<open>
  The abstraction of an index is the flat map \<open>index_lookup ix\<close>.
\<close>

definition index_ok :: "index \<Rightarrow> bool" where
  "index_ok ix \<longleftrightarrow>
     (\<exists>b. ix_mask ix = 2 ^ b - 1 \<and> length (ix_shards ix) = 2 ^ b) \<and>
     (\<forall>i < length (ix_shards ix). distinct (map fst (ix_shards ix ! i)) \<and>
        (\<forall>d \<in> set (map fst (ix_shards ix ! i)). shard_for ix d = i))"

lemma shard_for_less: "index_ok ix \<Longrightarrow> shard_for ix d < length (ix_shards ix)"
  by (auto simp: index_ok_def shard_for_def and_mask_mod_Suc)

lemma upd_shard_simps [simp]:
  "ix_mask (upd_shard ix d f) = ix_mask ix"
  "length (ix_shards (upd_shard ix d f)) = length (ix_shards ix)"
  "shard_for (upd_shard ix d f) d' = shard_for ix d'"
  by (simp_all add: upd_shard_def shard_for_def)

lemma index_new_ok: "index_ok (index_new b)"
  by (auto simp: index_ok_def index_new_def)

lemma index_new_lookup: "index_lookup (index_new b) d = None"
  by (simp add: index_new_def index_lookup_def shard_for_def and_mask_mod_Suc)

text \<open>A change that keeps one shard's keys distinct and in place keeps the invariant.\<close>

lemma upd_shard_ok:
  assumes "index_ok ix"
    and "\<And>sh. distinct (map fst sh) \<Longrightarrow> distinct (map fst (f sh)) \<and> set (map fst (f sh)) \<subseteq> insert d (set (map fst sh))"
  shows "index_ok (upd_shard ix d f)"
proof -
  have "distinct (map fst (ix_shards (upd_shard ix d f) ! i)) \<and>
      (\<forall>x \<in> set (map fst (ix_shards (upd_shard ix d f) ! i)). shard_for ix x = i)"
    if i: "i < length (ix_shards ix)" for i
    using assms(1) assms(2) [of "ix_shards ix ! i"] i
    by (cases "i = shard_for ix d") (fastforce simp: index_ok_def upd_shard_def)+
  with assms(1) show ?thesis by (simp add: index_ok_def)
qed

lemma upd_shard_lookup:
  assumes "index_ok ix" and "\<And>sh x. x \<noteq> d \<Longrightarrow> map_of (f sh) x = map_of sh x"
  shows "index_lookup (upd_shard ix d f) =
    (index_lookup ix)(d := map_of (f (ix_shards ix ! shard_for ix d)) d)"
proof
  fix x
  show "index_lookup (upd_shard ix d f) x =
    ((index_lookup ix)(d := map_of (f (ix_shards ix ! shard_for ix d)) d)) x"
    using shard_for_less [OF assms(1)] assms(2) [of x]
    by (cases "shard_for ix x = shard_for ix d") (auto simp: index_lookup_def upd_shard_def shard_for_def)
qed

lemma update_keys: "distinct (map fst sh) \<Longrightarrow>
    distinct (map fst (AList.update d m sh)) \<and> set (map fst (AList.update d m sh)) \<subseteq> insert d (set (map fst sh))"
  by (auto simp: distinct_update dom_update)

lemma delete_keys_ok: "distinct (map fst sh) \<Longrightarrow>
    distinct (map fst (AList.delete d sh)) \<and> set (map fst (AList.delete d sh)) \<subseteq> insert d (set (map fst sh))"
  by (auto simp: delete_keys distinct_removeAll)

lemma index_set_ok:
  assumes "index_ok ix"
  shows "index_ok (index_set ix d m)" and "index_lookup (index_set ix d m) = (index_lookup ix)(d \<mapsto> m)"
  unfolding index_set_def [abs_def]
  using upd_shard_ok [OF assms update_keys] upd_shard_lookup [OF assms, of d "AList.update d m"]
  by (simp_all add: update_conv')

lemma index_erase_ok:
  assumes "index_ok ix"
  shows "index_ok (snd (index_erase ix d))"
    and "index_lookup (snd (index_erase ix d)) = (index_lookup ix)(d := None)"
    and "fst (index_erase ix d) \<longleftrightarrow> index_lookup ix d \<noteq> None"
  unfolding index_erase_def index_contains_def
  using upd_shard_ok [OF assms delete_keys_ok] upd_shard_lookup [OF assms, of d "AList.delete d"]
  by (simp_all add: delete_conv' index_lookup_def [of ix d])

lemma index_add_ok:
  assumes "index_ok ix"
  shows "index_ok (snd (index_add ix d m))"
    and "index_lookup (snd (index_add ix d m)) =
      (if index_lookup ix d = None then (index_lookup ix)(d \<mapsto> m) else index_lookup ix)"
    and "fst (index_add ix d m) \<longleftrightarrow> index_lookup ix d = None"
  using index_set_ok [OF assms, of d m] assms
  by (auto simp: index_add_def index_set_def index_contains_def index_lookup_def [of ix d])

lemma index_modify:
  assumes "index_ok ix"
    and "op = (case map_of (ix_shards ix ! shard_for ix d) d of
        None \<Rightarrow> (False, ix) | Some m \<Rightarrow> (True, upd_shard ix d (AList.update d (g m))))"
  shows "index_ok (snd op)"
    and "index_lookup (snd op) =
      (case index_lookup ix d of None \<Rightarrow> index_lookup ix | Some m \<Rightarrow> (index_lookup ix)(d \<mapsto> g m))"
    and "fst op \<longleftrightarrow> index_lookup ix d \<noteq> None"
  using index_set_ok [OF assms(1), of d, unfolded index_set_def] assms
  by (auto simp: index_lookup_def [of ix d] split: option.splits)

lemmas index_replace_ok = index_modify [OF _ index_replace_def]
lemmas index_set_head_ok = index_modify [OF _ index_set_head_def]
lemmas index_update_expiry_ok = index_modify [OF _ index_update_expiry_def]

lemma in_shard_iff:
  assumes "index_ok ix"
  shows "(\<exists>i < length (ix_shards ix). (d, m) \<in> set (ix_shards ix ! i)) \<longleftrightarrow> index_lookup ix d = Some m"
proof
  assume "\<exists>i < length (ix_shards ix). (d, m) \<in> set (ix_shards ix ! i)"
  then obtain i where i: "i < length (ix_shards ix)" "(d, m) \<in> set (ix_shards ix ! i)" by blast
  with assms have "distinct (map fst (ix_shards ix ! i))" "shard_for ix d = i"
    unfolding index_ok_def by (blast, force)
  with i(2) show "index_lookup ix d = Some m" by (simp add: index_lookup_def)
next
  assume "index_lookup ix d = Some m"
  then show "\<exists>i < length (ix_shards ix). (d, m) \<in> set (ix_shards ix ! i)"
    using shard_for_less [OF assms, of d] by (auto simp: index_lookup_def dest: map_of_SomeD)
qed

lemma in_fst_image: "d \<in> fst ` S \<longleftrightarrow> (\<exists>m. (d, m) \<in> S)"
  by force

lemma index_dom:
  assumes "index_ok ix"
  shows "dom (index_lookup ix) = (\<Union>i < length (ix_shards ix). set (map fst (ix_shards ix ! i)))"
proof (rule set_eqI)
  fix d
  have "d \<in> dom (index_lookup ix) \<longleftrightarrow>
      (\<exists>m. \<exists>i < length (ix_shards ix). (d, m) \<in> set (ix_shards ix ! i))"
    unfolding in_shard_iff [OF assms] by (simp add: dom_def)
  also have "\<dots> \<longleftrightarrow> (\<exists>i < length (ix_shards ix). d \<in> set (map fst (ix_shards ix ! i)))"
    unfolding set_map in_fst_image by blast
  finally show "d \<in> dom (index_lookup ix) \<longleftrightarrow>
      d \<in> (\<Union>i < length (ix_shards ix). set (map fst (ix_shards ix ! i)))" by blast
qed

lemma index_size_card:
  assumes "index_ok ix"
  shows "index_size ix = card (dom (index_lookup ix))" and "finite (dom (index_lookup ix))"
proof -
  let ?n = "length (ix_shards ix)" and ?K = "\<lambda>i. set (map fst (ix_shards ix ! i))"
  have "card (\<Union>i < ?n. ?K i) = (\<Sum>i < ?n. card (?K i))"
  proof (intro card_UN_disjoint ballI impI)
    fix i j
    assume ij: "i \<in> {..<?n}" "j \<in> {..<?n}" "i \<noteq> j"
    then show "?K i \<inter> ?K j = {}"
      using assms unfolding index_ok_def by (metis disjoint_iff lessThan_iff)
  qed simp_all
  also have "\<dots> = (\<Sum>i < ?n. length (ix_shards ix ! i))"
    using assms by (intro sum.cong) (auto simp: index_ok_def simp del: set_map simp: distinct_card)
  also have "\<dots> = index_size ix"
    by (simp add: index_size_def sum_list_sum_nth atLeast0LessThan)
  finally show "index_size ix = card (dom (index_lookup ix))" by (simp only: index_dom [OF assms])
  show "finite (dom (index_lookup ix))" unfolding index_dom [OF assms] by simp
qed

lemma index_clear_ok:
  assumes "index_ok ix"
  shows "index_ok (index_clear ix)" and "index_lookup (index_clear ix) = Map.empty"
proof -
  show "index_ok (index_clear ix)" using assms by (auto simp: index_ok_def index_clear_def)
  show "index_lookup (index_clear ix) = Map.empty"
    using shard_for_less [OF assms] by (auto simp: index_lookup_def index_clear_def shard_for_def)
qed

lemma expired_keys_set:
  assumes "index_ok ix"
  shows "set (expired_keys ix now) = {d. \<exists>m. index_lookup ix d = Some m \<and> is_expired m now}"
proof -
  have "set (expired_keys ix now) =
      {d. \<exists>m. (\<exists>sh \<in> set (ix_shards ix). (d, m) \<in> set sh) \<and> is_expired m now}"
    by (force simp: expired_keys_def)
  also have "\<dots> = {d. \<exists>m. (\<exists>i < length (ix_shards ix). (d, m) \<in> set (ix_shards ix ! i)) \<and> is_expired m now}"
    by (simp add: Bex_def in_set_conv_nth) (metis (no_types, lifting))
  finally show ?thesis unfolding in_shard_iff [OF assms] .
qed

section \<open>The contract the storage engine relies on\<close>

locale meta_index =
  fixes get :: "'s \<Rightarrow> 'k \<Rightarrow> 'v option"
    and put :: "'s \<Rightarrow> 'k \<Rightarrow> 'v \<Rightarrow> 's"
    and del :: "'s \<Rightarrow> 'k \<Rightarrow> bool \<times> 's"
    and count_live :: "'s \<Rightarrow> nat"
    and good :: "'s \<Rightarrow> bool"
  assumes put_law: "good s \<Longrightarrow> good (put s k v) \<and> get (put s k v) = (get s)(k \<mapsto> v)"
    and del_law: "good s \<Longrightarrow> good (snd (del s k)) \<and> get (snd (del s k)) = (get s)(k := None) \<and>
      (fst (del s k) \<longleftrightarrow> get s k \<noteq> None)"
    and count_law: "good s \<Longrightarrow> count_live s = card (dom (get s)) \<and> finite (dom (get s))"
begin

lemma put_grows: "good s \<Longrightarrow> count_live (put s k v) \<le> Suc (count_live s)"
  using put_law [of s k v] count_law [of s] count_law [of "put s k v"]
  by (auto simp: card_insert_if)

lemma del_shrinks:
  assumes "good s" and "get s k = Some v"
  shows "count_live s = Suc (count_live (snd (del s k)))"
proof -
  have k: "k \<in> dom (get s)" using assms(2) by auto
  have "dom (get (snd (del s k))) = dom (get s) - {k}" using del_law [OF assms(1), of k] by auto
  then show ?thesis
    using count_law [OF assms(1)] count_law [of "snd (del s k)"] del_law [OF assms(1), of k]
      card_Suc_Diff1 [of "dom (get s)" k] k by simp
qed

lemma del_missing: "good s \<Longrightarrow> get s k = None \<Longrightarrow> get (snd (del s k)) = get s"
  using del_law [of s k] by auto

end

interpretation objs: meta_index index_lookup index_set index_erase index_size index_ok
  by unfold_locales (simp_all add: index_set_ok index_erase_ok index_size_card)

section \<open>Properties\<close>



text \<open>The reaper's list is exact: the objects whose deadline has passed, and no others.\<close>

lemma expired_keys_exact:
  assumes "index_ok ix"
  shows "d \<in> set (expired_keys ix now) \<longleftrightarrow>
    (\<exists>m. index_lookup ix d = Some m \<and> om_expiry m \<noteq> 0 \<and> om_expiry m \<le> now)"
  by (simp add: expired_keys_set [OF assms] is_expired_def)

end
