(* ===== verification/Tier_State.thy ===== *)
theory Tier_State
  imports Pool_Files Buffer_Pool S3_Fifo Object_Index Layout
begin

text \<open>
  The storage engine (\<^verbatim>\<open>storage/tier_manager.hpp\<close>, \<^verbatim>\<open>storage/tier_manager.cpp\<close>, class
  \<^verbatim>\<open>TierManager\<close>): its state and its operations. RAM is a map from addresses to bytes; the head
  cache and the staging buffers are regions of it. Every operation that takes the storage lock
  runs as one step; an operation that works outside the lock does so on data no other
  operation can reach (scratch files, its own staging buffer, its own head). Offsets inside an
  object and lengths of memory buffers are added as naturals: an object is at most
  \<^verbatim>\<open>kMaxObjectSize\<close>.
\<close>

section \<open>State\<close>

type_synonym ram = "nat \<Rightarrow> byte"

definition mem_put :: "nat \<Rightarrow> bytes \<Rightarrow> ram \<Rightarrow> ram" where
  "mem_put a bs m = (\<lambda>x. if a \<le> x \<and> x < a + length bs then bs ! (x - a) else m x)"

definition mem_get :: "ram \<Rightarrow> nat \<Rightarrow> nat \<Rightarrow> bytes" where
  "mem_get m a n = map (\<lambda>i. m (a + i)) [0..<n]"

record region_pin =
  pin_len :: nat
  pin_refcount :: nat
  pin_orphaned :: bool

record tier_manager =
  tm_tiers :: tier_sizes
  tm_ram :: buffer_pool
  tm_write_pool :: block_pool
  tm_policy :: s3fifo_state
  tm_object_policy :: s3fifo_state
  tm_max_objects :: nat
  tm_ssd :: pool
  tm_hdd :: "pool option"
  tm_index :: index
  tm_store_seq :: nat
  tm_etag_seq :: nat
  tm_any_ttl :: bool
  tm_pins :: "nat \<rightharpoonup> region_pin"
  tm_mem :: ram
  tm_fs :: dir_fs

record store_handle =
  sh_digest :: digest
  sh_layout :: object_layout
  sh_ssd :: fd_list
  sh_hdd :: "fd_list option"
  sh_head :: "region option"
  sh_suffix :: string
  sh_stage :: "nat \<times> nat"
  sh_stage_fill :: nat
  sh_flushed :: nat
  sh_off :: nat
  sh_committed :: bool

record head_pin =
  hp_block :: nat
  hp_offset :: nat
  hp_len :: nat
  hp_valid :: bool

record read_seg =
  sg_fd :: "nat option"
  sg_file_off :: nat
  sg_len :: nat
  sg_out_off :: nat

record read_plan =
  rp_total :: nat
  rp_segs :: "read_seg list"

record read_stream =
  rst_digest :: digest
  rst_size :: nat
  rst_layout :: object_layout
  rst_ssd :: fd_list
  rst_hdd :: "fd_list option"

record snapshot =
  sn_meta :: object_meta
  sn_pin :: head_pin
  sn_rs :: "read_stream option"

definition three_layer :: "tier_manager \<Rightarrow> bool" where
  "three_layer tm \<longleftrightarrow> tm_hdd tm \<noteq> None"

definition region_id :: "nat \<Rightarrow> nat \<Rightarrow> nat" where
  "region_id block off = unat (push_bit 32 (of_nat block :: 64 word) OR of_nat off)"

section \<open>Opening\<close>

text \<open>
  The two memory pools come from two calls of \<^verbatim>\<open>aligned_alloc\<close>; \<open>mem\<close> and \<open>fs\<close> are what RAM and
  the file systems hold at that moment.
\<close>

definition tm_open ::
  "(nat \<Rightarrow> nat \<Rightarrow> nat option) \<Rightarrow> (nat \<Rightarrow> nat \<Rightarrow> nat option) \<Rightarrow> (nat \<Rightarrow> nat \<Rightarrow> bool) \<Rightarrow> kernel \<Rightarrow>
   tier_sizes \<Rightarrow> memory_config \<Rightarrow> eviction_config \<Rightarrow> pool_config \<Rightarrow> pool_config \<Rightarrow> index \<Rightarrow>
   nat \<Rightarrow> nat \<Rightarrow> bool \<Rightarrow> ram \<Rightarrow> dir_fs \<Rightarrow> tier_manager result" where
  "tm_open ram_alloc io_alloc mlock k t mc ev sc hc ix io_chunk write_buffers direct_io mem fs =
     (case bufpool_create ram_alloc mlock (total_bytes mc) (block_bytes mc) kDeviceBlock (lock_memory mc) of
        Inl e \<Rightarrow> Inl e
      | Inr ram \<Rightarrow>
        let cap_hint = (if ram_head t \<noteq> 0 then total_bytes mc div ram_head t else 1);
            head_policy = make_eviction_policy (policy ev) cap_hint;
            obj_cap = (if max_ssd_objects ev \<noteq> 0 then max_ssd_objects ev else cap_hint);
            object_policy = make_eviction_policy (policy ev) obj_cap
        in case pool_open k (dirs sc) (stripe_unit sc) direct_io of
             Inl e \<Rightarrow> Inl e
           | Inr sp \<Rightarrow>
             (case (if dirs hc \<noteq> []
                    then (case pool_open k (dirs hc) (stripe_unit hc) direct_io of
                            Inl e \<Rightarrow> Inl e | Inr h \<Rightarrow> Inr (Some (pool_move h)))
                    else Inr None) of
                Inl e \<Rightarrow> Inl e
              | Inr hp \<Rightarrow>
                (case iopool_create io_alloc mlock io_chunk write_buffers (lock_memory mc) of
                   Inl e \<Rightarrow> Inl e
                 | Inr wp \<Rightarrow>
                   Inr \<lparr>tm_tiers = t, tm_ram = ram, tm_write_pool = wp, tm_policy = head_policy,
                     tm_object_policy = object_policy, tm_max_objects = max_ssd_objects ev,
                     tm_ssd = pool_move sp, tm_hdd = map_option pool_move hp, tm_index = ix,
                     tm_store_seq = 0, tm_etag_seq = 0, tm_any_ttl = False,
                     tm_pins = Map.empty, tm_mem = mem, tm_fs = fs\<rparr>)))"

section \<open>Heads: pinning, freeing, evicting\<close>

definition free_head_region :: "tier_manager \<Rightarrow> nat \<Rightarrow> nat \<Rightarrow> nat \<Rightarrow> tier_manager" where
  "free_head_region tm block off len =
     (case tm_pins tm (region_id block off) of
        Some p \<Rightarrow>
          if pin_refcount p > 0
          then tm\<lparr>tm_pins := (tm_pins tm)(region_id block off \<mapsto> p\<lparr>pin_orphaned := True\<rparr>)\<rparr>
          else tm\<lparr>tm_ram := bufpool_deallocate (tm_ram tm) block off len\<rparr>
      | None \<Rightarrow> tm\<lparr>tm_ram := bufpool_deallocate (tm_ram tm) block off len\<rparr>)"

lemma free_head_region_frame [simp]:
  "tm_tiers (free_head_region tm block off len) = tm_tiers tm"
  "tm_write_pool (free_head_region tm block off len) = tm_write_pool tm"
  "tm_policy (free_head_region tm block off len) = tm_policy tm"
  "tm_object_policy (free_head_region tm block off len) = tm_object_policy tm"
  "tm_max_objects (free_head_region tm block off len) = tm_max_objects tm"
  "tm_ssd (free_head_region tm block off len) = tm_ssd tm"
  "tm_hdd (free_head_region tm block off len) = tm_hdd tm"
  "tm_index (free_head_region tm block off len) = tm_index tm"
  "tm_store_seq (free_head_region tm block off len) = tm_store_seq tm"
  "tm_etag_seq (free_head_region tm block off len) = tm_etag_seq tm"
  "tm_any_ttl (free_head_region tm block off len) = tm_any_ttl tm"
  "tm_mem (free_head_region tm block off len) = tm_mem tm"
  "tm_fs (free_head_region tm block off len) = tm_fs tm"
  by (simp_all add: free_head_region_def split: option.split)

text \<open>\<open>pins_[id]\<close> creates a default entry; then the length is set and the count raised.\<close>

definition take_pin :: "tier_manager \<Rightarrow> head_loc \<Rightarrow> tier_manager" where
  "take_pin tm h =
     (let id = region_id (hl_block h) (hl_offset h);
          p = (case tm_pins tm id of
                 None \<Rightarrow> \<lparr>pin_len = 0, pin_refcount = 0, pin_orphaned = False\<rparr> | Some p \<Rightarrow> p)
      in tm\<lparr>tm_pins := (tm_pins tm)(id \<mapsto>
              p\<lparr>pin_len := hl_len h, pin_refcount := u32 (pin_refcount p + 1)\<rparr>)\<rparr>)"

definition loc_pin :: "head_loc \<Rightarrow> head_pin" where
  "loc_pin h = \<lparr>hp_block = hl_block h, hp_offset = hl_offset h, hp_len = hl_len h, hp_valid = True\<rparr>"

definition pin_head :: "tier_manager \<Rightarrow> digest \<Rightarrow> tier_manager \<times> head_pin option" where
  "pin_head tm d =
     (case index_lookup (tm_index tm) d of
        None \<Rightarrow> (tm, None)
      | Some m \<Rightarrow>
          let tm = tm\<lparr>tm_object_policy := s3_touch (tm_object_policy tm) d\<rparr> in
          if \<not> head_is_resident (om_head m) then (tm, None)
          else
            let tm = tm\<lparr>tm_policy := s3_touch (tm_policy tm) d\<rparr>
            in (take_pin tm (om_head m), Some (loc_pin (om_head m))))"

definition unpin_head :: "tier_manager \<Rightarrow> head_pin \<Rightarrow> tier_manager" where
  "unpin_head tm pin =
     (if \<not> hp_valid pin then tm
      else
        let id = region_id (hp_block pin) (hp_offset pin) in
        case tm_pins tm id of
          None \<Rightarrow> tm
        | Some p \<Rightarrow>
            let p = p\<lparr>pin_refcount := u32 (pin_refcount p + (2 ^ 32 - 1))\<rparr> in
            if pin_refcount p = 0
            then
              let tm = (if pin_orphaned p
                        then tm\<lparr>tm_ram := bufpool_deallocate (tm_ram tm) (hp_block pin) (hp_offset pin) (hp_len pin)\<rparr>
                        else tm)
              in tm\<lparr>tm_pins := (tm_pins tm)(id := None)\<rparr>
            else tm\<lparr>tm_pins := (tm_pins tm)(id \<mapsto> p)\<rparr>)"

definition pinned_bytes :: "tier_manager \<Rightarrow> head_pin \<Rightarrow> bytes" where
  "pinned_bytes tm pin = mem_get (tm_mem tm) (bufpool_addr (tm_ram tm) (hp_block pin) (hp_offset pin)) (hp_len pin)"

definition head_view :: "tier_manager \<Rightarrow> digest \<Rightarrow> bytes option" where
  "head_view tm d =
     (case index_lookup (tm_index tm) d of
        None \<Rightarrow> None
      | Some m \<Rightarrow>
          if \<not> head_is_resident (om_head m) then None
          else Some (mem_get (tm_mem tm)
                 (bufpool_addr (tm_ram tm) (hl_block (om_head m)) (hl_offset (om_head m))) (hl_len (om_head m))))"

definition tm_touch :: "tier_manager \<Rightarrow> digest \<Rightarrow> tier_manager" where
  "tm_touch tm d =
     tm\<lparr>tm_policy := s3_touch (tm_policy tm) d, tm_object_policy := s3_touch (tm_object_policy tm) d\<rparr>"

definition head_resident :: "tier_manager \<Rightarrow> nat" where
  "head_resident tm = s3_resident (tm_policy tm)"

text \<open>What happens to the victim the head policy names, in the loop of \<^verbatim>\<open>begin_store\<close>.\<close>

definition evict_head :: "tier_manager \<Rightarrow> digest \<Rightarrow> tier_manager" where
  "evict_head tm v =
     (case index_lookup (tm_index tm) v of
        None \<Rightarrow> tm
      | Some vm \<Rightarrow>
          if \<not> head_is_resident (om_head vm) then tm
          else
            let tm = free_head_region tm (hl_block (om_head vm)) (hl_offset (om_head vm)) (hl_len (om_head vm)) in
            if om_size vm \<le> ram_head (tm_tiers tm)
            then tm\<lparr>tm_object_policy := s3_remove (tm_object_policy tm) v,
                    tm_index := snd (index_erase (tm_index tm) v)\<rparr>
            else tm\<lparr>tm_index := snd (index_set_head (tm_index tm) v no_head)\<rparr>)"

lemma evict_head_policy [simp]: "tm_policy (evict_head tm v) = tm_policy tm"
  by (simp add: evict_head_def Let_def split: option.split)

text \<open>
  Every eviction shortens the policy's queues, whatever state it is in, so the two eviction
  loops end.
\<close>

definition queued :: "s3fifo_state \<Rightarrow> nat" where
  "queued s = length (s3_small s) + length (s3_main s)"

lemma ghost_push_queued [simp]: "queued (ghost_push s d) = queued s"
  by (simp add: ghost_push_def queued_def split: prod.split)

lemma pop_front_len: "length (snd (pop_front_resident m which q)) \<le> length q"
  by (induction m which q rule: pop_front_resident.induct) (auto split: option.splits)

lemma evict_small_queued:
  "evict_small s = (r, s') \<Longrightarrow> queued s' \<le> queued s \<and> (r \<noteq> None \<longrightarrow> queued s' < queued s)"
proof (induction s rule: evict_small.induct)
  case (1 s)
  show ?case
  proof (cases "pop_front_resident (s3_meta s) Q_small (s3_small s)")
    case (Pair r0 q)
    show ?thesis
    proof (cases r0)
      case None
      with 1 Pair pop_front_len [of "s3_meta s" Q_small "s3_small s"] show ?thesis
        by (auto simp: evict_small.simps [of s] queued_def)
    next
      case (Some d)
      note l = pop_front_length [OF Pair [unfolded Some]]
      show ?thesis
      proof (cases "se_visited (the (s3_meta s d))")
        case True
        with "1.IH" [OF Pair [symmetric] Some refl True] "1.prems" Pair Some l show ?thesis
          by (auto simp: evict_small.simps [of s] queued_def Let_def)
      next
        case False
        with "1.prems" Pair Some l show ?thesis
          by (auto simp: evict_small.simps [of s] Let_def) (auto simp: queued_def)
      qed
    qed
  qed
qed

lemma evict_main_queued:
  "evict_main s = (r, s') \<Longrightarrow> queued s' \<le> queued s \<and> (r \<noteq> None \<longrightarrow> queued s' < queued s)"
proof (induction s rule: evict_main.induct)
  case (1 s)
  show ?case
  proof (cases "pop_front_resident (s3_meta s) Q_main (s3_main s)")
    case (Pair r0 q)
    show ?thesis
    proof (cases r0)
      case None
      with 1 Pair pop_front_len [of "s3_meta s" Q_main "s3_main s"] show ?thesis
        by (auto simp: evict_main.simps [of s] queued_def)
    next
      case (Some d)
      note l = pop_front_length [OF Pair [unfolded Some]]
      show ?thesis
      proof (cases "se_visited (the (s3_meta s d))")
        case True
        with "1.IH" [OF Pair [symmetric] Some True] "1.prems" Pair Some l show ?thesis
          by (auto simp: evict_main.simps [of s] queued_def)
      next
        case False
        with "1.prems" Pair Some l show ?thesis
          by (auto simp: evict_main.simps [of s] queued_def)
      qed
    qed
  qed
qed

lemma s3_evict_queued: "s3_evict s = (Some d, s') \<Longrightarrow> queued s' < queued s"
  using evict_small_queued [of s] evict_main_queued
  by (fastforce simp: s3_evict_def Let_def split: if_splits prod.splits option.splits)

text \<open>The allocate-or-evict loop of \<^verbatim>\<open>begin_store\<close>.\<close>

function make_room :: "tier_manager \<Rightarrow> nat \<Rightarrow> region option \<times> tier_manager" where
  "make_room tm n =
     (case bufpool_allocate (tm_ram tm) n of
        Some (r, ram) \<Rightarrow> (Some r, tm\<lparr>tm_ram := ram\<rparr>)
      | None \<Rightarrow>
          (case s3_evict (tm_policy tm) of
             (None, pol) \<Rightarrow> (None, tm\<lparr>tm_policy := pol\<rparr>)
           | (Some v, pol) \<Rightarrow> make_room (evict_head (tm\<lparr>tm_policy := pol\<rparr>) v) n))"
  by pat_completeness auto
termination
  by (relation "measure (\<lambda>(tm, n). queued (tm_policy tm))") (auto dest: s3_evict_queued [OF sym])

declare make_room.simps [simp del]

section \<open>Storing\<close>

text \<open>Remove an object's scratch files from both pools.\<close>

definition unlink_scratch :: "kernel \<Rightarrow> tier_manager \<Rightarrow> digest \<Rightarrow> object_layout \<Rightarrow> string \<Rightarrow> tier_manager" where
  "unlink_scratch k tm d layout suffix =
     (let tm = (if 0 < ol_ssd_bytes layout
                then tm\<lparr>tm_fs := unlink_object k (tm_ssd tm) d (ol_ssd_bytes layout) suffix (tm_fs tm)\<rparr> else tm)
      in case tm_hdd tm of
           None \<Rightarrow> tm
         | Some hp \<Rightarrow>
             if 0 < ol_hdd_bytes layout
             then tm\<lparr>tm_fs := unlink_object k hp d (ol_hdd_bytes layout) suffix (tm_fs tm)\<rparr> else tm)"

lemma unlink_scratch_frame [simp]:
  "tm_tiers (unlink_scratch k tm d layout suffix) = tm_tiers tm"
  "tm_ram (unlink_scratch k tm d layout suffix) = tm_ram tm"
  "tm_write_pool (unlink_scratch k tm d layout suffix) = tm_write_pool tm"
  "tm_policy (unlink_scratch k tm d layout suffix) = tm_policy tm"
  "tm_object_policy (unlink_scratch k tm d layout suffix) = tm_object_policy tm"
  "tm_max_objects (unlink_scratch k tm d layout suffix) = tm_max_objects tm"
  "tm_ssd (unlink_scratch k tm d layout suffix) = tm_ssd tm"
  "tm_hdd (unlink_scratch k tm d layout suffix) = tm_hdd tm"
  "tm_index (unlink_scratch k tm d layout suffix) = tm_index tm"
  "tm_store_seq (unlink_scratch k tm d layout suffix) = tm_store_seq tm"
  "tm_etag_seq (unlink_scratch k tm d layout suffix) = tm_etag_seq tm"
  "tm_any_ttl (unlink_scratch k tm d layout suffix) = tm_any_ttl tm"
  "tm_pins (unlink_scratch k tm d layout suffix) = tm_pins tm"
  "tm_mem (unlink_scratch k tm d layout suffix) = tm_mem tm"
  by (simp_all add: unlink_scratch_def Let_def split: option.split)

text \<open>The part of \<^verbatim>\<open>begin_store\<close> under the storage lock: staging buffer and head.\<close>

definition reserve_store ::
  "kernel \<Rightarrow> tier_manager \<Rightarrow> digest \<Rightarrow> nat \<Rightarrow> object_layout \<Rightarrow> string \<Rightarrow> fd_list \<Rightarrow> fd_list option \<Rightarrow>
     tier_manager \<times> store_handle result" where
  "reserve_store k tm d sz layout suffix ssd_fds hdd_fds =
     (case iopool_acquire (tm_write_pool tm) of
        None \<Rightarrow> (unlink_scratch k tm d layout suffix, err would_block ''write staging buffers exhausted'')
      | Some (stage, wp) \<Rightarrow>
          let tm = tm\<lparr>tm_write_pool := wp\<rparr>;
              head_len = min sz (ram_head (tm_tiers tm));
              (head, tm) = (if 0 < head_len then make_room tm (u32 head_len) else (None, tm))
          in if 0 < head_len \<and> ol_ssd_bytes layout = 0 \<and> head = None
             then (tm\<lparr>tm_write_pool := iopool_release (tm_write_pool tm) stage\<rparr>,
                   err would_block ''no RAM for RAM-only head'')
             else (tm, Inr \<lparr>sh_digest = d, sh_layout = layout, sh_ssd = ssd_fds, sh_hdd = hdd_fds,
                            sh_head = head, sh_suffix = suffix, sh_stage = stage, sh_stage_fill = 0,
                            sh_flushed = 0, sh_off = 0, sh_committed = False\<rparr>))"

definition begin_store :: "kernel \<Rightarrow> tier_manager \<Rightarrow> digest \<Rightarrow> nat \<Rightarrow> tier_manager \<times> store_handle result" where
  "begin_store k tm d sz =
     (let layout = compute_layout sz (tm_tiers tm) (three_layer tm);
          suffix = ''.tmp.'' @ dec_str (tm_store_seq tm);
          tm = tm\<lparr>tm_store_seq := u64 (tm_store_seq tm + 1)\<rparr>
      in case (if 0 < ol_ssd_bytes layout
               then open_object k (tm_ssd tm) d (ol_ssd_bytes layout) True suffix (tm_fs tm)
               else (tm_fs tm, Inr [])) of
           (fs, Inl e) \<Rightarrow> (tm\<lparr>tm_fs := fs\<rparr>, Inl e)
         | (fs, Inr ssd_fds) \<Rightarrow>
             if 0 < ol_hdd_bytes layout
             then (case open_object k (the (tm_hdd tm)) d (ol_hdd_bytes layout) True suffix fs of
                     (fs, Inl e) \<Rightarrow> (tm\<lparr>tm_fs := fs\<rparr>, Inl e)
                   | (fs, Inr h) \<Rightarrow> reserve_store k (tm\<lparr>tm_fs := fs\<rparr>) d sz layout suffix ssd_fds (Some h))
             else reserve_store k (tm\<lparr>tm_fs := fs\<rparr>) d sz layout suffix ssd_fds None)"

text \<open>The destructor of a handle: an uncommitted one gives everything back.\<close>

definition abort_uncommitted :: "kernel \<Rightarrow> tier_manager \<Rightarrow> store_handle \<Rightarrow> tier_manager \<times> store_handle" where
  "abort_uncommitted k tm h =
     (if sh_committed h then (tm, h)
      else
        let (tm, h) = (case sh_head h of
              None \<Rightarrow> (tm, h)
            | Some r \<Rightarrow> (tm\<lparr>tm_ram := bufpool_deallocate (tm_ram tm) (rg_block r) (rg_offset r) (rg_len r)\<rparr>,
                          h\<lparr>sh_head := None\<rparr>));
            (tm, h) = (if snd (sh_stage h) \<noteq> 0
              then (tm\<lparr>tm_write_pool := iopool_release (tm_write_pool tm) (sh_stage h)\<rparr>, h\<lparr>sh_stage := (0, 0)\<rparr>)
              else (tm, h))
        in (unlink_scratch k tm (sh_digest h) (sh_layout h) (sh_suffix h), h))"

text \<open>A write of part of the staging buffer to one tier.\<close>

definition tier_pwrite ::
  "kernel \<Rightarrow> tier_manager \<Rightarrow> pool \<Rightarrow> digest \<Rightarrow> fd_list \<Rightarrow> nat \<Rightarrow> bytes \<Rightarrow> tier_manager \<times> unit result" where
  "tier_pwrite k tm p d fds off bs =
     (case striped_pwrite (kn_pwrite k) (pool_drives p) (digest_bucket d) fds off bs (fs_store (tm_fs tm)) of
        (st, res) \<Rightarrow> (tm\<lparr>tm_fs := (tm_fs tm)\<lparr>fs_store := st\<rparr>\<rparr>, res))"

definition flush_block ::
  "kernel \<Rightarrow> tier_manager \<Rightarrow> store_handle \<Rightarrow> nat \<Rightarrow> tier_manager \<times> store_handle \<times> unit result" where
  "flush_block k tm h n =
     (let l = sh_layout h; pos = sh_flushed h; buf = fst (sh_stage h);
          ssd_extent = (if 0 < ol_hdd_bytes l then ol_ssd_bytes l else align_up (ol_ssd_bytes l) kDeviceBlock);
          ssd_stop = min (pos + n) ssd_extent
      in case (if pos < ssd_stop
               then tier_pwrite k tm (tm_ssd tm) (sh_digest h) (sh_ssd h) pos
                      (mem_get (tm_mem tm) buf (ssd_stop - pos))
               else (tm, Inr ())) of
           (tm, Inl e) \<Rightarrow> (tm, h, Inl e)
         | (tm, Inr _) \<Rightarrow>
             (case (case sh_hdd h of
                      None \<Rightarrow> (tm, Inr ())
                    | Some fds \<Rightarrow>
                        if pos + n > ol_ssd_bytes l
                        then let start = max pos (ol_ssd_bytes l); src = start - pos
                             in tier_pwrite k tm (the (tm_hdd tm)) (sh_digest h) fds (start - ol_ssd_bytes l)
                                  (mem_get (tm_mem tm) (buf + src) (pos + n - start))
                        else (tm, Inr ())) of
                (tm, Inl e) \<Rightarrow> (tm, h, Inl e)
              | (tm, Inr _) \<Rightarrow> (tm, h\<lparr>sh_flushed := sh_flushed h + n, sh_stage_fill := 0\<rparr>, Inr ())))"

text \<open>
  With a staging buffer of no bytes the staging loop would spin, which is the value \<open>None\<close>;
  \<open>Tier_Books.stage_loop_total\<close> shows that it ends with every other buffer.
\<close>

partial_function (option) stage_loop ::
  "kernel \<Rightarrow> tier_manager \<Rightarrow> store_handle \<Rightarrow> bytes \<Rightarrow> (tier_manager \<times> store_handle \<times> unit result) option" where
  "stage_loop k tm h p =
     (if p = [] then Some (tm, h, Inr ())
      else
        let n = min (length p) (snd (sh_stage h) - sh_stage_fill h);
            tm = tm\<lparr>tm_mem := mem_put (fst (sh_stage h) + sh_stage_fill h) (take n p) (tm_mem tm)\<rparr>;
            h = h\<lparr>sh_stage_fill := sh_stage_fill h + n\<rparr>
        in if sh_stage_fill h = snd (sh_stage h)
           then (case flush_block k tm h (snd (sh_stage h)) of
                   (tm, h, Inl e) \<Rightarrow> Some (tm, h, Inl e)
                 | (tm, h, Inr _) \<Rightarrow> stage_loop k tm h (drop n p))
           else stage_loop k tm h (drop n p))"

definition handle_write ::
  "kernel \<Rightarrow> tier_manager \<Rightarrow> store_handle \<Rightarrow> bytes \<Rightarrow> (tier_manager \<times> store_handle \<times> unit result) option" where
  "handle_write k tm h chunk =
     (let len = length chunk; l = sh_layout h in
      if u64 (sh_off h + len) > ol_size l
      then Some (tm, h, err invalid_argument ''write past end of object'')
      else
        let tm = (case sh_head h of
              None \<Rightarrow> tm
            | Some r \<Rightarrow>
                let hend = min (sh_off h + len) (rg_len r) in
                if sh_off h < hend
                then tm\<lparr>tm_mem := mem_put (rg_data r + sh_off h) (take (hend - sh_off h) chunk) (tm_mem tm)\<rparr>
                else tm)
        in if ol_ssd_bytes l = 0 \<and> ol_hdd_bytes l = 0
           then Some (tm, h\<lparr>sh_off := sh_off h + len\<rparr>, Inr ())
           else (case stage_loop k tm h chunk of
                   None \<Rightarrow> None
                 | Some (tm, h, Inl e) \<Rightarrow> Some (tm, h, Inl e)
                 | Some (tm, h, Inr _) \<Rightarrow> Some (tm, h\<lparr>sh_off := sh_off h + len\<rparr>, Inr ())))"

section \<open>Dropping objects\<close>

text \<open>Give up the RAM head of an indexed version, if it has one.\<close>

definition retire_head :: "tier_manager \<Rightarrow> digest \<Rightarrow> object_meta option \<Rightarrow> tier_manager" where
  "retire_head tm d old =
     (case old of
        None \<Rightarrow> tm
      | Some m \<Rightarrow>
          if head_is_resident (om_head m)
          then (free_head_region tm (hl_block (om_head m)) (hl_offset (om_head m)) (hl_len (om_head m)))
                 \<lparr>tm_policy := s3_remove (tm_policy tm) d\<rparr>
          else tm)"

lemma retire_head_frame [simp]:
  "tm_tiers (retire_head tm d old) = tm_tiers tm"
  "tm_write_pool (retire_head tm d old) = tm_write_pool tm"
  "tm_object_policy (retire_head tm d old) = tm_object_policy tm"
  "tm_max_objects (retire_head tm d old) = tm_max_objects tm"
  "tm_ssd (retire_head tm d old) = tm_ssd tm"
  "tm_hdd (retire_head tm d old) = tm_hdd tm"
  "tm_index (retire_head tm d old) = tm_index tm"
  "tm_store_seq (retire_head tm d old) = tm_store_seq tm"
  "tm_etag_seq (retire_head tm d old) = tm_etag_seq tm"
  "tm_any_ttl (retire_head tm d old) = tm_any_ttl tm"
  "tm_mem (retire_head tm d old) = tm_mem tm"
  "tm_fs (retire_head tm d old) = tm_fs tm"
  by (simp_all add: retire_head_def split: option.split)

definition drop_object :: "kernel \<Rightarrow> tier_manager \<Rightarrow> digest \<Rightarrow> tier_manager" where
  "drop_object k tm d =
     (case index_lookup (tm_index tm) d of
        None \<Rightarrow> tm
      | Some m \<Rightarrow>
          let tm = retire_head tm d (Some m);
              tm = tm\<lparr>tm_object_policy := s3_remove (tm_object_policy tm) d\<rparr>;
              layout = compute_layout (om_size m) (tm_tiers tm) (three_layer tm);
              tm = unlink_scratch k tm d layout []
          in tm\<lparr>tm_index := snd (index_erase (tm_index tm) d)\<rparr>)"

lemma s3_remove_queued [simp]: "queued (s3_remove s d) = queued s"
  by (simp add: s3_remove_def queued_def Let_def split: option.split)

lemma drop_object_queued [simp]:
  "queued (tm_object_policy (drop_object k tm v)) = queued (tm_object_policy tm)"
  by (simp add: drop_object_def Let_def split: option.split)

definition tm_remove :: "kernel \<Rightarrow> tier_manager \<Rightarrow> digest \<Rightarrow> tier_manager \<times> bool" where
  "tm_remove k tm d =
     (if \<not> index_contains (tm_index tm) d then (tm, False) else (drop_object k tm d, True))"

function enforce_object_bound :: "kernel \<Rightarrow> tier_manager \<Rightarrow> tier_manager" where
  "enforce_object_bound k tm =
     (if tm_max_objects tm \<noteq> 0 \<and> index_size (tm_index tm) > tm_max_objects tm
      then (case s3_evict (tm_object_policy tm) of
              (None, pol) \<Rightarrow> tm\<lparr>tm_object_policy := pol\<rparr>
            | (Some v, pol) \<Rightarrow> enforce_object_bound k (drop_object k (tm\<lparr>tm_object_policy := pol\<rparr>) v))
      else tm)"
  by pat_completeness auto
termination
  by (relation "measure (\<lambda>(k, tm). queued (tm_object_policy tm))") (auto dest: s3_evict_queued [OF sym])

declare enforce_object_bound.simps [simp del]

definition touch_ttl :: "tier_manager \<Rightarrow> digest \<Rightarrow> nat \<Rightarrow> tier_manager \<times> bool" where
  "touch_ttl tm d expiry =
     (case index_update_expiry (tm_index tm) d expiry of
        (found, ix) \<Rightarrow>
          (tm\<lparr>tm_index := ix, tm_any_ttl := (if found \<and> expiry \<noteq> 0 then True else tm_any_ttl tm)\<rparr>, found))"

fun reap_loop :: "kernel \<Rightarrow> tier_manager \<Rightarrow> digest list \<Rightarrow> nat \<Rightarrow> tier_manager \<times> nat" where
  "reap_loop k tm [] n = (tm, n)"
| "reap_loop k tm (d # ds) n =
     (case tm_remove k tm d of (tm, removed) \<Rightarrow> reap_loop k tm ds (if removed then n + 1 else n))"

definition reap_expired :: "kernel \<Rightarrow> nat \<Rightarrow> tier_manager \<Rightarrow> tier_manager \<times> nat" where
  "reap_expired k now tm =
     (if \<not> tm_any_ttl tm then (tm, 0) else reap_loop k tm (expired_keys (tm_index tm) now) 0)"

section \<open>Committing\<close>

text \<open>Rename the scratch files of both tiers over the live names.\<close>

definition publish_tiers :: "kernel \<Rightarrow> tier_manager \<Rightarrow> store_handle \<Rightarrow> tier_manager \<times> unit result" where
  "publish_tiers k tm h =
     (let l = sh_layout h in
      case (if 0 < ol_ssd_bytes l
            then pool_publish k (tm_ssd tm) (sh_digest h) (ol_ssd_bytes l) (sh_suffix h) (tm_fs tm)
            else (tm_fs tm, Inr ())) of
        (fs, Inl e) \<Rightarrow> (tm\<lparr>tm_fs := fs\<rparr>, Inl e)
      | (fs, Inr _) \<Rightarrow>
          (case tm_hdd tm of
             None \<Rightarrow> (tm\<lparr>tm_fs := fs\<rparr>, Inr ())
           | Some hp \<Rightarrow>
               if 0 < ol_hdd_bytes l
               then (case pool_publish k hp (sh_digest h) (ol_hdd_bytes l) (sh_suffix h) fs of
                       (fs, res) \<Rightarrow> (tm\<lparr>tm_fs := fs\<rparr>, res))
               else (tm\<lparr>tm_fs := fs\<rparr>, Inr ())))"

text \<open>The index entry, the policies and the staging buffer, once the files are live.\<close>

definition region_loc :: "region option \<Rightarrow> head_loc" where
  "region_loc h = (case h of None \<Rightarrow> no_head
     | Some r \<Rightarrow> \<lparr>hl_block = rg_block r, hl_offset = rg_offset r, hl_len = rg_len r\<rparr>)"

definition new_meta :: "tier_manager \<Rightarrow> store_handle \<Rightarrow> nat \<Rightarrow> nat \<Rightarrow> object_meta" where
  "new_meta tm h flags expiry =
     \<lparr>om_size = ol_size (sh_layout h), om_flags = flags, om_expiry = expiry,
      om_etag = u64 (tm_etag_seq tm + 1), om_head = region_loc (sh_head h)\<rparr>"

definition swap_in :: "tier_manager \<Rightarrow> store_handle \<Rightarrow> object_meta option \<Rightarrow> nat \<Rightarrow> nat \<Rightarrow> tier_manager" where
  "swap_in tm h old flags expiry =
     (let d = sh_digest h;
          tm = retire_head tm d old;
          meta = new_meta tm h flags expiry;
          tm = tm\<lparr>tm_etag_seq := u64 (tm_etag_seq tm + 1)\<rparr>;
          tm = (if expiry \<noteq> 0 then tm\<lparr>tm_any_ttl := True\<rparr> else tm);
          tm = tm\<lparr>tm_index := index_set (tm_index tm) d meta\<rparr>;
          tm = (if sh_head h \<noteq> None then tm\<lparr>tm_policy := s3_insert (tm_policy tm) d\<rparr> else tm);
          tm = (if old = None then tm\<lparr>tm_object_policy := s3_insert (tm_object_policy tm) d\<rparr> else tm)
      in tm\<lparr>tm_write_pool := iopool_release (tm_write_pool tm) (sh_stage h)\<rparr>)"

definition install_object ::
  "kernel \<Rightarrow> tier_manager \<Rightarrow> store_handle \<Rightarrow> object_meta option \<Rightarrow> nat \<Rightarrow> nat \<Rightarrow> tier_manager \<times> store_handle" where
  "install_object k tm h old flags expiry =
     (enforce_object_bound k (swap_in tm h old flags expiry), h\<lparr>sh_stage := (0, 0), sh_committed := True\<rparr>)"

lemma swap_in_sel:
  "tm_index (swap_in tm h old flags expiry) = index_set (tm_index tm) (sh_digest h) (new_meta tm h flags expiry)"
  "tm_policy (swap_in tm h old flags expiry) =
     (if sh_head h \<noteq> None then s3_insert (tm_policy (retire_head tm (sh_digest h) old)) (sh_digest h)
      else tm_policy (retire_head tm (sh_digest h) old))"
  "tm_object_policy (swap_in tm h old flags expiry) =
     (if old = None then s3_insert (tm_object_policy tm) (sh_digest h) else tm_object_policy tm)"
  "tm_write_pool (swap_in tm h old flags expiry) = iopool_release (tm_write_pool tm) (sh_stage h)"
  "tm_ram (swap_in tm h old flags expiry) = tm_ram (retire_head tm (sh_digest h) old)"
  "tm_pins (swap_in tm h old flags expiry) = tm_pins (retire_head tm (sh_digest h) old)"
  "tm_etag_seq (swap_in tm h old flags expiry) = u64 (tm_etag_seq tm + 1)"
  "tm_any_ttl (swap_in tm h old flags expiry) = (expiry \<noteq> 0 \<or> tm_any_ttl tm)"
  "tm_max_objects (swap_in tm h old flags expiry) = tm_max_objects tm"
  "tm_mem (swap_in tm h old flags expiry) = tm_mem tm"
  "tm_fs (swap_in tm h old flags expiry) = tm_fs tm"
  "tm_tiers (swap_in tm h old flags expiry) = tm_tiers tm"
  "tm_ssd (swap_in tm h old flags expiry) = tm_ssd tm"
  "tm_hdd (swap_in tm h old flags expiry) = tm_hdd tm"
  "tm_store_seq (swap_in tm h old flags expiry) = tm_store_seq tm"
  by (simp_all add: swap_in_def new_meta_def Let_def)

definition cas_fails :: "nat \<Rightarrow> nat \<Rightarrow> object_meta option \<Rightarrow> bool" where
  "cas_fails now cas_expected old \<longleftrightarrow>
     cas_expected \<noteq> 0 \<and>
     (case old of None \<Rightarrow> True | Some m \<Rightarrow> is_expired m now \<or> om_etag m \<noteq> cas_expected)"

text \<open>The part of \<^verbatim>\<open>commit\<close> under the storage lock.\<close>

definition publish_object ::
  "kernel \<Rightarrow> nat \<Rightarrow> tier_manager \<Rightarrow> store_handle \<Rightarrow> nat \<Rightarrow> nat \<Rightarrow> nat \<Rightarrow>
     tier_manager \<times> store_handle \<times> unit result" where
  "publish_object k now tm h flags expiry cas_expected =
     (let old = index_lookup (tm_index tm) (sh_digest h) in
      if cas_fails now cas_expected old then (tm, h, err cas_mismatch [])
      else case publish_tiers k tm h of
        (tm, Inl e) \<Rightarrow> (tm, h, Inl e)
      | (tm, Inr _) \<Rightarrow> (case install_object k tm h old flags expiry of (tm, h) \<Rightarrow> (tm, h, Inr ())))"

text \<open>The zero-padded flush of the last, partial block.\<close>

definition flush_tail ::
  "kernel \<Rightarrow> tier_manager \<Rightarrow> store_handle \<Rightarrow> tier_manager \<times> store_handle \<times> unit result" where
  "flush_tail k tm h =
     (if 0 < sh_stage_fill h
      then
        let padded = align_up (sh_stage_fill h) kDeviceBlock;
            tm = (if padded > sh_stage_fill h
                  then tm\<lparr>tm_mem := mem_put (fst (sh_stage h) + sh_stage_fill h)
                                     (replicate (padded - sh_stage_fill h) 0) (tm_mem tm)\<rparr>
                  else tm)
        in flush_block k tm h padded
      else (tm, h, Inr ()))"

definition commit ::
  "kernel \<Rightarrow> nat \<Rightarrow> tier_manager \<Rightarrow> store_handle \<Rightarrow> nat \<Rightarrow> nat \<Rightarrow> nat \<Rightarrow>
     tier_manager \<times> store_handle \<times> unit result" where
  "commit k now tm h flags expiry cas_expected =
     (if sh_off h \<noteq> ol_size (sh_layout h)
      then (tm, h, err invalid_argument ''commit before the full value was written'')
      else case flush_tail k tm h of
        (tm, h, Inl e) \<Rightarrow> (tm, h, Inl e)
      | (tm, h, Inr _) \<Rightarrow> publish_object k now tm h flags expiry cas_expected)"

text \<open>The one-call store; its handle is destroyed on every path out.\<close>

definition tm_store ::
  "kernel \<Rightarrow> nat \<Rightarrow> tier_manager \<Rightarrow> digest \<Rightarrow> bytes \<Rightarrow> nat \<Rightarrow> nat \<Rightarrow> (tier_manager \<times> unit result) option" where
  "tm_store k now tm d data flags expiry =
     (case begin_store k tm d (length data) of
        (tm, Inl e) \<Rightarrow> Some (tm, Inl e)
      | (tm, Inr h) \<Rightarrow>
          (case handle_write k tm h data of
             None \<Rightarrow> None
           | Some (tm, h, Inl e) \<Rightarrow> Some (fst (abort_uncommitted k tm h), Inl e)
           | Some (tm, h, Inr _) \<Rightarrow>
               (case commit k now tm h flags expiry 0 of
                  (tm, h, res) \<Rightarrow> Some (fst (abort_uncommitted k tm h), res))))"

section \<open>Reading\<close>

text \<open>
  The read of one disk tier, in the lock-free half of \<^verbatim>\<open>read\<close>: up to a whole number of device
  blocks, as far as the buffer goes. The returned count is not looked at.
\<close>

definition tier_read ::
  "kernel \<Rightarrow> tier_manager \<Rightarrow> pool \<Rightarrow> digest \<Rightarrow> fd_list \<Rightarrow> nat \<Rightarrow> nat \<Rightarrow> nat \<Rightarrow> bytes \<Rightarrow> bytes result" where
  "tier_read k tm p d fds tier_off dst len out =
     (let room = min (align_up len kDeviceBlock) (length out - dst);
          st = fs_store (tm_fs tm)
      in case striped_read (kn_sq k) (kn_read k st) st (pool_drives p) (digest_bucket d) fds tier_off
                (slice dst room out) of
           Inl e \<Rightarrow> Inl e
         | Inr (got, n) \<Rightarrow> Inr (write_at dst got out))"

text \<open>The bytes of the resident head that a read covers.\<close>

definition copy_head :: "tier_manager \<Rightarrow> head_loc \<Rightarrow> nat \<Rightarrow> nat \<Rightarrow> bytes \<Rightarrow> nat \<times> bytes" where
  "copy_head tm hl off want out =
     (if head_is_resident hl
      then (hl_len hl,
            if off < hl_len hl
            then let n = min (off + want) (hl_len hl) - off
                 in write_at 0 (mem_get (tm_mem tm)
                      (bufpool_addr (tm_ram tm) (hl_block hl) (hl_offset hl) + off) n) out
            else out)
      else (0, out))"

definition tm_read :: "kernel \<Rightarrow> tier_manager \<Rightarrow> digest \<Rightarrow> nat \<Rightarrow> bytes \<Rightarrow> (bytes \<times> nat) result" where
  "tm_read k tm d off out =
     (case index_lookup (tm_index tm) d of
        None \<Rightarrow> err not_found ''object not in index''
      | Some m \<Rightarrow>
          if off \<ge> om_size m then Inr (out, 0)
          else
            let layout = compute_layout (om_size m) (tm_tiers tm) (three_layer tm);
                want = min (length out) (om_size m - off);
                (ram_end, out) = copy_head tm (om_head m) off want out;
                ssd_begin = max off ram_end;
                ssd_stop = min (off + want) (ol_ssd_bytes layout);
                use_ssd = (ssd_begin < ssd_stop);
                use_hdd = (three_layer tm \<and> 0 < ol_hdd_bytes layout \<and> off + want > ol_ssd_bytes layout);
                hdd_begin = max off (ol_ssd_bytes layout)
            in case (if use_ssd
                     then snd (open_object k (tm_ssd tm) d (ol_ssd_bytes layout) False [] (tm_fs tm))
                     else Inr []) of
                 Inl e \<Rightarrow> Inl e
               | Inr ssd_fds \<Rightarrow>
                 (case (if use_hdd
                        then snd (open_object k (the (tm_hdd tm)) d (ol_hdd_bytes layout) False [] (tm_fs tm))
                        else Inr []) of
                    Inl e \<Rightarrow> Inl e
                  | Inr hdd_fds \<Rightarrow>
                    (case (if use_ssd
                           then tier_read k tm (tm_ssd tm) d ssd_fds ssd_begin (ssd_begin - off)
                                  (ssd_stop - ssd_begin) out
                           else Inr out) of
                       Inl e \<Rightarrow> Inl e
                     | Inr out \<Rightarrow>
                       (case (if use_hdd
                              then tier_read k tm (the (tm_hdd tm)) d hdd_fds (hdd_begin - ol_ssd_bytes layout)
                                     (hdd_begin - off) (off + want - hdd_begin) out
                              else Inr out) of
                          Inl e \<Rightarrow> Inl e
                        | Inr out \<Rightarrow> Inr (out, want)))))"

fun add_segs :: "fd_list \<Rightarrow> read_segment list \<Rightarrow> nat \<Rightarrow> nat \<Rightarrow> read_plan \<Rightarrow> read_plan" where
  "add_segs fds [] out_base running p = p"
| "add_segs fds (s # segs) out_base running p =
     add_segs fds segs out_base (running + rs_length s)
       \<lparr>rp_total = rp_total p + rs_length s,
        rp_segs = rp_segs p @ [\<lparr>sg_fd = fds ! rs_drive s, sg_file_off = rs_file_offset s,
                               sg_len = rs_length s, sg_out_off = out_base + running\<rparr>]\<rparr>"

definition add_drive_segs ::
  "read_plan \<Rightarrow> drive_pool \<Rightarrow> nat \<Rightarrow> fd_list \<Rightarrow> nat \<Rightarrow> nat \<Rightarrow> nat \<Rightarrow> read_plan" where
  "add_drive_segs p dp bucket fds tier_off len out_base =
     add_segs fds (plan_reads dp bucket tier_off len) out_base 0 p"

definition open_read :: "kernel \<Rightarrow> tier_manager \<Rightarrow> digest \<Rightarrow> read_stream result" where
  "open_read k tm d =
     (case index_lookup (tm_index tm) d of
        None \<Rightarrow> err not_found ''object not in index''
      | Some m \<Rightarrow>
          let layout = compute_layout (om_size m) (tm_tiers tm) (three_layer tm) in
          case (if 0 < ol_ssd_bytes layout
                then snd (open_object k (tm_ssd tm) d (ol_ssd_bytes layout) False [] (tm_fs tm)) else Inr []) of
            Inl e \<Rightarrow> Inl e
          | Inr ssd_fds \<Rightarrow>
            (case tm_hdd tm of
               None \<Rightarrow> Inr \<lparr>rst_digest = d, rst_size = om_size m, rst_layout = layout,
                         rst_ssd = ssd_fds, rst_hdd = None\<rparr>
             | Some hp \<Rightarrow>
               if 0 < ol_hdd_bytes layout
               then (case snd (open_object k hp d (ol_hdd_bytes layout) False [] (tm_fs tm)) of
                       Inl e \<Rightarrow> Inl e
                     | Inr h \<Rightarrow> Inr \<lparr>rst_digest = d, rst_size = om_size m, rst_layout = layout,
                                 rst_ssd = ssd_fds, rst_hdd = Some h\<rparr>)
               else Inr \<lparr>rst_digest = d, rst_size = om_size m, rst_layout = layout,
                      rst_ssd = ssd_fds, rst_hdd = None\<rparr>))"

text \<open>A plan and the output buffer with the head bytes in place.\<close>

definition stream_plan :: "tier_manager \<Rightarrow> read_stream \<Rightarrow> nat \<Rightarrow> bytes \<Rightarrow> read_plan \<times> bytes" where
  "stream_plan tm rs off out =
     (if off \<ge> rst_size rs then (\<lparr>rp_total = 0, rp_segs = []\<rparr>, out)
      else
        let want = min (length out) (rst_size rs - off);
            hl = (case index_lookup (tm_index tm) (rst_digest rs) of None \<Rightarrow> no_head | Some m \<Rightarrow> om_head m);
            (ram_end, out) = copy_head tm hl off want out;
            p = \<lparr>rp_total = (if off < ram_end then min (off + want) ram_end - off else 0), rp_segs = []\<rparr>;
            ssd_bytes = ol_ssd_bytes (rst_layout rs);
            ssd_begin = max off ram_end;
            ssd_stop = min (off + want) ssd_bytes;
            p = (if ssd_begin < ssd_stop
                 then add_drive_segs p (pool_drives (tm_ssd tm)) (digest_bucket (rst_digest rs)) (rst_ssd rs)
                        ssd_begin (ssd_stop - ssd_begin) (ssd_begin - off)
                 else p);
            p = (case rst_hdd rs of
                   None \<Rightarrow> p
                 | Some fds \<Rightarrow>
                     if off + want > ssd_bytes
                     then let start = max off ssd_bytes
                          in add_drive_segs p (pool_drives (the (tm_hdd tm))) (digest_bucket (rst_digest rs)) fds
                               (start - ssd_bytes) (off + want - start) (start - off)
                     else p)
        in (p, out))"

definition no_pin :: head_pin where
  "no_pin = \<lparr>hp_block = 0, hp_offset = 0, hp_len = 0, hp_valid = False\<rparr>"

text \<open>The read stream of a snapshot, when the object is larger than its cached head.\<close>

definition snapshot_stream :: "kernel \<Rightarrow> tier_manager \<Rightarrow> digest \<Rightarrow> object_meta \<Rightarrow> read_stream option result" where
  "snapshot_stream k tm d m =
     (let head_len = (if head_is_resident (om_head m) then hl_len (om_head m) else 0) in
      if om_size m \<le> head_len then Inr None
      else
        let layout = compute_layout (om_size m) (tm_tiers tm) (three_layer tm) in
        case snd (open_object k (tm_ssd tm) d (ol_ssd_bytes layout) False [] (tm_fs tm)) of
          Inl e \<Rightarrow> Inl e
        | Inr ssd_fds \<Rightarrow>
          (case (case tm_hdd tm of
                   None \<Rightarrow> Inr None
                 | Some hp \<Rightarrow>
                     if 0 < ol_hdd_bytes layout
                     then (case snd (open_object k hp d (ol_hdd_bytes layout) False [] (tm_fs tm)) of
                             Inl e \<Rightarrow> Inl e | Inr h \<Rightarrow> Inr (Some h))
                     else Inr None) of
             Inl e \<Rightarrow> Inl e
           | Inr hdd_fds \<Rightarrow> Inr (Some \<lparr>rst_digest = d, rst_size = om_size m, rst_layout = layout,
                                     rst_ssd = ssd_fds, rst_hdd = hdd_fds\<rparr>)))"

definition open_snapshot :: "kernel \<Rightarrow> nat \<Rightarrow> tier_manager \<Rightarrow> digest \<Rightarrow> tier_manager \<times> snapshot option" where
  "open_snapshot k now tm d =
     (case index_lookup (tm_index tm) d of
        None \<Rightarrow> (tm, None)
      | Some m \<Rightarrow>
          if is_expired m now then (tm, None)
          else
            let tm = tm\<lparr>tm_object_policy := s3_touch (tm_object_policy tm) d\<rparr> in
            case snapshot_stream k tm d m of
              Inl e \<Rightarrow> (tm, None)
            | Inr rs \<Rightarrow>
                if head_is_resident (om_head m)
                then (take_pin (tm\<lparr>tm_policy := s3_touch (tm_policy tm) d\<rparr>) (om_head m),
                      Some \<lparr>sn_meta = m, sn_pin = loc_pin (om_head m), sn_rs = rs\<rparr>)
                else (tm, Some \<lparr>sn_meta = m, sn_pin = no_pin, sn_rs = rs\<rparr>))"

end
