(* ===== verification/Tier_Books.thy ===== *)
theory Tier_Books
  imports Tier_State
begin

text \<open>
  The storage engine's books: the index, the two eviction policies and the object bound agree
  through eviction, dropping and the swap of a commit, and writing to a handle ends and leaves
  the books alone.
\<close>

section \<open>Index and policies\<close>

definition residents :: "index \<Rightarrow> digest set" where
  "residents ix = {d. \<exists>m. index_lookup ix d = Some m \<and> head_is_resident (om_head m)}"

text \<open>
  \<open>V\<close> and \<open>W\<close> are the digests a policy has already given up while the index still has them, in
  the middle of an eviction.
\<close>

definition books_but :: "digest set \<Rightarrow> digest set \<Rightarrow> tier_manager \<Rightarrow> bool" where
  "books_but V W tm \<longleftrightarrow>
     index_ok (tm_index tm) \<and> s3_ok (tm_policy tm) \<and> s3_ok (tm_object_policy tm) \<and>
     dom (s3_meta (tm_policy tm)) = residents (tm_index tm) - V \<and>
     dom (s3_meta (tm_object_policy tm)) = dom (index_lookup (tm_index tm)) - W"

abbreviation books :: "tier_manager \<Rightarrow> bool" where
  "books tm \<equiv> books_but {} {} tm"

lemma books_frame:
  "tm_index tm' = tm_index tm \<Longrightarrow> tm_policy tm' = tm_policy tm \<Longrightarrow>
   tm_object_policy tm' = tm_object_policy tm \<Longrightarrow> books_but V W tm' \<longleftrightarrow> books_but V W tm"
  by (simp add: books_but_def)

named_theorems books_simps \<open>the effect of an operation on the index and the policies\<close>

lemma residents_upd [books_simps]:
  "index_lookup ix' = (index_lookup ix)(d := None) \<Longrightarrow> residents ix' = residents ix - {d}"
  "index_lookup ix' = (index_lookup ix)(d \<mapsto> m) \<Longrightarrow> head_is_resident (om_head m) \<Longrightarrow>
     residents ix' = insert d (residents ix)"
  "index_lookup ix' = (index_lookup ix)(d \<mapsto> m) \<Longrightarrow> \<not> head_is_resident (om_head m) \<Longrightarrow>
     residents ix' = residents ix - {d}"
  by (auto simp: residents_def)

lemma no_head_not_resident [simp]: "\<not> head_is_resident no_head"
  by (simp add: head_is_resident_def no_head_def)

lemmas policy_laws = s3_insert_ok s3_touch_ok s3_remove_ok

text \<open>The index after a head eviction.\<close>

definition evicted_map :: "tier_manager \<Rightarrow> digest \<Rightarrow> digest \<rightharpoonup> object_meta" where
  "evicted_map tm v =
     (case index_lookup (tm_index tm) v of
        None \<Rightarrow> index_lookup (tm_index tm)
      | Some m \<Rightarrow>
          if \<not> head_is_resident (om_head m) then index_lookup (tm_index tm)
          else if om_size m \<le> ram_head (tm_tiers tm) then (index_lookup (tm_index tm))(v := None)
          else (index_lookup (tm_index tm))(v \<mapsto> m\<lparr>om_head := no_head\<rparr>))"

lemma evict_head_index:
  assumes "index_ok (tm_index tm)"
  shows "index_ok (tm_index (evict_head tm v))"
    and "index_lookup (tm_index (evict_head tm v)) = evicted_map tm v"
  using assms index_erase_ok [OF assms, of v] index_set_head_ok(1,2) [OF assms, of v no_head]
  by (auto simp: evict_head_def evicted_map_def Let_def split: option.splits)

lemma evict_head_books:
  assumes "books_but {v} {} tm" and "v \<in> residents (tm_index tm)"
  shows "books (evict_head tm v)"
proof -
  from assms(2) obtain m where m: "index_lookup (tm_index tm) v = Some m" "head_is_resident (om_head m)"
    by (auto simp: residents_def)
  have ix: "index_ok (tm_index tm)" using assms(1) by (simp add: books_but_def)
  note e = evict_head_index [OF ix, of v]
  show ?thesis
  proof (cases "om_size m \<le> ram_head (tm_tiers tm)")
    case True
    with m have l: "index_lookup (tm_index (evict_head tm v)) = (index_lookup (tm_index tm))(v := None)"
      by (simp add: e(2) evicted_map_def)
    have "tm_object_policy (evict_head tm v) = s3_remove (tm_object_policy tm) v"
      using m True by (simp add: evict_head_def Let_def)
    moreover have "dom (index_lookup (tm_index (evict_head tm v))) = dom (index_lookup (tm_index tm)) - {v}"
      by (auto simp: l)
    ultimately show ?thesis
      using assms(1) e(1) residents_upd(1) [OF l] policy_laws(5,6) [of "tm_object_policy tm" v]
      by (simp add: books_but_def)
  next
    case False
    with m have l: "index_lookup (tm_index (evict_head tm v)) =
        (index_lookup (tm_index tm))(v \<mapsto> m\<lparr>om_head := no_head\<rparr>)"
      by (simp add: e(2) evicted_map_def)
    have "dom (index_lookup (tm_index (evict_head tm v))) = dom (index_lookup (tm_index tm))"
      using m by (auto simp: l)
    moreover have "tm_object_policy (evict_head tm v) = tm_object_policy tm"
      using m False by (simp add: evict_head_def Let_def)
    ultimately show ?thesis
      using assms(1) e(1) residents_upd(3) [OF l] by (simp add: books_but_def)
  qed
qed

lemma make_room_books:
  "books tm \<Longrightarrow> make_room tm n = (r, tm') \<Longrightarrow>
     books tm' \<and> dom (index_lookup (tm_index tm')) \<subseteq> dom (index_lookup (tm_index tm))"
proof (induction tm n rule: make_room.induct)
  case (1 tm n)
  note b = "1.prems"(1) [unfolded books_but_def]
  show ?case
  proof (cases "bufpool_allocate (tm_ram tm) n")
    case (Some q)
    then obtain ram where "tm' = tm\<lparr>tm_ram := ram\<rparr>"
      using "1.prems"(2) by (cases q) (auto simp: make_room.simps [of tm])
    with "1.prems"(1) show ?thesis by (simp add: books_but_def)
  next
    case None
    show ?thesis
    proof (cases "s3_evict (tm_policy tm)")
      case (Pair vo pol)
      show ?thesis
      proof (cases vo)
        case vo: None
        have "s3_ok pol \<and> dom (s3_meta (tm_policy tm)) = {} \<and> dom (s3_meta pol) = {}"
          using s3pol.evict_None [of "tm_policy tm" pol] b Pair vo by simp
        moreover have "tm' = tm\<lparr>tm_policy := pol\<rparr>"
          using "1.prems"(2) None Pair vo by (auto simp: make_room.simps [of tm])
        ultimately show ?thesis using b by (simp add: books_but_def)
      next
        case (Some v)
        let ?tm = "tm\<lparr>tm_policy := pol\<rparr>"
        have e: "s3_ok pol \<and> v \<in> dom (s3_meta (tm_policy tm)) \<and> dom (s3_meta pol) = dom (s3_meta (tm_policy tm)) - {v}"
          using s3pol.evict_Some [of "tm_policy tm" v pol] b Pair Some by simp
        then have "books_but {v} {} ?tm" "v \<in> residents (tm_index ?tm)" using b by (auto simp: books_but_def)
        from evict_head_books [OF this] have bk: "books (evict_head ?tm v)" .
        have run: "make_room (evict_head ?tm v) n = (r, tm')"
          using "1.prems"(2) None Pair Some by (simp add: make_room.simps [of tm])
        have "dom (index_lookup (tm_index (evict_head ?tm v))) \<subseteq> dom (index_lookup (tm_index tm))"
          using evict_head_index(2) [of ?tm v] b by (auto simp: evicted_map_def split: option.splits if_splits)
        with "1.IH" [OF None Pair [symmetric] Some bk run] show ?thesis by blast
      qed
    qed
  qed
qed

lemma drop_object_index:
  assumes "index_ok (tm_index tm)"
  shows "index_ok (tm_index (drop_object k tm d))"
    and "index_lookup (tm_index (drop_object k tm d)) = (index_lookup (tm_index tm))(d := None)"
  using assms index_erase_ok [OF assms, of d]
  by (auto simp: drop_object_def Let_def split: option.splits)

lemma drop_object_policies:
  "tm_object_policy (drop_object k tm d) =
     (if index_lookup (tm_index tm) d = None then tm_object_policy tm else s3_remove (tm_object_policy tm) d)"
  "tm_policy (drop_object k tm d) =
     (if d \<in> residents (tm_index tm) then s3_remove (tm_policy tm) d else tm_policy tm)"
  "tm_max_objects (drop_object k tm d) = tm_max_objects tm"
  by (auto simp: drop_object_def retire_head_def residents_def Let_def split: option.split)

lemma drop_object_books:
  assumes "books_but {} W tm" and "W \<subseteq> {d}"
  shows "books (drop_object k tm d)"
proof -
  note b = assms(1) [unfolded books_but_def] and ix = drop_object_index [of tm k d]
  have l: "index_lookup (tm_index (drop_object k tm d)) = (index_lookup (tm_index tm))(d := None)"
    using ix b by simp
  show ?thesis
    using b ix(1) assms(2) policy_laws(5,6) [of "tm_object_policy tm" d] policy_laws(5,6) [of "tm_policy tm" d]
    unfolding books_but_def l residents_upd(1) [OF l] drop_object_policies by auto
qed

lemma enforce_object_bound_books:
  "books tm \<Longrightarrow> books (enforce_object_bound k tm) \<and>
     (tm_max_objects tm \<noteq> 0 \<longrightarrow> index_size (tm_index (enforce_object_bound k tm)) \<le> tm_max_objects tm) \<and>
     dom (index_lookup (tm_index (enforce_object_bound k tm))) \<subseteq> dom (index_lookup (tm_index tm))"
proof (induction k tm rule: enforce_object_bound.induct)
  case (1 k tm)
  note b = "1.prems" [unfolded books_but_def]
  show ?case
  proof (cases "tm_max_objects tm \<noteq> 0 \<and> index_size (tm_index tm) > tm_max_objects tm")
    case False
    with "1.prems" show ?thesis by (auto simp: enforce_object_bound.simps [of k tm])
  next
    case over: True
    have ne: "dom (s3_meta (tm_object_policy tm)) \<noteq> {}"
      using over b index_size_card(1) [of "tm_index tm"] by auto
    then obtain v pol where e: "s3_evict (tm_object_policy tm) = (Some v, pol)"
      using s3pol.evict_total [of "tm_object_policy tm"] b by metis
    let ?tm = "tm\<lparr>tm_object_policy := pol\<rparr>"
    have "s3_ok pol \<and> dom (s3_meta pol) = dom (s3_meta (tm_object_policy tm)) - {v}"
      using s3pol.evict_Some [of "tm_object_policy tm" v pol] b e by simp
    then have "books_but {} {v} ?tm" using b by (simp add: books_but_def)
    from drop_object_books [OF this subset_refl] have bk: "books (drop_object k ?tm v)" .
    have "enforce_object_bound k tm = enforce_object_bound k (drop_object k ?tm v)"
      using over e by (simp add: enforce_object_bound.simps [of k tm])
    moreover have "dom (index_lookup (tm_index (drop_object k ?tm v))) \<subseteq> dom (index_lookup (tm_index tm))"
      using drop_object_index(2) [of ?tm k v] b by auto
    ultimately show ?thesis
      using "1.IH" [OF over e [symmetric] refl bk] drop_object_policies(3) [of k ?tm v]
      by simp (meson subset_trans)
  qed
qed


section \<open>The operations and the books\<close>

text \<open>
  The operations that only touch files and memory leave the books, the RAM pool, the pins
  and the staging pool alone: \<open>same_books\<close>.
\<close>

definition same_books :: "tier_manager \<Rightarrow> tier_manager \<Rightarrow> bool" where
  "same_books tm tm' \<longleftrightarrow>
     tm_tiers tm' = tm_tiers tm \<and> tm_ram tm' = tm_ram tm \<and> tm_write_pool tm' = tm_write_pool tm \<and>
     tm_policy tm' = tm_policy tm \<and> tm_object_policy tm' = tm_object_policy tm \<and>
     tm_max_objects tm' = tm_max_objects tm \<and> tm_ssd tm' = tm_ssd tm \<and> tm_hdd tm' = tm_hdd tm \<and>
     tm_index tm' = tm_index tm \<and> tm_store_seq tm' = tm_store_seq tm \<and> tm_etag_seq tm' = tm_etag_seq tm \<and>
     tm_any_ttl tm' = tm_any_ttl tm \<and> tm_pins tm' = tm_pins tm"

lemma same_books_refl [simp]: "same_books tm tm"
  by (simp add: same_books_def)

lemma same_books_trans: "same_books a b \<Longrightarrow> same_books b c \<Longrightarrow> same_books a c"
  by (simp add: same_books_def)

lemma same_books_upd [simp]:
  "same_books tm (tm'\<lparr>tm_mem := mem\<rparr>) = same_books tm tm'"
  "same_books tm (tm'\<lparr>tm_fs := fs\<rparr>) = same_books tm tm'"
  by (simp_all add: same_books_def)

lemma tier_pwrite_same: "tier_pwrite k tm p d fds off bs = (tm', res) \<Longrightarrow> same_books tm tm' \<and> tm_mem tm' = tm_mem tm"
  by (auto simp: tier_pwrite_def split: prod.splits)

text \<open>A flush changes files only; of the handle, only the counters of the staging buffer.\<close>

lemma flush_block_same:
  assumes "flush_block k tm h n = (tm', h', res)"
  shows "same_books tm tm'" and "tm_mem tm' = tm_mem tm"
    and "res = Inr () \<Longrightarrow> h' = h\<lparr>sh_flushed := sh_flushed h + n, sh_stage_fill := 0\<rparr>"
    and "res \<noteq> Inr () \<Longrightarrow> h' = h"
proof -
  have "same_books tm tm' \<and> tm_mem tm' = tm_mem tm \<and>
      h' = (if res = Inr () then h\<lparr>sh_flushed := sh_flushed h + n, sh_stage_fill := 0\<rparr> else h)"
    using assms unfolding flush_block_def Let_def
    by (auto split: prod.splits sum.splits if_splits option.splits
        dest!: tier_pwrite_same intro: same_books_trans)
  then show "same_books tm tm'" "tm_mem tm' = tm_mem tm"
    "res = Inr () \<Longrightarrow> h' = h\<lparr>sh_flushed := sh_flushed h + n, sh_stage_fill := 0\<rparr>" "res \<noteq> Inr () \<Longrightarrow> h' = h"
    by simp_all
qed

text \<open>\<open>same_handle\<close>: a handle before and after writes; only its counters move.\<close>

definition same_handle :: "store_handle \<Rightarrow> store_handle \<Rightarrow> bool" where
  "same_handle h h' \<longleftrightarrow>
     sh_digest h' = sh_digest h \<and> sh_layout h' = sh_layout h \<and> sh_ssd h' = sh_ssd h \<and> sh_hdd h' = sh_hdd h \<and>
     sh_head h' = sh_head h \<and> sh_suffix h' = sh_suffix h \<and> sh_stage h' = sh_stage h \<and>
     sh_committed h' = sh_committed h"

lemma same_handle_refl [simp]: "same_handle h h"
  by (simp add: same_handle_def)

lemma same_handle_trans: "same_handle a b \<Longrightarrow> same_handle b c \<Longrightarrow> same_handle a c"
  by (simp add: same_handle_def)

lemma same_handle_upd [simp]:
  "same_handle h (h'\<lparr>sh_stage_fill := a\<rparr>) = same_handle h h'"
  "same_handle h (h'\<lparr>sh_flushed := a\<rparr>) = same_handle h h'"
  "same_handle h (h'\<lparr>sh_off := a\<rparr>) = same_handle h h'"
  by (simp_all add: same_handle_def)

definition stage_fits :: "store_handle \<Rightarrow> bool" where
  "stage_fits h \<longleftrightarrow>
     0 < snd (sh_stage h) \<and> sh_stage_fill h \<le> snd (sh_stage h) \<and>
     kDeviceBlock dvd snd (sh_stage h) \<and> snd (sh_stage h) + kDeviceBlock \<le> 2 ^ 64"

text \<open>The bytes of memory a handle may write: its staging buffer and its head.\<close>

definition stage_span :: "store_handle \<Rightarrow> nat set" where
  "stage_span h = {fst (sh_stage h) ..< fst (sh_stage h) + snd (sh_stage h)}"

definition head_span :: "store_handle \<Rightarrow> nat set" where
  "head_span h = (case sh_head h of None \<Rightarrow> {} | Some r \<Rightarrow> {rg_data r ..< rg_data r + rg_len r})"

lemma mem_put_other: "x \<notin> {a ..< a + length bs} \<Longrightarrow> mem_put a bs m x = m x"
  by (auto simp: mem_put_def)

lemma stage_loop_step:
  fixes k tm h p
  defines "n \<equiv> min (length p) (snd (sh_stage h) - sh_stage_fill h)"
  defines "tm1 \<equiv> tm\<lparr>tm_mem := mem_put (fst (sh_stage h) + sh_stage_fill h) (take n p) (tm_mem tm)\<rparr>"
    and "h1 \<equiv> h\<lparr>sh_stage_fill := sh_stage_fill h + n\<rparr>"
  assumes "p \<noteq> []"
  shows "stage_loop k tm h p =
    (if sh_stage_fill h1 = snd (sh_stage h)
     then case flush_block k tm1 h1 (snd (sh_stage h)) of
            (tm2, h2, Inl e) \<Rightarrow> Some (tm2, h2, Inl e)
          | (tm2, h2, Inr _) \<Rightarrow> stage_loop k tm2 h2 (drop n p)
     else stage_loop k tm1 h1 (drop n p))"
  using assms(4) by (subst stage_loop.simps) (simp add: Let_def n_def tm1_def h1_def)

lemma stage_loop_total:
  "stage_fits h \<Longrightarrow> \<exists>tm' h' res. stage_loop k tm h p = Some (tm', h', res) \<and>
     same_books tm tm' \<and> same_handle h h' \<and> stage_fits h' \<and> sh_off h' = sh_off h \<and>
     (\<forall>x. x \<notin> stage_span h \<longrightarrow> tm_mem tm' x = tm_mem tm x)"
proof (induction "2 * length p + of_bool (sh_stage_fill h = snd (sh_stage h))" arbitrary: tm h p rule: less_induct)
  case less
  show ?case
  proof (cases "p = []")
    case True
    with less.prems show ?thesis by (subst stage_loop.simps) simp
  next
    case False
    define n where "n = min (length p) (snd (sh_stage h) - sh_stage_fill h)"
    define tm1 where "tm1 = tm\<lparr>tm_mem := mem_put (fst (sh_stage h) + sh_stage_fill h) (take n p) (tm_mem tm)\<rparr>"
    define h1 where "h1 = h\<lparr>sh_stage_fill := sh_stage_fill h + n\<rparr>"
    note step = stage_loop_step [OF False, of k tm h, folded n_def, folded tm1_def h1_def]
    have fit1: "stage_fits h1" using less.prems by (auto simp: stage_fits_def h1_def n_def)
    have mem1: "\<forall>x. x \<notin> stage_span h \<longrightarrow> tm_mem tm1 x = tm_mem tm x"
      using less.prems by (auto simp: tm1_def stage_span_def stage_fits_def n_def intro!: mem_put_other)
    have go: ?thesis if tl: "stage_loop k tm h p = stage_loop k tm2 h2 (drop n p)"
      and s2: "same_books tm tm2" "same_handle h h2" "stage_fits h2" "sh_off h2 = sh_off h"
        "\<forall>x. x \<notin> stage_span h \<longrightarrow> tm_mem tm2 x = tm_mem tm x"
      and dec: "2 * length (drop n p) + of_bool (sh_stage_fill h2 = snd (sh_stage h2)) <
        2 * length p + (of_bool (sh_stage_fill h = snd (sh_stage h)) :: nat)" for tm2 h2
    proof -
      have sp: "stage_span h2 = stage_span h" using s2(2) by (simp add: same_handle_def stage_span_def)
      from less.hyps [OF dec s2(3), of tm2] obtain tm' h' res where
        "stage_loop k tm2 h2 (drop n p) = Some (tm', h', res)" "same_books tm2 tm'" "same_handle h2 h'"
        "stage_fits h'" "sh_off h' = sh_off h2" "\<forall>x. x \<notin> stage_span h2 \<longrightarrow> tm_mem tm' x = tm_mem tm2 x"
        by blast
      with tl s2 sp show ?thesis
        by (intro exI [of _ tm'] exI [of _ h'] exI [of _ res])
          (simp add: same_books_trans [of tm tm2] same_handle_trans [of h h2])
    qed
    show ?thesis
    proof (cases "sh_stage_fill h1 = snd (sh_stage h)")
      case full: True
      obtain tm2 h2 res where f: "flush_block k tm1 h1 (snd (sh_stage h)) = (tm2, h2, res)" by (metis prod_cases3)
      note fs = flush_block_same [OF f]
      have sb: "same_books tm tm2" using fs(1) same_books_trans [of tm tm1 tm2] by (simp add: tm1_def)
      show ?thesis
      proof (cases res)
        case (Inl e)
        then have "h2 = h1" using fs(4) by simp
        with step full f Inl sb fs(2) mem1 fit1 show ?thesis by (simp add: h1_def)
      next
        case (Inr u)
        then have h2: "h2 = h1\<lparr>sh_flushed := sh_flushed h1 + snd (sh_stage h), sh_stage_fill := 0\<rparr>"
          using fs(3) by simp
        have dec: "2 * length (drop n p) + of_bool (sh_stage_fill h2 = snd (sh_stage h2)) <
            2 * length p + (of_bool (sh_stage_fill h = snd (sh_stage h)) :: nat)"
          using less.prems full False by (auto simp: h2 h1_def n_def stage_fits_def)
        have tl: "stage_loop k tm h p = stage_loop k tm2 h2 (drop n p)" using step full f Inr by simp
        show ?thesis
          by (rule go [OF tl sb _ _ _ _ dec])
            (use less.prems in \<open>simp_all add: h2 h1_def mem1 fs(2) stage_fits_def\<close>)
      qed
    next
      case False
      have "2 * length (drop n p) + of_bool (sh_stage_fill h1 = snd (sh_stage h1)) <
            2 * length p + (of_bool (sh_stage_fill h = snd (sh_stage h)) :: nat)"
        using less.prems False \<open>p \<noteq> []\<close> by (auto simp: h1_def n_def stage_fits_def)
      then show ?thesis
        by (intro go [of tm1 h1] fit1 mem1) (simp_all add: step False, simp_all add: tm1_def h1_def)
    qed
  qed
qed

lemma handle_write_total:
  assumes "stage_fits h"
  shows "\<exists>tm' h' res. handle_write k tm h chunk = Some (tm', h', res) \<and>
     same_books tm tm' \<and> same_handle h h' \<and> stage_fits h' \<and>
     (\<forall>x. x \<notin> stage_span h \<union> head_span h \<longrightarrow> tm_mem tm' x = tm_mem tm x)"
proof (cases "u64 (sh_off h + length chunk) > ol_size (sh_layout h)")
  case True
  with assms show ?thesis by (simp add: handle_write_def Let_def)
next
  case fit: False
  define tm1 where "tm1 = (case sh_head h of None \<Rightarrow> tm | Some r \<Rightarrow>
    if sh_off h < min (sh_off h + length chunk) (rg_len r)
    then tm\<lparr>tm_mem := mem_put (rg_data r + sh_off h)
           (take (min (sh_off h + length chunk) (rg_len r) - sh_off h) chunk) (tm_mem tm)\<rparr> else tm)"
  have sb: "same_books tm tm1" by (simp add: tm1_def split: option.split)
  have mem1: "x \<notin> head_span h \<Longrightarrow> tm_mem tm1 x = tm_mem tm x" for x
    by (auto simp: tm1_def head_span_def split: option.splits intro!: mem_put_other)
  have e: "handle_write k tm h chunk =
      (if ol_ssd_bytes (sh_layout h) = 0 \<and> ol_hdd_bytes (sh_layout h) = 0
       then Some (tm1, h\<lparr>sh_off := sh_off h + length chunk\<rparr>, Inr ())
       else case stage_loop k tm1 h chunk of
              None \<Rightarrow> None
            | Some (tm, h, Inl e) \<Rightarrow> Some (tm, h, Inl e)
            | Some (tm, h, Inr _) \<Rightarrow> Some (tm, h\<lparr>sh_off := sh_off h + length chunk\<rparr>, Inr ()))"
    using fit unfolding handle_write_def Let_def tm1_def by simp
  obtain tm2 h2 res where l: "stage_loop k tm1 h chunk = Some (tm2, h2, res)" "same_books tm1 tm2"
    "same_handle h h2" "stage_fits h2" "\<forall>x. x \<notin> stage_span h \<longrightarrow> tm_mem tm2 x = tm_mem tm1 x"
    using stage_loop_total [OF assms, of k tm1 chunk] by blast
  have sb2: "same_books tm tm2" using same_books_trans [OF sb l(2)] .
  show ?thesis
    using e l sb sb2 mem1 assms by (cases res) (simp_all add: stage_fits_def)
qed

lemma align_up_block:
  assumes "kDeviceBlock dvd n" and "n + kDeviceBlock \<le> 2 ^ 64" and "v \<le> n"
  shows "v \<le> align_up v kDeviceBlock" and "align_up v kDeviceBlock \<le> n"
    and "kDeviceBlock dvd align_up v kDeviceBlock" and "align_up v kDeviceBlock < v + kDeviceBlock"
proof -
  have v: "v + kDeviceBlock \<le> 2 ^ 64" using assms(2,3) by simp
  note b = align_up_bounds [OF v]
  show "v \<le> align_up v kDeviceBlock" "kDeviceBlock dvd align_up v kDeviceBlock"
    "align_up v kDeviceBlock < v + kDeviceBlock" by (rule b)+
  obtain q r where q: "n = kDeviceBlock * q" "align_up v kDeviceBlock = kDeviceBlock * r"
    using assms(1) b(3) by (auto elim!: dvdE)
  have "kDeviceBlock * r < kDeviceBlock * Suc q" using b(2) assms(3) q by simp
  then show "align_up v kDeviceBlock \<le> n" unfolding q using mult_less_cancel1 [of kDeviceBlock r "Suc q"] by simp
qed

lemma flush_tail_same:
  assumes "flush_tail k tm h = (tm', h', res)" and "stage_fits h"
  shows "same_books tm tm' \<and> same_handle h h' \<and> stage_fits h' \<and> sh_off h' = sh_off h \<and>
    (\<forall>x. x \<notin> stage_span h \<longrightarrow> tm_mem tm' x = tm_mem tm x)"
proof (cases "0 < sh_stage_fill h")
  case False
  with assms show ?thesis by (simp add: flush_tail_def)
next
  case True
  define padded where "padded = align_up (sh_stage_fill h) kDeviceBlock"
  define tm1 where "tm1 = (if padded > sh_stage_fill h then tm\<lparr>tm_mem := mem_put (fst (sh_stage h) + sh_stage_fill h)
     (replicate (padded - sh_stage_fill h) 0) (tm_mem tm)\<rparr> else tm)"
  have f: "flush_block k tm1 h padded = (tm', h', res)"
    using assms(1) True unfolding flush_tail_def Let_def padded_def tm1_def by simp
  note fs = flush_block_same [OF f]
  have "padded \<le> snd (sh_stage h)"
    using align_up_block(2) assms(2) unfolding padded_def stage_fits_def by blast
  then have "\<forall>x. x \<notin> stage_span h \<longrightarrow> tm_mem tm1 x = tm_mem tm x"
    by (auto simp: tm1_def stage_span_def intro!: mem_put_other)
  moreover have "same_books tm tm'" using fs(1) same_books_trans [of tm tm1 tm'] by (simp add: tm1_def)
  moreover have "same_handle h h' \<and> stage_fits h' \<and> sh_off h' = sh_off h"
    using fs(3,4) assms(2) by (cases "res = Inr ()") (simp_all add: stage_fits_def)
  ultimately show ?thesis using fs(2) by simp
qed

lemma publish_tiers_same: "publish_tiers k tm h = (tm', res) \<Longrightarrow> same_books tm tm' \<and> tm_mem tm' = tm_mem tm"
  by (auto simp: publish_tiers_def Let_def split: prod.splits sum.splits if_splits option.splits)

text \<open>A commit keeps the books, and the object bound holds after it.\<close>

lemma region_loc_resident: "head_is_resident (region_loc h) \<longleftrightarrow> (case h of None \<Rightarrow> False | Some r \<Rightarrow> rg_block r \<noteq> kNone)"
  by (simp add: region_loc_def head_is_resident_def no_head_def split: option.split)

lemma retire_head_policy:
  "tm_policy (retire_head tm d (index_lookup (tm_index tm) d)) =
     (if d \<in> residents (tm_index tm) then s3_remove (tm_policy tm) d else tm_policy tm)"
  by (auto simp: retire_head_def residents_def split: option.split)

lemma swap_in_books:
  fixes flags expiry
  assumes "books tm" and "\<And>r. sh_head h = Some r \<Longrightarrow> rg_block r \<noteq> kNone"
  defines "tm1 \<equiv> swap_in tm h (index_lookup (tm_index tm) (sh_digest h)) flags expiry"
  shows "books tm1"
    and "index_lookup (tm_index tm1) = (index_lookup (tm_index tm))(sh_digest h \<mapsto> new_meta tm h flags expiry)"
proof -
  let ?d = "sh_digest h" and ?old = "index_lookup (tm_index tm) (sh_digest h)" and ?m = "new_meta tm h flags expiry"
  note b = assms(1) [unfolded books_but_def]
  have l: "index_lookup (tm_index tm1) = (index_lookup (tm_index tm))(?d \<mapsto> ?m)"
    and ok: "index_ok (tm_index tm1)"
    using b index_set_ok [of "tm_index tm" ?d ?m] by (simp_all add: tm1_def swap_in_sel)
  show "index_lookup (tm_index tm1) = (index_lookup (tm_index tm))(?d \<mapsto> ?m)" by (rule l)
  have res: "residents (tm_index tm1) =
      (if sh_head h \<noteq> None then insert ?d (residents (tm_index tm)) else residents (tm_index tm) - {?d})"
  proof -
    have "head_is_resident (om_head ?m) \<longleftrightarrow> sh_head h \<noteq> None"
      using assms(2) by (simp add: new_meta_def region_loc_resident split: option.split)
    then show ?thesis using residents_upd(2,3) [OF l] by auto
  qed
  have pol: "s3_ok (tm_policy (retire_head tm ?d ?old)) \<and>
      dom (s3_meta (tm_policy (retire_head tm ?d ?old))) = residents (tm_index tm) - {?d}"
    using b policy_laws(5,6) [of "tm_policy tm" ?d] by (auto simp: retire_head_policy)
  have "s3_ok (tm_policy tm1) \<and> dom (s3_meta (tm_policy tm1)) = residents (tm_index tm1)"
    using pol policy_laws(1,2) [of "tm_policy (retire_head tm ?d ?old)" ?d]
    unfolding res by (auto simp: tm1_def swap_in_sel)
  moreover have "s3_ok (tm_object_policy tm1) \<and>
      dom (s3_meta (tm_object_policy tm1)) = insert ?d (dom (index_lookup (tm_index tm)))"
    using b policy_laws(1,2) [of "tm_object_policy tm" ?d] by (cases ?old) (auto simp: tm1_def swap_in_sel)
  moreover have dm: "dom (index_lookup (tm_index tm1)) = insert ?d (dom (index_lookup (tm_index tm)))"
    by (simp add: l)
  ultimately show "books tm1" using ok by (simp add: books_but_def)
qed

end
