(* ===== verification/Head_Cache.thy ===== *)
theory Head_Cache
  imports Tier_State "HOL-Library.Multiset"
begin

text \<open>
  Who owns the RAM of the head cache (\<^verbatim>\<open>TierManager\<close>'s \<^verbatim>\<open>ram_\<close> and \<^verbatim>\<open>pins_\<close>): every live region of the
  buffer pool belongs to exactly one owner, an indexed object's resident head, an orphan (a
  head that was given up while a reader had it pinned) or an open store handle. The multiset
  of live regions is the sum of the three.
\<close>

section \<open>Regions and their identifiers\<close>

definition loc_reg :: "nat \<Rightarrow> head_loc \<Rightarrow> nat \<times> nat" where
  "loc_reg bb hl = (hl_block hl * bb + hl_offset hl, hl_len hl)"

definition rg_reg :: "nat \<Rightarrow> region \<Rightarrow> nat \<times> nat" where
  "rg_reg bb r = (rg_block r * bb + rg_offset r, rg_len r)"

definition loc_id :: "head_loc \<Rightarrow> nat" where
  "loc_id hl = region_id (hl_block hl) (hl_offset hl)"

definition pin_id :: "head_pin \<Rightarrow> nat" where
  "pin_id q = region_id (hp_block q) (hp_offset q)"

definition id_addr :: "nat \<Rightarrow> nat \<Rightarrow> nat" where
  "id_addr bb i = i div 2 ^ 32 * bb + i mod 2 ^ 32"

lemma region_id_eq:
  assumes "block < 2 ^ 32" and "off < 2 ^ 32"
  shows "region_id block off = block * 2 ^ 32 + off"
proof -
  have lt: "block * 2 ^ 32 + off < 2 ^ 64"
  proof -
    have "block * 2 ^ 32 + off < Suc block * 2 ^ 32" using assms(2) by simp
    also have "\<dots> \<le> 2 ^ 32 * 2 ^ 32" using assms(1) by (intro mult_le_mono1) simp
    finally show ?thesis by simp
  qed
  have "push_bit 32 (of_nat block :: 64 word) AND of_nat off = 0"
  proof (rule bit_eqI)
    fix n
    have "\<not> bit off n" if "32 \<le> n"
      using that assms(2) by (metis bit_take_bit_iff not_less take_bit_nat_eq_self)
    then show "bit (push_bit 32 (of_nat block :: 64 word) AND of_nat off) n = bit 0 n"
      by (auto simp: bit_and_iff bit_push_bit_iff bit_of_nat_iff)
  qed
  then have "push_bit 32 (of_nat block :: 64 word) OR of_nat off = push_bit 32 (of_nat block) + of_nat off"
    by (rule disjunctive_add_eq_or [symmetric])
  also have "\<dots> = of_nat (block * 2 ^ 32 + off)" by (simp add: push_bit_eq_mult)
  finally show ?thesis
    using lt unfolding region_id_def by (simp only: unat_of_nat) (simp add: take_bit_nat_eq_self)
qed

text \<open>A location the pool can have handed out.\<close>

definition loc_ok :: "buffer_pool \<Rightarrow> nat \<Rightarrow> nat \<Rightarrow> bool" where
  "loc_ok ram block off \<longleftrightarrow> block < bp_num_blocks (pl_blocks ram) \<and> off < pool_bb ram"

definition small_pool :: "buffer_pool \<Rightarrow> bool" where
  "small_pool ram \<longleftrightarrow> bp_num_blocks (pl_blocks ram) < 2 ^ 32 \<and> pool_bb ram \<le> 2 ^ 32"

lemma id_addr_region_id:
  assumes "small_pool ram" and "loc_ok ram block off"
  shows "id_addr (pool_bb ram) (region_id block off) = block * pool_bb ram + off"
    and "region_id block off div 2 ^ 32 = block" and "region_id block off mod 2 ^ 32 = off"
proof -
  have b: "block < 2 ^ 32" "off < 2 ^ 32" using assms by (auto simp: small_pool_def loc_ok_def)
  show "region_id block off div 2 ^ 32 = block" "region_id block off mod 2 ^ 32 = off"
    using b(2) by (simp_all add: region_id_eq [OF b])
  then show "id_addr (pool_bb ram) (region_id block off) = block * pool_bb ram + off"
    by (simp add: id_addr_def)
qed

lemma flat_decode:
  assumes "loc_ok ram block off"
  shows "bufpool_deallocate ram block off n = flat_dealloc ram (block * pool_bb ram + off) n"
  using assms by (simp add: flat_dealloc_def loc_ok_def)

lemma bufpool_allocate_loc:
  assumes "pool_live p L" and "bufpool_allocate p n = Some (r, p')"
  shows "loc_ok p (rg_block r) (rg_offset r)" and "rg_len r = n"
    and "rg_data r = bp_base (pl_blocks p) + fst (rg_reg (pool_bb p) r)"
  by (cases rule: bufpool_allocate_cases [OF assms];
      use pool_liveD(3) [OF assms(1)] in
        \<open>simp add: loc_ok_def rg_reg_def bufpool_addr_def blockpool_block_data_def\<close>)+

section \<open>The ownership invariant\<close>

text \<open>What the entries of a finite map own, as a multiset.\<close>

definition owners :: "('k \<Rightarrow> 'v \<Rightarrow> 'r) \<Rightarrow> ('k \<rightharpoonup> 'v) \<Rightarrow> 'r multiset" where
  "owners g M = image_mset (\<lambda>x. g x (the (M x))) (mset_set (dom M))"

lemma owners_cong_other:
  "finite S \<Longrightarrow> x \<notin> S \<Longrightarrow>
     image_mset (\<lambda>y. g y (the ((M(x := v)) y))) (mset_set S) = image_mset (\<lambda>y. g y (the (M y))) (mset_set S)"
  by (rule image_mset_cong) auto

lemma owners_remove:
  assumes "finite (dom M)" and "M x = Some v"
  shows "owners g M = add_mset (g x v) (owners g (M(x := None)))"
proof -
  have "mset_set (dom M) = add_mset x (mset_set (dom M - {x}))"
    using assms by (intro mset_set.remove) auto
  with assms owners_cong_other [of "dom M - {x}" x g M None] show ?thesis by (simp add: owners_def)
qed

lemma owners_insert:
  assumes "finite (dom M)" and "M x = None"
  shows "owners g (M(x \<mapsto> v)) = add_mset (g x v) (owners g M)"
proof -
  have "dom (M(x \<mapsto> v)) = insert x (dom M)" "x \<notin> dom M" using assms(2) by auto
  with assms(1) owners_cong_other [of "dom M" x g M "Some v"] show ?thesis by (simp add: owners_def)
qed

lemma owners_same:
  "finite (dom M) \<Longrightarrow> M x = Some u \<Longrightarrow> g x v = g x u \<Longrightarrow> owners g (M(x \<mapsto> v)) = owners g M"
  using owners_remove [of M x u g] owners_insert [of "M(x := None)" x g v] by simp

text \<open>\<open>H\<close> maps the digests with a resident head to its location, \<open>R\<close> has the handles' regions.\<close>

definition heads_ms :: "nat \<Rightarrow> (digest \<rightharpoonup> head_loc) \<Rightarrow> (nat \<times> nat) multiset" where
  "heads_ms bb H = owners (\<lambda>_. loc_reg bb) H"

definition orphan_map :: "(nat \<rightharpoonup> region_pin) \<Rightarrow> nat \<rightharpoonup> region_pin" where
  "orphan_map pins i = (case pins i of None \<Rightarrow> None | Some p \<Rightarrow> if pin_orphaned p then Some p else None)"

definition orphans_ms :: "nat \<Rightarrow> (nat \<rightharpoonup> region_pin) \<Rightarrow> (nat \<times> nat) multiset" where
  "orphans_ms bb pins = owners (\<lambda>i p. (id_addr bb i, pin_len p)) (orphan_map pins)"

lemma orphan_map_upd [simp]:
  "orphan_map (pins(i \<mapsto> p)) = (orphan_map pins)(i := if pin_orphaned p then Some p else None)"
  "orphan_map (pins(i := None)) = (orphan_map pins)(i := None)"
  by (auto simp: orphan_map_def fun_eq_iff)

lemma orphan_map_finite: "finite (dom pins) \<Longrightarrow> finite (dom (orphan_map pins))"
  by (rule finite_subset [of _ "dom pins"]) (auto simp: orphan_map_def split: option.splits)

definition pins_ok :: "buffer_pool \<Rightarrow> (nat \<rightharpoonup> region_pin) \<Rightarrow> (digest \<rightharpoonup> head_loc) \<Rightarrow> head_pin list \<Rightarrow> bool" where
  "pins_ok ram pins H ps \<longleftrightarrow>
     (\<forall>i p. pins i = Some p \<longrightarrow>
        pin_refcount p = length (filter (\<lambda>q. pin_id q = i) ps) \<and> 0 < pin_refcount p \<and>
        (\<not> pin_orphaned p \<longrightarrow> (\<exists>hl \<in> ran H. loc_id hl = i \<and> hl_len hl = pin_len p))) \<and>
     (\<forall>q \<in> set ps. hp_valid q \<and> loc_ok ram (hp_block q) (hp_offset q) \<and>
        (\<exists>p. pins (pin_id q) = Some p \<and> hp_len q = pin_len p))"

definition cache_ok ::
  "buffer_pool \<Rightarrow> (nat \<rightharpoonup> region_pin) \<Rightarrow> (digest \<rightharpoonup> head_loc) \<Rightarrow> (nat \<times> nat) multiset \<Rightarrow> head_pin list \<Rightarrow> bool" where
  "cache_ok ram pins H R ps \<longleftrightarrow>
     (\<exists>L. pool_live ram L \<and> mset L = heads_ms (pool_bb ram) H + orphans_ms (pool_bb ram) pins + R) \<and>
     small_pool ram \<and> finite (dom H) \<and> finite (dom pins) \<and>
     (\<forall>hl \<in> ran H. loc_ok ram (hl_block hl) (hl_offset hl)) \<and> pins_ok ram pins H ps \<and> length ps < 2 ^ 32"

lemma cache_okD:
  assumes "cache_ok ram pins H R ps"
  obtains L where "pool_live ram L" and "mset L = heads_ms (pool_bb ram) H + orphans_ms (pool_bb ram) pins + R"
  using assms by (auto simp: cache_ok_def)

lemma cache_okI:
  "pool_live ram L \<Longrightarrow> mset L = heads_ms (pool_bb ram) H + orphans_ms (pool_bb ram) pins + R \<Longrightarrow>
   small_pool ram \<Longrightarrow> finite (dom H) \<Longrightarrow> finite (dom pins) \<Longrightarrow>
   \<forall>hl \<in> ran H. loc_ok ram (hl_block hl) (hl_offset hl) \<Longrightarrow> pins_ok ram pins H ps \<Longrightarrow> length ps < 2 ^ 32 \<Longrightarrow>
   cache_ok ram pins H R ps"
  unfolding cache_ok_def by blast

lemma cache_ok_parts:
  assumes "cache_ok ram pins H R ps"
  shows "small_pool ram" "finite (dom H)" "finite (dom pins)"
    "\<forall>hl \<in> ran H. loc_ok ram (hl_block hl) (hl_offset hl)" "pins_ok ram pins H ps" "length ps < 2 ^ 32"
  using assms unfolding cache_ok_def by blast+

text \<open>No two owners have regions at the same address.\<close>

lemma apart_remove1:
  "apart L \<Longrightarrow> x \<in> set L \<Longrightarrow>
     apart (remove1 x L) \<and> (\<forall>y \<in> set (remove1 x L). fst x + snd x \<le> fst y \<or> fst y + snd y \<le> fst x)"
proof (induction L)
  case (Cons z L)
  show ?case
  proof (cases "z = x")
    case False
    with Cons have IH: "apart (remove1 x L)"
      "\<forall>y \<in> set (remove1 x L). fst x + snd x \<le> fst y \<or> fst y + snd y \<le> fst x" by auto
    have "\<forall>y \<in> set (remove1 x L). fst z + snd z \<le> fst y \<or> fst y + snd y \<le> fst z"
      using Cons.prems(1) set_remove1_subset [of x L] by auto
    moreover have "fst z + snd z \<le> fst x \<or> fst x + snd x \<le> fst z"
      using Cons.prems False by auto
    ultimately show ?thesis using IH False by auto
  qed (use Cons in auto)
qed simp

lemma apart_pair:
  assumes "apart L" and "mset L = add_mset x (add_mset y M)"
  shows "fst x + snd x \<le> fst y \<or> fst y + snd y \<le> fst x"
proof -
  have x: "x \<in> set L" using assms(2) by (metis set_mset_mset union_single_eq_member)
  have "mset (remove1 x L) = add_mset y M" using assms(2) by simp
  then have "y \<in> set (remove1 x L)" by (metis set_mset_mset union_single_eq_member)
  with apart_remove1 [OF assms(1) x] show ?thesis by blast
qed

text \<open>Taking a region out of the ownership sum frees exactly that region.\<close>

lemma pool_dealloc_mset:
  assumes "pool_live ram L" and "mset L = add_mset (block * pool_bb ram + off, n) M" and "loc_ok ram block off"
  obtains L' where "pool_live (bufpool_deallocate ram block off n) L'" and "mset L' = M"
    and "same_params (bufpool_deallocate ram block off n) ram"
proof -
  let ?x = "(block * pool_bb ram + off, n)"
  have "?x \<in> set L" using assms(2) by (metis set_mset_mset union_single_eq_member)
  from bufpool_deallocate_live [OF assms(1) this] have
    "pool_live (bufpool_deallocate ram block off n) (remove1 ?x L)" "same_params (bufpool_deallocate ram block off n) ram"
    unfolding flat_decode [OF assms(3)] by simp_all
  moreover have "mset (remove1 ?x L) = M" using assms(2) by simp
  ultimately show ?thesis by (metis that)
qed

lemma same_params_loc:
  "same_params p' p \<Longrightarrow> loc_ok p' b o' = loc_ok p b o'" "same_params p' p \<Longrightarrow> small_pool p' = small_pool p"
  "same_params p' p \<Longrightarrow> bp_block_bytes (pl_blocks p') = pool_bb p"
  by (auto simp: same_params_def loc_ok_def small_pool_def)

lemma pins_ok_params: "same_params p' p \<Longrightarrow> pins_ok p' pins H ps = pins_ok p pins H ps"
  by (simp add: pins_ok_def same_params_loc)

text \<open>An unpinned head, or an orphan, is not at the address of any other region.\<close>

lemma owner_unique:
  assumes "cache_ok ram pins H R ps" and "H d = Some hl"
  shows "H e = Some hl' \<Longrightarrow> loc_id hl' = loc_id hl \<Longrightarrow> e = d" and "orphan_map pins (loc_id hl) = None"
proof -
  let ?bb = "pool_bb ram"
  obtain L where L: "pool_live ram L" "mset L = heads_ms ?bb H + orphans_ms ?bb pins + R"
    using assms(1) by (rule cache_okD)
  have fin: "finite (dom H)" "finite (dom pins)" and sm: "small_pool ram"
    and lo: "\<And>hl. hl \<in> ran H \<Longrightarrow> loc_ok ram (hl_block hl) (hl_offset hl)"
    using assms(1) by (auto simp: cache_ok_def)
  have pos: "0 < snd r" if "r \<in># mset L" for r
    using pool.live_bounds [OF L(1), of "fst r" "snd r"] that by simp
  have H: "heads_ms ?bb H = add_mset (loc_reg ?bb hl) (heads_ms ?bb (H(d := None)))"
    unfolding heads_ms_def by (rule owners_remove [OF fin(1) assms(2)])
  have ad: "id_addr ?bb (loc_id hl) = fst (loc_reg ?bb hl)" if "hl \<in> ran H" for hl
    using id_addr_region_id(1) [OF sm lo [OF that]] by (simp add: loc_id_def loc_reg_def)
  show "e = d" if e: "H e = Some hl'" "loc_id hl' = loc_id hl"
  proof (rule ccontr)
    assume "e \<noteq> d"
    then have "heads_ms ?bb (H(d := None)) = add_mset (loc_reg ?bb hl') (heads_ms ?bb (H(d := None, e := None)))"
      using e fin(1) unfolding heads_ms_def by (intro owners_remove) auto
    with H L(2) have m: "mset L = add_mset (loc_reg ?bb hl) (add_mset (loc_reg ?bb hl')
        (heads_ms ?bb (H(d := None, e := None)) + orphans_ms ?bb pins + R))" by simp
    have "fst (loc_reg ?bb hl') = fst (loc_reg ?bb hl)"
      using ad [of hl] ad [of hl'] e assms(2) by (simp add: ranI)
    with apart_pair [OF pool.live_apart [OF L(1)] m] pos [of "loc_reg ?bb hl"] pos [of "loc_reg ?bb hl'"] m
    show False by auto
  qed
  show "orphan_map pins (loc_id hl) = None"
  proof (rule ccontr)
    assume "orphan_map pins (loc_id hl) \<noteq> None"
    then obtain p where p: "orphan_map pins (loc_id hl) = Some p" by auto
    let ?y = "(id_addr ?bb (loc_id hl), pin_len p)"
    have "orphans_ms ?bb pins = add_mset ?y (owners (\<lambda>i p. (id_addr ?bb i, pin_len p)) ((orphan_map pins)(loc_id hl := None)))"
      unfolding orphans_ms_def by (rule owners_remove [OF orphan_map_finite [OF fin(2)] p])
    with H L(2) have m: "mset L = add_mset (loc_reg ?bb hl) (add_mset ?y (heads_ms ?bb (H(d := None)) +
       owners (\<lambda>i p. (id_addr ?bb i, pin_len p)) ((orphan_map pins)(loc_id hl := None)) + R))" by simp
    with apart_pair [OF pool.live_apart [OF L(1)] m] pos [of "loc_reg ?bb hl"] pos [of ?y] ad [of hl] assms(2)
    show False by (auto simp: ranI)
  qed
qed

section \<open>The operations\<close>

abbreviation tm_cache :: "tier_manager \<Rightarrow> (digest \<rightharpoonup> head_loc) \<Rightarrow> (nat \<times> nat) multiset \<Rightarrow> head_pin list \<Rightarrow> bool" where
  "tm_cache tm \<equiv> cache_ok (tm_ram tm) (tm_pins tm)"

lemma pins_okD:
  assumes "pins_ok ram pins H ps"
  shows "pins i = Some p \<Longrightarrow> pin_refcount p = length (filter (\<lambda>q. pin_id q = i) ps) \<and> 0 < pin_refcount p"
    and "pins i = Some p \<Longrightarrow> \<not> pin_orphaned p \<Longrightarrow> \<exists>hl \<in> ran H. loc_id hl = i \<and> hl_len hl = pin_len p"
    and "q \<in> set ps \<Longrightarrow> hp_valid q \<and> loc_ok ram (hp_block q) (hp_offset q) \<and>
      (\<exists>p. pins (pin_id q) = Some p \<and> hp_len q = pin_len p)"
  using assms unfolding pins_ok_def by blast+

lemma pins_ok_mono: "pins_ok ram pins H ps \<Longrightarrow> ran H \<subseteq> ran H' \<Longrightarrow> pins_ok ram pins H' ps"
  unfolding pins_ok_def by blast

lemma pins_ok_upd:
  assumes ok: "pins_ok ram pins H ps"
    and same: "\<And>j. j \<noteq> i \<Longrightarrow> filter (\<lambda>q. pin_id q = j) ps' = filter (\<lambda>q. pin_id q = j) ps"
    and p: "pin_refcount p = length (filter (\<lambda>q. pin_id q = i) ps')" "0 < pin_refcount p"
    and hd: "\<not> pin_orphaned p \<Longrightarrow> \<exists>hl \<in> ran H. loc_id hl = i \<and> hl_len hl = pin_len p"
    and qs: "\<And>q. q \<in> set ps' \<Longrightarrow> pin_id q = i \<Longrightarrow>
      hp_valid q \<and> loc_ok ram (hp_block q) (hp_offset q) \<and> hp_len q = pin_len p"
  shows "pins_ok ram (pins(i \<mapsto> p)) H ps'"
proof -
  have "pin_refcount p' = length (filter (\<lambda>q. pin_id q = j) ps') \<and> 0 < pin_refcount p' \<and>
      (\<not> pin_orphaned p' \<longrightarrow> (\<exists>hl \<in> ran H. loc_id hl = j \<and> hl_len hl = pin_len p'))"
    if "(pins(i \<mapsto> p)) j = Some p'" for j p'
  proof (cases "j = i")
    case True
    with that p hd show ?thesis by auto
  next
    case False
    with that have "pins j = Some p'" by simp
    then show ?thesis unfolding same [OF False] using pins_okD(1,2) [OF ok] by blast
  qed
  moreover have "hp_valid q \<and> loc_ok ram (hp_block q) (hp_offset q) \<and>
      (\<exists>p'. (pins(i \<mapsto> p)) (pin_id q) = Some p' \<and> hp_len q = pin_len p')" if q: "q \<in> set ps'" for q
  proof (cases "pin_id q = i")
    case True
    with qs [OF q] show ?thesis by simp
  next
    case False
    with q have "q \<in> set (filter (\<lambda>r. pin_id r = pin_id q) ps')" by simp
    then have "q \<in> set ps" unfolding same [OF False] by simp
    from pins_okD(3) [OF ok this] False show ?thesis by simp
  qed
  ultimately show ?thesis unfolding pins_ok_def by blast
qed

lemma pins_ok_drop_head:
  assumes "pins_ok ram pins H ps" and "H d = Some hl"
    and "\<And>p. pins (loc_id hl) = Some p \<Longrightarrow> pin_orphaned p"
  shows "pins_ok ram pins (H(d := None)) ps"
proof -
  have "\<exists>hl' \<in> ran (H(d := None)). loc_id hl' = i \<and> hl_len hl' = pin_len p"
    if p: "pins i = Some p" "\<not> pin_orphaned p" for i p
  proof -
    from assms(1) p obtain hl' where hl': "hl' \<in> ran H" "loc_id hl' = i" "hl_len hl' = pin_len p"
      unfolding pins_ok_def by blast
    have "hl' \<noteq> hl" using assms(3) p hl'(2) by auto
    moreover obtain a where "H a = Some hl'" using hl'(1) by (auto simp: ran_def)
    ultimately have "(H(d := None)) a = Some hl'" using assms(2) by auto
    then have "hl' \<in> ran (H(d := None))" by (rule ranI)
    with hl' show ?thesis by blast
  qed
  with assms(1) show ?thesis unfolding pins_ok_def by blast
qed

lemma free_head_cache:
  assumes ok: "tm_cache tm H R ps" and d: "H d = Some hl"
  defines "tm' \<equiv> free_head_region tm (hl_block hl) (hl_offset hl) (hl_len hl)"
  shows "tm_cache tm' (H(d := None)) R ps" and "same_params (tm_ram tm') (tm_ram tm)"
proof -
  let ?ram = "tm_ram tm" and ?pins = "tm_pins tm" and ?i = "loc_id hl"
  let ?bb = "pool_bb ?ram"
  obtain L where L: "pool_live ?ram L" "mset L = heads_ms ?bb H + orphans_ms ?bb ?pins + R"
    using ok by (rule cache_okD)
  have fin: "finite (dom H)" "finite (dom ?pins)" and sm: "small_pool ?ram" and pk: "pins_ok ?ram ?pins H ps"
    and lo: "loc_ok ?ram (hl_block hl) (hl_offset hl)" and lr: "\<forall>h \<in> ran H. loc_ok ?ram (hl_block h) (hl_offset h)"
    and len: "length ps < 2 ^ 32"
    using ok d by (auto simp: cache_ok_def ranI)
  have no: "orphan_map ?pins ?i = None" by (rule owner_unique(2) [OF ok d])
  have H: "heads_ms ?bb H = add_mset (loc_reg ?bb hl) (heads_ms ?bb (H(d := None)))"
    unfolding heads_ms_def by (rule owners_remove [OF fin(1) d])
  have lr': "\<forall>h \<in> ran (H(d := None)). loc_ok ?ram (hl_block h) (hl_offset h)"
    using lr by (auto simp: ran_def split: if_splits)
  have "tm_cache tm' (H(d := None)) R ps \<and> same_params (tm_ram tm') (tm_ram tm)"
  proof (cases "?pins ?i")
    case (Some p)
    have p: "0 < pin_refcount p" "\<not> pin_orphaned p"
      using pins_okD(1) [OF pk Some] Some no by (auto simp: orphan_map_def split: if_splits)
    obtain hl' where hl': "hl' \<in> ran H" "loc_id hl' = ?i" "hl_len hl' = pin_len p"
      using pins_okD(2) [OF pk Some p(2)] by blast
    then obtain e where "H e = Some hl'" by (auto simp: ran_def)
    with owner_unique(1) [OF ok d this hl'(2)] d have pl: "pin_len p = hl_len hl" using hl' by auto
    let ?pins' = "?pins(?i \<mapsto> p\<lparr>pin_orphaned := True\<rparr>)"
    have tm': "tm' = tm\<lparr>tm_pins := ?pins'\<rparr>"
      using Some p by (simp add: tm'_def free_head_region_def loc_id_def)
    have "orphans_ms ?bb ?pins' = add_mset (id_addr ?bb ?i, hl_len hl) (orphans_ms ?bb ?pins)"
      unfolding orphans_ms_def
      using owners_insert [OF orphan_map_finite [OF fin(2)] no, of "\<lambda>i p. (id_addr ?bb i, pin_len p)"
          "p\<lparr>pin_orphaned := True\<rparr>"] pl by simp
    moreover have "id_addr ?bb ?i = fst (loc_reg ?bb hl)"
      using id_addr_region_id(1) [OF sm lo] by (simp add: loc_id_def loc_reg_def)
    ultimately have "mset L = heads_ms ?bb (H(d := None)) + orphans_ms ?bb ?pins' + R"
      using L(2) H by (simp add: loc_reg_def)
    moreover have pk': "pins_ok ?ram ?pins' H ps"
      using pins_okD(1) [OF pk Some] pins_okD(3) [OF pk] Some by (intro pins_ok_upd [OF pk]) fastforce+
    moreover have "pins_ok ?ram ?pins' (H(d := None)) ps" by (rule pins_ok_drop_head [OF pk' d]) simp
    ultimately show ?thesis
      using L(1) fin sm lr' len unfolding tm' cache_ok_def by (auto simp: same_params_def)
  next
    case None
    let ?ram' = "bufpool_deallocate ?ram (hl_block hl) (hl_offset hl) (hl_len hl)"
    have tm': "tm' = tm\<lparr>tm_ram := ?ram'\<rparr>"
      using None by (simp add: tm'_def free_head_region_def loc_id_def)
    have "mset L = add_mset (hl_block hl * ?bb + hl_offset hl, hl_len hl)
        (heads_ms ?bb (H(d := None)) + orphans_ms ?bb ?pins + R)"
      using L(2) H by (simp add: loc_reg_def)
    from pool_dealloc_mset [OF L(1) this lo] obtain L' where L': "pool_live ?ram' L'"
      "mset L' = heads_ms ?bb (H(d := None)) + orphans_ms ?bb ?pins + R" "same_params ?ram' ?ram" .
    have "pins_ok ?ram ?pins (H(d := None)) ps" by (rule pins_ok_drop_head [OF pk d]) (simp add: None)
    with L' fin sm lr' len show ?thesis
      unfolding tm' cache_ok_def by (auto simp: same_params_loc pins_ok_params [OF L'(3)])
  qed
  then show "tm_cache tm' (H(d := None)) R ps" "same_params (tm_ram tm') (tm_ram tm)" by auto
qed

text \<open>A new region goes to the handle that asked for it.\<close>

lemma alloc_cache:
  assumes ok: "cache_ok ram pins H R ps" and a: "bufpool_allocate ram n = Some (r, ram')"
  shows "cache_ok ram' pins H (add_mset (rg_reg (pool_bb ram) r) R) ps" and "same_params ram' ram"
    and "loc_ok ram (rg_block r) (rg_offset r)" and "rg_len r = n"
    and "rg_data r = bp_base (pl_blocks ram) + fst (rg_reg (pool_bb ram) r)"
proof -
  obtain L where L: "pool_live ram L" "mset L = heads_ms (pool_bb ram) H + orphans_ms (pool_bb ram) pins + R"
    using ok by (rule cache_okD)
  note l = bufpool_allocate_loc [OF L(1) a]
  show "loc_ok ram (rg_block r) (rg_offset r)" "rg_len r = n"
    "rg_data r = bp_base (pl_blocks ram) + fst (rg_reg (pool_bb ram) r)" by (rule l)+
  from bufpool_allocate_live [OF L(1) a]
  have L': "pool_live ram' (rg_reg (pool_bb ram) r # L)" "same_params ram' ram"
    using l(2) by (simp_all add: rg_reg_def)
  show "same_params ram' ram" by (rule L'(2))
  have "mset (rg_reg (pool_bb ram) r # L) =
      heads_ms (pool_bb ram) H + orphans_ms (pool_bb ram) pins + add_mset (rg_reg (pool_bb ram) r) R"
    using L(2) by simp
  with L' ok show "cache_ok ram' pins H (add_mset (rg_reg (pool_bb ram) r) R) ps"
    unfolding cache_ok_def by (auto simp: same_params_loc pins_ok_params [OF L'(2)])
qed

text \<open>A handle gives its region back, or it becomes the head of the object it commits.\<close>

lemma abort_cache:
  assumes ok: "cache_ok ram pins H (add_mset (rg_reg (pool_bb ram) r) R) ps" and lo: "loc_ok ram (rg_block r) (rg_offset r)"
  defines "ram' \<equiv> bufpool_deallocate ram (rg_block r) (rg_offset r) (rg_len r)"
  shows "cache_ok ram' pins H R ps" and "same_params ram' ram"
proof -
  obtain L where L: "pool_live ram L"
    "mset L = heads_ms (pool_bb ram) H + orphans_ms (pool_bb ram) pins + add_mset (rg_reg (pool_bb ram) r) R"
    using ok by (rule cache_okD)
  then have "mset L = add_mset (rg_block r * pool_bb ram + rg_offset r, rg_len r)
      (heads_ms (pool_bb ram) H + orphans_ms (pool_bb ram) pins + R)" by (simp add: rg_reg_def)
  from pool_dealloc_mset [OF L(1) this lo] obtain L' where L': "pool_live ram' L'"
    "mset L' = heads_ms (pool_bb ram) H + orphans_ms (pool_bb ram) pins + R" "same_params ram' ram"
    unfolding ram'_def .
  show "same_params ram' ram" by (rule L'(3))
  from L' ok show "cache_ok ram' pins H R ps"
    unfolding cache_ok_def by (auto simp: same_params_loc pins_ok_params [OF L'(3)])
qed

lemma adopt_cache:
  assumes ok: "cache_ok ram pins H (add_mset (rg_reg (pool_bb ram) r) R) ps"
    and lo: "loc_ok ram (rg_block r) (rg_offset r)" and d: "H d = None"
  shows "cache_ok ram pins (H(d \<mapsto> region_loc (Some r))) R ps"
proof -
  let ?hl = "region_loc (Some r)" and ?bb = "pool_bb ram"
  note c = cache_ok_parts [OF ok]
  obtain L where L: "pool_live ram L" "mset L = heads_ms ?bb H + orphans_ms ?bb pins + add_mset (rg_reg ?bb r) R"
    using ok by (rule cache_okD)
  have reg: "loc_reg ?bb ?hl = rg_reg ?bb r" by (simp add: loc_reg_def rg_reg_def region_loc_def)
  have "heads_ms ?bb (H(d \<mapsto> ?hl)) = add_mset (rg_reg ?bb r) (heads_ms ?bb H)"
    using owners_insert [OF c(2) d, of "\<lambda>_. loc_reg ?bb" ?hl] by (simp add: heads_ms_def reg)
  with L(2) have m: "mset L = heads_ms ?bb (H(d \<mapsto> ?hl)) + orphans_ms ?bb pins + R" by simp
  have ran: "ran (H(d \<mapsto> ?hl)) = insert ?hl (ran H)" using d by (rule ran_map_upd)
  have lr: "\<forall>h \<in> ran (H(d \<mapsto> ?hl)). loc_ok ram (hl_block h) (hl_offset h)"
    using c(4) lo unfolding ran by (simp add: region_loc_def)
  have pk: "pins_ok ram pins (H(d \<mapsto> ?hl)) ps" by (rule pins_ok_mono [OF c(5)]) (use ran in blast)
  show ?thesis using L(1) m c(1) _ c(3) lr pk c(6) by (rule cache_okI) (use c(2) in simp)
qed

text \<open>Pins: one more or one less reader of a resident head.\<close>

lemma take_pin_cache:
  assumes ok: "tm_cache tm H R ps" and hl: "hl \<in> ran H" and len: "length ps + 1 < 2 ^ 32"
  shows "tm_cache (take_pin tm hl) H R (loc_pin hl # ps)"
proof -
  let ?i = "loc_id hl" and ?ram = "tm_ram tm" and ?pins = "tm_pins tm"
  let ?bb = "pool_bb ?ram"
  note c = cache_ok_parts [OF ok]
  obtain d where d: "H d = Some hl" using hl by (auto simp: ran_def)
  have no: "orphan_map ?pins ?i = None" by (rule owner_unique(2) [OF ok d])
  obtain L where L: "pool_live ?ram L" "mset L = heads_ms ?bb H + orphans_ms ?bb ?pins + R" using ok by (rule cache_okD)
  let ?q = "case ?pins ?i of None \<Rightarrow> \<lparr>pin_len = 0, pin_refcount = 0, pin_orphaned = False\<rparr> | Some p \<Rightarrow> p"
  let ?p = "?q\<lparr>pin_len := hl_len hl, pin_refcount := u32 (pin_refcount ?q + 1)\<rparr>"
  have tm': "take_pin tm hl = tm\<lparr>tm_pins := ?pins(?i \<mapsto> ?p)\<rparr>" by (simp add: take_pin_def Let_def loc_id_def)
  have pi: "pin_id (loc_pin hl) = ?i" by (simp add: pin_id_def loc_pin_def loc_id_def)
  have q: "pin_refcount ?q = length (filter (\<lambda>q. pin_id q = ?i) ps)" "\<not> pin_orphaned ?q"
  proof -
    have "filter (\<lambda>q. pin_id q = ?i) ps = []" if "?pins ?i = None"
      using pins_okD(3) [OF c(5)] that by (fastforce simp: filter_empty_conv)
    then show "pin_refcount ?q = length (filter (\<lambda>q. pin_id q = ?i) ps)"
      using pins_okD(1) [OF c(5)] by (simp split: option.split)
    show "\<not> pin_orphaned ?q" using no by (auto simp: orphan_map_def split: option.splits)
  qed
  have rc: "pin_refcount ?p = length (filter (\<lambda>q. pin_id q = ?i) (loc_pin hl # ps))"
    using q(1) len le_less_trans [OF length_filter_le [of "\<lambda>q. pin_id q = ?i" ps], of "2 ^ 32 - 1"]
    by (simp add: pi u32_id)
  have m: "mset L = heads_ms ?bb H + orphans_ms ?bb (?pins(?i \<mapsto> ?p)) + R"
    using L(2) q(2) no by (simp add: orphans_ms_def fun_upd_idem)
  have "pins_ok ?ram (?pins(?i \<mapsto> ?p)) H (loc_pin hl # ps)"
  proof (rule pins_ok_upd [OF c(5) _ rc])
    show "filter (\<lambda>q. pin_id q = j) (loc_pin hl # ps) = filter (\<lambda>q. pin_id q = j) ps" if "j \<noteq> ?i" for j
      using that pi by simp
    show "0 < pin_refcount ?p" using pi unfolding rc by simp
    show "\<exists>h \<in> ran H. loc_id h = ?i \<and> hl_len h = pin_len ?p" using hl by auto
  next
    fix q
    assume q: "q \<in> set (loc_pin hl # ps)" "pin_id q = ?i"
    show "hp_valid q \<and> loc_ok ?ram (hp_block q) (hp_offset q) \<and> hp_len q = pin_len ?p"
    proof (cases "q = loc_pin hl")
      case True
      with c(4) hl show ?thesis by (simp add: loc_pin_def)
    next
      case False
      with q have k: "hp_valid q \<and> loc_ok ?ram (hp_block q) (hp_offset q)"
        and "\<exists>p. ?pins ?i = Some p \<and> hp_len q = pin_len p"
        using pins_okD(3) [OF c(5), of q] by auto
      then obtain p0 where p0: "?pins ?i = Some p0" "hp_len q = pin_len p0" by auto
      have "\<not> pin_orphaned p0" using no p0 by (auto simp: orphan_map_def split: if_splits)
      with pins_okD(2) [OF c(5) p0(1)] obtain h where h: "h \<in> ran H" "loc_id h = ?i" "hl_len h = pin_len p0" by blast
      then obtain e where "H e = Some h" by (auto simp: ran_def)
      with owner_unique(1) [OF ok d this h(2)] d have "h = hl" by simp
      with k h p0 show ?thesis by simp
    qed
  qed
  then show ?thesis
    unfolding tm' using L(1) m c(1-4) len by (auto intro!: cache_okI)
qed

lemma filter_drop_one:
  "length (filter P (xs @ y # ys)) = length (filter P (xs @ ys)) + of_bool (P y)"
  by simp

lemma pins_ok_unpin_last:
  assumes ok: "pins_ok ram pins H (xs @ q # ys)" and none: "filter (\<lambda>r. pin_id r = pin_id q) (xs @ ys) = []"
  shows "pins_ok ram (pins(pin_id q := None)) H (xs @ ys)"
proof -
  have "pin_refcount p = length (filter (\<lambda>r. pin_id r = j) (xs @ ys)) \<and> 0 < pin_refcount p \<and>
      (\<not> pin_orphaned p \<longrightarrow> (\<exists>hl \<in> ran H. loc_id hl = j \<and> hl_len hl = pin_len p))"
    if "(pins(pin_id q := None)) j = Some p" for j p
    using that pins_okD(1,2) [OF ok, of j p] by (cases "j = pin_id q") auto
  moreover have "hp_valid r \<and> loc_ok ram (hp_block r) (hp_offset r) \<and>
      (\<exists>p. (pins(pin_id q := None)) (pin_id r) = Some p \<and> hp_len r = pin_len p)" if r: "r \<in> set (xs @ ys)" for r
  proof -
    have "pin_id r \<noteq> pin_id q" using none r by (auto simp: filter_empty_conv)
    with pins_okD(3) [OF ok, of r] r show ?thesis by auto
  qed
  ultimately show ?thesis unfolding pins_ok_def by blast
qed

lemma unpin_cache:
  assumes ok: "tm_cache tm H R (xs @ q # ys)"
  shows "tm_cache (unpin_head tm q) H R (xs @ ys)" and "same_params (tm_ram (unpin_head tm q)) (tm_ram tm)"
proof -
  let ?i = "pin_id q" and ?ram = "tm_ram tm" and ?pins = "tm_pins tm"
  let ?bb = "pool_bb ?ram" and ?ps = "xs @ q # ys"
  note c = cache_ok_parts [OF ok]
  obtain L where L: "pool_live ?ram L" "mset L = heads_ms ?bb H + orphans_ms ?bb ?pins + R" using ok by (rule cache_okD)
  have qv: "hp_valid q" and lo: "loc_ok ?ram (hp_block q) (hp_offset q)"
    and "\<exists>p. ?pins ?i = Some p \<and> hp_len q = pin_len p"
    using pins_okD(3) [OF c(5), of q] by auto
  then obtain p where p: "?pins ?i = Some p" "hp_len q = pin_len p" by auto
  define n where "n = length (filter (\<lambda>r. pin_id r = ?i) (xs @ ys))"
  have rc: "pin_refcount p = n + 1" using pins_okD(1) [OF c(5) p(1)] by (simp add: n_def)
  have "n + 1 < 2 ^ 32"
    using le_less_trans [OF length_filter_le c(6), of "\<lambda>r. pin_id r = ?i"] by (simp add: n_def)
  then have dec: "u32 (pin_refcount p + (2 ^ 32 - 1)) = n" by (simp add: rc u32_def)
  have fin': "finite (dom (?pins(?i := None)))" using c(3) by simp
  have len': "length (xs @ ys) < 2 ^ 32" using c(6) by simp
  have ida: "id_addr ?bb ?i = hp_block q * ?bb + hp_offset q"
    using id_addr_region_id(1) [OF c(1) lo] by (simp add: pin_id_def)
  have "tm_cache (unpin_head tm q) H R (xs @ ys) \<and> same_params (tm_ram (unpin_head tm q)) (tm_ram tm)"
  proof (cases "n = 0")
    case last: True
    have pk: "pins_ok ?ram (?pins(?i := None)) H (xs @ ys)"
      by (rule pins_ok_unpin_last [OF c(5)]) (use last in \<open>simp add: n_def\<close>)
    show ?thesis
    proof (cases "pin_orphaned p")
      case True
      let ?ram' = "bufpool_deallocate ?ram (hp_block q) (hp_offset q) (hp_len q)"
      have tm': "unpin_head tm q = tm\<lparr>tm_ram := ?ram', tm_pins := ?pins(?i := None)\<rparr>"
        using qv p(1) dec last True by (simp add: unpin_head_def Let_def pin_id_def)
      have "orphan_map ?pins ?i = Some p" using p True by (simp add: orphan_map_def)
      from owners_remove [OF orphan_map_finite [OF c(3)] this, of "\<lambda>i p. (id_addr ?bb i, pin_len p)"]
      have "orphans_ms ?bb ?pins = add_mset (id_addr ?bb ?i, pin_len p) (orphans_ms ?bb (?pins(?i := None)))"
        by (simp add: orphans_ms_def)
      then have "mset L = add_mset (hp_block q * ?bb + hp_offset q, hp_len q)
          (heads_ms ?bb H + orphans_ms ?bb (?pins(?i := None)) + R)"
        using L(2) ida p(2) by simp
      from pool_dealloc_mset [OF L(1) this lo] obtain L' where L': "pool_live ?ram' L'"
        "mset L' = heads_ms ?bb H + orphans_ms ?bb (?pins(?i := None)) + R" "same_params ?ram' ?ram" .
      show ?thesis
        unfolding tm' using L' pk c(1,2,4) fin' len'
        by (auto intro!: cache_okI simp: same_params_loc pins_ok_params [OF L'(3)])
    next
      case False
      have tm': "unpin_head tm q = tm\<lparr>tm_pins := ?pins(?i := None)\<rparr>"
        using qv p(1) dec last False by (simp add: unpin_head_def Let_def pin_id_def)
      have "orphans_ms ?bb (?pins(?i := None)) = orphans_ms ?bb ?pins"
        using p False by (simp add: orphans_ms_def orphan_map_def fun_upd_idem)
      with L(2) have m: "mset L = heads_ms ?bb H + orphans_ms ?bb (?pins(?i := None)) + R" by simp
      have "cache_ok ?ram (?pins(?i := None)) H R (xs @ ys)"
        by (rule cache_okI [OF L(1) m c(1,2) fin' c(4) pk len'])
      then show ?thesis by (simp add: tm' same_params_def)
    qed
  next
    case more: False
    let ?p = "p\<lparr>pin_refcount := n\<rparr>"
    have tm': "unpin_head tm q = tm\<lparr>tm_pins := ?pins(?i \<mapsto> ?p)\<rparr>"
      using qv p(1) dec more by (simp add: unpin_head_def Let_def pin_id_def)
    have pk: "pins_ok ?ram (?pins(?i \<mapsto> ?p)) H (xs @ ys)"
    proof (rule pins_ok_upd [OF c(5)])
      show "hp_valid r \<and> loc_ok ?ram (hp_block r) (hp_offset r) \<and> hp_len r = pin_len ?p"
        if "r \<in> set (xs @ ys)" "pin_id r = ?i" for r
        using pins_okD(3) [OF c(5), of r] that p by auto
      show "\<exists>hl \<in> ran H. loc_id hl = ?i \<and> hl_len hl = pin_len ?p" if "\<not> pin_orphaned ?p"
        using pins_okD(2) [OF c(5) p(1)] that by simp
    qed (use more in \<open>auto simp: n_def\<close>)
    have "orphans_ms ?bb (?pins(?i \<mapsto> ?p)) = orphans_ms ?bb ?pins"
    proof (cases "pin_orphaned p")
      case True
      then have "orphan_map ?pins ?i = Some p" using p by (simp add: orphan_map_def)
      from owners_same [OF orphan_map_finite [OF c(3)] this, of "\<lambda>i p. (id_addr ?bb i, pin_len p)" ?p] True
      show ?thesis by (simp add: orphans_ms_def)
    next
      case False
      then show ?thesis using p by (simp add: orphans_ms_def orphan_map_def fun_upd_idem)
    qed
    with L(2) have m: "mset L = heads_ms ?bb H + orphans_ms ?bb (?pins(?i \<mapsto> ?p)) + R" by simp
    have "cache_ok ?ram (?pins(?i \<mapsto> ?p)) H R (xs @ ys)"
      by (rule cache_okI [OF L(1) m c(1,2) _ c(4) pk len']) (use c(3) in simp)
    then show ?thesis by (simp add: tm' same_params_def)
  qed
  then show "tm_cache (unpin_head tm q) H R (xs @ ys)" "same_params (tm_ram (unpin_head tm q)) (tm_ram tm)" by auto
qed

text \<open>
  A pinned region and a handle's region never share a byte, and neither do the heads of two
  objects.
\<close>

lemma pin_region_owned:
  assumes ok: "cache_ok ram pins H R ps" and q: "q \<in> set ps"
  shows "(hp_block q * pool_bb ram + hp_offset q, hp_len q) \<in># heads_ms (pool_bb ram) H + orphans_ms (pool_bb ram) pins"
proof -
  let ?bb = "pool_bb ram"
  note c = cache_ok_parts [OF ok]
  have lo: "loc_ok ram (hp_block q) (hp_offset q)" and "\<exists>p. pins (pin_id q) = Some p \<and> hp_len q = pin_len p"
    using pins_okD(3) [OF c(5) q] by auto
  then obtain p where p: "pins (pin_id q) = Some p" "hp_len q = pin_len p" by auto
  have ida: "id_addr ?bb (pin_id q) = hp_block q * ?bb + hp_offset q"
    using id_addr_region_id(1) [OF c(1) lo] by (simp add: pin_id_def)
  show ?thesis
  proof (cases "pin_orphaned p")
    case True
    then have "orphan_map pins (pin_id q) = Some p" using p by (simp add: orphan_map_def)
    from owners_remove [OF orphan_map_finite [OF c(3)] this, of "\<lambda>i p. (id_addr ?bb i, pin_len p)"] ida p(2)
    show ?thesis by (simp add: orphans_ms_def)
  next
    case False
    with pins_okD(2) [OF c(5) p(1)] obtain hl where hl: "hl \<in> ran H" "loc_id hl = pin_id q" "hl_len hl = pin_len p" by blast
    then obtain d where d: "H d = Some hl" by (auto simp: ran_def)
    have "id_addr ?bb (loc_id hl) = fst (loc_reg ?bb hl)"
      using id_addr_region_id(1) [OF c(1)] c(4) hl(1) by (simp add: loc_id_def loc_reg_def)
    with hl ida p(2) have "loc_reg ?bb hl = (hp_block q * ?bb + hp_offset q, hp_len q)"
      by (simp add: loc_reg_def)
    with owners_remove [OF c(2) d, of "\<lambda>_. loc_reg ?bb"] show ?thesis by (simp add: heads_ms_def)
  qed
qed

lemma owner_disjoint:
  assumes ok: "cache_ok ram pins H (add_mset x R) ps"
    and y: "y \<in># heads_ms (pool_bb ram) H + orphans_ms (pool_bb ram) pins + R"
  shows "fst x + snd x \<le> fst y \<or> fst y + snd y \<le> fst x"
proof -
  obtain L where L: "pool_live ram L"
    "mset L = heads_ms (pool_bb ram) H + orphans_ms (pool_bb ram) pins + add_mset x R" using ok by (rule cache_okD)
  obtain M where "heads_ms (pool_bb ram) H + orphans_ms (pool_bb ram) pins + R = add_mset y M"
    using y by (metis insert_DiffM)
  with L(2) have "mset L = add_mset x (add_mset y M)" by simp
  from apart_pair [OF pool.live_apart [OF L(1)] this] show ?thesis .
qed

end
