(* ===== verification/Tier_World.thy ===== *)
theory Tier_World
  imports Tier_Books Head_Cache
begin

text \<open>
  The storage engine with its clients: open store handles and head pins. Every operation of
  \<^verbatim>\<open>TierManager\<close> is a step, in any order and interleaving; the invariant \<open>world_ok\<close> says that
  index, policies, RAM ownership, pins and staging buffers agree. It holds in every reachable
  state.
\<close>

section \<open>Ownership of RAM through the operations\<close>

definition heads_of :: "index \<Rightarrow> digest \<rightharpoonup> head_loc" where
  "heads_of ix d =
     (case index_lookup ix d of
        None \<Rightarrow> None | Some m \<Rightarrow> if head_is_resident (om_head m) then Some (om_head m) else None)"

lemma heads_of_dom: "dom (heads_of ix) = residents ix"
  by (auto simp: heads_of_def residents_def split: option.splits if_splits)

lemma heads_of_upd:
  "index_lookup ix' = (index_lookup ix)(d := None) \<Longrightarrow> heads_of ix' = (heads_of ix)(d := None)"
  "index_lookup ix' = (index_lookup ix)(d \<mapsto> m) \<Longrightarrow>
     heads_of ix' = (heads_of ix)(d := if head_is_resident (om_head m) then Some (om_head m) else None)"
  by (auto simp: heads_of_def fun_eq_iff)

abbreviation owned :: "tier_manager \<Rightarrow> (nat \<times> nat) multiset \<Rightarrow> head_pin list \<Rightarrow> bool" where
  "owned tm \<equiv> tm_cache tm (heads_of (tm_index tm))"

text \<open>Fields the eviction and removal paths never touch.\<close>

definition same_frame :: "tier_manager \<Rightarrow> tier_manager \<Rightarrow> bool" where
  "same_frame tm tm' \<longleftrightarrow>
     tm_tiers tm' = tm_tiers tm \<and> tm_write_pool tm' = tm_write_pool tm \<and> tm_max_objects tm' = tm_max_objects tm \<and>
     tm_ssd tm' = tm_ssd tm \<and> tm_hdd tm' = tm_hdd tm \<and> tm_store_seq tm' = tm_store_seq tm \<and>
     tm_etag_seq tm' = tm_etag_seq tm \<and> tm_any_ttl tm' = tm_any_ttl tm \<and> tm_mem tm' = tm_mem tm \<and>
     same_params (tm_ram tm') (tm_ram tm)"

lemma same_params_refl [simp]: "same_params p p"
  by (simp add: same_params_def)

lemma same_params_trans: "same_params c b \<Longrightarrow> same_params b a \<Longrightarrow> same_params c a"
  by (simp add: same_params_def)

lemma same_frame_trans: "same_frame a b \<Longrightarrow> same_frame b c \<Longrightarrow> same_frame a c"
  using same_params_trans by (auto simp: same_frame_def)

lemma retire_head_owned:
  assumes "tm_cache tm H R ps" and "H d = heads_of (tm_index tm) d"
  shows "tm_cache (retire_head tm d (index_lookup (tm_index tm) d)) (H(d := None)) R ps"
    and "same_frame tm (retire_head tm d (index_lookup (tm_index tm) d))"
proof -
  let ?old = "index_lookup (tm_index tm) d"
  have "tm_cache (retire_head tm d ?old) (H(d := None)) R ps \<and>
      same_params (tm_ram (retire_head tm d ?old)) (tm_ram tm)"
  proof (cases "H d")
    case None
    then have "retire_head tm d ?old = tm"
      using assms(2) by (auto simp: retire_head_def heads_of_def split: option.splits if_splits)
    with assms(1) None show ?thesis by (simp add: fun_upd_idem)
  next
    case (Some hl)
    then obtain m where m: "?old = Some m" "head_is_resident (om_head m)" "om_head m = hl"
      using assms(2) by (auto simp: heads_of_def split: option.splits if_splits)
    with free_head_cache [OF assms(1) Some] show ?thesis by (simp add: retire_head_def)
  qed
  then show "tm_cache (retire_head tm d ?old) (H(d := None)) R ps" "same_frame tm (retire_head tm d ?old)"
    by (simp_all add: same_frame_def)
qed

lemma drop_object_owned:
  assumes "owned tm R ps" and "index_ok (tm_index tm)"
  shows "owned (drop_object k tm d) R ps" and "same_frame tm (drop_object k tm d)"
proof -
  let ?old = "index_lookup (tm_index tm) d"
  have h: "heads_of (tm_index (drop_object k tm d)) = (heads_of (tm_index tm))(d := None)"
    by (rule heads_of_upd(1) [OF drop_object_index(2) [OF assms(2)]])
  note r = retire_head_owned [OF assms(1) refl, of d]
  show "owned (drop_object k tm d) R ps" "same_frame tm (drop_object k tm d)"
    using r unfolding h by (cases ?old; simp add: drop_object_def Let_def retire_head_def same_frame_def)+
qed

lemma evict_head_owned:
  assumes "owned tm R ps" and "index_ok (tm_index tm)"
  shows "owned (evict_head tm v) R ps" and "same_frame tm (evict_head tm v)"
proof -
  let ?old = "index_lookup (tm_index tm) v"
  have "owned (evict_head tm v) R ps \<and> same_frame tm (evict_head tm v)"
  proof (cases "v \<in> residents (tm_index tm)")
    case False
    then have "evict_head tm v = tm"
      by (auto simp: evict_head_def residents_def split: option.splits)
    with assms(1) show ?thesis by (simp add: same_frame_def)
  next
    case True
    then obtain m where m: "?old = Some m" "head_is_resident (om_head m)" by (auto simp: residents_def)
    have "heads_of (tm_index (evict_head tm v)) = (heads_of (tm_index tm))(v := None)"
      using evict_head_index(2) [OF assms(2), of v] m heads_of_upd [of "tm_index (evict_head tm v)" "tm_index tm" v]
      by (simp add: evicted_map_def split: if_splits)
    moreover have "heads_of (tm_index tm) v = Some (om_head m)" using m by (simp add: heads_of_def)
    note free_head_cache [OF assms(1) this]
    ultimately show ?thesis using m by (auto simp: evict_head_def Let_def same_frame_def)
  qed
  then show "owned (evict_head tm v) R ps" "same_frame tm (evict_head tm v)" by auto
qed

lemma owned_policy: "owned (tm\<lparr>tm_policy := p\<rparr>) R ps = owned tm R ps" "owned (tm\<lparr>tm_object_policy := p\<rparr>) R ps = owned tm R ps"
  by simp_all

lemma make_room_owned:
  "books tm \<Longrightarrow> owned tm R ps \<Longrightarrow> make_room tm n = (ro, tm') \<Longrightarrow>
     same_frame tm tm' \<and>
     owned tm' (case ro of None \<Rightarrow> R | Some r \<Rightarrow> add_mset (rg_reg (pool_bb (tm_ram tm)) r) R) ps \<and>
     (\<forall>r. ro = Some r \<longrightarrow> loc_ok (tm_ram tm) (rg_block r) (rg_offset r) \<and> rg_len r = n \<and>
        rg_data r = bp_base (pl_blocks (tm_ram tm)) + fst (rg_reg (pool_bb (tm_ram tm)) r))"
proof (induction tm n rule: make_room.induct)
  case (1 tm n)
  show ?case
  proof (cases "bufpool_allocate (tm_ram tm) n")
    case (Some x)
    then obtain r ram where r: "bufpool_allocate (tm_ram tm) n = Some (r, ram)" by (cases x) simp
    then have "ro = Some r" "tm' = tm\<lparr>tm_ram := ram\<rparr>" using "1.prems"(3) by (auto simp: make_room.simps [of tm])
    with alloc_cache [OF "1.prems"(2) r] show ?thesis by (simp add: same_frame_def)
  next
    case None
    obtain vo pol where e: "s3_evict (tm_policy tm) = (vo, pol)" by (cases "s3_evict (tm_policy tm)")
    show ?thesis
    proof (cases vo)
      case vo: None
      with None e "1.prems" show ?thesis by (auto simp: make_room.simps [of tm] same_frame_def)
    next
      case (Some v)
      let ?tm = "tm\<lparr>tm_policy := pol\<rparr>"
      have b: "books_but {v} {} ?tm" "v \<in> residents (tm_index ?tm)" and ix: "index_ok (tm_index ?tm)"
        using s3pol.evict_Some [of "tm_policy tm" v pol] "1.prems"(1) e Some by (auto simp: books_but_def)
      have o: "owned ?tm R ps" using "1.prems"(2) by simp
      note ev = evict_head_owned [OF o ix, of v]
      have run: "make_room (evict_head ?tm v) n = (ro, tm')"
        using "1.prems"(3) None e Some by (simp add: make_room.simps [of tm])
      have f: "same_frame tm (evict_head ?tm v)" using ev(2) by (simp add: same_frame_def)
      then have p: "pool_bb (tm_ram (evict_head ?tm v)) = pool_bb (tm_ram tm)"
        "bp_base (pl_blocks (tm_ram (evict_head ?tm v))) = bp_base (pl_blocks (tm_ram tm))"
        "loc_ok (tm_ram (evict_head ?tm v)) = loc_ok (tm_ram tm)"
        by (auto simp: same_frame_def same_params_def loc_ok_def fun_eq_iff)
      from "1.IH" [OF None e [symmetric] Some evict_head_books [OF b] ev(1) run, unfolded p] same_frame_trans [OF f]
      show ?thesis by blast
    qed
  qed
qed

lemma enforce_object_bound_owned:
  "books tm \<Longrightarrow> owned tm R ps \<Longrightarrow>
     owned (enforce_object_bound k tm) R ps \<and> same_frame tm (enforce_object_bound k tm)"
proof (induction k tm rule: enforce_object_bound.induct)
  case (1 k tm)
  show ?case
  proof (cases "tm_max_objects tm \<noteq> 0 \<and> index_size (tm_index tm) > tm_max_objects tm")
    case False
    with "1.prems" show ?thesis by (auto simp: enforce_object_bound.simps [of k tm] same_frame_def)
  next
    case over: True
    obtain vo pol where e: "s3_evict (tm_object_policy tm) = (vo, pol)" by (cases "s3_evict (tm_object_policy tm)")
    show ?thesis
    proof (cases vo)
      case None
      with over e "1.prems" show ?thesis by (simp add: enforce_object_bound.simps [of k tm] same_frame_def)
    next
      case (Some v)
      let ?tm = "tm\<lparr>tm_object_policy := pol\<rparr>"
      have b: "books_but {} {v} ?tm" and ix: "index_ok (tm_index ?tm)"
        using s3pol.evict_Some [of "tm_object_policy tm" v pol] "1.prems"(1) e Some by (auto simp: books_but_def)
      have o: "owned ?tm R ps" using "1.prems"(2) by simp
      note d = drop_object_owned [OF o ix, of k v]
      have f: "same_frame tm (drop_object k ?tm v)" using d(2) by (simp add: same_frame_def)
      have "enforce_object_bound k tm = enforce_object_bound k (drop_object k ?tm v)"
        using over e Some by (simp add: enforce_object_bound.simps [of k tm])
      with "1.IH" [OF over e [symmetric] Some drop_object_books [OF b subset_refl] d(1)] same_frame_trans [OF f]
      show ?thesis by simp
    qed
  qed
qed

section \<open>Staging buffers\<close>

text \<open>\<open>lent wp S\<close>: the chunks in \<open>S\<close> are out, all others are in the pool.\<close>

definition lent :: "block_pool \<Rightarrow> (nat \<times> nat) set \<Rightarrow> bool" where
  "lent wp S \<longleftrightarrow>
     blockpool_ok wp \<and> chunk_at wp ` set (bp_free wp) \<union> S = chunk_at wp ` {..<bp_num_blocks wp} \<and>
     chunk_at wp ` set (bp_free wp) \<inter> S = {}"

definition same_blocks :: "block_pool \<Rightarrow> block_pool \<Rightarrow> bool" where
  "same_blocks wp' wp \<longleftrightarrow>
     bp_base wp' = bp_base wp \<and> bp_block_bytes wp' = bp_block_bytes wp \<and> bp_num_blocks wp' = bp_num_blocks wp"

lemma same_blocks_chunks: "same_blocks wp' wp \<Longrightarrow> chunk_at wp' = chunk_at wp"
  by (simp add: same_blocks_def fun_eq_iff chunk_at_def blockpool_block_data_def)

lemma iopool_same_blocks:
  "iopool_acquire wp = Some (c, wp') \<Longrightarrow> same_blocks wp' wp" "same_blocks (iopool_release wp c) wp"
  by (auto simp: iopool_acquire_def blockpool_acquire_def iopool_release_def blockpool_release_def same_blocks_def
      split: option.splits if_splits)

lemma lent_acquire:
  assumes "lent wp S" and "iopool_acquire wp = Some (c, wp')"
  shows "lent wp' (insert c S)" and "c \<notin> S" and "snd c = bp_block_bytes wp"
    and "{fst c ..< fst c + snd c} \<subseteq> {bp_base wp ..< bp_base wp + bp_num_blocks wp * bp_block_bytes wp}"
proof -
  have ok: "blockpool_ok wp" using assms(1) by (simp add: lent_def)
  note t = iobufs.take_Some [OF ok assms(2)]
  show "c \<notin> S" using t assms(1) by (auto simp: lent_def)
  then show "lent wp' (insert c S)" using t assms(1) by (auto simp: lent_def)
  obtain i where i: "i < bp_num_blocks wp" "c = chunk_at wp i" using t iobufs.stock_whole [OF ok] by auto
  show "snd c = bp_block_bytes wp" using i(2) by (simp add: chunk_at_def)
  have "Suc i * bp_block_bytes wp \<le> bp_num_blocks wp * bp_block_bytes wp" using i(1) by (intro mult_le_mono1) simp
  then show "{fst c ..< fst c + snd c} \<subseteq> {bp_base wp ..< bp_base wp + bp_num_blocks wp * bp_block_bytes wp}"
    using i(2) by (auto simp: chunk_at_def blockpool_block_data_def)
qed

lemma lent_release:
  assumes "lent wp (insert c S)" and "c \<notin> S"
  shows "lent (iopool_release wp c) S"
proof -
  have ok: "blockpool_ok wp" using assms(1) by (simp add: lent_def)
  have "c \<in> chunk_at wp ` {..<bp_num_blocks wp}" "c \<notin> chunk_at wp ` set (bp_free wp)"
    using assms(1) by (auto simp: lent_def)
  from iobufs.give [OF ok this] assms show ?thesis by (auto simp: lent_def)
qed

section \<open>Worlds and steps\<close>

type_synonym world = "tier_manager \<times> store_handle list \<times> head_pin list"

primrec handles_ms :: "nat \<Rightarrow> store_handle list \<Rightarrow> (nat \<times> nat) multiset" where
  "handles_ms bb [] = {#}"
| "handles_ms bb (h # hs) =
     (case sh_head h of None \<Rightarrow> {#} | Some r \<Rightarrow> {#rg_reg bb r#}) + handles_ms bb hs"

lemma handles_ms_append [simp]: "handles_ms bb (xs @ ys) = handles_ms bb xs + handles_ms bb ys"
  by (induction xs) simp_all

text \<open>
  One step is one operation of one client. The kernel's answers \<open>k\<close> and the clock \<open>now\<close> may differ
  at every step. A pin is held by a connection, so fewer than \<^term>\<open>2 ^ 32\<close> are out at a time;
  the 64-bit counters of stores and commits do not wrap.
\<close>

inductive tm_step :: "world \<Rightarrow> world \<Rightarrow> bool" where
  begin_ok: "begin_store k tm d sz = (tm', Inr h) \<Longrightarrow> tm_store_seq tm + 1 < 2 ^ 64 \<Longrightarrow> tm_step (tm, hs, ps) (tm', h # hs, ps)"
| begin_fails: "begin_store k tm d sz = (tm', Inl e) \<Longrightarrow> tm_store_seq tm + 1 < 2 ^ 64 \<Longrightarrow> tm_step (tm, hs, ps) (tm', hs, ps)"
| writes: "handle_write k tm h chunk = Some (tm', h', res) \<Longrightarrow>
     tm_step (tm, xs @ h # ys, ps) (tm', xs @ h' # ys, ps)"
| commit_ok: "commit k now tm h flags expiry cas = (tm', h', Inr u) \<Longrightarrow> tm_etag_seq tm + 1 < 2 ^ 64 \<Longrightarrow>
     tm_step (tm, xs @ h # ys, ps) (tm', xs @ ys, ps)"
| commit_fails: "commit k now tm h flags expiry cas = (tm', h', Inl e) \<Longrightarrow>
     tm_step (tm, xs @ h # ys, ps) (tm', xs @ h' # ys, ps)"
| aborts: "abort_uncommitted k tm h = (tm', h') \<Longrightarrow> tm_step (tm, xs @ h # ys, ps) (tm', xs @ ys, ps)"
| pin_hit: "pin_head tm d = (tm', Some q) \<Longrightarrow> length ps + 1 < 2 ^ 32 \<Longrightarrow> tm_step (tm, hs, ps) (tm', hs, q # ps)"
| pin_miss: "pin_head tm d = (tm', None) \<Longrightarrow> tm_step (tm, hs, ps) (tm', hs, ps)"
| unpins: "tm_step (tm, hs, xs @ q # ys) (unpin_head tm q, hs, xs @ ys)"
| snap_pinned: "open_snapshot k now tm d = (tm', Some s) \<Longrightarrow> hp_valid (sn_pin s) \<Longrightarrow> length ps + 1 < 2 ^ 32 \<Longrightarrow>
     tm_step (tm, hs, ps) (tm', hs, sn_pin s # ps)"
| snap_plain: "open_snapshot k now tm d = (tm', so) \<Longrightarrow> (\<And>s. so = Some s \<Longrightarrow> \<not> hp_valid (sn_pin s)) \<Longrightarrow>
     tm_step (tm, hs, ps) (tm', hs, ps)"
| removes: "tm_remove k tm d = (tm', b) \<Longrightarrow> tm_step (tm, hs, ps) (tm', hs, ps)"
| touches: "tm_step (tm, hs, ps) (tm_touch tm d, hs, ps)"
| ttl: "touch_ttl tm d expiry = (tm', b) \<Longrightarrow> tm_step (tm, hs, ps) (tm', hs, ps)"
| reaps: "reap_expired k now tm = (tm', n) \<Longrightarrow> tm_step (tm, hs, ps) (tm', hs, ps)"

inductive_cases tm_stepE: "tm_step (tm, hs, ps) w'"

section \<open>The invariant\<close>

definition handle_ok :: "tier_manager \<Rightarrow> store_handle \<Rightarrow> bool" where
  "handle_ok tm h \<longleftrightarrow>
     \<not> sh_committed h \<and> stage_fits h \<and>
     stage_span h \<subseteq> {bp_base (tm_write_pool tm) ..<
        bp_base (tm_write_pool tm) + bp_num_blocks (tm_write_pool tm) * bp_block_bytes (tm_write_pool tm)} \<and>
     (\<forall>r. sh_head h = Some r \<longrightarrow> loc_ok (tm_ram tm) (rg_block r) (rg_offset r) \<and>
        rg_data r = bp_base (pl_blocks (tm_ram tm)) + fst (rg_reg (pool_bb (tm_ram tm)) r))"

definition pools_ok :: "tier_manager \<Rightarrow> bool" where
  "pools_ok tm \<longleftrightarrow>
     kDeviceBlock dvd bp_block_bytes (tm_write_pool tm) \<and>
     bp_block_bytes (tm_write_pool tm) + kDeviceBlock \<le> 2 ^ 64 \<and>
     {bp_base (pl_blocks (tm_ram tm)) ..< bp_base (pl_blocks (tm_ram tm)) + pool_capacity (tm_ram tm)} \<inter>
     {bp_base (tm_write_pool tm) ..<
        bp_base (tm_write_pool tm) + bp_num_blocks (tm_write_pool tm) * bp_block_bytes (tm_write_pool tm)} = {} \<and>
     bp_num_blocks (pl_blocks (tm_ram tm)) < kNone"

definition bounded :: "tier_manager \<Rightarrow> bool" where
  "bounded tm \<longleftrightarrow> (tm_max_objects tm \<noteq> 0 \<longrightarrow> index_size (tm_index tm) \<le> tm_max_objects tm)"

fun world_ok :: "world \<Rightarrow> bool" where
  "world_ok (tm, hs, ps) \<longleftrightarrow>
     books tm \<and> bounded tm \<and> pools_ok tm \<and>
     owned tm (handles_ms (pool_bb (tm_ram tm)) hs) ps \<and>
     lent (tm_write_pool tm) (set (map sh_stage hs)) \<and> distinct (map sh_stage hs) \<and>
     (\<forall>h \<in> set hs. handle_ok tm h)"

lemma handle_ok_cong:
  assumes "same_params (tm_ram tm') (tm_ram tm)" and "same_blocks (tm_write_pool tm') (tm_write_pool tm)"
  shows "handle_ok tm' h = handle_ok tm h" and "pools_ok tm' = pools_ok tm"
  using assms by (simp_all add: handle_ok_def pools_ok_def same_params_def same_blocks_def loc_ok_def pool_capacity_def)

lemma same_blocks_refl [simp]: "same_blocks wp wp"
  by (simp add: same_blocks_def)

text \<open>Operations that leave handles, staging pool and RAM parameters in place.\<close>

lemma world_ok_frame:
  assumes "world_ok (tm, hs, ps)" and "books tm'" and "bounded tm'" and "tm_write_pool tm' = tm_write_pool tm"
    and "same_params (tm_ram tm') (tm_ram tm)" and "owned tm' (handles_ms (pool_bb (tm_ram tm)) hs) ps'"
  shows "world_ok (tm', hs, ps')"
proof -
  have "pool_bb (tm_ram tm') = pool_bb (tm_ram tm)" using assms(5) by (simp add: same_params_def)
  with assms handle_ok_cong [of tm' tm] show ?thesis by simp
qed

lemma bounded_mono:
  assumes "bounded tm" and "books tm" and "books tm'" and "tm_max_objects tm' = tm_max_objects tm"
    and "dom (index_lookup (tm_index tm')) \<subseteq> dom (index_lookup (tm_index tm))"
  shows "bounded tm'"
proof -
  have ix: "index_ok (tm_index tm)" "index_ok (tm_index tm')" using assms(2,3) by (auto simp: books_but_def)
  have "index_size (tm_index tm') \<le> index_size (tm_index tm)"
    unfolding index_size_card(1) [OF ix(1)] index_size_card(1) [OF ix(2)]
    by (rule card_mono [OF index_size_card(2) [OF ix(1)] assms(5)])
  with assms(1,4) show ?thesis by (auto simp: bounded_def)
qed

lemma books_upd [simp]:
  "books_but V W (tm\<lparr>tm_fs := fs\<rparr>) = books_but V W tm" "books_but V W (tm\<lparr>tm_mem := mem\<rparr>) = books_but V W tm"
  "books_but V W (tm\<lparr>tm_store_seq := n\<rparr>) = books_but V W tm" "books_but V W (tm\<lparr>tm_write_pool := wp\<rparr>) = books_but V W tm"
  "books_but V W (tm\<lparr>tm_ram := ram\<rparr>) = books_but V W tm" "books_but V W (tm\<lparr>tm_pins := pins\<rparr>) = books_but V W tm"
  by (simp_all add: books_but_def)

lemma world_ok_same_books:
  assumes "world_ok (tm, hs, ps)" and "same_books tm tm'"
  shows "world_ok (tm', hs, ps)"
proof (rule world_ok_frame [OF assms(1)])
  show "books tm'" using assms books_frame [of tm' tm] by (simp add: same_books_def)
qed (use assms in \<open>simp_all add: same_books_def bounded_def\<close>)

lemma world_ok_handle:
  assumes "world_ok (tm, xs @ h # ys, ps)" and "same_books tm tm'" and "same_handle h h'" and "stage_fits h'"
  shows "world_ok (tm', xs @ h' # ys, ps)"
proof -
  have "world_ok (tm, xs @ h' # ys, ps)"
    using assms(1,3,4) by (auto simp: same_handle_def handle_ok_def stage_span_def)
  then show ?thesis by (rule world_ok_same_books [OF _ assms(2)])
qed

lemma unlink_scratch_world: "world_ok (unlink_scratch k tm d l sfx, hs, ps) = world_ok (tm, hs, ps)"
proof -
  have "same_books tm (unlink_scratch k tm d l sfx)" "same_books (unlink_scratch k tm d l sfx) tm"
    by (simp_all add: same_books_def)
  then show ?thesis using world_ok_same_books by blast
qed

lemma world_ok_seq [simp]:
  "world_ok (tm\<lparr>tm_store_seq := n\<rparr>, hs, ps) = world_ok (tm, hs, ps)"
  "world_ok (tm\<lparr>tm_fs := fs\<rparr>, hs, ps) = world_ok (tm, hs, ps)"
  by (simp_all add: bounded_def pools_ok_def handle_ok_def)

text \<open>Beginning a store.\<close>

lemma reserve_store_world:
  assumes w: "world_ok (tm, hs, ps)" and r: "reserve_store k tm d sz layout sfx sfd hfd = (tm', res)"
  shows "case res of Inl e \<Rightarrow> world_ok (tm', hs, ps) | Inr h \<Rightarrow> world_ok (tm', h # hs, ps)"
proof (cases "iopool_acquire (tm_write_pool tm)")
  case None
  with r have "res = err would_block ''write staging buffers exhausted''" "tm' = unlink_scratch k tm d layout sfx"
    by (auto simp: reserve_store_def)
  with w show ?thesis by (simp add: unlink_scratch_world del: world_ok.simps)
next
  case (Some x)
  then obtain c wp where a: "iopool_acquire (tm_write_pool tm) = Some (c, wp)" by (cases x) simp
  let ?tm1 = "tm\<lparr>tm_write_pool := wp\<rparr>" and ?S = "set (map sh_stage hs)"
  let ?R = "handles_ms (pool_bb (tm_ram tm)) hs" and ?hl = "min sz (ram_head (tm_tiers (tm\<lparr>tm_write_pool := wp\<rparr>)))"
  have bk: "books ?tm1" and ow: "owned ?tm1 ?R ps" using w by simp_all
  have ln: "lent (tm_write_pool tm) ?S" and ds: "distinct (map sh_stage hs)" and pk: "pools_ok tm"
    and hk: "\<forall>h \<in> set hs. handle_ok tm h" and bd: "bounded tm" using w by simp_all
  note la = lent_acquire [OF ln a] and sb = iopool_same_blocks(1) [OF a]
  obtain ho tm2 where m: "(if 0 < ?hl then make_room ?tm1 (u32 ?hl) else (None, ?tm1)) = (ho, tm2)" by (metis surj_pair)
  have eq: "reserve_store k tm d sz layout sfx sfd hfd =
      (if 0 < ?hl \<and> ol_ssd_bytes layout = 0 \<and> ho = None
       then (tm2\<lparr>tm_write_pool := iopool_release (tm_write_pool tm2) c\<rparr>, err would_block ''no RAM for RAM-only head'')
       else (tm2, Inr \<lparr>sh_digest = d, sh_layout = layout, sh_ssd = sfd, sh_hdd = hfd, sh_head = ho, sh_suffix = sfx,
         sh_stage = c, sh_stage_fill = 0, sh_flushed = 0, sh_off = 0, sh_committed = False\<rparr>))"
    unfolding reserve_store_def a Let_def option.case prod.case m by simp
  have m2: "same_frame ?tm1 tm2 \<and> books tm2 \<and>
      owned tm2 (case ho of None \<Rightarrow> ?R | Some r \<Rightarrow> add_mset (rg_reg (pool_bb (tm_ram tm)) r) ?R) ps \<and>
      (\<forall>r. ho = Some r \<longrightarrow> loc_ok (tm_ram tm) (rg_block r) (rg_offset r) \<and>
         rg_data r = bp_base (pl_blocks (tm_ram tm)) + fst (rg_reg (pool_bb (tm_ram tm)) r)) \<and>
      dom (index_lookup (tm_index tm2)) \<subseteq> dom (index_lookup (tm_index tm))"
  proof (cases "0 < ?hl")
    case True
    with m have m': "make_room ?tm1 (u32 ?hl) = (ho, tm2)" by simp
    from make_room_books [OF bk m'] make_room_owned [OF bk ow m'] show ?thesis by (cases ho) auto
  next
    case False
    with m have "ho = None" "tm2 = ?tm1" by (auto split: if_splits)
    with bk ow show ?thesis by (simp add: same_frame_def)
  qed
  then have sp: "same_params (tm_ram tm2) (tm_ram tm)" and wp2: "tm_write_pool tm2 = wp" and bk2: "books tm2"
    by (simp_all add: same_frame_def)
  have bb: "pool_bb (tm_ram tm2) = pool_bb (tm_ram tm)" using sp by (simp add: same_params_def)
  have bd2: "bounded tm2" using bounded_mono [OF bd _ bk2] w m2 by (simp add: same_frame_def)
  have cg: "handle_ok tm2 h = handle_ok tm h" "pools_ok tm2 = pools_ok tm" for h
    by (rule handle_ok_cong [OF sp], simp add: wp2 sb)+
  show ?thesis
  proof (cases "0 < ?hl \<and> ol_ssd_bytes layout = 0 \<and> ho = None")
    case True
    then have e: "res = err would_block ''no RAM for RAM-only head''"
      "tm' = tm2\<lparr>tm_write_pool := iopool_release wp c\<rparr>"
      using r wp2 unfolding eq by auto
    have lr: "lent (iopool_release wp c) ?S" by (rule lent_release [OF la(1,2)])
    have sb': "same_blocks (iopool_release wp c) (tm_write_pool tm)"
      using sb iopool_same_blocks(2) [of wp c] by (simp add: same_blocks_def)
    have cg': "handle_ok tm' h = handle_ok tm h" "pools_ok tm' = pools_ok tm" for h
      by (rule handle_ok_cong, simp_all add: e sp sb')+
    show ?thesis using m2 True lr ds hk pk bd2 cg' bb by (simp add: e bounded_def)
  next
    case False
    then obtain h where h: "res = Inr h" "tm' = tm2" "sh_head h = ho" "sh_stage h = c" "sh_stage_fill h = 0" "\<not> sh_committed h"
      using r unfolding eq by auto
    have hh: "handle_ok tm h"
      using la(3,4) pk m2 ln h
      by (auto simp: handle_ok_def stage_fits_def stage_span_def pools_ok_def lent_def blockpool_ok_def)
    have "owned tm2 (handles_ms (pool_bb (tm_ram tm2)) (h # hs)) ps"
      using m2 by (cases ho) (simp_all add: h bb)
    with la ds hk hh bd2 bk2 pk cg h wp2 show ?thesis by simp
  qed
qed

lemma begin_store_cases:
  assumes "begin_store k tm d sz = (tm', res)"
  obtains (files) e fs where "tm' = tm\<lparr>tm_store_seq := u64 (tm_store_seq tm + 1), tm_fs := fs\<rparr>" "res = Inl e" "code e = io_error"
  | (locked) fs sfd hfd where "reserve_store k (tm\<lparr>tm_store_seq := u64 (tm_store_seq tm + 1), tm_fs := fs\<rparr>) d sz
      (compute_layout sz (tm_tiers tm) (three_layer tm)) (''.tmp.'' @ dec_str (tm_store_seq tm)) sfd hfd = (tm', res)"
proof -
  define l where "l = compute_layout sz (tm_tiers tm) (three_layer tm)"
  define sfx where "sfx = ''.tmp.'' @ dec_str (tm_store_seq tm)"
  define tm1 where "tm1 = tm\<lparr>tm_store_seq := u64 (tm_store_seq tm + 1)\<rparr>"
  obtain fs1 r1 where o1: "(if 0 < ol_ssd_bytes l then open_object k (tm_ssd tm1) d (ol_ssd_bytes l) True sfx (tm_fs tm1)
      else (tm_fs tm1, Inr [])) = (fs1, r1)" by (metis surj_pair)
  obtain fs2 r2 where o2: "open_object k (the (tm_hdd tm1)) d (ol_hdd_bytes l) True sfx fs1 = (fs2, r2)" by (metis surj_pair)
  have e: "begin_store k tm d sz =
      (case r1 of Inl e \<Rightarrow> (tm1\<lparr>tm_fs := fs1\<rparr>, Inl e)
       | Inr sfd \<Rightarrow>
           if 0 < ol_hdd_bytes l
           then (case r2 of Inl e \<Rightarrow> (tm1\<lparr>tm_fs := fs2\<rparr>, Inl e)
                 | Inr h \<Rightarrow> reserve_store k (tm1\<lparr>tm_fs := fs2\<rparr>) d sz l sfx sfd (Some h))
           else reserve_store k (tm1\<lparr>tm_fs := fs1\<rparr>) d sz l sfx sfd None)"
    unfolding begin_store_def Let_def l_def [symmetric] sfx_def [symmetric] tm1_def [symmetric] o1
    by (cases r1) (simp_all add: o2)
  have err: "r1 = Inl e \<Longrightarrow> code e = io_error" "r2 = Inl e \<Longrightarrow> code e = io_error" for e
    using o1 o2 by (auto split: if_splits dest: open_object_error)
  show thesis
  proof (cases r1)
    case (Inl e')
    with assms e show ?thesis by (intro files [of fs1 e' ]) (auto simp: tm1_def err)
  next
    case r1: (Inr sfd)
    show ?thesis
    proof (cases "0 < ol_hdd_bytes l")
      case False
      with assms e r1 show ?thesis by (intro locked [of fs1 sfd None]) (simp add: tm1_def l_def sfx_def)
    next
      case True
      show ?thesis
      proof (cases r2)
        case (Inl e')
        with True assms e r1 show ?thesis by (intro files [of fs2 e']) (auto simp: tm1_def err)
      next
        case (Inr hfd)
        with True assms e r1 show ?thesis by (intro locked [of fs2 sfd "Some hfd"]) (simp add: tm1_def l_def sfx_def)
      qed
    qed
  qed
qed

lemma begin_store_world:
  assumes "world_ok (tm, hs, ps)" and "begin_store k tm d sz = (tm', res)"
  shows "case res of Inl e \<Rightarrow> world_ok (tm', hs, ps) | Inr h \<Rightarrow> world_ok (tm', h # hs, ps)"
proof (cases rule: begin_store_cases [OF assms(2)])
  case (1 e fs)
  with assms(1) show ?thesis by (simp del: world_ok.simps)
next
  case (2 fs sfd hfd)
  have "world_ok (tm\<lparr>tm_store_seq := u64 (tm_store_seq tm + 1), tm_fs := fs\<rparr>, hs, ps)"
    using assms(1) by (simp del: world_ok.simps)
  from reserve_store_world [OF this 2] show ?thesis .
qed

text \<open>Committing.\<close>

lemma handle_head_not_kNone:
  "world_ok (tm, xs @ h # ys, ps) \<Longrightarrow> sh_head h = Some r \<Longrightarrow> rg_block r \<noteq> kNone"
  by (auto simp: handle_ok_def pools_ok_def loc_ok_def)

lemma install_object_world:
  assumes w: "world_ok (tm, xs @ h # ys, ps)"
    and i: "install_object k tm h (index_lookup (tm_index tm) (sh_digest h)) flags expiry = (tm', h')"
  shows "world_ok (tm', xs @ ys, ps)"
proof -
  let ?d = "sh_digest h" and ?bb = "pool_bb (tm_ram tm)" and ?R = "handles_ms (pool_bb (tm_ram tm)) (xs @ ys)"
  let ?old = "index_lookup (tm_index tm) ?d" and ?S = "set (map sh_stage (xs @ ys))"
  define tm1 where "tm1 = retire_head tm ?d ?old"
  define tm2 where "tm2 = swap_in tm h ?old flags expiry"
  have bk: "books tm" and bd: "bounded tm" and pk: "pools_ok tm" and hk: "\<forall>g \<in> set (xs @ h # ys). handle_ok tm g"
    and ow: "owned tm (handles_ms ?bb (xs @ h # ys)) ps" and ds: "distinct (map sh_stage (xs @ h # ys))"
    and ln: "lent (tm_write_pool tm) (set (map sh_stage (xs @ h # ys)))" using w by simp_all
  note kn = handle_head_not_kNone [OF w]
  note sw = swap_in_books [OF bk, of h flags expiry, folded tm2_def, OF kn]
  note r = retire_head_owned [OF ow refl, of ?d, folded tm1_def]
  have sp: "same_params (tm_ram tm2) (tm_ram tm)" and bb1: "pool_bb (tm_ram tm1) = ?bb"
    using r(2) by (simp_all add: tm2_def swap_in_sel tm1_def same_frame_def same_params_def)
  have own2: "owned tm2 ?R ps"
  proof (cases "sh_head h")
    case None
    have "heads_of (tm_index tm2) = (heads_of (tm_index tm))(?d := None)"
      using heads_of_upd(2) [OF sw(2)] None by (simp add: new_meta_def region_loc_def)
    with r(1) None show ?thesis by (simp add: tm2_def swap_in_sel tm1_def)
  next
    case (Some rg)
    have lo: "loc_ok (tm_ram tm1) (rg_block rg) (rg_offset rg)"
      using hk Some r(2) same_params_loc(1) [of "tm_ram tm1" "tm_ram tm"] by (simp add: handle_ok_def same_frame_def)
    have "tm_cache tm1 ((heads_of (tm_index tm))(?d := None)) (add_mset (rg_reg (pool_bb (tm_ram tm1)) rg) ?R) ps"
      using r(1) Some by (simp add: bb1)
    from adopt_cache [OF this lo, of ?d]
    have "tm_cache tm1 ((heads_of (tm_index tm))(?d \<mapsto> region_loc (Some rg))) ?R ps" by simp
    moreover have "heads_of (tm_index tm2) = (heads_of (tm_index tm))(?d \<mapsto> region_loc (Some rg))"
      using heads_of_upd(2) [OF sw(2)] Some kn by (simp add: new_meta_def region_loc_resident)
    ultimately show ?thesis by (simp add: tm2_def swap_in_sel tm1_def)
  qed
  note en = enforce_object_bound_books [OF sw(1), of k] enforce_object_bound_owned [OF sw(1) own2, of k]
  have tm': "tm' = enforce_object_bound k tm2" using i by (simp add: install_object_def tm2_def)
  have wp': "tm_write_pool tm' = iopool_release (tm_write_pool tm) (sh_stage h)"
    and sp': "same_params (tm_ram tm') (tm_ram tm)" and mx: "tm_max_objects tm' = tm_max_objects tm2"
    using en sp by (auto simp: tm' same_frame_def tm2_def swap_in_sel intro: same_params_trans)
  have cg: "handle_ok tm' g = handle_ok tm g" "pools_ok tm' = pools_ok tm" for g
    by (rule handle_ok_cong [OF sp'], simp add: wp' iopool_same_blocks)+
  have bb': "pool_bb (tm_ram tm') = ?bb" using sp' by (simp add: same_params_def)
  have "lent (tm_write_pool tm') ?S"
    unfolding wp' using ln ds by (intro lent_release) auto
  moreover have "bounded tm'" using en(1) by (simp add: bounded_def tm' mx [unfolded tm'])
  ultimately show ?thesis using en hk pk ds by (simp add: tm' cg [unfolded tm'] bb' [unfolded tm'])
qed

lemma publish_object_world:
  assumes "world_ok (tm, xs @ h # ys, ps)" and "publish_object k now tm h flags expiry cas = (tm', h', res)"
  shows "case res of Inl e \<Rightarrow> world_ok (tm', xs @ h' # ys, ps) | Inr u \<Rightarrow> world_ok (tm', xs @ ys, ps)"
proof -
  let ?old = "index_lookup (tm_index tm) (sh_digest h)"
  obtain tm1 r1 where p: "publish_tiers k tm h = (tm1, r1)" by (metis surj_pair)
  have sb: "same_books tm tm1" using publish_tiers_same [OF p] by simp
  note w1 = world_ok_same_books [OF assms(1) sb]
  have ix: "tm_index tm1 = tm_index tm" using sb by (simp add: same_books_def)
  show ?thesis
  proof (cases "cas_fails now cas ?old")
    case True
    with assms show ?thesis by (auto simp: publish_object_def Let_def simp del: world_ok.simps)
  next
    case False
    show ?thesis
    proof (cases r1)
      case (Inl e)
      with False assms(2) p w1 show ?thesis by (auto simp: publish_object_def Let_def simp del: world_ok.simps)
    next
      case (Inr u)
      obtain tm2 h2 where i: "install_object k tm1 h ?old flags expiry = (tm2, h2)" by (metis surj_pair)
      have "res = Inr ()" "tm' = tm2" using False assms(2) p Inr i by (auto simp: publish_object_def Let_def)
      with install_object_world [OF w1, of k flags expiry tm2 h2] i ix show ?thesis by (simp del: world_ok.simps)
    qed
  qed
qed

lemma commit_world:
  assumes w: "world_ok (tm, xs @ h # ys, ps)" and c: "commit k now tm h flags expiry cas = (tm', h', res)"
  shows "case res of Inl e \<Rightarrow> world_ok (tm', xs @ h' # ys, ps) | Inr u \<Rightarrow> world_ok (tm', xs @ ys, ps)"
proof (cases "sh_off h \<noteq> ol_size (sh_layout h)")
  case True
  with w c show ?thesis by (auto simp: commit_def simp del: world_ok.simps)
next
  case False
  obtain tm1 h1 r1 where f: "flush_tail k tm h = (tm1, h1, r1)" by (metis prod_cases3)
  have "stage_fits h" using w by (simp add: handle_ok_def)
  from flush_tail_same [OF f this] have w1: "world_ok (tm1, xs @ h1 # ys, ps)"
    using world_ok_handle [OF w] by blast
  show ?thesis
  proof (cases r1)
    case (Inl e)
    with False c f w1 show ?thesis by (auto simp: commit_def simp del: world_ok.simps)
  next
    case (Inr u)
    with False c f have "publish_object k now tm1 h1 flags expiry cas = (tm', h', res)" by (simp add: commit_def)
    from publish_object_world [OF w1 this] show ?thesis .
  qed
qed

text \<open>Aborting a handle gives back its head, its staging buffer and its scratch files.\<close>

lemma abort_world:
  assumes w: "world_ok (tm, xs @ h # ys, ps)" and a: "abort_uncommitted k tm h = (tm', h')"
  shows "world_ok (tm', xs @ ys, ps)"
proof -
  let ?bb = "pool_bb (tm_ram tm)" and ?S = "set (map sh_stage (xs @ ys))" and ?R = "handles_ms (pool_bb (tm_ram tm)) (xs @ ys)"
  have bk: "books tm" and bd: "bounded tm" and pk: "pools_ok tm" and hk: "\<forall>g \<in> set (xs @ h # ys). handle_ok tm g"
    and ow: "owned tm (handles_ms ?bb (xs @ h # ys)) ps" and ds: "distinct (map sh_stage (xs @ h # ys))"
    and ln: "lent (tm_write_pool tm) (set (map sh_stage (xs @ h # ys)))" using w by simp_all
  define ram where "ram = (case sh_head h of None \<Rightarrow> tm_ram tm
    | Some r \<Rightarrow> bufpool_deallocate (tm_ram tm) (rg_block r) (rg_offset r) (rg_len r))"
  define wp where "wp = iopool_release (tm_write_pool tm) (sh_stage h)"
  let ?tm1 = "tm\<lparr>tm_ram := ram, tm_write_pool := wp\<rparr>"
  have "\<not> sh_committed h" "snd (sh_stage h) \<noteq> 0" using hk by (auto simp: handle_ok_def stage_fits_def)
  with a have tm': "tm' = unlink_scratch k ?tm1 (sh_digest h) (sh_layout h) (sh_suffix h)"
    by (auto simp: abort_uncommitted_def Let_def ram_def wp_def split: option.splits)
  have rm: "cache_ok ram (tm_pins tm) (heads_of (tm_index tm)) ?R ps \<and> same_params ram (tm_ram tm)"
  proof (cases "sh_head h")
    case None
    with ow show ?thesis by (simp add: ram_def)
  next
    case (Some r)
    have "loc_ok (tm_ram tm) (rg_block r) (rg_offset r)" using hk Some by (simp add: handle_ok_def)
    with abort_cache [of "tm_ram tm" "tm_pins tm" _ r ?R ps] ow Some show ?thesis by (simp add: ram_def)
  qed
  have bb: "pool_bb ram = ?bb" using rm by (simp add: same_params_def)
  have cg: "handle_ok ?tm1 g = handle_ok tm g" "pools_ok ?tm1 = pools_ok tm" for g
    by (rule handle_ok_cong, use rm in \<open>simp_all add: wp_def iopool_same_blocks\<close>)+
  have "lent wp ?S" unfolding wp_def using ln ds by (intro lent_release) auto
  with rm bk bd pk hk ds cg bb have "world_ok (?tm1, xs @ ys, ps)" by (simp add: bounded_def)
  then show ?thesis by (simp add: tm' unlink_scratch_world del: world_ok.simps)
qed

text \<open>Touching the policies.\<close>

lemma touch_books:
  "books tm \<Longrightarrow> books (tm\<lparr>tm_object_policy := s3_touch (tm_object_policy tm) d\<rparr>)"
  "books tm \<Longrightarrow> books (tm\<lparr>tm_policy := s3_touch (tm_policy tm) d\<rparr>)"
  using policy_laws(3,4) by (simp_all add: books_but_def)

lemma touch_world:
  "world_ok (tm, hs, ps) \<Longrightarrow> world_ok (tm\<lparr>tm_object_policy := s3_touch (tm_object_policy tm) d\<rparr>, hs, ps)"
  "world_ok (tm, hs, ps) \<Longrightarrow> world_ok (tm\<lparr>tm_policy := s3_touch (tm_policy tm) d\<rparr>, hs, ps)"
proof -
  assume w: "world_ok (tm, hs, ps)"
  show "world_ok (tm\<lparr>tm_object_policy := s3_touch (tm_object_policy tm) d\<rparr>, hs, ps)"
    by (rule world_ok_frame [OF w]) (use w in \<open>simp_all add: touch_books bounded_def\<close>)
  show "world_ok (tm\<lparr>tm_policy := s3_touch (tm_policy tm) d\<rparr>, hs, ps)"
    by (rule world_ok_frame [OF w]) (use w in \<open>simp_all add: touch_books bounded_def\<close>)
qed

lemma take_pin_world:
  assumes w: "world_ok (tm, hs, ps)" and m: "index_lookup (tm_index tm) d = Some m" "head_is_resident (om_head m)"
    and len: "length ps + 1 < 2 ^ 32"
  shows "world_ok (take_pin tm (om_head m), hs, loc_pin (om_head m) # ps)"
proof -
  have "heads_of (tm_index tm) d = Some (om_head m)" using m by (simp add: heads_of_def)
  then have "om_head m \<in> ran (heads_of (tm_index tm))" by (rule ranI)
  from take_pin_cache [OF _ this len] w
  have "tm_cache (take_pin tm (om_head m)) (heads_of (tm_index tm)) (handles_ms (pool_bb (tm_ram tm)) hs) (loc_pin (om_head m) # ps)"
    by simp
  with w show ?thesis by (intro world_ok_frame [OF w]) (simp_all add: take_pin_def Let_def bounded_def)
qed

lemma pin_head_world:
  assumes w: "world_ok (tm, hs, ps)" and p: "pin_head tm d = (tm', qo)"
  shows "qo = None \<Longrightarrow> world_ok (tm', hs, ps)"
    and "qo = Some q \<Longrightarrow> length ps + 1 < 2 ^ 32 \<Longrightarrow> world_ok (tm', hs, q # ps)"
proof -
  let ?tm1 = "tm\<lparr>tm_object_policy := s3_touch (tm_object_policy tm) d\<rparr>"
  let ?tm2 = "?tm1\<lparr>tm_policy := s3_touch (tm_policy tm) d\<rparr>"
  have w1: "world_ok (?tm1, hs, ps)" by (rule touch_world(1) [OF w])
  have w2: "world_ok (?tm2, hs, ps)" using touch_world(2) [OF w1, of d] by (simp del: world_ok.simps)
  show "world_ok (tm', hs, ps)" if "qo = None"
    using that p w w1 by (auto simp: pin_head_def Let_def simp del: world_ok.simps split: option.splits if_splits)
  show "world_ok (tm', hs, q # ps)" if "qo = Some q" "length ps + 1 < 2 ^ 32"
  proof -
    from that(1) p obtain m where m: "index_lookup (tm_index tm) d = Some m" "head_is_resident (om_head m)"
      "tm' = take_pin ?tm2 (om_head m)" "q = loc_pin (om_head m)"
      by (auto simp: pin_head_def Let_def split: option.splits if_splits)
    show ?thesis unfolding m(3,4) by (rule take_pin_world [OF w2 _ m(2) that(2), of d]) (simp add: m(1))
  qed
qed

lemma open_snapshot_world:
  assumes w: "world_ok (tm, hs, ps)" and s: "open_snapshot k now tm d = (tm', so)"
  shows "(\<And>s. so = Some s \<Longrightarrow> \<not> hp_valid (sn_pin s)) \<Longrightarrow> world_ok (tm', hs, ps)"
    and "so = Some s \<Longrightarrow> hp_valid (sn_pin s) \<Longrightarrow> length ps + 1 < 2 ^ 32 \<Longrightarrow> world_ok (tm', hs, sn_pin s # ps)"
proof -
  let ?tm1 = "tm\<lparr>tm_object_policy := s3_touch (tm_object_policy tm) d\<rparr>"
  let ?tm2 = "?tm1\<lparr>tm_policy := s3_touch (tm_policy tm) d\<rparr>"
  have w1: "world_ok (?tm1, hs, ps)" by (rule touch_world(1) [OF w])
  have w2: "world_ok (?tm2, hs, ps)" using touch_world(2) [OF w1, of d] by (simp del: world_ok.simps)
  show "world_ok (tm', hs, ps)" if "\<And>s. so = Some s \<Longrightarrow> \<not> hp_valid (sn_pin s)"
    using that s w w1
    by (auto simp: open_snapshot_def Let_def loc_pin_def simp del: world_ok.simps split: option.splits if_splits sum.splits)
  show "world_ok (tm', hs, sn_pin s # ps)" if "so = Some s" "hp_valid (sn_pin s)" "length ps + 1 < 2 ^ 32"
  proof -
    from that(1,2) s obtain m where m: "index_lookup (tm_index tm) d = Some m" "head_is_resident (om_head m)"
      "tm' = take_pin ?tm2 (om_head m)" "sn_pin s = loc_pin (om_head m)"
      by (auto simp: open_snapshot_def Let_def no_pin_def split: option.splits if_splits sum.splits)
    show ?thesis unfolding m(3,4) by (rule take_pin_world [OF w2 _ m(2) that(3), of d]) (simp add: m(1))
  qed
qed

lemma unpin_world:
  assumes w: "world_ok (tm, hs, xs @ q # ys)"
  shows "world_ok (unpin_head tm q, hs, xs @ ys)"
proof -
  have ow: "owned tm (handles_ms (pool_bb (tm_ram tm)) hs) (xs @ q # ys)" using w by simp
  note u = unpin_cache [OF ow]
  have fr: "tm_index (unpin_head tm q) = tm_index tm" "tm_policy (unpin_head tm q) = tm_policy tm"
    "tm_object_policy (unpin_head tm q) = tm_object_policy tm" "tm_write_pool (unpin_head tm q) = tm_write_pool tm"
    "tm_max_objects (unpin_head tm q) = tm_max_objects tm"
    by (simp_all add: unpin_head_def Let_def split: option.split)
  have bk: "books (unpin_head tm q)" using w books_frame [OF fr(1-3), of "{}" "{}"] by simp
  have bd: "bounded (unpin_head tm q)" using w by (simp add: bounded_def fr)
  show ?thesis by (rule world_ok_frame [OF w bk bd fr(4) u(2)]) (use u(1) in \<open>simp add: fr(1)\<close>)
qed

text \<open>Removals.\<close>

lemma drop_object_world:
  assumes w: "world_ok (tm, hs, ps)"
  shows "world_ok (drop_object k tm d, hs, ps)"
proof -
  have bk: "books tm" and ix: "index_ok (tm_index tm)" and ow: "owned tm (handles_ms (pool_bb (tm_ram tm)) hs) ps"
    and bd: "bounded tm" using w by (auto simp: books_but_def)
  note o = drop_object_owned [OF ow ix, of k d]
  have bk': "books (drop_object k tm d)" by (rule drop_object_books [OF bk]) simp
  have "bounded (drop_object k tm d)"
    by (rule bounded_mono [OF bd bk bk']) (use drop_object_index(2) [OF ix, of k d] in \<open>auto simp: drop_object_policies\<close>)
  with o bk' show ?thesis by (intro world_ok_frame [OF w]) (simp_all add: same_frame_def)
qed

lemma tm_remove_world: "world_ok (tm, hs, ps) \<Longrightarrow> tm_remove k tm d = (tm', b) \<Longrightarrow> world_ok (tm', hs, ps)"
  using drop_object_world [of tm hs ps k d] by (auto simp: tm_remove_def simp del: world_ok.simps split: if_splits)

lemma reap_loop_world: "world_ok (tm, hs, ps) \<Longrightarrow> reap_loop k tm ds n = (tm', n') \<Longrightarrow> world_ok (tm', hs, ps)"
proof (induction ds arbitrary: tm n)
  case (Cons d ds)
  obtain tm1 b where r: "tm_remove k tm d = (tm1, b)" by (metis surj_pair)
  from Cons.IH [OF tm_remove_world [OF Cons.prems(1) r]] Cons.prems(2) r show ?case by simp
qed (simp del: world_ok.simps)

lemma touch_ttl_world:
  assumes w: "world_ok (tm, hs, ps)" and t: "touch_ttl tm d expiry = (tm', b)"
  shows "world_ok (tm', hs, ps)"
proof -
  let ?ix = "snd (index_update_expiry (tm_index tm) d expiry)"
  have ix: "index_ok (tm_index tm)" using w by (simp add: books_but_def)
  note u = index_update_expiry_ok(1,2) [OF ix, of d expiry]
  have tm': "tm_index tm' = ?ix" "tm_policy tm' = tm_policy tm" "tm_object_policy tm' = tm_object_policy tm"
    "tm_ram tm' = tm_ram tm" "tm_pins tm' = tm_pins tm" "tm_write_pool tm' = tm_write_pool tm"
    "tm_max_objects tm' = tm_max_objects tm"
    using t by (auto simp: touch_ttl_def split: prod.splits)
  have dm: "dom (index_lookup ?ix) = dom (index_lookup (tm_index tm))"
    unfolding u(2) by (auto split: option.splits)
  have hd: "heads_of ?ix = heads_of (tm_index tm)"
    using u(2) by (auto simp: heads_of_def fun_eq_iff split: option.splits)
  then have rs: "residents ?ix = residents (tm_index tm)" by (metis heads_of_dom)
  have bk: "books tm'" using w u(1) by (simp add: books_but_def tm' dm rs)
  have "bounded tm'" by (rule bounded_mono [of tm]) (use w bk in \<open>simp_all add: tm' dm\<close>)
  with w bk show ?thesis by (intro world_ok_frame [OF w]) (simp_all add: tm' hd)
qed

section \<open>Every reachable world is in order\<close>

lemma tm_step_world: "tm_step w w' \<Longrightarrow> world_ok w \<Longrightarrow> world_ok w'"
proof (induction rule: tm_step.induct)
  case (begin_ok k tm d sz tm' h hs ps)
  from begin_store_world [OF begin_ok(3,1)] show ?case by (simp del: world_ok.simps)
next
  case (begin_fails k tm d sz tm' e hs ps)
  from begin_store_world [OF begin_fails(3,1)] show ?case by (simp del: world_ok.simps)
next
  case (writes k tm h chunk tm' h' res xs ys ps)
  have "stage_fits h" using writes(2) by (simp add: handle_ok_def)
  from handle_write_total [OF this, of k tm chunk] writes(1)
  have "same_books tm tm'" "same_handle h h'" "stage_fits h'" by auto
  with writes(2) show ?case by (rule world_ok_handle)
next
  case (commit_ok k now tm h flags expiry cas tm' h' u xs ys ps)
  from commit_world [OF commit_ok(3,1)] show ?case by (simp del: world_ok.simps)
next
  case (commit_fails k now tm h flags expiry cas tm' h' e xs ys ps)
  from commit_world [OF commit_fails(2,1)] show ?case by (simp del: world_ok.simps)
next
  case (aborts k tm h tm' h' xs ys ps)
  from abort_world [OF aborts(2,1)] show ?case .
next
  case (pin_hit tm d tm' q ps hs)
  from pin_head_world(2) [OF pin_hit(3,1) refl pin_hit(2)] show ?case .
next
  case (pin_miss tm d tm' hs ps)
  from pin_head_world(1) [OF pin_miss(2,1) refl] show ?case .
next
  case (unpins tm hs xs q ys)
  then show ?case by (rule unpin_world)
next
  case (snap_pinned k now tm d tm' s ps hs)
  from open_snapshot_world(2) [OF snap_pinned(4,1) refl snap_pinned(2,3)] show ?case .
next
  case (snap_plain k now tm d tm' so hs ps)
  from open_snapshot_world(1) [OF snap_plain(3,1,2)] show ?case .
next
  case (removes k tm d tm' b hs ps)
  from tm_remove_world [OF removes(2,1)] show ?case .
next
  case (touches tm hs ps d)
  from touch_world(1) [OF touch_world(2) [OF touches], of d d] show ?case by (simp add: tm_touch_def del: world_ok.simps)
next
  case (ttl tm d expiry tm' b hs ps)
  from touch_ttl_world [OF ttl(2,1)] show ?case .
next
  case (reaps k now tm tm' n hs ps)
  then show ?case by (auto simp: reap_expired_def simp del: world_ok.simps split: if_splits intro: reap_loop_world)
qed

lemma tm_steps_world: "tm_step\<^sup>*\<^sup>* w w' \<Longrightarrow> world_ok w \<Longrightarrow> world_ok w'"
  by (induction rule: rtranclp_induct) (auto intro: tm_step_world)

end
