(* ===== verification/Tier_Engine.thy ===== *)
theory Tier_Engine
  imports Tier_World
begin

text \<open>
  What the invariant of the storage engine means to its clients: the properties of every
  state reachable from a freshly opened \<^verbatim>\<open>TierManager\<close>, whatever the operations, their order,
  their failures and the clock.
\<close>

section \<open>A freshly opened engine\<close>

text \<open>
  What opening relies on: two live \<^verbatim>\<open>aligned_alloc\<close> areas do not overlap; sizes are 64-bit; a
  block is at most 4 GiB and the pool has fewer blocks than the marker \<^verbatim>\<open>HeadLoc::kNone\<close>.
\<close>

definition open_ok ::
  "(nat \<Rightarrow> nat \<Rightarrow> nat option) \<Rightarrow> (nat \<Rightarrow> nat \<Rightarrow> nat option) \<Rightarrow> memory_config \<Rightarrow> nat \<Rightarrow> nat \<Rightarrow> bool" where
  "open_ok ram_alloc io_alloc mc io_chunk write_buffers \<longleftrightarrow>
     (\<forall>a n p b m q. ram_alloc a n = Some p \<and> io_alloc b m = Some q \<longrightarrow> {p ..< p + n} \<inter> {q ..< q + m} = {}) \<and>
     block_bytes mc \<le> 2 ^ 32 \<and> total_bytes mc < 2 ^ 64 \<and> total_bytes mc div block_bytes mc < kNone \<and>
     io_chunk < 2 ^ 64 \<and> write_buffers \<le> 2 ^ 32 \<and> io_chunk * write_buffers < 2 ^ 64"

lemma blockpool_create_Inr:
  assumes "blockpool_create al ml bytes num lk = Inr bp" and "bytes * num < 2 ^ 64" and "bytes < 2 ^ 64"
  shows "\<exists>p k. bp = blockpool_new p bytes num lk \<and> al kDeviceBlock (bytes * num) = Some p \<and>
    bytes = 2 ^ k \<and> 12 \<le> k \<and> k < 64 \<and> 0 < num"
proof -
  from assms obtain p where p: "bp = blockpool_new p bytes num lk" "al kDeviceBlock (bytes * num) = Some p"
    "is_power_of_two bytes" "\<not> bytes < kDeviceBlock" "0 < num"
    by (auto simp: blockpool_create_def Let_def u64_id split: if_splits option.splits)
  from power_of_two_ge_device [OF assms(3) p(3,4)] p show ?thesis by blast
qed

lemma blockpool_new_sel [simp]:
  "bp_base (blockpool_new p b n l) = p" "bp_block_bytes (blockpool_new p b n l) = b"
  "bp_num_blocks (blockpool_new p b n l) = n"
  by (simp_all add: blockpool_new_def)

lemma lent_new:
  assumes "num \<le> 2 ^ 32" and "0 < bytes"
  shows "lent (blockpool_new p bytes num lk) {}"
proof -
  have "set (rev [0..<num]) = {..<num}" by auto
  then show ?thesis
    using blockpool_new_ok [OF assms, of p lk] by (simp add: lent_def blockpool_new_free [OF assms(1)])
qed

lemma tm_open_world:
  assumes o: "tm_open ra ia ml k t mc ev sc hc (index_new b) io_chunk wb dio mem fs = Inr tm"
    and ok: "open_ok ra ia mc io_chunk wb"
  shows "world_ok (tm, [], [])"
proof -
  let ?num = "total_bytes mc div block_bytes mc"
  from o obtain ram wp where r: "bufpool_create ra ml (total_bytes mc) (block_bytes mc) kDeviceBlock (lock_memory mc) = Inr ram"
    and i: "iopool_create ia ml io_chunk wb (lock_memory mc) = Inr wp"
    and tm: "tm_ram tm = ram" "tm_write_pool tm = wp" "tm_index tm = index_new b" "tm_pins tm = Map.empty"
    and pol: "s3_ok (tm_policy tm)" "dom (s3_meta (tm_policy tm)) = {}"
      "s3_ok (tm_object_policy tm)" "dom (s3_meta (tm_object_policy tm)) = {}"
    by (auto simp: tm_open_def Let_def make_eviction_policy_def s3_new_ok simp del: dom_eq_empty_conv
        split: sum.splits if_splits)
  have big: "block_bytes mc * ?num < 2 ^ 64" "block_bytes mc < 2 ^ 64" "?num \<le> 2 ^ 32" "?num < kNone"
    using ok times_div_less_eq_dividend [of "block_bytes mc" "total_bytes mc"]
    unfolding open_ok_def kNone_def by (linarith, simp_all)
  from r obtain bp where bp: "blockpool_create ra ml (block_bytes mc) ?num (lock_memory mc) = Inr bp"
    "ram = \<lparr>pl_blocks = bp, pl_min_alloc = kDeviceBlock, pl_arenas = replicate (bp_num_blocks bp) None\<rparr>"
    by (auto simp: bufpool_create_def Let_def split: if_splits sum.splits)
  from blockpool_create_Inr [OF bp(1) big(1,2)] obtain p e where
    p: "bp = blockpool_new p (block_bytes mc) ?num (lock_memory mc)" "ra kDeviceBlock (block_bytes mc * ?num) = Some p"
    "block_bytes mc = 2 ^ e" "12 \<le> e" by blast
  from blockpool_create_Inr [OF i [unfolded iopool_create_def]] ok obtain q f where
    q: "wp = blockpool_new q io_chunk wb (lock_memory mc)" "ia kDeviceBlock (io_chunk * wb) = Some q"
    "io_chunk = 2 ^ f" "12 \<le> f" "f < 64" unfolding open_ok_def by blast
  have "(2::nat) ^ e \<le> 2 ^ 32" using ok p(3) unfolding open_ok_def by metis
  then have e32: "e \<le> 32" by (rule power_le_imp_le_exp [rotated]) simp
  have live: "pool_live ram []"
    using bufpool_new_live [of ?num 12 "e - 12" p "lock_memory mc"] big(3) p e32
    by (simp add: bp(2) p(1) kDeviceBlock_power)
  have sm: "small_pool ram" using big(4) ok by (simp add: small_pool_def bp(2) p(1) kNone_def open_ok_def)
  have cache: "cache_ok ram Map.empty Map.empty {#} []"
    by (rule cache_okI [OF live])
      (simp_all add: sm heads_ms_def orphans_ms_def owners_def orphan_map_def dom_def pins_ok_def)
  have dv: "kDeviceBlock dvd io_chunk" "io_chunk + kDeviceBlock \<le> 2 ^ 64"
  proof -
    show "kDeviceBlock dvd io_chunk" unfolding q(3) kDeviceBlock_power by (rule le_imp_power_dvd [OF q(4)])
    have "io_chunk \<le> 2 ^ 63" unfolding q(3) by (rule power_increasing) (use q(5) in simp_all)
    then show "io_chunk + kDeviceBlock \<le> 2 ^ 64" by (simp add: size_defs)
  qed
  have dj: "{p ..< p + ?num * block_bytes mc} \<inter> {q ..< q + wb * io_chunk} = {}"
    using ok p(2) q(2) unfolding open_ok_def by (metis mult.commute)
  have pk: "pools_ok tm"
    unfolding pools_ok_def tm bp(2) p(1) q(1) pool_capacity_def using dv dj big(4) by simp
  have h0: "heads_of (index_new b) = Map.empty" by (simp add: heads_of_def fun_eq_iff index_new_lookup)
  have e0: "index_lookup (index_new b) = Map.empty" by (simp add: fun_eq_iff index_new_lookup)
  have bk: "books tm"
    using pol index_new_ok [of b] by (simp add: books_but_def tm residents_def e0)
  have bd: "bounded tm"
    using index_size_card(1) [OF index_new_ok [of b]] by (simp add: bounded_def tm e0)
  have ln: "lent wp {}" unfolding q(1) using ok q(3) by (intro lent_new) (simp_all add: open_ok_def)
  show ?thesis using bk bd pk cache ln by (simp add: tm h0)
qed

section \<open>What operations do to memory\<close>

text \<open>
  No operation moves or resizes the RAM pool, and only writes through a handle (and the padding
  of its last block) change bytes.
\<close>

definition mem_frame :: "tier_manager \<Rightarrow> tier_manager \<Rightarrow> bool" where
  "mem_frame tm tm' \<longleftrightarrow> tm_mem tm' = tm_mem tm \<and> same_params (tm_ram tm') (tm_ram tm)"

lemma mem_frame_refl [simp]: "mem_frame tm tm"
  by (simp add: mem_frame_def)

lemma mem_frame_trans: "mem_frame a b \<Longrightarrow> mem_frame b c \<Longrightarrow> mem_frame a c"
  by (auto simp: mem_frame_def intro: same_params_trans)

lemma bufpool_params:
  "bufpool_allocate p n = Some (r, p') \<Longrightarrow> same_params p' p" "same_params (bufpool_deallocate p blk off len) p"
  by (auto simp: bufpool_allocate_def bufpool_deallocate_def same_params_def blockpool_acquire_def
      blockpool_release_def Let_def split: if_splits option.splits)

lemma free_head_mem: "mem_frame tm (free_head_region tm b off len)"
  by (auto simp: free_head_region_def mem_frame_def bufpool_params split: option.split)

lemma retire_head_mem: "mem_frame tm (retire_head tm d old)"
  using free_head_mem [of tm] by (auto simp: retire_head_def mem_frame_def split: option.split)

lemma drop_object_mem: "mem_frame tm (drop_object k tm d)"
  using retire_head_mem [of tm] by (auto simp: drop_object_def mem_frame_def Let_def split: option.split)

lemma evict_head_mem: "mem_frame tm (evict_head tm v)"
  using free_head_mem [of tm] by (auto simp: evict_head_def mem_frame_def Let_def split: option.split)

lemma make_room_mem: "make_room tm n = (ro, tm') \<Longrightarrow> mem_frame tm tm'"
proof (induction tm n rule: make_room.induct)
  case (1 tm n)
  obtain vo pol where e: "s3_evict (tm_policy tm) = (vo, pol)" by (cases "s3_evict (tm_policy tm)")
  show ?case
  proof (cases "bufpool_allocate (tm_ram tm) n")
    case (Some x)
    with "1.prems" show ?thesis
      by (cases x) (auto simp: make_room.simps [of tm] mem_frame_def bufpool_params)
  next
    case None
    show ?thesis
    proof (cases vo)
      case vo: None
      with None e "1.prems" show ?thesis by (auto simp: make_room.simps [of tm] mem_frame_def)
    next
      case (Some v)
      with None e "1.prems" have "make_room (evict_head (tm\<lparr>tm_policy := pol\<rparr>) v) n = (ro, tm')"
        by (simp add: make_room.simps [of tm])
      from "1.IH" [OF None e [symmetric] Some this] evict_head_mem [of "tm\<lparr>tm_policy := pol\<rparr>" v]
      show ?thesis by (auto simp: mem_frame_def intro: same_params_trans)
    qed
  qed
qed

lemma enforce_object_bound_mem: "mem_frame tm (enforce_object_bound k tm)"
proof (induction k tm rule: enforce_object_bound.induct)
  case (1 k tm)
  obtain vo pol where e: "s3_evict (tm_object_policy tm) = (vo, pol)" by (cases "s3_evict (tm_object_policy tm)")
  show ?case
  proof (cases "tm_max_objects tm \<noteq> 0 \<and> index_size (tm_index tm) > tm_max_objects tm")
    case over: True
    show ?thesis
    proof (cases vo)
      case None
      with over e show ?thesis by (simp add: enforce_object_bound.simps [of k tm] mem_frame_def)
    next
      case (Some v)
      have "mem_frame tm (drop_object k (tm\<lparr>tm_object_policy := pol\<rparr>) v)"
        using drop_object_mem [of "tm\<lparr>tm_object_policy := pol\<rparr>" k v] by (simp add: mem_frame_def)
      with "1.IH" [OF over e [symmetric] Some] over e Some show ?thesis
        by (simp add: enforce_object_bound.simps [of k tm] mem_frame_trans)
    qed
  qed (auto simp: enforce_object_bound.simps [of k tm])
qed

lemma reserve_store_mem:
  assumes "reserve_store k tm d sz layout sfx sfd hfd = (tm', res)"
  shows "mem_frame tm tm'"
proof (cases "iopool_acquire (tm_write_pool tm)")
  case None
  with assms show ?thesis by (auto simp: reserve_store_def mem_frame_def)
next
  case (Some x)
  then obtain c wp where a: "iopool_acquire (tm_write_pool tm) = Some (c, wp)" by (cases x) simp
  let ?tm1 = "tm\<lparr>tm_write_pool := wp\<rparr>"
  let ?hl = "min sz (ram_head (tm_tiers ?tm1))"
  obtain ho tm2 where m: "(if 0 < ?hl then make_room ?tm1 (u32 ?hl) else (None, ?tm1)) = (ho, tm2)" by (metis surj_pair)
  have "mem_frame tm tm2"
    using m make_room_mem [of ?tm1 "u32 ?hl" ho tm2] by (auto simp: mem_frame_def split: if_splits)
  then show ?thesis
    using assms unfolding reserve_store_def a Let_def option.case prod.case m
    by (auto simp: mem_frame_def split: if_splits)
qed

lemma begin_store_mem: "begin_store k tm d sz = (tm', res) \<Longrightarrow> mem_frame tm tm'"
  unfolding begin_store_def Let_def
  by (auto simp: mem_frame_def dest!: reserve_store_mem split: prod.splits sum.splits if_splits)

lemma same_books_params: "same_books tm tm' \<Longrightarrow> same_params (tm_ram tm') (tm_ram tm)"
  by (simp add: same_books_def)

lemma commit_mem:
  assumes "commit k now tm h flags expiry cas = (tm', h', res)" and "stage_fits h"
  shows "same_params (tm_ram tm') (tm_ram tm)" and "\<And>x. x \<notin> stage_span h \<Longrightarrow> tm_mem tm' x = tm_mem tm x"
proof -
  have "same_params (tm_ram tm') (tm_ram tm) \<and> (\<forall>x. x \<notin> stage_span h \<longrightarrow> tm_mem tm' x = tm_mem tm x)"
  proof (cases "sh_off h \<noteq> ol_size (sh_layout h)")
    case True
    with assms show ?thesis by (auto simp: commit_def)
  next
    case False
    obtain tm1 h1 r1 where f: "flush_tail k tm h = (tm1, h1, r1)" by (metis prod_cases3)
    note fs = flush_tail_same [OF f assms(2)]
    have "mem_frame tm1 tm'"
    proof (cases r1)
      case (Inl e)
      with False f assms(1) show ?thesis by (auto simp: commit_def)
    next
      case (Inr u)
      obtain tm2 r2 where p: "publish_tiers k tm1 h1 = (tm2, r2)" by (metis surj_pair)
      have m2: "mem_frame tm1 tm2" using publish_tiers_same [OF p] by (simp add: mem_frame_def same_books_def)
      have "mem_frame tm2 (swap_in tm2 h1 old flags expiry)" for old
        using retire_head_mem [of tm2] by (simp add: mem_frame_def swap_in_sel)
      then have m3: "mem_frame tm1 (enforce_object_bound k (swap_in tm2 h1 old flags expiry))" for old
        using m2 enforce_object_bound_mem mem_frame_trans by blast
      from False f Inr assms(1) have "publish_object k now tm1 h1 flags expiry cas = (tm', h', res)"
        by (simp add: commit_def)
      with p m2 m3 show ?thesis
        by (auto simp: publish_object_def install_object_def Let_def split: if_splits sum.splits)
    qed
    with fs show ?thesis using same_params_trans same_books_params unfolding mem_frame_def by metis
  qed
  then show "same_params (tm_ram tm') (tm_ram tm)" "\<And>x. x \<notin> stage_span h \<Longrightarrow> tm_mem tm' x = tm_mem tm x" by auto
qed

lemma unpin_mem: "mem_frame tm (unpin_head tm q)"
  by (auto simp: unpin_head_def mem_frame_def bufpool_params Let_def split: option.split)

lemma take_pin_mem: "mem_frame tm (take_pin tm hl)"
  by (simp add: take_pin_def mem_frame_def Let_def)

lemma pin_head_mem: "pin_head tm d = (tm', qo) \<Longrightarrow> mem_frame tm tm'"
  by (auto simp: pin_head_def mem_frame_def take_pin_def Let_def split: option.splits if_splits)

lemma open_snapshot_mem: "open_snapshot k now tm d = (tm', so) \<Longrightarrow> mem_frame tm tm'"
  by (auto simp: open_snapshot_def mem_frame_def take_pin_def Let_def split: option.splits if_splits sum.splits)

lemma tm_remove_mem: "tm_remove k tm d = (tm', b) \<Longrightarrow> mem_frame tm tm'"
  using drop_object_mem by (auto simp: tm_remove_def split: if_splits)

lemma reap_loop_mem: "reap_loop k tm ds n = (tm', n') \<Longrightarrow> mem_frame tm tm'"
proof (induction ds arbitrary: tm n)
  case (Cons d ds)
  obtain tm1 b where r: "tm_remove k tm d = (tm1, b)" by (metis surj_pair)
  with Cons.prems Cons.IH [of tm1] show ?case by (auto intro: mem_frame_trans tm_remove_mem [OF r])
qed simp

lemma step_mem:
  assumes "tm_step (tm, hs, ps) (tm', hs', ps')" and "world_ok (tm, hs, ps)"
  shows "same_params (tm_ram tm') (tm_ram tm)"
    and "(\<And>h. h \<in> set hs \<Longrightarrow> x \<notin> stage_span h \<and> x \<notin> head_span h) \<Longrightarrow> tm_mem tm' x = tm_mem tm x"
proof -
  have fits: "stage_fits h" if "h \<in> set hs" for h using assms(2) that by (simp add: handle_ok_def)
  have "same_params (tm_ram tm') (tm_ram tm) \<and>
      ((\<forall>h \<in> set hs. x \<notin> stage_span h \<and> x \<notin> head_span h) \<longrightarrow> tm_mem tm' x = tm_mem tm x)"
    using assms(1)
  proof (cases rule: tm_step.cases)
    case (writes k h chunk h' res xs ys)
    then have "h \<in> set hs" by simp
    from handle_write_total [OF fits [OF this], of k tm chunk] writes
    show ?thesis by (auto intro: same_books_params)
  next
    case (commit_ok k now h flags expiry cas h' u xs ys)
    then show ?thesis using commit_mem [OF commit_ok(4) fits] by auto
  next
    case (commit_fails k now h flags expiry cas h' e xs ys)
    then show ?thesis using commit_mem [OF commit_fails(4) fits] by auto
  next
    case (aborts k h h' xs ys)
    then show ?thesis
      by (auto simp: abort_uncommitted_def Let_def bufpool_params split: option.splits if_splits)
  next
    case (reaps k now n)
    then show ?thesis using reap_loop_mem by (fastforce simp: reap_expired_def mem_frame_def split: if_splits)
  next
    case (ttl d expiry b)
    then show ?thesis by (auto simp: touch_ttl_def split: prod.splits)
  qed (auto simp: tm_touch_def mem_frame_def dest!: begin_store_mem pin_head_mem open_snapshot_mem tm_remove_mem
      intro: unpin_mem [unfolded mem_frame_def, THEN conjunct1, THEN fun_cong] unpin_mem [unfolded mem_frame_def, THEN conjunct2])
  then show "same_params (tm_ram tm') (tm_ram tm)"
    "(\<And>h. h \<in> set hs \<Longrightarrow> x \<notin> stage_span h \<and> x \<notin> head_span h) \<Longrightarrow> tm_mem tm' x = tm_mem tm x" by auto
qed

section \<open>Reachable worlds\<close>

text \<open>A world reachable from a freshly opened engine.\<close>

definition reachable :: "tier_manager \<Rightarrow> world \<Rightarrow> bool" where
  "reachable tm0 w \<longleftrightarrow>
     (\<exists>ra ia ml k t mc ev sc hc b io_chunk wb dio mem fs.
        tm_open ra ia ml k t mc ev sc hc (index_new b) io_chunk wb dio mem fs = Inr tm0 \<and>
        open_ok ra ia mc io_chunk wb) \<and> tm_step\<^sup>*\<^sup>* (tm0, [], []) w"

lemma reachable_world_ok: "reachable tm0 w \<Longrightarrow> world_ok w"
  using tm_open_world tm_steps_world unfolding reachable_def by blast

lemma reachable_step: "reachable tm0 w \<Longrightarrow> tm_step w w' \<Longrightarrow> reachable tm0 w'"
  unfolding reachable_def by (meson rtranclp.rtrancl_into_rtrancl)

section \<open>A small engine\<close>

text \<open>
  A two-layer engine with one SSD drive, one RAM block of 8 KiB and two staging buffers. A
  three-byte object is stored in RAM only and its head pinned.
\<close>

definition demo_alloc :: "nat \<Rightarrow> nat \<Rightarrow> nat \<Rightarrow> nat option" where
  "demo_alloc base a n = (if n \<le> 8192 then Some base else None)"

definition demo_mem :: memory_config where
  "demo_mem = \<lparr>total_bytes = 8192, block_bytes = 8192, lock_memory = False, use_hugepages = False\<rparr>"

definition demo_fs :: dir_fs where
  "demo_fs = \<lparr>fs_dirs = (\<lambda>_. Map.empty), fs_store = (\<lambda>_. []), fs_next = 0\<rparr>"

definition demo_tm :: tier_manager where
  "demo_tm = \<lparr>tm_tiers = \<lparr>ram_head = 4096, ssd_prefix = 8192\<rparr>, tm_ram = tiny_pool,
     tm_write_pool = blockpool_new 131072 4096 2 False, tm_policy = s3_new 2, tm_object_policy = s3_new 2,
     tm_max_objects = 0,
     tm_ssd = \<lparr>pool_drives = \<lparr>dp_n = 1, dp_s = 4096\<rparr>, pool_dirfds = [4], pool_direct_io = False\<rparr>, tm_hdd = None,
     tm_index = index_new 0, tm_store_seq = 0, tm_etag_seq = 0, tm_any_ttl = False,
     tm_pins = Map.empty, tm_mem = (\<lambda>_. 0), tm_fs = demo_fs\<rparr>"

lemma demo_open:
  "tm_open (demo_alloc 65536) (demo_alloc 131072) (\<lambda>_ _. True) ideal_kernel \<lparr>ram_head = 4096, ssd_prefix = 8192\<rparr>
     demo_mem default_eviction \<lparr>dirs = [''/ssd''], stripe_unit = 4096\<rparr> \<lparr>dirs = [], stripe_unit = 4096\<rparr>
     (index_new 0) 4096 2 False (\<lambda>_. 0) demo_fs = Inr demo_tm"
  by (simp add: tm_open_def demo_mem_def bufpool_create_def blockpool_create_def iopool_create_def is_power_of_two_def
      size_defs Let_def demo_alloc_def u64_def default_eviction_def make_eviction_policy_def pool_open_def ideal_kernel_def
      pool_move_def u32_def demo_tm_def tiny_pool_def blockpool_new_def)

lemma demo_open_ok: "open_ok (demo_alloc 65536) (demo_alloc 131072) demo_mem 4096 2"
  by (auto simp: open_ok_def demo_alloc_def demo_mem_def kNone_def split: if_splits)

lemma demo_reachable: "reachable demo_tm (demo_tm, [], [])"
  unfolding reachable_def using demo_open demo_open_ok by blast

definition demo_handle :: "digest \<Rightarrow> store_handle" where
  "demo_handle d = \<lparr>sh_digest = d, sh_layout = compute_layout 3 \<lparr>ram_head = 4096, ssd_prefix = 8192\<rparr> False, sh_ssd = [],
     sh_hdd = None, sh_head = Some \<lparr>rg_block = 0, rg_offset = 0, rg_len = 3, rg_data = 65536\<rparr>,
     sh_suffix = ''.tmp.0'', sh_stage = (131072, 4096), sh_stage_fill = 0, sh_flushed = 0, sh_off = 0, sh_committed = False\<rparr>"

definition demo_begun :: tier_manager where
  "demo_begun = demo_tm\<lparr>tm_store_seq := 1,
     tm_write_pool := (tm_write_pool demo_tm)\<lparr>bp_free := [1]\<rparr>,
     tm_ram := tiny_pool\<lparr>pl_blocks := (pl_blocks tiny_pool)\<lparr>bp_free := []\<rparr>,
       pl_arenas := [Some \<lparr>ba_arena_size = 8192, ba_min_block = 4096, ba_max_order = 1, ba_used = 4096,
         ba_free = [[4096], []]\<rparr>]\<rparr>\<rparr>"

lemma demo_layout: "compute_layout 3 \<lparr>ram_head = 4096, ssd_prefix = 8192\<rparr> False = \<lparr>ol_size = 3, ol_ram_head_bytes = 3, ol_ssd_bytes = 0, ol_hdd_bytes = 0\<rparr>"
  by (simp add: compute_layout_def)

lemma dec_str_0: "dec_str 0 = ''0''"
  by code_simp

lemma demo_begin: "begin_store ideal_kernel demo_tm d 3 = (demo_begun, Inr (demo_handle d))"
  by (simp add: begin_store_def reserve_store_def demo_tm_def three_layer_def demo_layout Let_def iopool_acquire_def
     blockpool_acquire_def blockpool_new_def u64_def u32_def make_room.simps bufpool_allocate_def tiny_pool_def buddy_new_8k buddy_eval
     demo_begun_def demo_handle_def upt_rec dec_str_0 bufpool_addr_def blockpool_block_data_def)

definition demo_written :: tier_manager where
  "demo_written = demo_begun\<lparr>tm_mem := mem_put 65536 [1, 2, 3] (\<lambda>_. 0)\<rparr>"

lemma demo_write:
  "handle_write ideal_kernel demo_begun (demo_handle d) [1, 2, 3] = Some (demo_written, demo_handle d\<lparr>sh_off := 3\<rparr>, Inr ())"
  by (simp add: handle_write_def demo_handle_def demo_layout Let_def u64_def demo_begun_def demo_tm_def demo_written_def)

definition demo_stored :: "digest \<Rightarrow> tier_manager" where
  "demo_stored d = swap_in demo_written (demo_handle d\<lparr>sh_off := 3\<rparr>) None 0 0"

lemma demo_commit:
  "commit ideal_kernel 0 demo_written (demo_handle d\<lparr>sh_off := 3\<rparr>) 0 0 0 =
     (demo_stored d, demo_handle d\<lparr>sh_off := 3, sh_stage := (0, 0), sh_committed := True\<rparr>, Inr ())"
  by (simp add: commit_def flush_tail_def publish_object_def publish_tiers_def install_object_def demo_handle_def
      demo_layout Let_def cas_fails_def demo_written_def demo_begun_def demo_tm_def index_new_lookup
      enforce_object_bound.simps demo_stored_def swap_in_sel)

lemma demo_stored_index:
  "index_lookup (tm_index (demo_stored d)) =
     [d \<mapsto> \<lparr>om_size = 3, om_flags = 0, om_expiry = 0, om_etag = 1, om_head = \<lparr>hl_block = 0, hl_offset = 0, hl_len = 3\<rparr>\<rparr>]"
  using index_set_ok [OF index_new_ok [of 0]]
  by (simp add: demo_stored_def swap_in_sel new_meta_def demo_handle_def demo_layout region_loc_def demo_written_def
      demo_begun_def demo_tm_def u64_def fun_eq_iff index_new_lookup)

definition demo_head_pin :: head_pin where
  "demo_head_pin = \<lparr>hp_block = 0, hp_offset = 0, hp_len = 3, hp_valid = True\<rparr>"

definition demo_pinned :: "digest \<Rightarrow> tier_manager" where
  "demo_pinned d = fst (pin_head (demo_stored d) d)"

lemma demo_pin: "pin_head (demo_stored d) d = (demo_pinned d, Some demo_head_pin)"
  by (simp add: pin_head_def demo_stored_index head_is_resident_def kNone_def loc_pin_def Let_def demo_pinned_def demo_head_pin_def)

lemma tm_contains: "index_contains ix d = (index_lookup ix d \<noteq> None)"
  by (simp add: index_contains_def index_lookup_def)

text \<open>Reachable worlds with an open handle, with a stored object, and with its head pinned.\<close>

lemma demo_begun_reachable: "reachable demo_tm (demo_begun, [demo_handle d], [])"
  by (rule reachable_step [OF demo_reachable], rule tm_step.begin_ok [OF demo_begin]) (simp add: demo_tm_def)

lemma demo_written_reachable: "reachable demo_tm (demo_written, [demo_handle d\<lparr>sh_off := 3\<rparr>], [])"
  using tm_step.writes [OF demo_write, where xs = "[]" and ys = "[]"]
  by (intro reachable_step [OF demo_begun_reachable]) simp

lemma demo_stored_reachable: "reachable demo_tm (demo_stored d, [], [])"
proof -
  have "tm_step (demo_written, [demo_handle d\<lparr>sh_off := 3\<rparr>], []) (demo_stored d, [], [])"
    using tm_step.commit_ok [OF demo_commit, where xs = "[]" and ys = "[]"]
    by (simp add: demo_written_def demo_begun_def demo_tm_def)
  with demo_written_reachable show ?thesis by (rule reachable_step)
qed

lemma demo_pinned_reachable: "reachable demo_tm (demo_pinned d, [], [demo_head_pin])"
  by (rule reachable_step [OF demo_stored_reachable], rule tm_step.pin_hit [OF demo_pin]) simp

lemma demo_pinned_bytes: "pinned_bytes (demo_pinned d) demo_head_pin = [1, 2, 3]"
proof -
  have "mem_frame (demo_stored d) (demo_pinned d)" using pin_head_mem [OF demo_pin] .
  then have "pinned_bytes (demo_pinned d) demo_head_pin = pinned_bytes (demo_stored d) demo_head_pin"
    by (simp add: pinned_bytes_def mem_frame_def same_params_def bufpool_addr_def blockpool_block_data_def)
  then show ?thesis
    by (simp add: pinned_bytes_def demo_head_pin_def demo_stored_def swap_in_sel retire_head_def demo_written_def
        demo_begun_def demo_tm_def bufpool_addr_def blockpool_block_data_def tiny_pool_def mem_get_def mem_put_def upt_rec)
qed

section \<open>Properties\<close>

text \<open>
  Property C3. Index, eviction policies and object bound agree in every reachable state: the
  object policy tracks exactly the indexed objects, the head policy exactly those with a
  resident head, and with a bound configured there are never more objects than it allows.
\<close>

theorem books_agree:
  assumes "reachable tm0 (tm, hs, ps)"
  shows "dom (s3_meta (tm_object_policy tm)) = dom (index_lookup (tm_index tm)) \<and>
    dom (s3_meta (tm_policy tm)) =
      {d. \<exists>m. index_lookup (tm_index tm) d = Some m \<and> head_is_resident (om_head m)} \<and>
    (tm_max_objects tm \<noteq> 0 \<longrightarrow> index_size (tm_index tm) \<le> tm_max_objects tm) \<and>
    head_resident tm \<le> index_size (tm_index tm)"
proof -
  have w: "books tm" "bounded tm" using reachable_world_ok [OF assms] by simp_all
  then have ix: "index_ok (tm_index tm)" by (simp add: books_but_def)
  have "residents (tm_index tm) \<subseteq> dom (index_lookup (tm_index tm))" by (auto simp: residents_def)
  from card_mono [OF index_size_card(2) [OF ix] this] w
  show ?thesis
    by (simp add: books_but_def bounded_def residents_def head_resident_def s3_resident_def index_size_card(1) [OF ix])
qed

theorem books_agree_witness:
  "dom (s3_meta (tm_object_policy (demo_stored []))) = {[]} \<and> head_resident (demo_stored []) \<le> 1"
proof -
  note b = books_agree [OF demo_stored_reachable [of "[]"]]
  then have d: "dom (s3_meta (tm_object_policy (demo_stored []))) = {[]}" by (simp add: demo_stored_index)
  have "index_ok (tm_index (demo_stored []))"
    using reachable_world_ok [OF demo_stored_reachable] by (simp add: books_but_def)
  from index_size_card(1) [OF this] b d show ?thesis by (simp add: demo_stored_index)
qed

text \<open>
  Property C8. The staging buffers bound the stores in flight: the free buffers and the open
  handles always add up to the configured number, every handle has a buffer of its own, and
  \<open>begin_store\<close> reports exhausted staging buffers only when that many handles are open.
\<close>

theorem staging_exact:
  assumes "reachable tm0 (tm, hs, ps)"
  shows "iopool_free_count (tm_write_pool tm) + length hs = bp_num_blocks (tm_write_pool tm) \<and>
    distinct (map sh_stage hs) \<and>
    (\<forall>k d sz tm'. begin_store k tm d sz = (tm', err would_block ''write staging buffers exhausted'') \<longrightarrow>
       length hs = bp_num_blocks (tm_write_pool tm))"
proof -
  let ?wp = "tm_write_pool tm" and ?S = "set (map sh_stage hs)"
  have l: "lent ?wp ?S" and d: "distinct (map sh_stage hs)" using reachable_world_ok [OF assms] by simp_all
  have ok: "blockpool_ok ?wp" using l by (simp add: lent_def)
  note inj = chunk_at_inj [OF ok]
  have "card (chunk_at ?wp ` set (bp_free ?wp)) + card ?S = card (chunk_at ?wp ` {..<bp_num_blocks ?wp})"
    using l card_Un_disjoint [of "chunk_at ?wp ` set (bp_free ?wp)" ?S] by (simp add: lent_def)
  moreover have "card (chunk_at ?wp ` set (bp_free ?wp)) = iopool_free_count ?wp"
    using ok card_image [OF inj_on_subset [OF inj], of "set (bp_free ?wp)"]
    by (simp add: iopool_free_count_def blockpool_ok_def distinct_card)
  moreover have "card ?S = length hs" using distinct_card [OF d] by simp
  moreover have "card (chunk_at ?wp ` {..<bp_num_blocks ?wp}) = bp_num_blocks ?wp" using card_image [OF inj] by simp
  ultimately have sum: "iopool_free_count ?wp + length hs = bp_num_blocks ?wp" by simp
  have "length hs = bp_num_blocks ?wp"
    if b: "begin_store k tm d sz = (tm', err would_block ''write staging buffers exhausted'')" for k d sz tm'
  proof (rule ccontr)
    assume "length hs \<noteq> bp_num_blocks ?wp"
    with sum have "bp_free ?wp \<noteq> []" by (auto simp: iopool_free_count_def)
    then obtain x where x: "iopool_acquire ?wp = Some x" by (auto simp: iopool_acquire_def blockpool_acquire_def)
    show False
    proof (cases rule: begin_store_cases [OF b])
      case (1 e fs)
      then show False by auto
    next
      case (2 fs sfd hfd)
      then show False using x by (auto simp: reserve_store_def Let_def split: prod.splits if_splits)
    qed
  qed
  with sum d show ?thesis by blast
qed

theorem staging_exact_witness:
  "reachable demo_tm (demo_begun, [demo_handle []], []) \<and>
   iopool_free_count (tm_write_pool demo_begun) + 1 = 2"
  using staging_exact [OF demo_begun_reachable, of "[]"] demo_begun_reachable [of "[]"]
  by (simp add: demo_begun_def demo_tm_def)

text \<open>The bytes of a head or an orphan are no open handle's to write.\<close>

lemma owned_span:
  assumes w: "world_ok (tm, hs, ps)" and h: "h \<in> set hs"
    and y: "y \<in># heads_ms (pool_bb (tm_ram tm)) (heads_of (tm_index tm)) + orphans_ms (pool_bb (tm_ram tm)) (tm_pins tm)"
    and x: "x \<in> {bp_base (pl_blocks (tm_ram tm)) + fst y ..< bp_base (pl_blocks (tm_ram tm)) + fst y + snd y}"
  shows "x \<notin> stage_span h \<and> x \<notin> head_span h"
proof -
  let ?bb = "pool_bb (tm_ram tm)"
  obtain xs ys where hs: "hs = xs @ h # ys" using split_list [OF h] by blast
  have ow: "owned tm (handles_ms ?bb hs) ps" and hk: "handle_ok tm h" and pk: "pools_ok tm" using w h by simp_all
  obtain L where L: "pool_live (tm_ram tm) L"
    "mset L = heads_ms ?bb (heads_of (tm_index tm)) + orphans_ms ?bb (tm_pins tm) + handles_ms ?bb hs"
    using ow by (rule cache_okD)
  have "y \<in># mset L" using y L(2) by simp
  then have "(fst y, snd y) \<in> set L" by simp
  from pool.live_bounds [OF L(1) this] have cap: "fst y + snd y \<le> pool_capacity (tm_ram tm)" by simp
  have "x \<notin> stage_span h"
  proof
    assume s: "x \<in> stage_span h"
    have "x \<in> {bp_base (pl_blocks (tm_ram tm)) ..< bp_base (pl_blocks (tm_ram tm)) + pool_capacity (tm_ram tm)}"
      using x cap by simp
    with s hk pk show False unfolding handle_ok_def pools_ok_def by blast
  qed
  moreover have "x \<notin> head_span h"
  proof (cases "sh_head h")
    case None
    then show ?thesis by (simp add: head_span_def)
  next
    case (Some r)
    have "tm_cache tm (heads_of (tm_index tm)) (add_mset (rg_reg ?bb r) (handles_ms ?bb (xs @ ys))) ps"
      using ow Some by (simp add: hs)
    moreover have "y \<in># heads_ms ?bb (heads_of (tm_index tm)) + orphans_ms ?bb (tm_pins tm) + handles_ms ?bb (xs @ ys)"
      using y unfolding union_iff by blast
    ultimately have "fst (rg_reg ?bb r) + snd (rg_reg ?bb r) \<le> fst y \<or> fst y + snd y \<le> fst (rg_reg ?bb r)"
      by (rule owner_disjoint)
    with x hk Some show ?thesis by (auto simp: head_span_def handle_ok_def rg_reg_def)
  qed
  ultimately show ?thesis ..
qed

lemma owned_bytes_stable:
  assumes w: "world_ok (tm, hs, ps)" and s: "tm_step (tm, hs, ps) (tm', hs', ps')"
    and y: "(blk * pool_bb (tm_ram tm) + off, len) \<in>#
      heads_ms (pool_bb (tm_ram tm)) (heads_of (tm_index tm)) + orphans_ms (pool_bb (tm_ram tm)) (tm_pins tm)"
  shows "mem_get (tm_mem tm') (bufpool_addr (tm_ram tm') blk off) len =
    mem_get (tm_mem tm) (bufpool_addr (tm_ram tm) blk off) len"
proof -
  have a: "bufpool_addr (tm_ram tm') blk off = bufpool_addr (tm_ram tm) blk off"
    using step_mem(1) [OF s w] by (simp add: bufpool_addr_def blockpool_block_data_def same_params_def)
  have "tm_mem tm' (bufpool_addr (tm_ram tm) blk off + i) = tm_mem tm (bufpool_addr (tm_ram tm) blk off + i)"
    if "i < len" for i
    by (rule step_mem(2) [OF s w], rule owned_span [OF w _ y])
      (use that in \<open>simp_all add: bufpool_addr_def blockpool_block_data_def\<close>)
  then show ?thesis by (simp add: mem_get_def a)
qed

text \<open>
  Property C2. A pinned head stays readable: whatever operation runs next, the bytes behind a
  pin do not change, and while the pin is not given back its region stays allocated, so that
  no later allocation overlaps it. The head of an object whose index entry the operation
  leaves alone keeps its bytes as well.
\<close>

theorem pinned_bytes_stable:
  assumes "reachable tm0 (tm, hs, ps)" and "tm_step (tm, hs, ps) (tm', hs', ps')"
  shows "(\<forall>q \<in> set ps. pinned_bytes tm' q = pinned_bytes tm q) \<and>
    (\<exists>L. pool_live (tm_ram tm') L \<and>
       (\<forall>q \<in> set ps'. (hp_block q * bp_block_bytes (pl_blocks (tm_ram tm')) + hp_offset q, hp_len q) \<in> set L)) \<and>
    (\<forall>d. index_lookup (tm_index tm') d = index_lookup (tm_index tm) d \<longrightarrow> head_view tm' d = head_view tm d)"
proof (intro conjI ballI allI impI)
  have w: "world_ok (tm, hs, ps)" by (rule reachable_world_ok [OF assms(1)])
  have w': "world_ok (tm', hs', ps')" by (rule tm_step_world [OF assms(2) w])
  note ow = world_ok.simps [THEN iffD1, OF w, THEN conjunct2, THEN conjunct2, THEN conjunct2, THEN conjunct1]
  show "pinned_bytes tm' q = pinned_bytes tm q" if "q \<in> set ps" for q
    unfolding pinned_bytes_def by (rule owned_bytes_stable [OF w assms(2) pin_region_owned [OF ow that]])
  show "head_view tm' d = head_view tm d" if ix: "index_lookup (tm_index tm') d = index_lookup (tm_index tm) d" for d
  proof (cases "heads_of (tm_index tm) d")
    case None
    with ix show ?thesis by (auto simp: head_view_def heads_of_def split: option.splits if_splits)
  next
    case (Some hl)
    have "finite (dom (heads_of (tm_index tm)))" using ow by (simp add: cache_ok_def)
    from owners_remove [OF this Some, of "\<lambda>_. loc_reg (pool_bb (tm_ram tm))"]
    have "(hl_block hl * pool_bb (tm_ram tm) + hl_offset hl, hl_len hl) \<in>#
        heads_ms (pool_bb (tm_ram tm)) (heads_of (tm_index tm)) + orphans_ms (pool_bb (tm_ram tm)) (tm_pins tm)"
      by (simp add: heads_ms_def loc_reg_def)
    from owned_bytes_stable [OF w assms(2) this] Some ix show ?thesis
      by (auto simp: head_view_def heads_of_def split: option.splits if_splits)
  qed
  note ow' = world_ok.simps [THEN iffD1, OF w', THEN conjunct2, THEN conjunct2, THEN conjunct2, THEN conjunct1]
  obtain L where L: "pool_live (tm_ram tm') L" "mset L = heads_ms (pool_bb (tm_ram tm')) (heads_of (tm_index tm')) +
      orphans_ms (pool_bb (tm_ram tm')) (tm_pins tm') + handles_ms (pool_bb (tm_ram tm')) hs'"
    using ow' by (rule cache_okD)
  have "(hp_block q * pool_bb (tm_ram tm') + hp_offset q, hp_len q) \<in> set L" if "q \<in> set ps'" for q
    using pin_region_owned [OF ow' that] L(2) by (metis set_mset_mset union_iff)
  with L(1) show "\<exists>L. pool_live (tm_ram tm') L \<and>
       (\<forall>q \<in> set ps'. (hp_block q * pool_bb (tm_ram tm') + hp_offset q, hp_len q) \<in> set L)" by blast
qed

theorem pinned_bytes_stable_witness:
  "reachable demo_tm (demo_pinned [], [], [demo_head_pin]) \<and>
   pinned_bytes (fst (tm_remove ideal_kernel (demo_pinned []) [])) demo_head_pin = [1, 2, 3]"
proof -
  obtain tm b where r: "tm_remove ideal_kernel (demo_pinned []) [] = (tm, b)" by (metis surj_pair)
  from pinned_bytes_stable [OF demo_pinned_reachable tm_step.removes [OF r]] demo_pinned_bytes [of "[]"]
    demo_pinned_reachable [of "[]"] r show ?thesis by simp
qed

text \<open>
  Property C7. No RAM is lost: once every handle is closed, every pin given back and every
  object gone, all blocks are free again and no arena is left.
\<close>

theorem ram_drains:
  assumes "reachable tm0 (tm, [], [])" and "index_lookup (tm_index tm) = Map.empty"
  shows "(\<forall>a \<in> set (pl_arenas (tm_ram tm)). a = None) \<and>
    set (bp_free (pl_blocks (tm_ram tm))) = {..<bp_num_blocks (pl_blocks (tm_ram tm))} \<and> tm_pins tm = Map.empty"
proof -
  have ow: "owned tm {#} []" using reachable_world_ok [OF assms(1)] by simp
  have h: "heads_of (tm_index tm) = Map.empty" using assms(2) by (simp add: heads_of_def fun_eq_iff)
  have pins: "tm_pins tm = Map.empty"
  proof (rule ext)
    fix i
    show "tm_pins tm i = None"
      using pins_okD(1) [OF cache_ok_parts(5) [OF ow], of i] by (cases "tm_pins tm i") auto
  qed
  obtain L where L: "pool_live (tm_ram tm) L"
    "mset L = heads_ms (pool_bb (tm_ram tm)) (heads_of (tm_index tm)) + orphans_ms (pool_bb (tm_ram tm)) (tm_pins tm) + {#}"
    using ow by (rule cache_okD)
  then have "L = []" by (simp add: h pins heads_ms_def orphans_ms_def owners_def orphan_map_def dom_def)
  with L(1) have l: "pool_live (tm_ram tm) []" by simp
  have a: "pl_arenas (tm_ram tm) ! i = None \<and> i \<in> set (bp_free (pl_blocks (tm_ram tm)))" if "i < length (pl_arenas (tm_ram tm))" for i
    using pool_liveD(4) [OF l that] by (auto simp: arena_ok_def split: option.splits)
  then have "\<forall>a \<in> set (pl_arenas (tm_ram tm)). a = None" by (auto simp: in_set_conv_nth)
  moreover have "set (bp_free (pl_blocks (tm_ram tm))) = {..<bp_num_blocks (pl_blocks (tm_ram tm))}"
    using a pool_liveD(2,3) [OF l] by (auto simp: blockpool_ok_def)
  ultimately show ?thesis using pins by blast
qed

theorem ram_drains_witness:
  "reachable demo_tm (fst (tm_remove ideal_kernel (demo_stored []) []), [], []) \<and>
   tm_pins (fst (tm_remove ideal_kernel (demo_stored []) [])) = Map.empty"
proof -
  obtain tm b where r: "tm_remove ideal_kernel (demo_stored []) [] = (tm, b)" by (metis surj_pair)
  have "index_ok (tm_index (demo_stored []))"
    using reachable_world_ok [OF demo_stored_reachable] by (simp add: books_but_def)
  from drop_object_index(2) [OF this, of ideal_kernel "[]"] r
  have e: "index_lookup (tm_index tm) = Map.empty"
    by (auto simp: tm_remove_def tm_contains demo_stored_index split: if_splits)
  have "reachable demo_tm (tm, [], [])"
    by (rule reachable_step [OF demo_stored_reachable tm_step.removes [OF r]])
  with ram_drains [OF this e] r show ?thesis by simp
qed

text \<open>
  Property C9. A write always returns: in every reachable state the staging loop of an open
  handle ends, with success or an error, for every chunk and whatever the kernel answers.
\<close>

theorem handle_write_returns:
  assumes "reachable tm0 (tm, hs, ps)" and "h \<in> set hs"
  shows "\<exists>tm' h' res. handle_write k tm h chunk = Some (tm', h', res)"
proof -
  have "stage_fits h" using reachable_world_ok [OF assms(1)] assms(2) by (simp add: handle_ok_def)
  from handle_write_total [OF this] show ?thesis by blast
qed

theorem handle_write_returns_witness:
  "\<exists>tm' h' res. handle_write ideal_kernel demo_begun (demo_handle []) [1, 2] = Some (tm', h', res)"
  by (rule handle_write_returns [OF demo_begun_reachable, of _ "[]"]) simp

end
