(* ===== verification/Tier_Versions.thy ===== *)
theory Tier_Versions
  imports Tier_Engine
begin

text \<open>
  Versions of objects: the tokens (\<^verbatim>\<open>etag\<close>) that commits give out, compare-and-swap on them, and
  deadlines. Every step of the storage engine does one of three things to the index: it only
  loses entries and heads, it moves one deadline, or it installs one object under a fresh
  token.
\<close>

section \<open>What a step does to the index\<close>

text \<open>\<open>thinned f g\<close>: \<open>g\<close> has entries of \<open>f\<close> only, and of those perhaps no head.\<close>

definition thinned :: "(digest \<rightharpoonup> object_meta) \<Rightarrow> (digest \<rightharpoonup> object_meta) \<Rightarrow> bool" where
  "thinned f g \<longleftrightarrow> (\<forall>d m'. g d = Some m' \<longrightarrow> (\<exists>m. f d = Some m \<and> m' = m\<lparr>om_head := om_head m'\<rparr>))"

lemma thinned_refl [simp]: "thinned f f"
  by (auto simp: thinned_def)

lemma thinned_trans: "thinned f g \<Longrightarrow> thinned g h \<Longrightarrow> thinned f h"
proof (unfold thinned_def, intro allI impI)
  fix d m
  assume fg: "\<forall>d m'. g d = Some m' \<longrightarrow> (\<exists>m. f d = Some m \<and> m' = m\<lparr>om_head := om_head m'\<rparr>)"
    and gh: "\<forall>d m'. h d = Some m' \<longrightarrow> (\<exists>m. g d = Some m \<and> m' = m\<lparr>om_head := om_head m'\<rparr>)" and "h d = Some m"
  then obtain m1 where m1: "g d = Some m1" "m = m1\<lparr>om_head := om_head m\<rparr>" by blast
  with fg obtain m2 where m2: "f d = Some m2" "m1 = m2\<lparr>om_head := om_head m1\<rparr>" by blast
  have "m = m2\<lparr>om_head := om_head m\<rparr>" by (subst m1(2), subst m2(2)) simp
  with m2(1) show "\<exists>m2. f d = Some m2 \<and> m = m2\<lparr>om_head := om_head m\<rparr>" by blast
qed

lemma thinned_upd [simp]:
  "thinned f (f(d := None))" "f d = Some m \<Longrightarrow> thinned f (f(d \<mapsto> m\<lparr>om_head := hl\<rparr>))"
  by (auto simp: thinned_def)

definition thin :: "tier_manager \<Rightarrow> tier_manager \<Rightarrow> bool" where
  "thin tm tm' \<longleftrightarrow>
     thinned (index_lookup (tm_index tm)) (index_lookup (tm_index tm')) \<and>
     tm_etag_seq tm' = tm_etag_seq tm \<and> tm_any_ttl tm' = tm_any_ttl tm \<and> tm_max_objects tm' = tm_max_objects tm"

lemma thin_trans: "thin a b \<Longrightarrow> thin b c \<Longrightarrow> thin a c"
  by (auto simp: thin_def intro: thinned_trans)

lemma thin_same:
  "tm_index tm' = tm_index tm \<Longrightarrow> tm_etag_seq tm' = tm_etag_seq tm \<Longrightarrow> tm_any_ttl tm' = tm_any_ttl tm \<Longrightarrow>
     tm_max_objects tm' = tm_max_objects tm \<Longrightarrow> thin tm tm'"
  by (simp add: thin_def)

lemma same_books_thin: "same_books tm tm' \<Longrightarrow> thin tm tm'"
  by (simp add: same_books_def thin_same)

lemma drop_object_thin:
  assumes "index_ok (tm_index tm)"
  shows "thin tm (drop_object k tm d)"
  unfolding thin_def drop_object_index(2) [OF assms]
  by (simp add: drop_object_def Let_def split: option.split)

lemma evict_head_thin:
  assumes "index_ok (tm_index tm)"
  shows "thin tm (evict_head tm v)"
proof -
  have "thinned (index_lookup (tm_index tm)) (evicted_map tm v)"
    by (auto simp: evicted_map_def split: option.split)
  then show ?thesis unfolding thin_def evict_head_index(2) [OF assms]
    by (simp add: evict_head_def Let_def split: option.split)
qed

lemma make_room_thin:
  "index_ok (tm_index tm) \<Longrightarrow> make_room tm n = (r, tm') \<Longrightarrow> thin tm tm'"
proof (induction tm n rule: make_room.induct)
  case (1 tm n)
  obtain vo pol where e: "s3_evict (tm_policy tm) = (vo, pol)" by (cases "s3_evict (tm_policy tm)")
  show ?case
  proof (cases "bufpool_allocate (tm_ram tm) n")
    case (Some x)
    with "1.prems" show ?thesis by (cases x) (auto simp: make_room.simps [of tm] intro: thin_same)
  next
    case None
    show ?thesis
    proof (cases vo)
      case vo: None
      with None e "1.prems" show ?thesis by (auto simp: make_room.simps [of tm] intro: thin_same)
    next
      case (Some v)
      let ?tm = "tm\<lparr>tm_policy := pol\<rparr>"
      have ix: "index_ok (tm_index ?tm)" using "1.prems"(1) by simp
      from None e Some "1.prems" have "make_room (evict_head ?tm v) n = (r, tm')" by (simp add: make_room.simps [of tm])
      from "1.IH" [OF None e [symmetric] Some evict_head_index(1) [OF ix] this]
      have "thin (evict_head ?tm v) tm'" .
      with evict_head_thin [OF ix, of v] have "thin ?tm tm'" by (rule thin_trans)
      then show ?thesis by (simp add: thin_def)
    qed
  qed
qed

lemma enforce_object_bound_thin:
  "index_ok (tm_index tm) \<Longrightarrow> thin tm (enforce_object_bound k tm)"
proof (induction k tm rule: enforce_object_bound.induct)
  case (1 k tm)
  obtain vo pol where e: "s3_evict (tm_object_policy tm) = (vo, pol)" by (cases "s3_evict (tm_object_policy tm)")
  show ?case
  proof (cases "tm_max_objects tm \<noteq> 0 \<and> index_size (tm_index tm) > tm_max_objects tm")
    case over: True
    show ?thesis
    proof (cases vo)
      case None
      with over e show ?thesis by (simp add: enforce_object_bound.simps [of k tm] thin_same)
    next
      case (Some v)
      let ?tm = "tm\<lparr>tm_object_policy := pol\<rparr>"
      have ix: "index_ok (tm_index ?tm)" using "1.prems" by simp
      from "1.IH" [OF over e [symmetric] Some drop_object_index(1) [OF ix]] drop_object_thin [OF ix, of k v]
      have "thin ?tm (enforce_object_bound k (drop_object k ?tm v))" by (blast intro: thin_trans)
      with over e Some show ?thesis by (simp add: enforce_object_bound.simps [of k tm] thin_def)
    qed
  qed (auto simp: enforce_object_bound.simps [of k tm] intro: thin_same)
qed

lemma reserve_store_thin:
  assumes "reserve_store k tm d sz layout sfx sfd hfd = (tm', res)" and "index_ok (tm_index tm)"
  shows "thin tm tm'"
proof (cases "iopool_acquire (tm_write_pool tm)")
  case None
  with assms show ?thesis by (auto simp: reserve_store_def intro: thin_same)
next
  case (Some x)
  then obtain c wp where a: "iopool_acquire (tm_write_pool tm) = Some (c, wp)" by (cases x) simp
  let ?tm1 = "tm\<lparr>tm_write_pool := wp\<rparr>"
  let ?hl = "min sz (ram_head (tm_tiers ?tm1))"
  obtain ho tm2 where m: "(if 0 < ?hl then make_room ?tm1 (u32 ?hl) else (None, ?tm1)) = (ho, tm2)" by (metis surj_pair)
  have "thin ?tm1 tm2"
    using m make_room_thin [of ?tm1 "u32 ?hl" ho tm2] assms(2) by (auto simp: thin_same split: if_splits)
  then have "thin tm tm2" by (simp add: thin_def)
  then show ?thesis
    using assms(1) unfolding reserve_store_def a Let_def option.case prod.case m
    by (auto simp: thin_def split: if_splits)
qed

lemma begin_store_thin:
  assumes "begin_store k tm d sz = (tm', res)" and "index_ok (tm_index tm)"
  shows "thin tm tm'"
proof (cases rule: begin_store_cases [OF assms(1)])
  case (1 e fs)
  then show ?thesis by (simp add: thin_same)
next
  case (2 fs sfd hfd)
  from reserve_store_thin [OF 2] assms(2) show ?thesis by (simp add: thin_def)
qed

lemma tm_remove_thin: "index_ok (tm_index tm) \<Longrightarrow> tm_remove k tm d = (tm', b) \<Longrightarrow> thin tm tm' \<and> index_ok (tm_index tm')"
  using drop_object_index(1) by (auto simp: tm_remove_def drop_object_thin intro: thin_same split: if_splits)

lemma reap_loop_thin: "index_ok (tm_index tm) \<Longrightarrow> reap_loop k tm ds n = (tm', n') \<Longrightarrow> thin tm tm'"
proof (induction ds arbitrary: tm n)
  case (Cons d ds)
  obtain tm1 b where r: "tm_remove k tm d = (tm1, b)" by (metis surj_pair)
  from tm_remove_thin [OF Cons.prems(1) r] Cons r show ?case by (auto intro: thin_trans)
qed (simp add: thin_same)

text \<open>File errors are \<^verbatim>\<open>io_error\<close>, so that a mismatch is told apart from them.\<close>

lemma pwrite_loop_error: "pwrite_loop pw ino fo src st = (st', Inl e) \<Longrightarrow> code e = io_error"
proof (induction pw ino fo src st rule: pwrite_loop.induct)
  case (1 pw ino fo src st)
  then show ?case by (subst (asm) (2) pwrite_loop.simps) (auto simp: Let_def fun_upd_def split: if_splits)
qed

lemma pwrite_segs_error: "pwrite_segs pw fds segs data st = (st', Inl e) \<Longrightarrow> code e = io_error"
  by (induction pw fds segs data st rule: pwrite_segs.induct)
    (auto split: option.splits prod.splits sum.splits dest: pwrite_loop_error)

lemma tier_pwrite_error: "tier_pwrite k tm p d fds off bs = (tm', Inl e) \<Longrightarrow> code e = io_error"
  by (auto simp: tier_pwrite_def striped_pwrite_def split: prod.splits dest: pwrite_segs_error)

lemma flush_block_error: "flush_block k tm h n = (tm', h', Inl e) \<Longrightarrow> code e = io_error"
  unfolding flush_block_def Let_def
  by (auto split: prod.splits sum.splits if_splits option.splits dest: tier_pwrite_error)

lemma publish_loop_error: "publish_loop k p d tmp live cs fs = (fs', Inl e) \<Longrightarrow> code e = io_error"
  by (induction k p d tmp live cs fs rule: publish_loop.induct) (auto split: option.splits)

lemma publish_tiers_error: "publish_tiers k tm h = (tm', Inl e) \<Longrightarrow> code e = io_error"
  by (auto simp: publish_tiers_def pool_publish_def Let_def dest: publish_loop_error
      split: prod.splits sum.splits if_splits option.splits)

text \<open>A commit either leaves the books alone or installs the new version.\<close>

lemma commit_cases:
  assumes c: "commit k now tm h flags expiry cas = (tm', h', res)" and fits: "stage_fits h"
  obtains (fails) e where "res = Inl e" "same_books tm tm'"
      "code e = cas_mismatch \<Longrightarrow> cas_fails now cas (index_lookup (tm_index tm) (sh_digest h))"
  | (installs) tm1 h1 where "res = Inr ()" "same_books tm tm1" "same_handle h h1"
      "\<not> cas_fails now cas (index_lookup (tm_index tm) (sh_digest h))"
      "tm' = enforce_object_bound k (swap_in tm1 h1 (index_lookup (tm_index tm) (sh_digest h)) flags expiry)"
proof (cases "sh_off h \<noteq> ol_size (sh_layout h)")
  case True
  with c show thesis by (intro fails) (auto simp: commit_def)
next
  case len: False
  let ?old = "index_lookup (tm_index tm) (sh_digest h)"
  obtain tm1 h1 r1 where f: "flush_tail k tm h = (tm1, h1, r1)" by (metis prod_cases3)
  have fs: "same_books tm tm1" "same_handle h h1" using flush_tail_same [OF f fits] by simp_all
  obtain tm2 r2 where p: "publish_tiers k tm1 h1 = (tm2, r2)" by (metis surj_pair)
  have sb: "same_books tm tm2" using publish_tiers_same [OF p] fs(1) same_books_trans by blast
  have ix: "tm_index tm1 = tm_index tm" "sh_digest h1 = sh_digest h"
    using fs by (simp_all add: same_books_def same_handle_def)
  show thesis
  proof (cases r1)
    case (Inl e)
    with c f len have r: "res = Inl e" "tm' = tm1" by (auto simp: commit_def)
    have "code e = io_error"
      using f Inl flush_block_error by (fastforce simp: flush_tail_def Let_def split: if_splits)
    then have "code e \<noteq> cas_mismatch" by simp
    with r fs show thesis by (intro fails [of e]) auto
  next
    case (Inr u)
    with c f len have pub: "publish_object k now tm1 h1 flags expiry cas = (tm', h', res)" by (simp add: commit_def)
    show thesis
    proof (cases "cas_fails now cas ?old")
      case True
      with pub ix fs(1) show thesis by (intro fails) (auto simp: publish_object_def Let_def)
    next
      case False
      show thesis
      proof (cases r2)
        case (Inl e)
        with pub ix False p publish_tiers_error [of k tm1 h1 tm2 e] sb show thesis
          by (intro fails [of e]) (auto simp: publish_object_def Let_def)
      next
        case (Inr v)
        with pub ix False p sb fs(2) show thesis
          by (intro installs [of tm2 h1]) (auto simp: publish_object_def Let_def install_object_def)
      qed
    qed
  qed
qed

lemma swap_in_index:
  assumes "index_ok (tm_index tm)"
  shows "index_ok (tm_index (swap_in tm h old flags expiry))"
    and "index_lookup (tm_index (swap_in tm h old flags expiry)) =
      (index_lookup (tm_index tm))(sh_digest h \<mapsto> new_meta tm h flags expiry)"
  using index_set_ok [OF assms] by (simp_all add: swap_in_sel)

text \<open>The effect of a successful commit on index and counters.\<close>

lemma commit_installs:
  assumes c: "commit k now tm h flags expiry cas = (tm', h', Inr u)" and fits: "stage_fits h"
    and ix: "index_ok (tm_index tm)" and seq: "tm_etag_seq tm + 1 < 2 ^ 64"
  defines "m \<equiv> \<lparr>om_size = ol_size (sh_layout h), om_flags = flags, om_expiry = expiry,
     om_etag = tm_etag_seq tm + 1, om_head = region_loc (sh_head h)\<rparr>"
  shows "\<not> cas_fails now cas (index_lookup (tm_index tm) (sh_digest h))"
    and "thinned ((index_lookup (tm_index tm))(sh_digest h \<mapsto> m)) (index_lookup (tm_index tm'))"
    and "tm_max_objects tm = 0 \<Longrightarrow> index_lookup (tm_index tm') = (index_lookup (tm_index tm))(sh_digest h \<mapsto> m)"
    and "tm_etag_seq tm' = tm_etag_seq tm + 1"
    and "tm_any_ttl tm' = (expiry \<noteq> 0 \<or> tm_any_ttl tm)"
proof -
  let ?old = "index_lookup (tm_index tm) (sh_digest h)"
  obtain tm1 h1 where sb: "same_books tm tm1" and sh: "same_handle h h1"
    and cf: "\<not> cas_fails now cas ?old"
    and tm': "tm' = enforce_object_bound k (swap_in tm1 h1 ?old flags expiry)"
    by (cases rule: commit_cases [OF c fits]) auto
  define tm2 where "tm2 = swap_in tm1 h1 ?old flags expiry"
  have ix1: "index_ok (tm_index tm1)" using sb ix by (simp add: same_books_def)
  have nm: "new_meta tm1 h1 flags expiry = m"
    using sb sh seq by (simp add: new_meta_def m_def same_books_def same_handle_def u64_id)
  note sw = swap_in_index [OF ix1, of h1 ?old flags expiry, unfolded nm, folded tm2_def]
  have l: "index_lookup (tm_index tm2) = (index_lookup (tm_index tm))(sh_digest h \<mapsto> m)"
    using sw(2) sb sh by (simp add: same_books_def same_handle_def)
  have th: "thin tm2 tm'" unfolding tm' tm2_def [symmetric] by (rule enforce_object_bound_thin [OF sw(1)])
  show "\<not> cas_fails now cas ?old" by (rule cf)
  show "thinned ((index_lookup (tm_index tm))(sh_digest h \<mapsto> m)) (index_lookup (tm_index tm'))"
    using th unfolding thin_def l by blast
  show "index_lookup (tm_index tm') = (index_lookup (tm_index tm))(sh_digest h \<mapsto> m)" if "tm_max_objects tm = 0"
  proof -
    have "tm_max_objects tm2 = 0" using that sb by (simp add: tm2_def swap_in_sel same_books_def)
    then have "tm' = tm2" unfolding tm' tm2_def [symmetric] by (subst enforce_object_bound.simps) simp
    with l show ?thesis by simp
  qed
  show "tm_etag_seq tm' = tm_etag_seq tm + 1" "tm_any_ttl tm' = (expiry \<noteq> 0 \<or> tm_any_ttl tm)"
    using th sb seq by (simp_all add: thin_def tm2_def swap_in_sel same_books_def u64_id)
qed

text \<open>The operations of handles and pins that leave the index alone.\<close>

lemma quiet_thin:
  "abort_uncommitted k tm h = (tm', h') \<Longrightarrow> thin tm tm'"
  "pin_head tm d = (tm', qo) \<Longrightarrow> thin tm tm'"
  "open_snapshot k now tm d = (tm', so) \<Longrightarrow> thin tm tm'"
  "thin tm (unpin_head tm q)"
proof -
  show "thin tm tm'" if "abort_uncommitted k tm h = (tm', h')"
    using that by (cases "sh_head h") (auto simp: abort_uncommitted_def Let_def thin_same split: if_splits)
  show "thin tm tm'" if "pin_head tm d = (tm', qo)"
    using that by (auto simp: pin_head_def take_pin_def Let_def thin_same split: option.splits if_splits)
  show "thin tm tm'" if "open_snapshot k now tm d = (tm', so)"
    using that by (auto simp: open_snapshot_def take_pin_def Let_def thin_same split: option.splits if_splits sum.splits)
  show "thin tm (unpin_head tm q)"
    by (auto simp: unpin_head_def Let_def thin_same split: option.splits)
qed

text \<open>The three kinds of step.\<close>

lemma step_versions:
  assumes "tm_step (tm, hs, ps) (tm', hs', ps')" and w: "world_ok (tm, hs, ps)"
  obtains (thins) "thin tm tm'"
  | (deadline) d m expiry where "index_lookup (tm_index tm) d = Some m"
      "index_lookup (tm_index tm') = (index_lookup (tm_index tm))(d \<mapsto> m\<lparr>om_expiry := expiry\<rparr>)"
      "tm_etag_seq tm' = tm_etag_seq tm" "tm_any_ttl tm' = (expiry \<noteq> 0 \<or> tm_any_ttl tm)"
  | (installed) d m where "om_etag m = tm_etag_seq tm + 1"
      "thinned ((index_lookup (tm_index tm))(d \<mapsto> m)) (index_lookup (tm_index tm'))"
      "tm_etag_seq tm' = tm_etag_seq tm + 1" "tm_any_ttl tm' = (om_expiry m \<noteq> 0 \<or> tm_any_ttl tm)"
proof -
  have ix: "index_ok (tm_index tm)" using w by (simp add: books_but_def)
  have fits: "stage_fits h" if "h \<in> set hs" for h using w that by (simp add: handle_ok_def)
  from assms(1) show thesis
  proof (cases rule: tm_step.cases)
    case (writes k h chunk h' res xs ys)
    then have "h \<in> set hs" by simp
    from handle_write_total [OF fits [OF this], of k tm chunk] writes
    show ?thesis by (intro thins) (auto intro: same_books_thin)
  next
    case (commit_ok k now h flags expiry cas h' u xs ys)
    then have "h \<in> set hs" by simp
    from commit_installs [OF commit_ok(4) fits [OF this] ix commit_ok(5)] show ?thesis
      by (intro installed [of "\<lparr>om_size = ol_size (sh_layout h), om_flags = flags, om_expiry = expiry,
         om_etag = tm_etag_seq tm + 1, om_head = region_loc (sh_head h)\<rparr>" "sh_digest h"]) simp_all
  next
    case (commit_fails k now h flags expiry cas h' e xs ys)
    then have "same_books tm tm'" by (cases rule: commit_cases [OF commit_fails(4) fits]) auto
    then show ?thesis by (intro thins same_books_thin)
  next
    case (reaps k now n)
    with reap_loop_thin [OF ix] show ?thesis
      by (intro thins) (auto simp: reap_expired_def thin_same split: if_splits)
  next
    case (ttl d expiry b)
    show ?thesis
    proof (cases "index_lookup (tm_index tm) d")
      case None
      with ttl index_update_expiry_ok [OF ix, of d expiry] show ?thesis
        by (intro thins) (auto simp: touch_ttl_def thin_def split: prod.splits)
    next
      case (Some m)
      with ttl index_update_expiry_ok [OF ix, of d expiry] show ?thesis
        by (intro deadline [of d m expiry]) (auto simp: touch_ttl_def split: prod.splits if_splits)
    qed
  qed (use ix in \<open>auto intro!: thins intro: thin_same begin_store_thin dest: tm_remove_thin quiet_thin(1-3) simp: tm_touch_def quiet_thin(4)\<close>)
qed

section \<open>Tokens and deadlines\<close>

text \<open>
  Every indexed token was given out by a commit, no two objects share one, and an object with
  a deadline has raised the flag that makes the reaper look.
\<close>

definition versions_ok :: "tier_manager \<Rightarrow> bool" where
  "versions_ok tm \<longleftrightarrow>
     (\<forall>d m. index_lookup (tm_index tm) d = Some m \<longrightarrow>
        0 < om_etag m \<and> om_etag m \<le> tm_etag_seq tm \<and> (om_expiry m \<noteq> 0 \<longrightarrow> tm_any_ttl tm)) \<and>
     (\<forall>d1 d2 m1 m2. index_lookup (tm_index tm) d1 = Some m1 \<longrightarrow> index_lookup (tm_index tm) d2 = Some m2 \<longrightarrow>
        om_etag m1 = om_etag m2 \<longrightarrow> d1 = d2)"

lemma versions_okD:
  assumes "versions_ok tm" and "index_lookup (tm_index tm) d = Some m"
  shows "0 < om_etag m" "om_etag m \<le> tm_etag_seq tm" "om_expiry m \<noteq> 0 \<Longrightarrow> tm_any_ttl tm"
    "index_lookup (tm_index tm) d2 = Some m2 \<Longrightarrow> om_etag m2 = om_etag m \<Longrightarrow> d2 = d"
  using assms unfolding versions_ok_def by metis+

lemma thinned_sel:
  assumes "thinned f g" and "g d = Some m'"
  obtains m where "f d = Some m" "om_etag m' = om_etag m" "om_expiry m' = om_expiry m" "om_size m' = om_size m"
    "om_flags m' = om_flags m"
proof -
  from assms obtain m where m: "f d = Some m" "m' = m\<lparr>om_head := om_head m'\<rparr>" unfolding thinned_def by blast
  show thesis by (rule that [OF m(1)]) (subst m(2), simp)+
qed

lemma versions_ok_thin:
  assumes v: "\<And>d m. f d = Some m \<Longrightarrow> 0 < om_etag m \<and> om_etag m \<le> tm_etag_seq tm \<and> (om_expiry m \<noteq> 0 \<longrightarrow> tm_any_ttl tm)"
    and u: "\<And>d1 d2 m1 m2. f d1 = Some m1 \<Longrightarrow> f d2 = Some m2 \<Longrightarrow> om_etag m1 = om_etag m2 \<Longrightarrow> d1 = d2"
    and t: "thinned f (index_lookup (tm_index tm))"
  shows "versions_ok tm"
  unfolding versions_ok_def using v u by (metis thinned_sel [OF t])

definition token_gone :: "tier_manager \<Rightarrow> nat \<Rightarrow> bool" where
  "token_gone tm c \<longleftrightarrow> (\<forall>d m. index_lookup (tm_index tm) d = Some m \<longrightarrow> om_etag m \<noteq> c)"

lemma step_versions_ok:
  assumes s: "tm_step (tm, hs, ps) (tm', hs', ps')" and w: "world_ok (tm, hs, ps)" and v: "versions_ok tm"
  shows "versions_ok tm'" and "tm_etag_seq tm \<le> tm_etag_seq tm'"
    and "c \<le> tm_etag_seq tm \<Longrightarrow> token_gone tm c \<Longrightarrow> token_gone tm' c"
proof -
  have "versions_ok tm' \<and> tm_etag_seq tm \<le> tm_etag_seq tm' \<and>
    (c \<le> tm_etag_seq tm \<longrightarrow> token_gone tm c \<longrightarrow> token_gone tm' c)"
  proof (cases rule: step_versions [OF s w])
    case 1
    then have t: "thinned (index_lookup (tm_index tm)) (index_lookup (tm_index tm'))"
      and e: "tm_etag_seq tm' = tm_etag_seq tm" "tm_any_ttl tm' = tm_any_ttl tm" by (simp_all add: thin_def)
    have "versions_ok tm'"
      by (rule versions_ok_thin [OF _ _ t]) (use versions_okD [OF v] e in auto)
    moreover have "token_gone tm' c" if "token_gone tm c"
      using that unfolding token_gone_def by (auto elim!: thinned_sel [OF t]) blast
    ultimately show ?thesis using e by simp
  next
    case (2 d m expiry)
    have sel: "\<exists>m1. index_lookup (tm_index tm) x = Some m1 \<and> om_etag m' = om_etag m1 \<and>
        (om_expiry m' \<noteq> 0 \<longrightarrow> expiry \<noteq> 0 \<or> om_expiry m1 \<noteq> 0)"
      if "index_lookup (tm_index tm') x = Some m'" for x m' using that 2(1,2) by (auto split: if_splits)
    have "versions_ok tm'" unfolding versions_ok_def
    proof (intro conjI allI impI)
      fix x m'
      assume "index_lookup (tm_index tm') x = Some m'"
      from sel [OF this] obtain m1 where m1: "index_lookup (tm_index tm) x = Some m1" "om_etag m' = om_etag m1"
        "om_expiry m' \<noteq> 0 \<longrightarrow> expiry \<noteq> 0 \<or> om_expiry m1 \<noteq> 0" by blast
      from versions_okD [OF v m1(1)] m1 2(3,4)
      show "0 < om_etag m'" "om_etag m' \<le> tm_etag_seq tm'" "om_expiry m' \<noteq> 0 \<Longrightarrow> tm_any_ttl tm'" by auto
      fix y n'
      assume "index_lookup (tm_index tm') y = Some n'" "om_etag m' = om_etag n'"
      with sel [OF this(1)] versions_okD(4) [OF v m1(1)] m1(2) show "x = y" by auto
    qed
    moreover have "token_gone tm' c" if "token_gone tm c" using that sel unfolding token_gone_def by metis
    ultimately show ?thesis using 2(3) by simp
  next
    case (3 d m)
    have le: "om_etag m' < om_etag m" if "index_lookup (tm_index tm) x = Some m'" for x m'
      using versions_okD(2) [OF v that] 3(1) by simp
    let ?f = "(index_lookup (tm_index tm))(d \<mapsto> m)"
    have "versions_ok tm'"
    proof (rule versions_ok_thin [OF _ _ 3(2)])
      show "0 < om_etag m1 \<and> om_etag m1 \<le> tm_etag_seq tm' \<and> (om_expiry m1 \<noteq> 0 \<longrightarrow> tm_any_ttl tm')"
        if "?f x = Some m1" for x m1
      proof (cases "x = d")
        case False
        with that have l: "index_lookup (tm_index tm) x = Some m1" by simp
        from versions_okD(1-3) [OF v l] 3(3,4) show ?thesis by auto
      qed (use that 3 in auto)
      show "d1 = d2" if "?f d1 = Some m1" "?f d2 = Some m2" "om_etag m1 = om_etag m2" for d1 d2 m1 m2
        using that le [of d1 m1] le [of d2 m2] versions_okD(4) [OF v, of d2 m2 d1 m1] by (auto split: if_splits)
    qed
    moreover have "token_gone tm' c" if "c \<le> tm_etag_seq tm" "token_gone tm c"
      using that 3(1) unfolding token_gone_def by (auto elim!: thinned_sel [OF 3(2)] split: if_splits) blast
    ultimately show ?thesis using 3(3) by auto
  qed
  then show "versions_ok tm'" "tm_etag_seq tm \<le> tm_etag_seq tm'"
    "c \<le> tm_etag_seq tm \<Longrightarrow> token_gone tm c \<Longrightarrow> token_gone tm' c" by blast+
qed

text \<open>The invariant along every run, with a token that is gone staying gone.\<close>

lemma steps_versions_ok:
  assumes "tm_step\<^sup>*\<^sup>* w w'" and "world_ok w" and "versions_ok (fst w)"
  shows "versions_ok (fst w') \<and> tm_etag_seq (fst w) \<le> tm_etag_seq (fst w') \<and>
    (c \<le> tm_etag_seq (fst w) \<longrightarrow> token_gone (fst w) c \<longrightarrow> token_gone (fst w') c)"
  using assms(1)
proof induction
  case base
  with assms(3) show ?case by simp
next
  case (step y z)
  obtain tm hs ps where y: "y = (tm, hs, ps)" by (metis prod_cases3)
  obtain tm' hs' ps' where z: "z = (tm', hs', ps')" by (metis prod_cases3)
  from tm_steps_world [OF step.hyps(1) assms(2)] have wy: "world_ok (tm, hs, ps)" by (simp add: y del: world_ok.simps)
  from step.hyps(2) have s: "tm_step (tm, hs, ps) (tm', hs', ps')" by (simp add: y z)
  have v: "versions_ok tm" using step.IH by (simp add: y)
  from step_versions_ok(1,2) [OF s wy v] step_versions_ok(3) [OF s wy v, of c] step.IH show ?case by (auto simp: y z)
qed

lemma reachable_versions_ok:
  assumes "reachable tm0 (tm, hs, ps)"
  shows "versions_ok tm"
proof -
  from assms obtain ra ia ml k t mc ev sc hc b io_chunk wb dio mem fs where
    o: "tm_open ra ia ml k t mc ev sc hc (index_new b) io_chunk wb dio mem fs = Inr tm0"
    and ok: "open_ok ra ia mc io_chunk wb" and s: "tm_step\<^sup>*\<^sup>* (tm0, [], []) (tm, hs, ps)"
    unfolding reachable_def by blast
  have "tm_index tm0 = index_new b"
    using o by (auto simp: tm_open_def Let_def split: sum.splits if_splits)
  then have "versions_ok tm0" by (simp add: versions_ok_def index_new_lookup)
  with steps_versions_ok [OF s tm_open_world [OF o ok]] show ?thesis by simp
qed

lemma reachable_index_ok: "reachable tm0 (tm, hs, ps) \<Longrightarrow> index_ok (tm_index tm)"
  using reachable_world_ok [of tm0 "(tm, hs, ps)"] by (simp add: books_but_def)

lemma reachable_stage_fits: "reachable tm0 (tm, hs, ps) \<Longrightarrow> h \<in> set hs \<Longrightarrow> stage_fits h"
  using reachable_world_ok [of tm0 "(tm, hs, ps)"] by (simp add: handle_ok_def)

section \<open>Properties\<close>

text \<open>
  Property C4. Commit is compare-and-swap: a failing commit leaves the index as it is, and it
  reports a mismatch only when a token was expected and the object is absent, expired or at
  another token; a succeeding one found the expected token, and replaces the entry by one with
  the new size, flags and deadline under a token larger than every one given out before. Other
  entries are not altered; the object bound may only evict.
\<close>

theorem commit_compare_and_swap:
  assumes "reachable tm0 (tm, hs, ps)" and "h \<in> set hs" and "tm_etag_seq tm + 1 < 2 ^ 64"
    and "commit k now tm h flags expiry cas = (tm', h', res)"
  shows "case res of
      Inl e \<Rightarrow> tm_index tm' = tm_index tm \<and> tm_etag_seq tm' = tm_etag_seq tm \<and>
        (code e = cas_mismatch \<longrightarrow> cas \<noteq> 0 \<and>
           (\<forall>m. index_lookup (tm_index tm) (sh_digest h) = Some m \<longrightarrow> is_expired m now \<or> om_etag m \<noteq> cas))
    | Inr _ \<Rightarrow>
        (cas \<noteq> 0 \<longrightarrow>
           (\<exists>m. index_lookup (tm_index tm) (sh_digest h) = Some m \<and> \<not> is_expired m now \<and> om_etag m = cas)) \<and>
        (\<forall>d m. index_lookup (tm_index tm) d = Some m \<longrightarrow> om_etag m < tm_etag_seq tm + 1) \<and>
        (\<forall>d m'. index_lookup (tm_index tm') d = Some m' \<longrightarrow>
           (if d = sh_digest h
            then om_size m' = ol_size (sh_layout h) \<and> om_flags m' = flags \<and> om_expiry m' = expiry \<and>
                 om_etag m' = tm_etag_seq tm + 1
            else \<exists>m. index_lookup (tm_index tm) d = Some m \<and> m' = m\<lparr>om_head := om_head m'\<rparr>)) \<and>
        (tm_max_objects tm = 0 \<longrightarrow>
           dom (index_lookup (tm_index tm')) = insert (sh_digest h) (dom (index_lookup (tm_index tm))))"
proof (cases res)
  case (Inl e)
  show ?thesis
  proof (cases rule: commit_cases [OF assms(4) reachable_stage_fits [OF assms(1,2)]])
    case (1 e')
    with Inl show ?thesis by (auto simp: same_books_def cas_fails_def split: option.splits)
  qed (use Inl in simp)
next
  case (Inr u)
  note ci = commit_installs [OF assms(4) [unfolded Inr] reachable_stage_fits [OF assms(1,2)]
      reachable_index_ok [OF assms(1)] assms(3)]
  have "\<forall>d m. index_lookup (tm_index tm) d = Some m \<longrightarrow> om_etag m < tm_etag_seq tm + 1"
    using versions_okD(2) [OF reachable_versions_ok [OF assms(1)]] by fastforce
  moreover have "cas \<noteq> 0 \<longrightarrow>
      (\<exists>m. index_lookup (tm_index tm) (sh_digest h) = Some m \<and> \<not> is_expired m now \<and> om_etag m = cas)"
    using ci(1) by (auto simp: cas_fails_def split: option.splits)
  moreover have "if d = sh_digest h
        then om_size m' = ol_size (sh_layout h) \<and> om_flags m' = flags \<and> om_expiry m' = expiry \<and>
             om_etag m' = tm_etag_seq tm + 1
        else \<exists>m. index_lookup (tm_index tm) d = Some m \<and> m' = m\<lparr>om_head := om_head m'\<rparr>"
    if "index_lookup (tm_index tm') d = Some m'" for d m'
  proof (cases "d = sh_digest h")
    case True
    with that show ?thesis by (elim thinned_sel [OF ci(2)]) auto
  next
    case False
    with ci(2) that show ?thesis unfolding thinned_def by (metis fun_upd_other)
  qed
  moreover have "tm_max_objects tm = 0 \<longrightarrow>
      dom (index_lookup (tm_index tm')) = insert (sh_digest h) (dom (index_lookup (tm_index tm)))"
    using ci(3) by simp
  ultimately show ?thesis using Inr by simp
qed

theorem commit_compare_and_swap_witness:
  "\<exists>tm' h' e. commit ideal_kernel 0 demo_written (demo_handle []\<lparr>sh_off := 3\<rparr>) 0 0 7 = (tm', h', Inl e) \<and>
     code e = cas_mismatch \<and> tm_index tm' = tm_index demo_written"
proof -
  obtain tm' h' res where c: "commit ideal_kernel 0 demo_written (demo_handle []\<lparr>sh_off := 3\<rparr>) 0 0 7 = (tm', h', res)"
    by (metis prod_cases3)
  have r: "res = err cas_mismatch []"
    using c by (simp add: commit_def flush_tail_def publish_object_def demo_handle_def demo_layout Let_def cas_fails_def
        demo_written_def demo_begun_def demo_tm_def index_new_lookup)
  have "tm_etag_seq demo_written + 1 < 2 ^ 64" by (simp add: demo_written_def demo_begun_def demo_tm_def)
  from commit_compare_and_swap [OF demo_written_reachable [of "[]"] _ this c] r c show ?thesis by simp
qed

text \<open>
  Property C5. A token is good for one swap: once a commit that expected token \<open>cas\<close> has
  succeeded, no commit that expects the same token succeeds again, on any key, at any later
  time, whatever happens in between. So of two clients that read the same version and write
  back with its token, at most one wins.
\<close>

theorem cas_token_once:
  assumes "reachable tm0 (tm, xs @ h # ys, ps)" and "tm_etag_seq tm + 1 < 2 ^ 64" and "cas \<noteq> 0"
    and "commit k now tm h flags expiry cas = (tm1, h1, Inr u)"
    and "tm_step\<^sup>*\<^sup>* (tm1, xs @ ys, ps) (tm2, hs2, ps2)" and "g \<in> set hs2"
  shows "\<exists>tm3 g' e. commit k' now' tm2 g flags' expiry' cas = (tm3, g', Inl e)"
proof -
  have h: "h \<in> set (xs @ h # ys)" by simp
  have s: "tm_step (tm, xs @ h # ys, ps) (tm1, xs @ ys, ps)" by (rule tm_step.commit_ok [OF assms(4,2)])
  have r1: "reachable tm0 (tm1, xs @ ys, ps)" by (rule reachable_step [OF assms(1) s])
  have r2: "reachable tm0 (tm2, hs2, ps2)" using r1 assms(5) unfolding reachable_def by (meson rtranclp_trans)
  note v = reachable_versions_ok [OF assms(1)]
  note ci = commit_installs [OF assms(4) reachable_stage_fits [OF assms(1) h] reachable_index_ok [OF assms(1)] assms(2)]
  from ci(1) assms(3) obtain m where m: "index_lookup (tm_index tm) (sh_digest h) = Some m" "om_etag m = cas"
    by (auto simp: cas_fails_def split: option.splits)
  have le: "cas \<le> tm_etag_seq tm" using versions_okD(2) [OF v m(1)] m(2) by simp
  have "token_gone tm1 cas"
    using le versions_okD(4) [OF v m(1)] m(2) unfolding token_gone_def
    by (auto elim!: thinned_sel [OF ci(2)] split: if_splits)
  with steps_versions_ok [OF assms(5) reachable_world_ok [OF r1], of cas] reachable_versions_ok [OF r1] le ci(4)
  have gone: "token_gone tm2 cas" by simp
  obtain tm3 g' res where c: "commit k' now' tm2 g flags' expiry' cas = (tm3, g', res)" by (metis prod_cases3)
  show ?thesis
  proof (cases rule: commit_cases [OF c reachable_stage_fits [OF r2 assms(6)]])
    case (1 e)
    with c show ?thesis by blast
  next
    case (2 tm4 h4)
    with gone assms(3) show ?thesis by (auto simp: cas_fails_def token_gone_def split: option.splits)
  qed
qed

text \<open>
  The demonstration object has token 1. A second handle that expects it succeeds once.
\<close>

lemma begin_empty:
  assumes "iopool_acquire (tm_write_pool tm) = Some (stage, wp)"
  shows "begin_store k tm d 0 = (tm\<lparr>tm_store_seq := u64 (tm_store_seq tm + 1), tm_write_pool := wp\<rparr>,
    Inr \<lparr>sh_digest = d, sh_layout = compute_layout 0 (tm_tiers tm) (three_layer tm), sh_ssd = [], sh_hdd = None,
      sh_head = None, sh_suffix = ''.tmp.'' @ dec_str (tm_store_seq tm), sh_stage = stage, sh_stage_fill = 0,
      sh_flushed = 0, sh_off = 0, sh_committed = False\<rparr>)"
  using assms by (simp add: begin_store_def reserve_store_def layout_small Let_def)

lemma commit_empty:
  assumes "sh_layout h = compute_layout 0 t three" and "sh_off h = 0" and "sh_stage_fill h = 0"
    and "\<not> cas_fails now cas (index_lookup (tm_index tm) (sh_digest h))"
  shows "\<exists>tm' h'. commit k now tm h flags expiry cas = (tm', h', Inr ())"
  using assms
  by (simp add: commit_def flush_tail_def publish_object_def publish_tiers_def install_object_def layout_small Let_def
      split: option.split)

lemma demo_stored_pool:
  "tm_write_pool (demo_stored d) =
     \<lparr>bp_base = 131072, bp_block_bytes = 4096, bp_num_blocks = 2, bp_locked = False, bp_free = [1, 0]\<rparr>"
  "tm_store_seq (demo_stored d) = 1" "tm_etag_seq (demo_stored d) = 1"
  by (simp_all add: demo_stored_def swap_in_sel demo_written_def demo_begun_def demo_tm_def blockpool_new_def
      iopool_release_def blockpool_release_def demo_handle_def u64_def u32_def)

theorem cas_token_once_witness:
  "\<exists>tm g tm' g' e. 1 \<in> om_etag ` ran (index_lookup (tm_index (demo_stored []))) \<and>
     commit ideal_kernel 0 tm g 0 0 1 = (tm', g', Inl e)"
proof -
  let ?s = "demo_stored []"
  obtain tm1 h1 where b1: "begin_store ideal_kernel ?s [] 0 = (tm1, Inr h1)"
    and tm1: "tm_index tm1 = tm_index ?s" "tm_etag_seq tm1 = 1" "tm_store_seq tm1 = 2"
      "iopool_acquire (tm_write_pool tm1) \<noteq> None"
    and h1: "sh_layout h1 = compute_layout 0 (tm_tiers ?s) (three_layer ?s)" "sh_off h1 = 0" "sh_stage_fill h1 = 0"
      "sh_digest h1 = []"
    by (simp add: begin_empty demo_stored_pool iopool_acquire_def blockpool_acquire_def blockpool_block_data_def u64_def)
  from tm1(4) obtain tm2 h2 where b2: "begin_store ideal_kernel tm1 [1] 0 = (tm2, Inr h2)"
    and tm2: "tm_index tm2 = tm_index ?s" "tm_etag_seq tm2 = 1" using tm1 by (auto simp: begin_empty)
  have s1: "tm_step (?s, [], []) (tm1, [h1], [])" by (rule tm_step.begin_ok [OF b1]) (simp add: demo_stored_pool)
  have s2: "tm_step (tm1, [h1], []) (tm2, [h2, h1], [])" by (rule tm_step.begin_ok [OF b2]) (simp add: tm1)
  have r2: "reachable demo_tm (tm2, [h2] @ h1 # [], [])"
    using reachable_step [OF reachable_step [OF demo_stored_reachable s1] s2] by simp
  obtain tm3 h3 where c: "commit ideal_kernel 0 tm2 h1 0 0 1 = (tm3, h3, Inr ())"
    using commit_empty [OF h1(1-3), of 0 1 tm2 ideal_kernel 0 0]
    by (auto simp: cas_fails_def tm2 h1(4) demo_stored_index is_expired_def)
  have "\<exists>tm4 g' e. commit ideal_kernel 0 tm3 h2 0 0 1 = (tm4, g', Inl e)"
    by (rule cas_token_once [OF r2 _ _ c rtranclp.rtrancl_refl]) (simp_all add: tm2)
  moreover have "1 \<in> om_etag ` ran (index_lookup (tm_index ?s))" by (simp add: demo_stored_index)
  ultimately show ?thesis by blast
qed

text \<open>Removing the listed objects one by one; an object listed twice counts once.\<close>

lemma reap_loop_index:
  "index_ok (tm_index tm) \<Longrightarrow> reap_loop k tm ds n = (tm', n') \<Longrightarrow>
     index_lookup (tm_index tm') = index_lookup (tm_index tm) |` (- set ds) \<and>
     n' = n + card (set ds \<inter> dom (index_lookup (tm_index tm)))"
proof (induction ds arbitrary: tm n)
  case Nil
  then show ?case by (simp add: restrict_map_def)
next
  case (Cons d ds)
  let ?f = "index_lookup (tm_index tm)"
  obtain tm1 b where r: "tm_remove k tm d = (tm1, b)" by (metis surj_pair)
  have rest: "reap_loop k tm1 ds (if b then n + 1 else n) = (tm', n')" using Cons.prems(2) r by simp
  have b: "b \<longleftrightarrow> d \<in> dom ?f" and f1: "index_lookup (tm_index tm1) = ?f(d := None)"
    using r drop_object_index(2) [OF Cons.prems(1), of k d]
    by (auto simp: tm_remove_def tm_contains split: if_splits)
  have ok: "index_ok (tm_index tm1)" using tm_remove_thin [OF Cons.prems(1) r] by simp
  note ih = Cons.IH [OF ok rest]
  have "index_lookup (tm_index tm') = ?f |` (- set (d # ds))"
    using ih f1 by (auto simp: restrict_map_def fun_eq_iff)
  moreover have "card (set (d # ds) \<inter> dom ?f) = (if b then 1 else 0) + card (set ds \<inter> (dom ?f - {d}))"
  proof (cases b)
    case True
    then have "set (d # ds) \<inter> dom ?f = insert d (set ds \<inter> (dom ?f - {d}))" using b by auto
    with True show ?thesis by simp
  next
    case False
    then have "set (d # ds) \<inter> dom ?f = set ds \<inter> (dom ?f - {d})" using b by auto
    with False show ?thesis by simp
  qed
  moreover have "dom (index_lookup (tm_index tm1)) = dom ?f - {d}" using f1 by auto
  ultimately show ?case using ih by simp
qed



end
