(* ===== verification/Extents.thy ===== *)
theory Extents
  imports Pool_Files
begin

text \<open>
  What an object's files hold: an extent of bytes, byte \<open>i\<close> on the drive and at the file offset
  the striping gives it. Appending through \<^verbatim>\<open>StripedIo\<close> extends it, reading returns it, and
  publishing the files by rename leaves the reader with the same descriptors.
\<close>

section \<open>Contents of an extent\<close>

definition holds :: "drive_pool \<Rightarrow> nat \<Rightarrow> fd_list \<Rightarrow> store \<Rightarrow> bytes \<Rightarrow> bool" where
  "holds p kh fds st bs \<longleftrightarrow>
     (\<forall>i < length bs. \<exists>ino. fds ! drive_of p kh i = Some ino \<and> file_offset_of p i < length (st ino) \<and>
        st ino ! file_offset_of p i = bs ! i)"

definition extent_ok :: "drive_pool \<Rightarrow> nat \<Rightarrow> fd_list \<Rightarrow> nat \<Rightarrow> bool" where
  "extent_ok p kh fds n \<longleftrightarrow> dp_ok p \<and> fds_ok p fds \<and> no_wrap p kh n \<and> n < 2 ^ 64"

lemma holds_Nil [simp]: "holds p kh fds st []"
  by (simp add: holds_def)

lemma holds_take: "holds p kh fds st bs \<Longrightarrow> holds p kh fds st (take n bs)"
  by (simp add: holds_def)

lemma holds_frame:
  assumes "holds p kh fds st bs" and "dp_ok p" and "length fds = dp_n p"
    and "\<And>ino. Some ino \<in> set fds \<Longrightarrow> st' ino = st ino"
  shows "holds p kh fds st' bs"
  unfolding holds_def
proof (intro allI impI)
  fix i
  assume "i < length bs"
  then obtain ino where i: "fds ! drive_of p kh i = Some ino" "file_offset_of p i < length (st ino)"
    "st ino ! file_offset_of p i = bs ! i" using assms(1) unfolding holds_def by blast
  have "Some ino \<in> set fds" using i(1) assms(2,3) by (metis drive_of_less nth_mem)
  with assms(4) i show "\<exists>ino. fds ! drive_of p kh i = Some ino \<and> file_offset_of p i < length (st' ino) \<and>
      st' ino ! file_offset_of p i = bs ! i" by auto
qed

text \<open>The segment of a plan that carries a byte.\<close>

lemma plan_seg_of:
  assumes "dp_ok p" and "off + len < 2 ^ 64" and "i < len"
  obtains sg where "sg \<in> set (plan_reads p kh off len)" "rs_drive sg = drive_of p kh (off + i)"
    "rs_file_offset sg \<le> file_offset_of p (off + i)" "file_offset_of p (off + i) < rs_file_offset sg + rs_length sg"
proof -
  have "byte_loc p kh (off + i) \<in> set (concat (map seg_bytes (plan_reads p kh off len)))"
    unfolding plan_reads_bytes(1) [OF assms(1,2)] using assms(3) by auto
  then obtain sg where "sg \<in> set (plan_reads p kh off len)" "byte_loc p kh (off + i) \<in> set (seg_bytes sg)" by auto
  with that show thesis by (auto simp: byte_loc_def seg_bytes_def)
qed

lemma holds_append:
  assumes e: "extent_ok p kh fds n" and h: "holds p kh fds st bs" and len: "length bs + length data \<le> n"
    and w: "striped_pwrite pw p kh fds (length bs) data st = (st', Inr u)"
  shows "holds p kh fds st' (bs @ data)"
  unfolding holds_def
proof (intro allI impI)
  fix i
  assume i: "i < length (bs @ data)"
  have ok: "dp_ok p" "fds_ok p fds" "no_wrap p kh n" "n < 2 ^ 64" using e by (simp_all add: extent_ok_def)
  have o: "length bs + length data < 2 ^ 64" using len ok(4) by simp
  note put = striped_pwrite_put [OF ok(1,2) o w]
  have d: "disk fds st' (byte_loc p kh i) = (if length bs \<le> i then data ! (i - length bs) else disk fds st (byte_loc p kh i))"
    unfolding put(1) using stripes.put_get [of "(p, kh, n)" "length bs" data i "disk fds st"] ok len i by simp
  obtain ino where ino: "fds ! drive_of p kh i = Some ino" "file_offset_of p i < length (st' ino)"
  proof (cases "i < length bs")
    case True
    with h obtain ino where "fds ! drive_of p kh i = Some ino" "file_offset_of p i < length (st ino)"
      unfolding holds_def by blast
    with put(2) [of ino] that show thesis by simp
  next
    case False
    have "i - length bs < length data" using False i by simp
    from plan_seg_of [OF ok(1) o this, of kh] False obtain sg where sg: "sg \<in> set (plan_reads p kh (length bs) (length data))"
      "rs_drive sg = drive_of p kh i" "file_offset_of p i < rs_file_offset sg + rs_length sg" by auto
    with put(3) [OF sg(1)] that show thesis by auto
  qed
  have dl: "drive_of p kh i < length fds" using ok(1,2) by (simp add: fds_ok_def)
  have "st' ino ! file_offset_of p i = (bs @ data) ! i"
  proof (cases "i < length bs")
    case True
    with h obtain ino' where h': "fds ! drive_of p kh i = Some ino'" "file_offset_of p i < length (st ino')"
      "st ino' ! file_offset_of p i = bs ! i" unfolding holds_def by blast
    with ino d True dl show ?thesis by (simp add: disk_def byte_loc_def byte_at_def nth_append)
  next
    case False
    with ino d dl i show ?thesis by (simp add: disk_def byte_loc_def byte_at_def nth_append)
  qed
  with ino show "\<exists>ino. fds ! drive_of p kh i = Some ino \<and> file_offset_of p i < length (st' ino) \<and>
      st' ino ! file_offset_of p i = (bs @ data) ! i" by blast
qed

lemma holds_read:
  assumes e: "extent_ok p kh fds n" and h: "holds p kh fds st bs" and len: "off + length out \<le> length bs"
    and n: "length bs \<le> n" and sq: "\<And>i. sq i"
  shows "striped_read sq (regular_read st) st p kh fds off out = Inr (slice off (length out) bs, length out)"
proof -
  have ok: "dp_ok p" "fds_ok p fds" "no_wrap p kh n" "n < 2 ^ 64" using e by (simp_all add: extent_ok_def)
  have o: "off + length out < 2 ^ 64" using len n ok(4) by simp
  let ?segs = "plan_reads p kh off (length out)"
  note segs = plan_segs_ok [OF ok(1) o, of kh] and bytes = plan_reads_bytes [OF ok(1) o, of kh]
  have fl: "length fds = dp_n p" using ok(2) by (simp add: fds_ok_def)
  have place: "\<exists>ino. fds ! dr = Some ino \<and> x < length (st ino)" if "(dr, x) \<in> set (concat (map seg_bytes ?segs))" for dr x
  proof -
    from that obtain i where i: "i < length out" "dr = drive_of p kh (off + i)" "x = file_offset_of p (off + i)"
      unfolding bytes(1) by (auto simp: byte_loc_def)
    then have "off + i < length bs" using len by simp
    with h i show ?thesis unfolding holds_def by blast
  qed
  have full: "rs_drive s < length fds \<and> (\<exists>ino. fds ! rs_drive s = Some ino \<and> rs_file_offset s + rs_length s \<le> length (st ino))"
    if s: "s \<in> set ?segs" for s
  proof -
    have l: "0 < rs_length s" "rs_drive s < dp_n p" using segs s by (auto simp: segs_ok_def)
    then have "(rs_drive s, rs_file_offset s + (rs_length s - 1)) \<in> set (seg_bytes s)"
      by (auto simp: seg_bytes_def intro!: image_eqI [of _ _ "rs_length s - 1"])
    with s have "(rs_drive s, rs_file_offset s + (rs_length s - 1)) \<in> set (concat (map seg_bytes ?segs))" by auto
    from place [OF this] l fl show ?thesis by auto
  qed
  have "read_segs (regular_read st) st fds ?segs 0 out =
      (map (disk fds st) (concat (map seg_bytes ?segs)), map (\<lambda>s. int (rs_length s)) ?segs)"
    using full bytes(2) by (subst read_segs_full) auto
  moreover have "map (disk fds st) (concat (map seg_bytes ?segs)) = slice off (length out) bs"
  proof (rule nth_equalityI)
    fix i
    assume "i < length (map (disk fds st) (concat (map seg_bytes ?segs)))"
    then have i: "i < length out" by (simp add: bytes(1))
    have "off + i < length bs" using i len by simp
    with h obtain ino where "fds ! drive_of p kh (off + i) = Some ino" "file_offset_of p (off + i) < length (st ino)"
      "st ino ! file_offset_of p (off + i) = bs ! (off + i)" unfolding holds_def by blast
    with i len ok(1) fl show "map (disk fds st) (concat (map seg_bytes ?segs)) ! i = slice off (length out) bs ! i"
      by (simp add: bytes(1) disk_def byte_loc_def byte_at_def slice_def)
  qed (use len in \<open>simp add: bytes(1) length_slice\<close>)
  moreover have "sum_list (map (\<lambda>s. int (rs_length s)) ?segs) = int (length out)"
    using bytes(2) sum_list_int [of rs_length ?segs] by simp
  ultimately show ?thesis
    using sq bytes(2) by (auto simp: striped_read_def Let_def list_all_iff list_ex_iff slice_def)
qed

section \<open>Publishing and reopening\<close>

text \<open>The chunks that open a file are on different drives.\<close>

lemma chunk_drive_inj:
  assumes "pool_ok p" and "no_wrap (pool_drives p) (digest_bucket d) n" and "n + dp_s (pool_drives p) < 2 ^ 64"
  shows "inj_on (chunk_drive p d) {..<files_used (pool_drives p) n}"
proof (rule inj_onI)
  let ?dp = "pool_drives p"
  have ok: "dp_ok ?dp" using assms(1) by (simp add: pool_ok_def)
  have c: "chunk_drive p d c = (digest_bucket d + c) mod dp_n ?dp" "c < dp_n ?dp"
    if "c \<in> {..<files_used ?dp n}" for c
  proof -
    from that have cs: "c * dp_s ?dp < n" "c < dp_n ?dp" using files_used_iff [OF ok assms(3)] by auto
    then show "c < dp_n ?dp" by simp
    have "u64 (c * dp_s ?dp) = c * dp_s ?dp" using cs(1) assms(3) by (simp add: u64_id)
    with drive_of_eq [OF ok assms(2), of "c * dp_s ?dp"] cs(1) ok
    show "chunk_drive p d c = (digest_bucket d + c) mod dp_n ?dp" by (simp add: chunk_drive_def dp_ok_def)
  qed
  fix a b
  assume ab: "a \<in> {..<files_used ?dp n}" "b \<in> {..<files_used ?dp n}" "chunk_drive p d a = chunk_drive p d b"
  then have "(digest_bucket d + a) mod dp_n ?dp = (digest_bucket d + b) mod dp_n ?dp" using c by simp
  then have "a mod dp_n ?dp = b mod dp_n ?dp" by (rule nat_mod_add_cancel)
  with c ab show "a = b" by simp
qed

lemma open_loop_present:
  assumes "\<forall>c \<in> set cs. fs_dirs fs (pool_dirfds p ! chunk_drive p d c) name \<noteq> None" and "\<And>dir nm. kn_open k dir nm"
  shows "\<exists>fds'. open_loop k p d name False cs fds fs = (fs, Inr fds')"
  using assms(1) by (induction cs arbitrary: fds) (auto simp: Let_def fs_openat_def assms(2))

text \<open>
  Files opened under a scratch name and then published are what a reader opens under the live
  name: the same descriptors.
\<close>

lemma publish_reopen:
  assumes o: "open_object k p d n True suffix fs = (fs1, Inr fds)" and ok: "fs_ok fs" "pool_ok p" "0 < n" "suffix \<noteq> []"
    and nw: "no_wrap (pool_drives p) (digest_bucket d) n" "n + dp_s (pool_drives p) < 2 ^ 64"
    and fs2: "fs_ok fs2" "\<And>dir i. dir \<in> set (pool_dirfds p) \<Longrightarrow>
      fs_dirs fs1 dir (digest_hex d @ suffix) = Some i \<Longrightarrow> fs_dirs fs2 dir (digest_hex d @ suffix) = Some i"
    and pub: "pool_publish k2 p d n suffix fs2 = (fs3, Inr u)"
    and fs4: "fs_ok fs4" "\<And>dir. dir \<in> set (pool_dirfds p) \<Longrightarrow>
      fs_dirs fs4 dir (digest_hex d) = fs_dirs fs3 dir (digest_hex d)"
    and k3: "\<And>dir nm. kn_open k3 dir nm"
  shows "open_object k3 p d n False [] fs4 = (fs4, Inr fds)"
proof -
  let ?dp = "pool_drives p" and ?tmp = "digest_hex d @ suffix" and ?cs = "[0..<files_used (pool_drives p) n]"
  let ?dir = "\<lambda>c. pool_dirfds p ! chunk_drive p d c"
  note f = open_object_fds [OF o ok(1-3)]
  have less: "chunk_drive p d c < dp_n ?dp" for c by (rule chunk_drive_less [OF ok(2)])
  have "inj_on ?dir {..<files_used ?dp n}"
    using chunk_drive_inj [OF ok(2) nw] less ok(2)
    by (auto simp: inj_on_def pool_ok_def nth_eq_iff_index_eq)
  then have dist: "distinct (map ?dir ?cs)" by (simp add: distinct_map atLeast0LessThan)
  have pl: "publish_loop k2 p d ?tmp (digest_hex d) ?cs fs2 = (fs3, Inr u)" using pub ok(3) by (simp add: pool_publish_def)
  have dir: "?dir c \<in> set (pool_dirfds p)" for c using less [of c] ok(2) by (simp add: pool_ok_def)
  have made: "fs_dirs fs1 (?dir c) ?tmp \<noteq> None" if "c \<in> set ?cs" for c
  proof -
    have c: "chunk_drive p d c \<in> chunk_drive p d ` {..<files_used ?dp n}" using that by auto
    from f(3) [OF this] f(2) [OF less, of c] c show ?thesis by simp
  qed
  have live: "fs_dirs fs4 (?dir c) (digest_hex d) = fs_dirs fs1 (?dir c) ?tmp" if "c \<in> set ?cs" for c
    using publish_loop_ok [OF pl fs2(1) suffix_name [OF ok(4)] dist that] fs4(2) [OF dir] fs2(2) [OF dir] made [OF that]
    by auto
  have "fs_dirs fs4 (?dir c) (digest_hex d) \<noteq> None" if "c \<in> set ?cs" for c
    using live [OF that] made [OF that] by simp
  then obtain fds' where "open_loop k3 p d (digest_hex d) False ?cs (replicate (dp_n ?dp) None) fs4 = (fs4, Inr fds')"
    using open_loop_present [of ?cs fs4 p d "digest_hex d" k3] k3 by blast
  then have o': "open_object k3 p d n False [] fs4 = (fs4, Inr fds')" using ok(3) by (simp add: open_object_def)
  note f' = open_object_fds [OF o' fs4(1) ok(2,3)]
  have "fds' = fds"
  proof (rule nth_equalityI)
    fix dr
    assume "dr < length fds'"
    then have dr: "dr < dp_n ?dp" using f'(1) by simp
    show "fds' ! dr = fds ! dr"
    proof (cases "dr \<in> chunk_drive p d ` {..<files_used ?dp n}")
      case True
      then obtain c where "c \<in> set ?cs" "dr = chunk_drive p d c" by auto
      with live f(2) [OF dr] f'(2) [OF dr] True show ?thesis by simp
    qed (use f(2) [OF dr] f'(2) [OF dr] in simp)
  qed (simp add: f(1) f'(1))
  with o' show ?thesis by simp
qed

end
