(* ===== verification/Tier_Roundtrip.thy ===== *)
theory Tier_Roundtrip
  imports Tier_Versions Extents
begin

text \<open>
  What is stored is what is read: the path of an object's bytes through the staging buffer,
  the striped files of the two disk tiers and the RAM head, and back.
\<close>

section \<open>Memory\<close>

lemma length_mem_get [simp]: "length (mem_get m a n) = n"
  by (simp add: mem_get_def)

lemma nth_mem_get [simp]: "i < n \<Longrightarrow> mem_get m a n ! i = m (a + i)"
  by (simp add: mem_get_def)

lemma mem_get_cong: "(\<And>x. x \<in> {a ..< a + n} \<Longrightarrow> m' x = m x) \<Longrightarrow> mem_get m' a n = mem_get m a n"
  by (rule nth_equalityI) simp_all

lemma mem_get_put_after: "mem_get (mem_put (a + n) bs m) a (n + length bs) = mem_get m a n @ bs"
  by (rule nth_equalityI) (auto simp: mem_put_def nth_append)

lemma mem_get_put: "mem_get (mem_put a bs m) a (length bs) = bs"
  using mem_get_put_after [of a 0 bs m] by (simp add: mem_get_def)

lemma take_mem_get: "take j (mem_get m a n) = mem_get m a (min j n)"
  by (rule nth_equalityI) simp_all

lemma mem_get_drop: "mem_get m (a + j) (n - j) = drop j (mem_get m a n)"
  by (rule nth_equalityI) (simp_all add: add.assoc)

section \<open>The files of a store in progress\<close>

definition ssd_extent :: "object_layout \<Rightarrow> nat" where
  "ssd_extent l = (if 0 < ol_hdd_bytes l then ol_ssd_bytes l else align_up (ol_ssd_bytes l) kDeviceBlock)"

text \<open>The first bytes of the object are in its files: those of the SSD extent there, the rest on the HDD.\<close>

definition tiers_hold :: "tier_manager \<Rightarrow> store_handle \<Rightarrow> bytes \<Rightarrow> bool" where
  "tiers_hold tm h ws \<longleftrightarrow>
     holds (pool_drives (tm_ssd tm)) (digest_bucket (sh_digest h)) (sh_ssd h) (fs_store (tm_fs tm))
       (take (ssd_extent (sh_layout h)) ws) \<and>
     (\<forall>fds. sh_hdd h = Some fds \<longrightarrow>
        holds (pool_drives (the (tm_hdd tm))) (digest_bucket (sh_digest h)) fds (fs_store (tm_fs tm))
          (drop (ol_ssd_bytes (sh_layout h)) ws))"

text \<open>The descriptors of a handle fit the pools, and no inode is behind both tiers.\<close>

definition files_fit :: "tier_manager \<Rightarrow> store_handle \<Rightarrow> nat \<Rightarrow> bool" where
  "files_fit tm h n \<longleftrightarrow>
     (0 < ssd_extent (sh_layout h) \<longrightarrow>
        extent_ok (pool_drives (tm_ssd tm)) (digest_bucket (sh_digest h)) (sh_ssd h) n) \<and>
     (\<forall>fds. sh_hdd h = Some fds \<longrightarrow>
        extent_ok (pool_drives (the (tm_hdd tm))) (digest_bucket (sh_digest h)) fds n \<and>
        (\<forall>ino. Some ino \<notin> set (sh_ssd h) \<or> Some ino \<notin> set fds))"

lemma tier_pwrite_holds:
  assumes e: "extent_ok (pool_drives p) (digest_bucket d) fds n"
    and w: "tier_pwrite k tm p d fds (length bs) data = (tm', Inr u)"
    and h: "holds (pool_drives p) (digest_bucket d) fds (fs_store (tm_fs tm)) bs" and len: "length bs + length data \<le> n"
  shows "holds (pool_drives p) (digest_bucket d) fds (fs_store (tm_fs tm')) (bs @ data)"
    and "Some ino \<notin> set fds \<Longrightarrow> fs_store (tm_fs tm') ino = fs_store (tm_fs tm) ino"
proof -
  obtain st where s: "striped_pwrite (kn_pwrite k) (pool_drives p) (digest_bucket d) fds (length bs) data
      (fs_store (tm_fs tm)) = (st, Inr u)" and st: "fs_store (tm_fs tm') = st"
    using w by (auto simp: tier_pwrite_def split: prod.splits)
  show "holds (pool_drives p) (digest_bucket d) fds (fs_store (tm_fs tm')) (bs @ data)"
    unfolding st by (rule holds_append [OF e h len s])
  have ok: "dp_ok (pool_drives p)" "length fds = dp_n (pool_drives p)" "length bs + length data < 2 ^ 64"
    using e len by (simp_all add: extent_ok_def fds_ok_def)
  show "Some ino \<notin> set fds \<Longrightarrow> fs_store (tm_fs tm') ino = fs_store (tm_fs tm) ino"
    unfolding st using pwrite_segs_frame [OF s [unfolded striped_pwrite_def] plan_segs_ok [OF ok(1,3)] ok(2)] by blast
qed

lemma extent_frame:
  assumes "extent_ok p kh fds n" and "holds p kh fds st bs" and "\<And>ino. Some ino \<in> set fds \<Longrightarrow> st' ino = st ino"
  shows "holds p kh fds st' bs"
  using assms by (intro holds_frame [OF assms(2)]) (simp_all add: extent_ok_def fds_ok_def)

text \<open>One flush appends the staged bytes to both tiers.\<close>

lemma flush_block_holds:
  assumes f: "flush_block k tm h n = (tm', h', Inr u)" and fit: "files_fit tm h N" and th: "tiers_hold tm h ws"
    and pos: "sh_flushed h = length ws" and len: "length ws + n \<le> N"
  shows "tiers_hold tm' h (ws @ mem_get (tm_mem tm) (fst (sh_stage h)) n)"
proof -
  let ?l = "sh_layout h" and ?buf = "fst (sh_stage h)" and ?d = "sh_digest h" and ?kh = "digest_bucket (sh_digest h)"
  let ?ext = "ssd_extent ?l" and ?ssd = "ol_ssd_bytes ?l" and ?bs = "mem_get (tm_mem tm) (fst (sh_stage h)) n"
  let ?stop = "min (length ws + n) ?ext" and ?sp = "tm_ssd tm" and ?hp = "the (tm_hdd tm)"
  obtain tm1 where w1: "(if length ws < ?stop then tier_pwrite k tm ?sp ?d (sh_ssd h) (length ws)
       (mem_get (tm_mem tm) ?buf (?stop - length ws)) else (tm, Inr ())) = (tm1, Inr ())"
    and w2: "(case sh_hdd h of None \<Rightarrow> (tm1, Inr ()) | Some fds \<Rightarrow>
       if length ws + n > ?ssd
       then tier_pwrite k tm1 (the (tm_hdd tm1)) ?d fds (max (length ws) ?ssd - ?ssd)
              (mem_get (tm_mem tm1) (?buf + (max (length ws) ?ssd - length ws)) (length ws + n - max (length ws) ?ssd))
       else (tm1, Inr ())) = (tm', Inr ())"
    using f unfolding flush_block_def Let_def ssd_extent_def [symmetric] pos
    by (auto split: prod.splits sum.splits)
  have s1: "same_books tm tm1" "tm_mem tm1 = tm_mem tm" using w1 tier_pwrite_same by (fastforce split: if_splits)+
  have e1: "tm_ssd tm1 = tm_ssd tm" "tm_hdd tm1 = tm_hdd tm" using s1(1) by (simp_all add: same_books_def)
  have s2: "tm_ssd tm' = tm_ssd tm" "tm_hdd tm' = tm_hdd tm"
    using w2 e1 by (auto split: option.splits if_splits dest!: tier_pwrite_same simp: same_books_def)
  note hd0 = th [unfolded tiers_hold_def, THEN conjunct2, rule_format]
  have ssd1: "holds (pool_drives ?sp) ?kh (sh_ssd h) (fs_store (tm_fs tm1)) (take ?ext (ws @ ?bs)) \<and>
      (\<forall>ino. Some ino \<notin> set (sh_ssd h) \<longrightarrow> fs_store (tm_fs tm1) ino = fs_store (tm_fs tm) ino)"
  proof (cases "length ws < ?stop")
    case True
    then have ext: "length ws < ?ext" "0 < ssd_extent ?l" by simp_all
    with fit have e: "extent_ok (pool_drives ?sp) ?kh (sh_ssd h) N" by (simp add: files_fit_def)
    have h0: "holds (pool_drives ?sp) ?kh (sh_ssd h) (fs_store (tm_fs tm)) ws"
      using th ext(1) by (simp add: tiers_hold_def)
    have w: "tier_pwrite k tm ?sp ?d (sh_ssd h) (length ws) (mem_get (tm_mem tm) ?buf (?stop - length ws)) = (tm1, Inr ())"
      using w1 True by simp
    have l: "length ws + length (mem_get (tm_mem tm) ?buf (?stop - length ws)) \<le> N" using len True by simp
    have "take ?ext (ws @ ?bs) = ws @ mem_get (tm_mem tm) ?buf (?stop - length ws)"
    proof -
      have "?stop - length ws = min (?ext - length ws) n" by linarith
      then show ?thesis using ext(1) by (simp add: take_mem_get)
    qed
    with tier_pwrite_holds [OF e w h0 l] show ?thesis by simp
  next
    case False
    with w1 have a: "tm1 = tm" by (simp only: if_False prod.inject)
    have b: "take ?ext (ws @ ?bs) = take ?ext ws" using False by (cases "n = 0") (auto simp: mem_get_def)
    show ?thesis using th unfolding a b tiers_hold_def by blast
  qed
  show ?thesis
  proof (cases "sh_hdd h")
    case None
    with w2 ssd1 show ?thesis by (simp add: tiers_hold_def s2)
  next
    case (Some fds)
    with fit have e: "extent_ok (pool_drives ?hp) ?kh fds N" and dj: "\<forall>ino. Some ino \<notin> set (sh_ssd h) \<or> Some ino \<notin> set fds"
      by (simp_all add: files_fit_def)
    have h1: "holds (pool_drives ?hp) ?kh fds (fs_store (tm_fs tm1)) (drop ?ssd ws)"
      by (rule extent_frame [OF e hd0 [OF Some]]) (use ssd1 dj in blast)
    show ?thesis
    proof (cases "length ws + n > ?ssd")
      case False
      with w2 Some h1 ssd1 show ?thesis by (simp add: tiers_hold_def s2)
    next
      case True
      let ?st = "max (length ws) ?ssd"
      let ?data = "mem_get (tm_mem tm) (?buf + (?st - length ws)) (length ws + n - ?st)"
      have w: "tier_pwrite k tm1 ?hp ?d fds (length (drop ?ssd ws)) ?data = (tm', Inr ())"
        using w2 Some True e1 s1(2) by (simp add: max_def split: if_splits)
      have l: "length (drop ?ssd ws) + length ?data \<le> N" using len by simp
      have "?st - length ws = ?ssd - length ws" "length ws + n - ?st = n - (?ssd - length ws)" by linarith+
      then have "drop ?ssd (ws @ ?bs) = drop ?ssd ws @ ?data" by (simp only: drop_append mem_get_drop)
      with tier_pwrite_holds(1) [OF e w h1 l]
      have h2: "holds (pool_drives ?hp) ?kh fds (fs_store (tm_fs tm')) (drop ?ssd (ws @ ?bs))" by simp
      have fr: "fs_store (tm_fs tm') ino = fs_store (tm_fs tm1) ino" if "Some ino \<notin> set fds" for ino
        by (rule tier_pwrite_holds(2) [OF e w h1 l that])
      have "holds (pool_drives ?sp) ?kh (sh_ssd h) (fs_store (tm_fs tm')) (take ?ext (ws @ ?bs))"
      proof (cases "0 < ssd_extent ?l")
        case True
        with fit have "extent_ok (pool_drives ?sp) ?kh (sh_ssd h) N" by (simp add: files_fit_def)
        from extent_frame [OF this ssd1 [THEN conjunct1]] fr dj show ?thesis by blast
      qed simp
      with h2 Some show ?thesis by (simp add: tiers_hold_def s2)
    qed
  qed
qed

text \<open>
  \<open>staged tm h bs\<close>: of the bytes \<open>bs\<close> written so far, those flushed are in the files, the others in
  the staging buffer; flushes happen at multiples of the device block.
\<close>

definition staged :: "tier_manager \<Rightarrow> store_handle \<Rightarrow> bytes \<Rightarrow> bool" where
  "staged tm h bs \<longleftrightarrow>
     kDeviceBlock dvd sh_flushed h \<and> sh_flushed h + sh_stage_fill h = length bs \<and>
     tiers_hold tm h (take (sh_flushed h) bs) \<and>
     mem_get (tm_mem tm) (fst (sh_stage h)) (sh_stage_fill h) = drop (sh_flushed h) bs"

lemma tiers_hold_cong:
  "tm_ssd tm' = tm_ssd tm \<Longrightarrow> tm_hdd tm' = tm_hdd tm \<Longrightarrow> fs_store (tm_fs tm') = fs_store (tm_fs tm) \<Longrightarrow>
     same_handle h h' \<Longrightarrow> tiers_hold tm' h' ws = tiers_hold tm h ws"
  by (simp add: tiers_hold_def same_handle_def)

lemma files_fit_cong:
  "tm_ssd tm' = tm_ssd tm \<Longrightarrow> tm_hdd tm' = tm_hdd tm \<Longrightarrow> same_handle h h' \<Longrightarrow> files_fit tm' h' n = files_fit tm h n"
  by (simp add: files_fit_def same_handle_def)

text \<open>Filling the buffer, and flushing a full one.\<close>

lemma staged_fill:
  assumes "staged tm h bs" and "n \<le> length p"
  defines "tm1 \<equiv> tm\<lparr>tm_mem := mem_put (fst (sh_stage h) + sh_stage_fill h) (take n p) (tm_mem tm)\<rparr>"
    and "h1 \<equiv> h\<lparr>sh_stage_fill := sh_stage_fill h + n\<rparr>"
  shows "staged tm1 h1 (bs @ take n p)"
proof -
  have m: "mem_get (tm_mem tm1) (fst (sh_stage h)) (sh_stage_fill h + n) =
      mem_get (tm_mem tm) (fst (sh_stage h)) (sh_stage_fill h) @ take n p"
    using mem_get_put_after [of "fst (sh_stage h)" "sh_stage_fill h" "take n p" "tm_mem tm"] assms(2)
    by (simp add: tm1_def min_absorb2)
  have "sh_flushed h \<le> length bs" using assms(1) by (simp add: staged_def)
  moreover have "tiers_hold tm1 h1 (take (sh_flushed h) bs)"
    using assms(1) tiers_hold_cong [of tm1 tm h h1] by (simp add: staged_def tm1_def h1_def)
  ultimately show ?thesis using assms(1,2) m by (simp add: staged_def h1_def)
qed

lemma staged_flush:
  assumes st: "staged tm h bs" and fit: "files_fit tm h N" and f: "flush_block k tm h n = (tm', h', Inr u)"
    and n: "kDeviceBlock dvd n" and mem: "mem_get (tm_mem tm) (fst (sh_stage h)) n = drop (sh_flushed h) bs @ zs"
    and len: "length bs + length zs \<le> N"
  shows "staged tm' h' (bs @ zs)" and "h' = h\<lparr>sh_flushed := sh_flushed h + n, sh_stage_fill := 0\<rparr>"
proof -
  have le: "sh_flushed h \<le> length bs" and th: "tiers_hold tm h (take (sh_flushed h) bs)" using st by (simp_all add: staged_def)
  have nl: "sh_flushed h + n = length bs + length zs" using arg_cong [OF mem, of length] le by simp
  have pos: "sh_flushed h = length (take (sh_flushed h) bs)" using le by simp
  note fs = flush_block_same [OF f]
  show h': "h' = h\<lparr>sh_flushed := sh_flushed h + n, sh_stage_fill := 0\<rparr>" using fs(3) by simp
  have "tiers_hold tm' h (take (sh_flushed h) bs @ mem_get (tm_mem tm) (fst (sh_stage h)) n)"
    by (rule flush_block_holds [OF f fit th pos]) (use le nl len in simp)
  then have "tiers_hold tm' h (bs @ zs)" unfolding mem by (simp only: append_assoc [symmetric] append_take_drop_id)
  then have "tiers_hold tm' h' (bs @ zs)" using tiers_hold_cong [of tm' tm' h h'] by (simp add: h')
  moreover have "kDeviceBlock dvd sh_flushed h + n" using st n by (simp add: staged_def)
  ultimately show "staged tm' h' (bs @ zs)" using nl by (simp add: staged_def h' mem_get_def)
qed

lemma stage_loop_staged:
  "stage_fits h \<Longrightarrow> files_fit tm h N \<Longrightarrow> staged tm h bs \<Longrightarrow> length bs + length p \<le> N \<Longrightarrow>
     stage_loop k tm h p = Some (tm', h', Inr u) \<Longrightarrow> staged tm' h' (bs @ p)"
proof (induction "2 * length p + of_bool (sh_stage_fill h = snd (sh_stage h))" arbitrary: tm h bs p rule: less_induct)
  case less
  show ?case
  proof (cases "p = []")
    case True
    with less.prems(3,5) show ?thesis by (subst (asm) stage_loop.simps) simp
  next
    case False
    define n where "n = min (length p) (snd (sh_stage h) - sh_stage_fill h)"
    define tm1 where "tm1 = tm\<lparr>tm_mem := mem_put (fst (sh_stage h) + sh_stage_fill h) (take n p) (tm_mem tm)\<rparr>"
    define h1 where "h1 = h\<lparr>sh_stage_fill := sh_stage_fill h + n\<rparr>"
    note step = stage_loop_step [OF False, of k tm h, folded n_def, folded tm1_def h1_def]
    have np: "n \<le> length p" by (simp add: n_def)
    have st1: "staged tm1 h1 (bs @ take n p)" unfolding tm1_def h1_def by (rule staged_fill [OF less.prems(3) np])
    have fit1: "files_fit tm1 h1 N" using less.prems(2) files_fit_cong [of tm1 tm h h1] by (simp add: tm1_def h1_def)
    have fits1: "stage_fits h1" using less.prems(1) by (auto simp: stage_fits_def h1_def n_def)
    have len1: "length (bs @ take n p) + length (drop n p) \<le> N" using less.prems(4) np by simp
    show ?thesis
    proof (cases "sh_stage_fill h1 = snd (sh_stage h)")
      case full: True
      obtain tm2 h2 res where f: "flush_block k tm1 h1 (snd (sh_stage h)) = (tm2, h2, res)" by (metis prod_cases3)
      with step full less.prems(5) obtain v where v: "res = Inr v" and run: "stage_loop k tm2 h2 (drop n p) = Some (tm', h', Inr u)"
        by (cases res) auto
      have blk: "kDeviceBlock dvd snd (sh_stage h)" using less.prems(1) by (simp add: stage_fits_def)
      have mem: "mem_get (tm_mem tm1) (fst (sh_stage h1)) (snd (sh_stage h)) = drop (sh_flushed h1) (bs @ take n p) @ []"
        using st1 full by (simp add: staged_def)
      note fl = staged_flush [OF st1 fit1 f [unfolded v] blk mem]
      have st2: "staged tm2 h2 (bs @ take n p)" using fl(1) len1 by simp
      have h2: "h2 = h1\<lparr>sh_flushed := sh_flushed h1 + snd (sh_stage h), sh_stage_fill := 0\<rparr>" using fl(2) len1 by simp
      have sb: "same_books tm1 tm2" using flush_block_same [OF f] by simp
      have fit2: "files_fit tm2 h2 N" using fit1 files_fit_cong [of tm2 tm1 h1 h2] sb by (simp add: same_books_def h2)
      have dec: "2 * length (drop n p) + of_bool (sh_stage_fill h2 = snd (sh_stage h2)) <
          2 * length p + (of_bool (sh_stage_fill h = snd (sh_stage h)) :: nat)"
        using less.prems(1) full False by (auto simp: h2 h1_def n_def stage_fits_def)
      have "stage_fits h2" using fits1 by (simp add: h2 stage_fits_def)
      from less.hyps [OF dec this fit2 st2 len1 run] show ?thesis by simp
    next
      case part: False
      have "2 * length (drop n p) + of_bool (sh_stage_fill h1 = snd (sh_stage h1)) <
          2 * length p + (of_bool (sh_stage_fill h = snd (sh_stage h)) :: nat)"
        using less.prems(1) part False by (auto simp: h1_def n_def stage_fits_def)
      from less.hyps [OF this fits1 fit1 st1 len1] step part less.prems(5) show ?thesis by simp
    qed
  qed
qed

text \<open>The padded flush at the end puts the whole object on disk.\<close>

definition padded :: "bytes \<Rightarrow> bytes" where
  "padded data = data @ replicate (align_up (length data) kDeviceBlock - length data) 0"

lemma align_up_unique:
  assumes "v + kDeviceBlock \<le> 2 ^ 64" and "v \<le> r" and "r < v + kDeviceBlock" and "kDeviceBlock dvd r"
  shows "align_up v kDeviceBlock = r"
proof -
  note b = align_up_bounds [OF assms(1)]
  obtain x y where xy: "align_up v kDeviceBlock = kDeviceBlock * x" "r = kDeviceBlock * y"
    using b(3) assms(4) by (auto elim!: dvdE)
  have "kDeviceBlock * x < kDeviceBlock * (y + 1)" "kDeviceBlock * y < kDeviceBlock * (x + 1)"
    using b(1,2) assms(2,3) xy by (simp_all add: algebra_simps)
  then have "x < y + 1" "y < x + 1" by (simp_all only: mult_less_cancel1)
  with xy show ?thesis by simp
qed

lemma align_up_add:
  assumes "kDeviceBlock dvd a" and "a + v + kDeviceBlock \<le> 2 ^ 64"
  shows "align_up (a + v) kDeviceBlock = a + align_up v kDeviceBlock"
proof -
  have v: "v + kDeviceBlock \<le> 2 ^ 64" using assms(2) by simp
  show ?thesis
    by (rule align_up_unique [OF assms(2)]) (use align_up_bounds [OF v] assms(1) in auto)
qed

lemma flush_tail_staged:
  assumes st: "staged tm h bs" and fit: "files_fit tm h N" and f: "flush_tail k tm h = (tm', h', Inr u)"
    and len: "length bs + kDeviceBlock \<le> N" "N \<le> 2 ^ 64"
  shows "tiers_hold tm' h' (padded bs)"
proof -
  have s: "kDeviceBlock dvd sh_flushed h" "sh_flushed h + sh_stage_fill h = length bs" using st by (simp_all add: staged_def)
  have al: "align_up (length bs) kDeviceBlock = sh_flushed h + align_up (sh_stage_fill h) kDeviceBlock"
    using align_up_add [OF s(1), of "sh_stage_fill h"] s(2) len by simp
  have v: "sh_stage_fill h + kDeviceBlock \<le> 2 ^ 64" using s(2) len by simp
  note b = align_up_bounds [OF v]
  show ?thesis
  proof (cases "sh_stage_fill h = 0")
    case True
    have "align_up 0 kDeviceBlock = 0" by (rule align_up_unique) (simp_all add: size_defs)
    with True al s(2) have "padded bs = bs" by (simp add: padded_def)
    moreover have "tm' = tm" "h' = h" using f True by (simp_all add: flush_tail_def)
    ultimately show ?thesis using st True s(2) by (simp add: staged_def)
  next
    case False
    let ?pad = "align_up (sh_stage_fill h) kDeviceBlock"
    let ?zs = "replicate (?pad - sh_stage_fill h) 0"
    define tm1 where "tm1 = tm\<lparr>tm_mem := mem_put (fst (sh_stage h) + sh_stage_fill h) ?zs (tm_mem tm)\<rparr>"
    have z: "mem_put a [] m = m" for a m by (rule ext) (auto simp: mem_put_def)
    have fb: "flush_block k tm1 h ?pad = (tm', h', Inr u)"
      using f False b(1) by (cases "?pad > sh_stage_fill h") (simp_all add: flush_tail_def Let_def tm1_def z)
    have mem: "mem_get (tm_mem tm1) (fst (sh_stage h)) ?pad = drop (sh_flushed h) bs @ ?zs"
      using mem_get_put_after [of "fst (sh_stage h)" "sh_stage_fill h" ?zs "tm_mem tm"] b(1) st
      by (simp add: tm1_def staged_def)
    have "mem_get (tm_mem tm1) (fst (sh_stage h)) (sh_stage_fill h) =
        mem_get (tm_mem tm) (fst (sh_stage h)) (sh_stage_fill h)"
      by (rule mem_get_cong) (auto simp: tm1_def mem_put_def)
    then have st1: "staged tm1 h bs"
      using st tiers_hold_cong [of tm1 tm h h] by (simp add: staged_def tm1_def)
    have fit1: "files_fit tm1 h N" using fit files_fit_cong [of tm1 tm h h] by (simp add: tm1_def)
    have "length bs + length ?zs \<le> N" using b(2) len by simp
    note fl = staged_flush [OF st1 fit1 fb b(3) mem this]
    have e: "bs @ ?zs = padded bs" using al s(2) by (simp add: padded_def)
    have "sh_flushed h' = length (padded bs)" using fl(2) s(2) b(1) by (simp add: e [symmetric])
    with fl(1) show ?thesis by (simp add: staged_def e)
  qed
qed

section \<open>Storing\<close>

text \<open>The files a store opens.\<close>

definition same_place :: "tier_manager \<Rightarrow> tier_manager \<Rightarrow> bool" where
  "same_place tm tm' \<longleftrightarrow> tm_tiers tm' = tm_tiers tm \<and> tm_ssd tm' = tm_ssd tm \<and> tm_hdd tm' = tm_hdd tm"

lemma same_place_trans: "same_place a b \<Longrightarrow> same_place b c \<Longrightarrow> same_place a c"
  by (simp add: same_place_def)

lemma make_room_head:
  "make_room tm n = (ro, tm') \<Longrightarrow> same_place tm tm' \<and> tm_fs tm' = tm_fs tm \<and> (\<forall>r. ro = Some r \<longrightarrow> rg_len r = n)"
proof (induction tm n rule: make_room.induct)
  case (1 tm n)
  obtain vo pol where e: "s3_evict (tm_policy tm) = (vo, pol)" by (cases "s3_evict (tm_policy tm)")
  show ?case
  proof (cases "bufpool_allocate (tm_ram tm) n")
    case (Some x)
    with "1.prems" show ?thesis
      by (cases x) (auto simp: make_room.simps [of tm] bufpool_allocate_def Let_def same_place_def split: option.splits if_splits)
  next
    case None
    show ?thesis
    proof (cases vo)
      case vo: None
      with None e "1.prems" show ?thesis by (auto simp: make_room.simps [of tm] same_place_def)
    next
      case (Some v)
      with None e "1.prems" have "make_room (evict_head (tm\<lparr>tm_policy := pol\<rparr>) v) n = (ro, tm')"
        by (simp add: make_room.simps [of tm])
      moreover have "tm_fs (evict_head (tm\<lparr>tm_policy := pol\<rparr>) v) = tm_fs tm \<and> same_place tm (evict_head (tm\<lparr>tm_policy := pol\<rparr>) v)"
        by (simp add: evict_head_def Let_def same_place_def split: option.split)
      ultimately show ?thesis using "1.IH" [OF None e [symmetric] Some] same_place_trans by auto
    qed
  qed
qed

lemma reserve_store_Inr:
  assumes "reserve_store k tm d sz l sfx sfd hfd = (tm', Inr h)"
  shows "\<exists>head stage. h = \<lparr>sh_digest = d, sh_layout = l, sh_ssd = sfd, sh_hdd = hfd, sh_head = head, sh_suffix = sfx,
       sh_stage = stage, sh_stage_fill = 0, sh_flushed = 0, sh_off = 0, sh_committed = False\<rparr> \<and>
     (ol_ssd_bytes l = 0 \<and> 0 < min sz (ram_head (tm_tiers tm)) \<longrightarrow> head \<noteq> None) \<and>
     (\<forall>r. head = Some r \<longrightarrow> rg_len r = u32 (min sz (ram_head (tm_tiers tm))))" and "tm_fs tm' = tm_fs tm" and "same_place tm tm'"
proof -
  obtain c wp where a: "iopool_acquire (tm_write_pool tm) = Some (c, wp)"
    using assms by (auto simp: reserve_store_def split: option.splits)
  let ?tm1 = "tm\<lparr>tm_write_pool := wp\<rparr>"
  let ?hl = "min sz (ram_head (tm_tiers ?tm1))"
  obtain ho tm2 where m: "(if 0 < ?hl then make_room ?tm1 (u32 ?hl) else (None, ?tm1)) = (ho, tm2)" by (metis surj_pair)
  have mr: "tm_fs tm2 = tm_fs tm" "same_place tm tm2" "\<And>r. ho = Some r \<Longrightarrow> rg_len r = u32 ?hl"
    using m make_room_head [of ?tm1 "u32 ?hl" ho tm2] by (auto simp: same_place_def split: if_splits)
  have "tm_fs tm' = tm_fs tm \<and> same_place tm tm' \<and> (\<exists>head stage. h = \<lparr>sh_digest = d, sh_layout = l, sh_ssd = sfd, sh_hdd = hfd, sh_head = head,
       sh_suffix = sfx, sh_stage = stage, sh_stage_fill = 0, sh_flushed = 0, sh_off = 0, sh_committed = False\<rparr> \<and>
     (ol_ssd_bytes l = 0 \<and> 0 < min sz (ram_head (tm_tiers tm)) \<longrightarrow> head \<noteq> None) \<and>
     (\<forall>r. head = Some r \<longrightarrow> rg_len r = u32 (min sz (ram_head (tm_tiers tm)))))"
    using assms mr unfolding reserve_store_def a Let_def option.case prod.case m by (auto split: if_splits)
  then show "\<exists>head stage. h = \<lparr>sh_digest = d, sh_layout = l, sh_ssd = sfd, sh_hdd = hfd, sh_head = head, sh_suffix = sfx,
       sh_stage = stage, sh_stage_fill = 0, sh_flushed = 0, sh_off = 0, sh_committed = False\<rparr> \<and>
     (ol_ssd_bytes l = 0 \<and> 0 < min sz (ram_head (tm_tiers tm)) \<longrightarrow> head \<noteq> None) \<and>
     (\<forall>r. head = Some r \<longrightarrow> rg_len r = u32 (min sz (ram_head (tm_tiers tm))))" "tm_fs tm' = tm_fs tm" "same_place tm tm'" by blast+
qed

lemma begin_store_place:
  assumes "begin_store k tm d sz = (tm', Inr h)"
  shows "same_place tm tm'"
proof (cases rule: begin_store_cases [OF assms])
  case (2 fs sfd hfd)
  from reserve_store_Inr(3) [OF 2] show ?thesis by (simp add: same_place_def)
qed simp

lemma begin_store_files:
  assumes b: "begin_store k tm d sz = (tm', Inr h)"
  defines "l \<equiv> compute_layout sz (tm_tiers tm) (three_layer tm)" and "sfx \<equiv> ''.tmp.'' @ dec_str (tm_store_seq tm)"
  obtains fs1 head stage sfd hfd where
    "h = \<lparr>sh_digest = d, sh_layout = l, sh_ssd = sfd, sh_hdd = hfd, sh_head = head, sh_suffix = sfx,
       sh_stage = stage, sh_stage_fill = 0, sh_flushed = 0, sh_off = 0, sh_committed = False\<rparr>"
    "0 < ol_ssd_bytes l \<Longrightarrow> open_object k (tm_ssd tm) d (ol_ssd_bytes l) True sfx (tm_fs tm) = (fs1, Inr sfd)"
    "ol_ssd_bytes l = 0 \<Longrightarrow> fs1 = tm_fs tm \<and> sfd = []"
    "0 < ol_hdd_bytes l \<Longrightarrow> \<exists>fds. hfd = Some fds \<and>
       open_object k (the (tm_hdd tm)) d (ol_hdd_bytes l) True sfx fs1 = (tm_fs tm', Inr fds)"
    "ol_hdd_bytes l = 0 \<Longrightarrow> hfd = None \<and> tm_fs tm' = fs1"
    "ol_ssd_bytes l = 0 \<Longrightarrow> 0 < min sz (ram_head (tm_tiers tm)) \<Longrightarrow> head \<noteq> None"
    "\<And>r. head = Some r \<Longrightarrow> rg_len r = u32 (min sz (ram_head (tm_tiers tm)))"
proof -
  define tm1 where "tm1 = tm\<lparr>tm_store_seq := u64 (tm_store_seq tm + 1)\<rparr>"
  obtain fs1 r1 where o1: "(if 0 < ol_ssd_bytes l then open_object k (tm_ssd tm1) d (ol_ssd_bytes l) True sfx (tm_fs tm1)
      else (tm_fs tm1, Inr [])) = (fs1, r1)" by (metis surj_pair)
  obtain fs2 r2 where o2: "open_object k (the (tm_hdd tm1)) d (ol_hdd_bytes l) True sfx fs1 = (fs2, r2)" by (metis surj_pair)
  have e: "(case r1 of Inl e \<Rightarrow> (tm1\<lparr>tm_fs := fs1\<rparr>, Inl e)
       | Inr sfd \<Rightarrow>
           if 0 < ol_hdd_bytes l
           then (case r2 of Inl e \<Rightarrow> (tm1\<lparr>tm_fs := fs2\<rparr>, Inl e)
                 | Inr h \<Rightarrow> reserve_store k (tm1\<lparr>tm_fs := fs2\<rparr>) d sz l sfx sfd (Some h))
           else reserve_store k (tm1\<lparr>tm_fs := fs1\<rparr>) d sz l sfx sfd None) = (tm', Inr h)"
    using b unfolding begin_store_def Let_def l_def [symmetric] sfx_def [symmetric] tm1_def [symmetric] o1
    by (cases r1; cases "0 < ol_hdd_bytes l") (simp_all add: o2)
  then obtain sfd where r1: "r1 = Inr sfd" by (cases r1) auto
  have ssd: "0 < ol_ssd_bytes l \<Longrightarrow> open_object k (tm_ssd tm) d (ol_ssd_bytes l) True sfx (tm_fs tm) = (fs1, Inr sfd)"
    "ol_ssd_bytes l = 0 \<Longrightarrow> fs1 = tm_fs tm \<and> sfd = []"
    using o1 by (simp_all add: r1 tm1_def)
  show thesis
  proof (cases "0 < ol_hdd_bytes l")
    case True
    with e r1 obtain fds where r2: "r2 = Inr fds"
      and rs: "reserve_store k (tm1\<lparr>tm_fs := fs2\<rparr>) d sz l sfx sfd (Some fds) = (tm', Inr h)" by (cases r2) auto
    have t: "tm_tiers (tm1\<lparr>tm_fs := fs2\<rparr>) = tm_tiers tm" by (simp add: tm1_def)
    have hd: "open_object k (the (tm_hdd tm)) d (ol_hdd_bytes l) True sfx fs1 = (tm_fs tm', Inr fds)"
      using o2 r2 reserve_store_Inr(2) [OF rs] by (simp add: tm1_def)
    from reserve_store_Inr(1) [OF rs, unfolded t] obtain head stage where
      "h = \<lparr>sh_digest = d, sh_layout = l, sh_ssd = sfd, sh_hdd = Some fds, sh_head = head, sh_suffix = sfx,
         sh_stage = stage, sh_stage_fill = 0, sh_flushed = 0, sh_off = 0, sh_committed = False\<rparr>"
      "ol_ssd_bytes l = 0 \<and> 0 < min sz (ram_head (tm_tiers tm)) \<longrightarrow> head \<noteq> None"
      "\<forall>r. head = Some r \<longrightarrow> rg_len r = u32 (min sz (ram_head (tm_tiers tm)))" by blast
    with ssd hd True show thesis by (intro that [of sfd "Some fds" head stage fs1]) auto
  next
    case False
    with e r1 have rs: "reserve_store k (tm1\<lparr>tm_fs := fs1\<rparr>) d sz l sfx sfd None = (tm', Inr h)" by simp
    have t: "tm_tiers (tm1\<lparr>tm_fs := fs1\<rparr>) = tm_tiers tm" by (simp add: tm1_def)
    have hd: "tm_fs tm' = fs1" using reserve_store_Inr(2) [OF rs] by simp
    from reserve_store_Inr(1) [OF rs, unfolded t] obtain head stage where
      "h = \<lparr>sh_digest = d, sh_layout = l, sh_ssd = sfd, sh_hdd = None, sh_head = head, sh_suffix = sfx,
         sh_stage = stage, sh_stage_fill = 0, sh_flushed = 0, sh_off = 0, sh_committed = False\<rparr>"
      "ol_ssd_bytes l = 0 \<and> 0 < min sz (ram_head (tm_tiers tm)) \<longrightarrow> head \<noteq> None"
      "\<forall>r. head = Some r \<longrightarrow> rg_len r = u32 (min sz (ram_head (tm_tiers tm)))" by blast
    with ssd hd False show thesis by (intro that [of sfd None head stage fs1]) auto
  qed
qed

text \<open>The whole object through one write.\<close>

lemma handle_write_all:
  assumes hw: "handle_write k tm h data = Some (tm', h', Inr u)" and fits: "stage_fits h" and off: "sh_off h = 0"
    and size: "length data = ol_size (sh_layout h)" and apart: "stage_span h \<inter> head_span h = {}"
    and fit: "files_fit tm h N" and len: "length data \<le> N" and st: "staged tm h []"
  shows "same_books tm tm'" "same_handle h h'" "stage_fits h'" "sh_off h' = length data"
    "\<not> (ol_ssd_bytes (sh_layout h) = 0 \<and> ol_hdd_bytes (sh_layout h) = 0) \<Longrightarrow> staged tm' h' data"
    "ol_ssd_bytes (sh_layout h) = 0 \<and> ol_hdd_bytes (sh_layout h) = 0 \<Longrightarrow> sh_stage_fill h' = sh_stage_fill h"
    "sh_head h = Some r \<Longrightarrow> mem_get (tm_mem tm') (rg_data r) (min (length data) (rg_len r)) = take (rg_len r) data"
proof -
  define tm1 where "tm1 = (case sh_head h of None \<Rightarrow> tm | Some r \<Rightarrow>
    if 0 < min (length data) (rg_len r)
    then tm\<lparr>tm_mem := mem_put (rg_data r) (take (min (length data) (rg_len r)) data) (tm_mem tm)\<rparr> else tm)"
  let ?ramonly = "ol_ssd_bytes (sh_layout h) = 0 \<and> ol_hdd_bytes (sh_layout h) = 0"
  have sb1: "same_books tm tm1" and fs1: "tm_fs tm1 = tm_fs tm" by (simp_all add: tm1_def split: option.split)
  have e: "(if ?ramonly then Some (tm1, h\<lparr>sh_off := length data\<rparr>, Inr ())
       else case stage_loop k tm1 h data of
              None \<Rightarrow> None
            | Some (tm, h, Inl e) \<Rightarrow> Some (tm, h, Inl e)
            | Some (tm, h, Inr _) \<Rightarrow> Some (tm, h\<lparr>sh_off := sh_off h + length data\<rparr>, Inr ())) = Some (tm', h', Inr u)"
  proof -
    have "\<not> u64 (length data) > ol_size (sh_layout h)" using size by (simp add: u64_def)
    then show ?thesis
      using hw unfolding handle_write_def Let_def off add_0 tm1_def diff_zero add_0_right by simp
  qed
  obtain tm2 h2 res where l: "stage_loop k tm1 h data = Some (tm2, h2, res)" "same_books tm1 tm2" "same_handle h h2"
    "stage_fits h2" "sh_off h2 = sh_off h" "\<forall>x. x \<notin> stage_span h \<longrightarrow> tm_mem tm2 x = tm_mem tm1 x"
    using stage_loop_total [OF fits, of k tm1 data] by blast
  have head1: "mem_get (tm_mem tm1) (rg_data r) (min (length data) (rg_len r)) = take (rg_len r) data" if "sh_head h = Some r"
    using mem_get_put [of "rg_data r" "take (min (length data) (rg_len r)) data" "tm_mem tm"] that
    by (auto simp: tm1_def min_def mem_get_def)
  have st1: "staged tm1 h []"
    using st tiers_hold_cong [of tm1 tm h h] sb1 fs1 by (simp add: staged_def mem_get_def same_books_def)
  have fit1: "files_fit tm1 h N" using fit files_fit_cong [of tm1 tm h h] sb1 by (simp add: same_books_def)
  have "same_books tm tm' \<and> same_handle h h' \<and> stage_fits h' \<and> sh_off h' = length data \<and>
    (\<not> ?ramonly \<longrightarrow> staged tm' h' data) \<and> (?ramonly \<longrightarrow> sh_stage_fill h' = sh_stage_fill h) \<and>
    (sh_head h = Some r \<longrightarrow> mem_get (tm_mem tm') (rg_data r) (min (length data) (rg_len r)) = take (rg_len r) data)"
  proof (cases ?ramonly)
    case True
    with e have "tm' = tm1" "h' = h\<lparr>sh_off := length data\<rparr>" by auto
    with True sb1 head1 fits show ?thesis by (simp add: stage_fits_def)
  next
    case False
    with e l(1) obtain v where v: "res = Inr v" by (cases res) auto
    with False e l(1,5) off have t: "tm' = tm2" "h' = h2\<lparr>sh_off := length data\<rparr>" by auto
    have "staged tm2 h2 ([] @ data)"
      by (rule stage_loop_staged [OF fits fit1 st1 _ l(1) [unfolded v]]) (use len in simp)
    then have "staged tm' h' data" using tiers_hold_cong [of tm2 tm2 h2 h'] by (simp add: staged_def t)
    moreover have "mem_get (tm_mem tm2) (rg_data r) (min (length data) (rg_len r)) = take (rg_len r) data" if "sh_head h = Some r"
    proof -
      have "x \<notin> stage_span h" if "x \<in> {rg_data r ..< rg_data r + min (length data) (rg_len r)}" for x
        using that apart \<open>sh_head h = Some r\<close> by (auto simp: head_span_def)
      then have "mem_get (tm_mem tm2) (rg_data r) (min (length data) (rg_len r)) =
          mem_get (tm_mem tm1) (rg_data r) (min (length data) (rg_len r))" using l(6) by (intro mem_get_cong) blast
      with head1 [OF that] show ?thesis by simp
    qed
    ultimately show ?thesis using False l(3,4) same_books_trans [OF sb1 l(2)] by (auto simp: t stage_fits_def)
  qed
  then show "same_books tm tm'" "same_handle h h'" "stage_fits h'" "sh_off h' = length data"
    "\<not> ?ramonly \<Longrightarrow> staged tm' h' data" "?ramonly \<Longrightarrow> sh_stage_fill h' = sh_stage_fill h"
    "sh_head h = Some r \<Longrightarrow> mem_get (tm_mem tm') (rg_data r) (min (length data) (rg_len r)) = take (rg_len r) data"
    by blast+
qed

section \<open>Reading\<close>

text \<open>An object at rest: index entry, head and files agree on its bytes.\<close>

definition tier_stored :: "kernel \<Rightarrow> tier_manager \<Rightarrow> pool \<Rightarrow> digest \<Rightarrow> nat \<Rightarrow> nat \<Rightarrow> bytes \<Rightarrow> bool" where
  "tier_stored k tm p d tier_bytes n bs \<longleftrightarrow>
     (\<exists>fds. open_object k p d tier_bytes False [] (tm_fs tm) = (tm_fs tm, Inr fds) \<and>
        extent_ok (pool_drives p) (digest_bucket d) fds n \<and>
        holds (pool_drives p) (digest_bucket d) fds (fs_store (tm_fs tm)) bs)"

definition head_stored :: "tier_manager \<Rightarrow> head_loc \<Rightarrow> bytes \<Rightarrow> bool" where
  "head_stored tm hl data \<longleftrightarrow>
     hl_len hl = min (length data) (ram_head (tm_tiers tm)) \<and>
     mem_get (tm_mem tm) (bufpool_addr (tm_ram tm) (hl_block hl) (hl_offset hl)) (hl_len hl) = take (hl_len hl) data"

definition object_stored :: "kernel \<Rightarrow> tier_manager \<Rightarrow> digest \<Rightarrow> bytes \<Rightarrow> object_meta \<Rightarrow> bool" where
  "object_stored k tm d data m \<longleftrightarrow>
     (let l = compute_layout (length data) (tm_tiers tm) (three_layer tm); n = length data + kDeviceBlock
      in index_lookup (tm_index tm) d = Some m \<and> om_size m = length data \<and>
         (ol_ssd_bytes l = 0 \<and> ol_hdd_bytes l = 0 \<and> data \<noteq> [] \<longrightarrow> head_is_resident (om_head m)) \<and>
         (head_is_resident (om_head m) \<longrightarrow> head_stored tm (om_head m) data) \<and>
         (0 < ol_ssd_bytes l \<longrightarrow>
            tier_stored k tm (tm_ssd tm) d (ol_ssd_bytes l) n (take (ssd_extent l) (padded data))) \<and>
         (0 < ol_hdd_bytes l \<longrightarrow>
            tier_stored k tm (the (tm_hdd tm)) d (ol_hdd_bytes l) n (drop (ol_ssd_bytes l) (padded data))))"

text \<open>A kernel whose opens succeed and whose reads deliver what the file has.\<close>

definition kind_kernel :: "kernel \<Rightarrow> bool" where
  "kind_kernel k \<longleftrightarrow> (\<forall>dir nm. kn_open k dir nm) \<and> (\<forall>i. kn_sq k i) \<and> kn_read k = regular_read"

lemma tier_read_holds:
  assumes e: "extent_ok (pool_drives p) (digest_bucket d) fds n" and k: "kind_kernel k"
    and h: "holds (pool_drives p) (digest_bucket d) fds (fs_store (tm_fs tm)) bs" and n: "length bs \<le> n"
    and dst: "dst \<le> length out" and fit: "toff + min (align_up len kDeviceBlock) (length out - dst) \<le> length bs"
  shows "tier_read k tm p d fds toff dst len out =
    Inr (write_at dst (slice toff (min (align_up len kDeviceBlock) (length out - dst)) bs) out)"
proof -
  let ?room = "min (align_up len kDeviceBlock) (length out - dst)"
  have r: "length (slice dst ?room out) = ?room" by (simp add: length_slice)
  have "striped_read (kn_sq k) (regular_read (fs_store (tm_fs tm))) (fs_store (tm_fs tm)) (pool_drives p) (digest_bucket d) fds toff
      (slice dst ?room out) = Inr (slice toff ?room bs, ?room)"
    using holds_read [OF e h _ n, of toff "slice dst ?room out" "kn_sq k"] fit k unfolding r by (simp add: kind_kernel_def)
  then show ?thesis using k by (simp add: tier_read_def kind_kernel_def)
qed

lemma align_up_mono:
  assumes "a \<le> b" and "b + kDeviceBlock \<le> 2 ^ 64"
  shows "align_up a kDeviceBlock \<le> align_up b kDeviceBlock"
proof -
  have a: "a + kDeviceBlock \<le> 2 ^ 64" using assms by simp
  show ?thesis unfolding align_up_device [OF a] align_up_device [OF assms(2)] using assms(1)
    by (intro mult_le_mono1 div_le_mono) simp
qed

lemma length_padded: "length data + kDeviceBlock \<le> 2 ^ 64 \<Longrightarrow> length (padded data) = align_up (length data) kDeviceBlock"
  using align_up_bounds(1) [of "length data"] by (simp add: padded_def)

lemma nth_padded: "i < length data \<Longrightarrow> padded data ! i = data ! i"
  by (simp add: padded_def nth_append)

text \<open>The buffer after the read of one tier: its bytes are in place, the others untouched.\<close>

lemma write_slice_nth:
  assumes "j < length out" and "dst + r \<le> length out" and "toff + r \<le> length bs"
  shows "write_at dst (slice toff r bs) out ! j = (if dst \<le> j \<and> j < dst + r then bs ! (toff + (j - dst)) else out ! j)"
    and "length (write_at dst (slice toff r bs) out) = length out"
proof -
  have l: "length (slice toff r bs) = r" using assms(3) by (simp add: length_slice)
  show "write_at dst (slice toff r bs) out ! j = (if dst \<le> j \<and> j < dst + r then bs ! (toff + (j - dst)) else out ! j)"
    using assms nth_write_at_hit [of dst j "slice toff r bs" out] nth_write_at_frame [of j out dst "slice toff r bs"]
    by (auto simp: l nth_slice not_le not_less)
  show "length (write_at dst (slice toff r bs) out) = length out" using assms(2) by (simp add: length_write_at l)
qed

lemma copy_head_nth:
  assumes "off + want \<le> length data" and "want \<le> length out"
    and "head_is_resident hl \<Longrightarrow> hl_len hl \<le> length data \<and>
      mem_get (tm_mem tm) (bufpool_addr (tm_ram tm) (hl_block hl) (hl_offset hl)) (hl_len hl) = take (hl_len hl) data"
    and c: "copy_head tm hl off want out = (ram_end, out1)"
  shows "length out1 = length out" and "ram_end = (if head_is_resident hl then hl_len hl else 0)"
    and "j < want \<Longrightarrow> off + j < ram_end \<Longrightarrow> out1 ! j = data ! (off + j)"
proof -
  let ?a = "bufpool_addr (tm_ram tm) (hl_block hl) (hl_offset hl)" and ?n = "min (off + want) (hl_len hl) - off"
  show re: "ram_end = (if head_is_resident hl then hl_len hl else 0)" using c by (auto simp: copy_head_def split: if_splits)
  show "length out1 = length out"
    using c assms(2) by (auto simp: copy_head_def Let_def length_write_at split: if_splits)
  assume j: "j < want" "off + j < ram_end"
  then have hr: "head_is_resident hl" "off + j < hl_len hl" using re by (auto split: if_splits)
  then have o: "out1 = write_at 0 (mem_get (tm_mem tm) (?a + off) ?n) out"
    using c by (auto simp: copy_head_def Let_def split: if_splits)
  have "tm_mem tm (?a + (off + j)) = mem_get (tm_mem tm) ?a (hl_len hl) ! (off + j)" using hr(2) by simp
  also have "\<dots> = data ! (off + j)" using assms(3) [OF hr(1)] hr(2) by simp
  finally show "out1 ! j = data ! (off + j)"
    using j(1) hr(2) nth_write_at_hit [of 0 j "mem_get (tm_mem tm) (?a + off) ?n" out] by (simp add: o add.assoc)
qed

text \<open>
  What the read of one disk tier does to the buffer, when the tier is needed: the object's
  bytes from \<open>start\<close> on are put in place.
\<close>

definition tier_fills :: "bytes \<Rightarrow> nat \<Rightarrow> nat \<Rightarrow> nat \<Rightarrow> bytes \<Rightarrow> bytes \<Rightarrow> bool" where
  "tier_fills data off start stop out out' \<longleftrightarrow>
     length out' = length out \<and>
     (\<forall>j. off + j < start \<longrightarrow> j < length out \<longrightarrow> out' ! j = out ! j) \<and>
     (\<forall>j. start \<le> off + j \<longrightarrow> off + j < stop \<longrightarrow> j < length out \<longrightarrow> out' ! j = data ! (off + j))"

lemma tier_read_fills:
  assumes e: "extent_ok (pool_drives p) (digest_bucket d) fds n" and k: "kind_kernel k"
    and h: "holds (pool_drives p) (digest_bucket d) fds (fs_store (tm_fs tm)) bs" and n: "length bs \<le> n"
    and so: "off \<le> start" "start \<le> stop" "stop \<le> off + length out"
    and al: "kDeviceBlock dvd start" "stop + kDeviceBlock \<le> 2 ^ 64" and base: "base \<le> start"
    and fit: "align_up stop kDeviceBlock \<le> base + length bs"
    and bs: "\<And>i. start \<le> i \<Longrightarrow> i < stop \<Longrightarrow> bs ! (i - base) = data ! i"
  shows "\<exists>out'. tier_read k tm p d fds (start - base) (start - off) (stop - start) out = Inr out' \<and>
    tier_fills data off start stop out out'"
proof -
  have up: "start + align_up (stop - start) kDeviceBlock = align_up stop kDeviceBlock"
    using align_up_add [OF al(1), of "stop - start"] so(2) al(2) by simp
  have v: "stop - start + kDeviceBlock \<le> 2 ^ 64" using al(2) by simp
  let ?r = "min (align_up (stop - start) kDeviceBlock) (length out - (start - off))"
  have ge: "stop - start \<le> ?r" using align_up_bounds(1) [OF v] so by simp
  have dst: "start - off \<le> length out" using so by simp
  have tf: "start - base + ?r \<le> length bs" using fit up base by linarith
  note r = tier_read_holds [OF e k h n dst tf]
  have dr: "start - off + ?r \<le> length out" using dst by simp
  have "tier_fills data off start stop out (write_at (start - off) (slice (start - base) ?r bs) out)"
    unfolding tier_fills_def
  proof (intro conjI allI impI)
    show "length (write_at (start - off) (slice (start - base) ?r bs) out) = length out"
      by (cases out) (use write_slice_nth(2) [of 0 out, OF _ dr tf] dr in \<open>auto simp: length_write_at length_slice\<close>)
    show "write_at (start - off) (slice (start - base) ?r bs) out ! j = out ! j" if "off + j < start" "j < length out" for j
    proof -
      have "\<not> start - off \<le> j" using that by linarith
      then show ?thesis unfolding write_slice_nth(1) [OF that(2) dr tf] by simp
    qed
    show "write_at (start - off) (slice (start - base) ?r bs) out ! j = data ! (off + j)"
      if j: "start \<le> off + j" "off + j < stop" "j < length out" for j
    proof -
      have "start - off \<le> j" "j < start - off + ?r" "start - base + (j - (start - off)) = off + j - base"
        using j ge so base by linarith+
      with bs [OF j(1,2)] show ?thesis unfolding write_slice_nth(1) [OF j(3) dr tf] by simp
    qed
  qed
  with r show ?thesis by blast
qed

lemma tier_fills_refl: "stop \<le> start \<Longrightarrow> tier_fills data off start stop out out"
  by (simp add: tier_fills_def)

lemma read_stored:
  fixes out :: bytes
  assumes s: "object_stored k tm d data m" and k: "kind_kernel k" and off: "kDeviceBlock dvd off"
    and al: "kDeviceBlock dvd ram_head (tm_tiers tm)" "kDeviceBlock dvd ssd_prefix (tm_tiers tm)"
    and len: "length data + kDeviceBlock \<le> 2 ^ 64"
  defines "w \<equiv> min (length out) (length data - off)"
  shows "\<exists>out'. tm_read k tm d off out = Inr (out', w) \<and> length out' = length out \<and> take w out' = slice off w data"
proof -
  define l where "l = compute_layout (length data) (tm_tiers tm) (three_layer tm)"
  let ?kh = "digest_bucket d" and ?n = "length data + kDeviceBlock" and ?st = "fs_store (tm_fs tm)"
  let ?ssd = "ol_ssd_bytes l" and ?hdd = "ol_hdd_bytes l"
  have m: "index_lookup (tm_index tm) d = Some m" "om_size m = length data"
    and ramonly: "?ssd = 0 \<and> ?hdd = 0 \<and> data \<noteq> [] \<longrightarrow> head_is_resident (om_head m)"
    and hd: "head_is_resident (om_head m) \<longrightarrow> head_stored tm (om_head m) data"
    and ssd: "0 < ?ssd \<longrightarrow> tier_stored k tm (tm_ssd tm) d ?ssd ?n (take (ssd_extent l) (padded data))"
    and hdd: "0 < ?hdd \<longrightarrow> tier_stored k tm (the (tm_hdd tm)) d ?hdd ?n (drop ?ssd (padded data))"
    using s unfolding object_stored_def Let_def l_def [symmetric] by blast+
  show ?thesis
  proof (cases "off \<ge> length data")
    case True
    then show ?thesis using m by (simp add: tm_read_def w_def slice_def)
  next
    case False
    have w: "off + w \<le> length data" "w \<le> length out" "0 < w \<or> w = 0" using False by (auto simp: w_def)
    have lay: "?ssd + ?hdd = length data \<or> ?ssd = 0 \<and> ?hdd = 0 \<and> length data \<le> ram_head (tm_tiers tm)"
      "0 < ?hdd \<Longrightarrow> three_layer tm \<and> ?ssd = ssd_prefix (tm_tiers tm)"
      by (auto simp: l_def compute_layout_def Let_def split: if_splits)
    obtain ram_end out1 where ch: "copy_head tm (om_head m) off w out = (ram_end, out1)" by (metis surj_pair)
    note c = copy_head_nth [OF w(1,2) _ ch]
    have c1: "length out1 = length out" "ram_end = (if head_is_resident (om_head m) then hl_len (om_head m) else 0)"
      "\<And>j. j < w \<Longrightarrow> off + j < ram_end \<Longrightarrow> out1 ! j = data ! (off + j)"
      using c hd by (auto simp: head_stored_def)
    define sb where "sb = max off ram_end"
    define ss where "ss = min (off + w) ?ssd"
    define hb where "hb = max off ?ssd"
    define use_ssd where "use_ssd \<longleftrightarrow> sb < ss"
    define use_hdd where "use_hdd \<longleftrightarrow> three_layer tm \<and> 0 < ?hdd \<and> off + w > ?ssd"
    have re: "ram_end = 0 \<or> ram_end = min (length data) (ram_head (tm_tiers tm))" using c1(2) hd by (auto simp: head_stored_def)
    have pl: "length (padded data) = align_up (length data) kDeviceBlock" by (rule length_padded [OF len])
    have pn: "length (padded data) \<le> ?n" using pl align_up_bounds(2) [OF len] by simp
    have S: "\<exists>fds out2. (if use_ssd then snd (open_object k (tm_ssd tm) d ?ssd False [] (tm_fs tm)) else Inr []) = Inr fds \<and>
        (if use_ssd then tier_read k tm (tm_ssd tm) d fds sb (sb - off) (ss - sb) out1 else Inr out1) = Inr out2 \<and>
        tier_fills data off sb ss out1 out2"
    proof (cases use_ssd)
      case False
      then show ?thesis using tier_fills_refl [of ss sb] by (auto simp: use_ssd_def)
    next
      case True
      then have lt: "sb < ss" "0 < ?ssd" by (auto simp: use_ssd_def ss_def)
      with ssd obtain fds where f: "open_object k (tm_ssd tm) d ?ssd False [] (tm_fs tm) = (tm_fs tm, Inr fds)"
        "extent_ok (pool_drives (tm_ssd tm)) ?kh fds ?n"
        "holds (pool_drives (tm_ssd tm)) ?kh fds ?st (take (ssd_extent l) (padded data))" unfolding tier_stored_def by blast
      have sl: "ss \<le> ?ssd" "ss \<le> off + w" "?ssd \<le> length data" using lay by (auto simp: ss_def)
      have "ram_end \<noteq> length data" using lt sl w(1) by (auto simp: sb_def)
      then have sbal: "kDeviceBlock dvd sb" using re off al(1) by (auto simp: sb_def max_def min_def split: if_splits)
      have ssdal: "?ssd + kDeviceBlock \<le> 2 ^ 64" using sl(3) len by simp
      have ext: "align_up ss kDeviceBlock \<le> ssd_extent l"
      proof -
        have a: "align_up ss kDeviceBlock \<le> align_up ?ssd kDeviceBlock" by (rule align_up_mono [OF sl(1) ssdal])
        show ?thesis
        proof (cases "0 < ?hdd")
          case True
          have "align_up ?ssd kDeviceBlock = ?ssd"
            by (rule align_up_unique [OF ssdal]) (use lay(2) [OF True] al(2) in \<open>simp_all add: size_defs\<close>)
          with a True show ?thesis by (simp add: ssd_extent_def)
        qed (use a in \<open>simp add: ssd_extent_def\<close>)
      qed
      have pd: "align_up ss kDeviceBlock \<le> length (padded data)"
        unfolding pl by (rule align_up_mono [OF _ len]) (use sl in simp)
      have sl2: "ss + kDeviceBlock \<le> 2 ^ 64" using sl len by simp
      have "\<exists>out'. tier_read k tm (tm_ssd tm) d fds (sb - 0) (sb - off) (ss - sb) out1 = Inr out' \<and>
          tier_fills data off sb ss out1 out'"
      proof (rule tier_read_fills [OF f(2) k f(3) _ _ _ _ sbal sl2])
        show "length (take (ssd_extent l) (padded data)) \<le> ?n" using pn by simp
        show "off \<le> sb" "sb \<le> ss" "ss \<le> off + length out1" "0 \<le> sb" using lt sl(2) w(2) c1(1) by (auto simp: sb_def)
        show "align_up ss kDeviceBlock \<le> 0 + length (take (ssd_extent l) (padded data))" using ext pd by simp
        have up: "ss \<le> align_up ss kDeviceBlock" by (rule align_up_bounds(1) [OF sl2])
        show "take (ssd_extent l) (padded data) ! (i - 0) = data ! i" if "sb \<le> i" "i < ss" for i
          using that up ext sl by (simp add: nth_padded)
      qed
      with f(1) True show ?thesis by auto
    qed
    then obtain sfd out2 where so: "(if use_ssd then snd (open_object k (tm_ssd tm) d ?ssd False [] (tm_fs tm)) else Inr []) = Inr sfd"
      and sr: "(if use_ssd then tier_read k tm (tm_ssd tm) d sfd sb (sb - off) (ss - sb) out1 else Inr out1) = Inr out2"
      and sf: "tier_fills data off sb ss out1 out2" by blast
    have H: "\<exists>fds out3. (if use_hdd then snd (open_object k (the (tm_hdd tm)) d ?hdd False [] (tm_fs tm)) else Inr []) = Inr fds \<and>
        (if use_hdd then tier_read k tm (the (tm_hdd tm)) d fds (hb - ?ssd) (hb - off) (off + w - hb) out2 else Inr out2) = Inr out3 \<and>
        tier_fills data off hb (if use_hdd then off + w else hb) out2 out3"
    proof (cases use_hdd)
      case False
      then show ?thesis using tier_fills_refl [of hb hb] by auto
    next
      case True
      then have u: "0 < ?hdd" "off + w > ?ssd" by (auto simp: use_hdd_def)
      with hdd obtain fds where f: "open_object k (the (tm_hdd tm)) d ?hdd False [] (tm_fs tm) = (tm_fs tm, Inr fds)"
        "extent_ok (pool_drives (the (tm_hdd tm))) ?kh fds ?n"
        "holds (pool_drives (the (tm_hdd tm))) ?kh fds ?st (drop ?ssd (padded data))" unfolding tier_stored_def by blast
      have hbal: "kDeviceBlock dvd hb" using off lay(2) [OF u(1)] al(2) by (auto simp: hb_def max_def)
      have sl2: "off + w + kDeviceBlock \<le> 2 ^ 64" using w(1) len by simp
      have pd: "align_up (off + w) kDeviceBlock \<le> length (padded data)" unfolding pl by (rule align_up_mono [OF w(1) len])
      have up: "off + w \<le> align_up (off + w) kDeviceBlock" by (rule align_up_bounds(1) [OF sl2])
      have "\<exists>out'. tier_read k tm (the (tm_hdd tm)) d fds (hb - ?ssd) (hb - off) (off + w - hb) out2 = Inr out' \<and>
          tier_fills data off hb (off + w) out2 out'"
      proof (rule tier_read_fills [OF f(2) k f(3) _ _ _ _ hbal sl2])
        show "length (drop ?ssd (padded data)) \<le> ?n" using pn by simp
        show "off \<le> hb" "hb \<le> off + w" "?ssd \<le> hb" using u(2) by (auto simp: hb_def)
        show "off + w \<le> off + length out2" using w(2) c1(1) sf by (simp add: tier_fills_def)
        show "align_up (off + w) kDeviceBlock \<le> ?ssd + length (drop ?ssd (padded data))" using pd up u(2) by simp
        show "drop ?ssd (padded data) ! (i - ?ssd) = data ! i" if "hb \<le> i" "i < off + w" for i
          using that w(1) pd up u(2) by (simp add: hb_def nth_padded)
      qed
      with f(1) True show ?thesis by auto
    qed
    then obtain hfd out3 where ho: "(if use_hdd then snd (open_object k (the (tm_hdd tm)) d ?hdd False [] (tm_fs tm)) else Inr []) = Inr hfd"
      and hr: "(if use_hdd then tier_read k tm (the (tm_hdd tm)) d hfd (hb - ?ssd) (hb - off) (off + w - hb) out2 else Inr out2) = Inr out3"
      and hf: "tier_fills data off hb (if use_hdd then off + w else hb) out2 out3" by blast
    have run: "tm_read k tm d off out = Inr (out3, w)"
    proof -
      have nf: "\<not> off \<ge> om_size m" using False m(2) by simp
      show ?thesis
        unfolding tm_read_def m(1) option.case if_not_P [OF nf] Let_def m(2) l_def [symmetric] w_def [symmetric] ch prod.case
          sb_def [symmetric] ss_def [symmetric] hb_def [symmetric] use_ssd_def [symmetric] use_hdd_def [symmetric]
          so sum.case ho sr hr using False by simp
    qed
    have "take w out3 = slice off w data"
    proof (rule nth_equalityI)
      show "length (take w out3) = length (slice off w data)"
        using w hf sf c1(1) by (simp add: tier_fills_def length_slice)
      fix j
      assume "j < length (take w out3)"
      then have j: "j < w" by simp
      then have jl: "j < length out1" "j < length out2" using w(2) c1(1) sf by (simp_all add: tier_fills_def)
      have "out3 ! j = data ! (off + j)"
      proof (cases "use_hdd \<and> ?ssd \<le> off + j")
        case True
        with hf j jl show ?thesis by (simp add: tier_fills_def hb_def)
      next
        case nh: False
        have o3: "out3 ! j = out2 ! j"
        proof (cases use_hdd)
          case True
          then have "off + j < hb" using nh by (auto simp: hb_def)
          with hf jl show ?thesis by (simp add: tier_fills_def)
        qed (use hr in simp)
        have o2: "out2 ! j = out1 ! j" if "off + j < ram_end" using that sf jl by (simp add: tier_fills_def sb_def)
        show ?thesis
        proof (cases "off + j < ram_end")
          case True
          with o3 o2 c1(3) [OF j] show ?thesis by simp
        next
          case no: False
          have "off + j < ?ssd"
          proof (rule ccontr)
            assume ge: "\<not> off + j < ?ssd"
            then have "\<not> use_hdd" using nh by simp
            then have "?hdd = 0" using ge j lay(2) by (auto simp: use_hdd_def)
            then have z: "?ssd = 0" "length data \<le> ram_head (tm_tiers tm)" using lay(1) ge j w(1) by auto
            have "data \<noteq> []" using j w(1) by auto
            then have "ram_end = length data" using ramonly z \<open>?hdd = 0\<close> c1(2) hd by (simp add: head_stored_def)
            with no j w(1) show False by simp
          qed
          then have "sb \<le> off + j" "off + j < ss" using no j by (auto simp: sb_def ss_def)
          with sf jl o3 show ?thesis by (simp add: tier_fills_def)
        qed
      qed
      with j w show "take w out3 ! j = slice off w data ! j" by (simp add: nth_slice)
    qed
    with run hf sf c1(1) show ?thesis by (auto simp: tier_fills_def)
  qed
qed

section \<open>From store to rest\<close>

text \<open>Writing to files leaves the directories alone.\<close>

lemma flush_block_dirs:
  "flush_block k tm h n = (tm', h', res) \<Longrightarrow>
     fs_dirs (tm_fs tm') = fs_dirs (tm_fs tm) \<and> fs_next (tm_fs tm') = fs_next (tm_fs tm)"
  unfolding flush_block_def Let_def tier_pwrite_def
  by (auto split: prod.splits sum.splits if_splits option.splits)

lemma stage_loop_dirs:
  "stage_loop k tm h p = Some (tm', h', res) \<Longrightarrow>
     fs_dirs (tm_fs tm') = fs_dirs (tm_fs tm) \<and> fs_next (tm_fs tm') = fs_next (tm_fs tm)"
proof -
  have "fs_dirs (tm_fs (fst y)) = fs_dirs (tm_fs tm) \<and> fs_next (tm_fs (fst y)) = fs_next (tm_fs tm)"
    if "stage_loop k tm h p = Some y" for y
    using that
  proof (induction k tm h p y rule: stage_loop.raw_induct [rotated, consumes 1, case_names step])
    case (step loop k tm h p y)
    let ?n = "min (length p) (snd (sh_stage h) - sh_stage_fill h)"
    let ?tm = "tm\<lparr>tm_mem := mem_put (fst (sh_stage h) + sh_stage_fill h) (take ?n p) (tm_mem tm)\<rparr>"
    let ?h = "h\<lparr>sh_stage_fill := sh_stage_fill h + ?n\<rparr>"
    obtain tm2 h2 r2 where f: "flush_block k ?tm ?h (snd (sh_stage h)) = (tm2, h2, r2)" by (metis prod_cases3)
    have fd: "fs_dirs (tm_fs tm2) = fs_dirs (tm_fs tm) \<and> fs_next (tm_fs tm2) = fs_next (tm_fs tm)"
      using flush_block_dirs [OF f] by simp
    show ?case
    proof (cases "p = []")
      case True
      with step(2) show ?thesis by auto
    next
      case False
      note body = step(2) [unfolded if_not_P [OF False] Let_def]
      show ?thesis
      proof (cases "sh_stage_fill ?h = snd (sh_stage h)")
        case True
        with body f have "(case r2 of Inl e \<Rightarrow> Some (tm2, h2, Inl e) | Inr x \<Rightarrow> loop k tm2 h2 (drop ?n p)) = Some y"
          by (cases r2) simp_all
        then show ?thesis using fd step(1) [of k tm2 h2 "drop ?n p" y] by (cases r2) auto
      next
        case False
        with body have "loop k ?tm ?h (drop ?n p) = Some y" by simp
        from step(1) [OF this] show ?thesis by simp
      qed
    qed
  qed
  then show "stage_loop k tm h p = Some (tm', h', res) \<Longrightarrow>
     fs_dirs (tm_fs tm') = fs_dirs (tm_fs tm) \<and> fs_next (tm_fs tm') = fs_next (tm_fs tm)" by fastforce
qed

lemma handle_write_dirs:
  "handle_write k tm h data = Some (tm', h', res) \<Longrightarrow>
     fs_dirs (tm_fs tm') = fs_dirs (tm_fs tm) \<and> fs_next (tm_fs tm') = fs_next (tm_fs tm)"
  unfolding handle_write_def Let_def
  by (cases "sh_head h") (auto split: if_splits option.splits sum.splits dest!: stage_loop_dirs)

lemma flush_tail_dirs:
  "flush_tail k tm h = (tm', h', res) \<Longrightarrow>
     fs_dirs (tm_fs tm') = fs_dirs (tm_fs tm) \<and> fs_next (tm_fs tm') = fs_next (tm_fs tm)"
  unfolding flush_tail_def Let_def by (auto split: if_splits dest!: flush_block_dirs)

lemma fs_ok_cong: "fs_dirs fs' = fs_dirs fs \<Longrightarrow> fs_next fs' = fs_next fs \<Longrightarrow> fs_ok fs' = fs_ok fs"
  by (simp add: fs_ok_def)

text \<open>Evictions by the object bound do not touch the files of an object that stays.\<close>

definition keeps_files :: "digest \<Rightarrow> dir_fs \<Rightarrow> dir_fs \<Rightarrow> bool" where
  "keeps_files d fs fs' \<longleftrightarrow> (fs_ok fs \<longrightarrow> fs_ok fs') \<and> fs_store fs' = fs_store fs \<and>
     (\<forall>dir. fs_dirs fs' dir (digest_hex d) = fs_dirs fs dir (digest_hex d))"

lemma unlink_keeps: "fs_ok fs \<Longrightarrow> v \<noteq> d \<Longrightarrow> keeps_files d fs (unlink_object k p v n [] fs)"
  using unlink_object_ok(1-3) [of fs k p v n "[]"] unlink_object_ok(4) [of fs "digest_hex d" v "[]"] digest_hex_injective [of d v]
  by (auto simp: keeps_files_def)

lemma keeps_files_trans: "keeps_files d a b \<Longrightarrow> keeps_files d b c \<Longrightarrow> keeps_files d a c"
  by (simp add: keeps_files_def)

lemma keeps_files_refl [simp]: "keeps_files d a a"
  by (simp add: keeps_files_def)

lemma drop_object_keeps:
  assumes "fs_ok (tm_fs tm)" and "v \<noteq> d"
  shows "keeps_files d (tm_fs tm) (tm_fs (drop_object k tm v))"
proof (cases "index_lookup (tm_index tm) v")
  case None
  then show ?thesis by (simp add: drop_object_def)
next
  case (Some m)
  define l where "l = compute_layout (om_size m) (tm_tiers tm) (three_layer tm)"
  let ?fs1 = "if 0 < ol_ssd_bytes l then unlink_object k (tm_ssd tm) v (ol_ssd_bytes l) [] (tm_fs tm) else tm_fs tm"
  have three: "three_layer (tm'\<lparr>tm_object_policy := p\<rparr>) = three_layer tm'" for tm' p by (simp add: three_layer_def)
  have k1: "keeps_files d (tm_fs tm) ?fs1" using unlink_keeps [OF assms] by simp
  then have ok1: "fs_ok ?fs1" using assms(1) by (simp add: keeps_files_def)
  have "tm_fs (drop_object k tm v) = (case tm_hdd tm of None \<Rightarrow> ?fs1 | Some hp \<Rightarrow>
      if 0 < ol_hdd_bytes l then unlink_object k hp v (ol_hdd_bytes l) [] ?fs1 else ?fs1)"
    using Some by (simp add: drop_object_def unlink_scratch_def Let_def l_def three_layer_def split: option.split)
  moreover have "keeps_files d (tm_fs tm) (if 0 < ol_hdd_bytes l then unlink_object k hp v (ol_hdd_bytes l) [] ?fs1 else ?fs1)" for hp
    using keeps_files_trans [OF k1 unlink_keeps [OF ok1 assms(2)]] k1 by simp
  ultimately show ?thesis using k1 by (cases "tm_hdd tm") (simp_all only: option.case)
qed

lemma enforce_object_bound_keeps:
  "index_ok (tm_index tm) \<Longrightarrow> fs_ok (tm_fs tm) \<Longrightarrow> index_lookup (tm_index (enforce_object_bound k tm)) d = Some m \<Longrightarrow>
     index_lookup (tm_index tm) d = Some m \<and> keeps_files d (tm_fs tm) (tm_fs (enforce_object_bound k tm))"
proof (induction k tm rule: enforce_object_bound.induct)
  case (1 k tm)
  obtain vo pol where e: "s3_evict (tm_object_policy tm) = (vo, pol)" by (cases "s3_evict (tm_object_policy tm)")
  show ?case
  proof (cases "tm_max_objects tm \<noteq> 0 \<and> index_size (tm_index tm) > tm_max_objects tm")
    case False
    then have "enforce_object_bound k tm = tm" by (auto simp: enforce_object_bound.simps [of k tm])
    with "1.prems" show ?thesis by simp
  next
    case over: True
    show ?thesis
    proof (cases vo)
      case None
      with over e have "enforce_object_bound k tm = tm\<lparr>tm_object_policy := pol\<rparr>"
        by (simp add: enforce_object_bound.simps [of k tm])
      with "1.prems" show ?thesis by simp
    next
      case (Some v)
      let ?tm = "tm\<lparr>tm_object_policy := pol\<rparr>" and ?tm1 = "drop_object k (tm\<lparr>tm_object_policy := pol\<rparr>) v"
      have ix: "index_ok (tm_index ?tm)" and fo: "fs_ok (tm_fs ?tm)" using "1.prems" by simp_all
      have eq: "enforce_object_bound k tm = enforce_object_bound k ?tm1"
        using over e Some by (simp add: enforce_object_bound.simps [of k tm])
      have lk: "index_lookup (tm_index ?tm1) = (index_lookup (tm_index tm))(v := None)"
        using drop_object_index(2) [OF ix, of k v] by simp
      have fo1: "fs_ok (tm_fs ?tm1)"
      proof -
        have "keeps_files (v @ [0]) (tm_fs ?tm) (tm_fs ?tm1)" by (rule drop_object_keeps [OF fo]) simp
        with fo show ?thesis by (simp add: keeps_files_def)
      qed
      from "1.IH" [OF over e [symmetric] Some drop_object_index(1) [OF ix] fo1] "1.prems"(3) eq
      have ih: "index_lookup (tm_index ?tm1) d = Some m" "keeps_files d (tm_fs ?tm1) (tm_fs (enforce_object_bound k tm))" by simp_all
      have "v \<noteq> d" using ih(1) lk by auto
      with drop_object_keeps [OF fo, of v d k] ih lk keeps_files_trans show ?thesis by auto
    qed
  qed
qed

lemma enforce_object_bound_place: "same_place tm (enforce_object_bound k tm)"
proof (induction k tm rule: enforce_object_bound.induct)
  case (1 k tm)
  obtain vo pol where e: "s3_evict (tm_object_policy tm) = (vo, pol)" by (cases "s3_evict (tm_object_policy tm)")
  have d: "same_place tm (drop_object k (tm\<lparr>tm_object_policy := pol\<rparr>) v)" for v
    by (simp add: same_place_def drop_object_def Let_def split: option.split)
  show ?case
  proof (cases "tm_max_objects tm \<noteq> 0 \<and> index_size (tm_index tm) > tm_max_objects tm")
    case True
    with "1.IH" [OF True e [symmetric]] e d same_place_trans show ?thesis
      by (cases vo) (auto simp: enforce_object_bound.simps [of k tm] same_place_def)
  qed (auto simp: enforce_object_bound.simps [of k tm] same_place_def)
qed

text \<open>
  What the disks are relied on for: one directory per drive and none in both pools, no inode
  under two names, and a chunk sum that does not wrap for this object.
\<close>

definition pool_fits :: "pool \<Rightarrow> digest \<Rightarrow> nat \<Rightarrow> bool" where
  "pool_fits p d n \<longleftrightarrow> pool_ok p \<and> no_wrap (pool_drives p) (digest_bucket d) n \<and> n + dp_s (pool_drives p) < 2 ^ 64"

definition disks_ok :: "tier_manager \<Rightarrow> digest \<Rightarrow> nat \<Rightarrow> bool" where
  "disks_ok tm d n \<longleftrightarrow>
     fs_ok (tm_fs tm) \<and> pool_fits (tm_ssd tm) d (n + kDeviceBlock) \<and>
     (\<forall>hp. tm_hdd tm = Some hp \<longrightarrow>
        pool_fits hp d (n + kDeviceBlock) \<and> set (pool_dirfds (tm_ssd tm)) \<inter> set (pool_dirfds hp) = {})"

lemma no_wrap_mono: "no_wrap p kh n \<Longrightarrow> m \<le> n \<Longrightarrow> no_wrap p kh m"
  using div_le_mono [of m n "dp_s p"] by (auto simp: no_wrap_def)

lemma open_extent_ok:
  assumes "open_object k p d n create suffix fs = (fs', Inr fds)" and "fs_ok fs" and "0 < n" and "pool_fits p d N"
  shows "extent_ok (pool_drives p) (digest_bucket d) fds N"
  using assms(4) open_object_fds(4) [OF assms(1,2) _ assms(3)] by (simp add: extent_ok_def pool_fits_def pool_ok_def)

lemma open_fd_name:
  assumes "open_object k p d n create suffix fs = (fs', Inr fds)" and "fs_ok fs" and "pool_ok p" and "0 < n"
    and "Some ino \<in> set fds"
  shows "\<exists>dir \<in> set (pool_dirfds p). fs_dirs fs' dir (digest_hex d @ suffix) = Some ino"
proof -
  note f = open_object_fds [OF assms(1-4)]
  from assms(5) obtain dr where "dr < dp_n (pool_drives p)" "fds ! dr = Some ino" using f(1) by (auto simp: in_set_conv_nth)
  with f(2) [of dr] assms(3) show ?thesis by (auto simp: pool_ok_def split: if_splits)
qed

lemma layout_bounds:
  "ol_ssd_bytes (compute_layout sz t three) \<le> sz" "ol_hdd_bytes (compute_layout sz t three) \<le> sz"
  "0 < ol_hdd_bytes (compute_layout sz t three) \<Longrightarrow> three"
  by (auto simp: compute_layout_def Let_def split: if_splits)

lemma align_up_0 [simp]: "align_up 0 kDeviceBlock = 0"
  by (rule align_up_unique) (simp_all add: size_defs)

text \<open>The handle of a new store: its descriptors fit.\<close>

lemma begin_store_fits:
  assumes b: "begin_store k tm d sz = (tm1, Inr h)" and dk: "disks_ok tm d sz"
    and same: "tm_ssd tm1 = tm_ssd tm" "tm_hdd tm1 = tm_hdd tm"
  shows "files_fit tm1 h (sz + kDeviceBlock)" and "fs_ok (tm_fs tm1)" and "staged tm1 h []"
proof -
  define l where "l = compute_layout sz (tm_tiers tm) (three_layer tm)"
  define sfx where "sfx = ''.tmp.'' @ dec_str (tm_store_seq tm)"
  let ?N = "sz + kDeviceBlock"
  obtain fs1 head stage sfd hfd where
    h: "h = \<lparr>sh_digest = d, sh_layout = l, sh_ssd = sfd, sh_hdd = hfd, sh_head = head, sh_suffix = sfx,
       sh_stage = stage, sh_stage_fill = 0, sh_flushed = 0, sh_off = 0, sh_committed = False\<rparr>"
    and s: "0 < ol_ssd_bytes l \<Longrightarrow> open_object k (tm_ssd tm) d (ol_ssd_bytes l) True sfx (tm_fs tm) = (fs1, Inr sfd)"
      "ol_ssd_bytes l = 0 \<Longrightarrow> fs1 = tm_fs tm \<and> sfd = []"
    and hd: "0 < ol_hdd_bytes l \<Longrightarrow> \<exists>fds. hfd = Some fds \<and>
       open_object k (the (tm_hdd tm)) d (ol_hdd_bytes l) True sfx fs1 = (tm_fs tm1, Inr fds)"
      "ol_hdd_bytes l = 0 \<Longrightarrow> hfd = None \<and> tm_fs tm1 = fs1"
    by (rule begin_store_files [OF b, folded l_def sfx_def]) rule
  have ok0: "fs_ok (tm_fs tm)" and ps: "pool_fits (tm_ssd tm) d ?N" using dk by (simp_all add: disks_ok_def)
  have ok1: "fs_ok fs1"
    using s ok0 open_object_ok(1) by (cases "0 < ol_ssd_bytes l") auto
  have es: "extent_ok (pool_drives (tm_ssd tm)) (digest_bucket d) sfd ?N" if "0 < ol_ssd_bytes l"
    by (rule open_extent_ok [OF s(1) [OF that] ok0 that ps])
  show "staged tm1 h []" by (simp add: staged_def h tiers_hold_def mem_get_def)
  have ext: "0 < ssd_extent l \<longrightarrow> 0 < ol_ssd_bytes l" by (auto simp: ssd_extent_def intro: gr0I)
  show "fs_ok (tm_fs tm1)"
    using hd ok1 open_object_ok(1) [OF _ ok1] by (cases "0 < ol_hdd_bytes l") auto
  then have ok2: "fs_ok (tm_fs tm1)" .
  show "files_fit tm1 h ?N"
  proof (cases "0 < ol_hdd_bytes l")
    case False
    with hd(2) es ext same show ?thesis by (simp add: files_fit_def h)
  next
    case True
    from hd(1) [OF True] obtain fds where f: "hfd = Some fds"
      "open_object k (the (tm_hdd tm)) d (ol_hdd_bytes l) True sfx fs1 = (tm_fs tm1, Inr fds)" by blast
    have "three_layer tm" using layout_bounds(3) True by (simp add: l_def)
    then obtain hp where hp: "tm_hdd tm = Some hp" by (auto simp: three_layer_def)
    with dk have ph: "pool_fits hp d ?N" and dj: "set (pool_dirfds (tm_ssd tm)) \<inter> set (pool_dirfds hp) = {}"
      by (simp_all add: disks_ok_def)
    have f2: "open_object k hp d (ol_hdd_bytes l) True sfx fs1 = (tm_fs tm1, Inr fds)" using f(2) hp by simp
    have eh: "extent_ok (pool_drives hp) (digest_bucket d) fds ?N" by (rule open_extent_ok [OF f2 ok1 True ph])
    have "Some ino \<notin> set sfd \<or> Some ino \<notin> set fds" for ino
    proof (rule ccontr)
      assume "\<not> ?thesis"
      then have a: "Some ino \<in> set sfd" "Some ino \<in> set fds" by auto
      then have sp: "0 < ol_ssd_bytes l" using s(2) by (cases "ol_ssd_bytes l") auto
      from open_fd_name [OF s(1) [OF sp] ok0 _ sp a(1)] ps obtain dir where
        d1: "dir \<in> set (pool_dirfds (tm_ssd tm))" "fs_dirs fs1 dir (digest_hex d @ sfx) = Some ino" by (auto simp: pool_fits_def)
      from d1(2) open_object_ok(2) [OF f2 ok1] have d1': "fs_dirs (tm_fs tm1) dir (digest_hex d @ sfx) = Some ino"
        unfolding fs_ext_def by blast
      from open_fd_name [OF f2 ok1 _ True a(2)] ph obtain dir' where
        d2: "dir' \<in> set (pool_dirfds hp)" "fs_dirs (tm_fs tm1) dir' (digest_hex d @ sfx) = Some ino" by (auto simp: pool_fits_def)
      have "dir = dir'" using ok2 d1' d2(2) unfolding fs_ok_def by blast
      with d1(1) d2(1) dj show False by blast
    qed
    with es eh ext same hp f(1) show ?thesis by (simp add: files_fit_def h)
  qed
qed

text \<open>Publishing keeps the contents, and a reader finds the writer's descriptors.\<close>

lemma pool_publish_frame:
  assumes "pool_publish k p d n sfx fs = (fs', res)" and "fs_ok fs" and "sfx \<noteq> []" and "pool_ok p"
  shows "fs_ok fs'" and "fs_store fs' = fs_store fs" and "dir \<notin> set (pool_dirfds p) \<Longrightarrow> fs_dirs fs' dir = fs_dirs fs dir"
proof -
  have "fs_ok fs' \<and> fs_store fs' = fs_store fs \<and> (dir \<notin> set (pool_dirfds p) \<longrightarrow> fs_dirs fs' dir = fs_dirs fs dir)"
  proof (cases "n = 0")
    case True
    with assms show ?thesis by (simp add: pool_publish_def)
  next
    case False
    with assms(1) have pl: "publish_loop k p d (digest_hex d @ sfx) (digest_hex d) [0..<files_used (pool_drives p) n] fs = (fs', res)"
      by (simp add: pool_publish_def)
    have "pool_dirfds p ! chunk_drive p d c \<in> set (pool_dirfds p)" for c
      using chunk_drive_less [OF assms(4), of d c] assms(4) by (simp add: pool_ok_def)
    then have "dir \<notin> set (pool_dirfds p) \<longrightarrow> dir \<notin> (\<lambda>c. pool_dirfds p ! chunk_drive p d c) ` set [0..<files_used (pool_drives p) n]"
      by blast
    with publish_loop_frame [OF pl assms(2) suffix_name [OF assms(3)]] show ?thesis by (auto simp: fun_eq_iff)
  qed
  then show "fs_ok fs'" "fs_store fs' = fs_store fs" "dir \<notin> set (pool_dirfds p) \<Longrightarrow> fs_dirs fs' dir = fs_dirs fs dir" by blast+
qed

lemma published:
  assumes dk: "disks_ok tm d sz" and l: "l = compute_layout sz (tm_tiers tm) (three_layer tm)" and sfx: "sfx \<noteq> []"
    and sI: "0 < ol_ssd_bytes l \<longrightarrow> open_object k (tm_ssd tm) d (ol_ssd_bytes l) True sfx (tm_fs tm) = (fs1, Inr sfd)"
      "ol_ssd_bytes l = 0 \<longrightarrow> fs1 = tm_fs tm \<and> sfd = []"
    and hdI: "0 < ol_hdd_bytes l \<longrightarrow> (\<exists>fds. hfd = Some fds \<and>
       open_object k (the (tm_hdd tm)) d (ol_hdd_bytes l) True sfx fs1 = (fs2, Inr fds))"
      "ol_hdd_bytes l = 0 \<longrightarrow> hfd = None \<and> fs2 = fs1"
    and wr: "fs_dirs (tm_fs tm3) = fs_dirs fs2" "fs_next (tm_fs tm3) = fs_next fs2"
      "tm_ssd tm3 = tm_ssd tm" "tm_hdd tm3 = tm_hdd tm"
    and h3: "sh_digest h3 = d" "sh_layout h3 = l" "sh_suffix h3 = sfx"
    and pub: "publish_tiers k tm3 h3 = (tm4, Inr u)" and kp: "keeps_files d (tm_fs tm4) fs5" and kind: "kind_kernel k'"
  shows "fs_ok (tm_fs tm4)" and "fs_store (tm_fs tm4) = fs_store (tm_fs tm3)"
    and "0 < ol_ssd_bytes l \<Longrightarrow> open_object k' (tm_ssd tm) d (ol_ssd_bytes l) False [] fs5 = (fs5, Inr sfd)"
    and "0 < ol_hdd_bytes l \<Longrightarrow> \<exists>fds. hfd = Some fds \<and>
      open_object k' (the (tm_hdd tm)) d (ol_hdd_bytes l) False [] fs5 = (fs5, Inr fds)"
proof -
  note s = sI [rule_format] and hd = hdI [rule_format]
  let ?N = "sz + kDeviceBlock" and ?live = "digest_hex d" and ?tmp = "digest_hex d @ sfx"
  have ok0: "fs_ok (tm_fs tm)" and ps: "pool_fits (tm_ssd tm) d ?N" using dk by (simp_all add: disks_ok_def)
  have ok1: "fs_ok fs1" using s ok0 open_object_ok(1) by (cases "0 < ol_ssd_bytes l") auto
  have ok2: "fs_ok fs2" using hd ok1 open_object_ok(1) [OF _ ok1] by (cases "0 < ol_hdd_bytes l") auto
  have ok3: "fs_ok (tm_fs tm3)" using ok2 fs_ok_cong [OF wr(1,2)] by simp
  have ext2: "fs_dirs fs1 dir ?tmp = Some i \<Longrightarrow> fs_dirs fs2 dir ?tmp = Some i" for dir i
    using hd open_object_ok(2) [OF _ ok1] by (cases "0 < ol_hdd_bytes l") (auto simp: fs_ext_def)
  note nw = no_wrap_mono [OF _ trans_le_add1 [where m = kDeviceBlock]]
  have lb: "ol_ssd_bytes l \<le> sz" "ol_hdd_bytes l \<le> sz" using layout_bounds by (simp_all add: l)
  define fsA where "fsA = (if 0 < ol_ssd_bytes l then fst (pool_publish k (tm_ssd tm) d (ol_ssd_bytes l) sfx (tm_fs tm3)) else tm_fs tm3)"
  have pubA: "0 < ol_ssd_bytes l \<Longrightarrow> pool_publish k (tm_ssd tm) d (ol_ssd_bytes l) sfx (tm_fs tm3) = (fsA, Inr ())"
    and pubB: "if 0 < ol_hdd_bytes l then pool_publish k (the (tm_hdd tm)) d (ol_hdd_bytes l) sfx fsA = (tm_fs tm4, Inr ())
      else tm_fs tm4 = fsA"
    using pub layout_bounds(3) [of sz "tm_tiers tm" "three_layer tm"] wr(3,4)
    by (auto simp: publish_tiers_def h3 Let_def fsA_def three_layer_def l split: prod.splits sum.splits if_splits option.splits)
  have fA: "fs_ok fsA" "fs_store fsA = fs_store (tm_fs tm3)"
    "\<And>dir. dir \<notin> set (pool_dirfds (tm_ssd tm)) \<Longrightarrow> fs_dirs fsA dir = fs_dirs (tm_fs tm3) dir"
    using pool_publish_frame [OF pubA ok3 sfx] ps ok3
    by (cases "0 < ol_ssd_bytes l"; simp add: pool_fits_def; simp add: fsA_def)+
  have hp: "\<exists>hp. tm_hdd tm = Some hp \<and> pool_fits hp d ?N \<and> set (pool_dirfds (tm_ssd tm)) \<inter> set (pool_dirfds hp) = {}"
    if "0 < ol_hdd_bytes l"
    using that layout_bounds(3) [of sz "tm_tiers tm" "three_layer tm"] dk by (auto simp: l three_layer_def disks_ok_def)
  have fB: "fs_ok (tm_fs tm4)" "fs_store (tm_fs tm4) = fs_store fsA"
    "\<And>dir. dir \<in> set (pool_dirfds (tm_ssd tm)) \<Longrightarrow> fs_dirs (tm_fs tm4) dir = fs_dirs fsA dir"
  proof -
    have "fs_ok (tm_fs tm4) \<and> fs_store (tm_fs tm4) = fs_store fsA \<and>
        (\<forall>dir \<in> set (pool_dirfds (tm_ssd tm)). fs_dirs (tm_fs tm4) dir = fs_dirs fsA dir)"
    proof (cases "0 < ol_hdd_bytes l")
      case True
      from hp [OF True] obtain hpl where h: "tm_hdd tm = Some hpl" "pool_ok hpl"
        "set (pool_dirfds (tm_ssd tm)) \<inter> set (pool_dirfds hpl) = {}" by (auto simp: pool_fits_def)
      have pB: "pool_publish k hpl d (ol_hdd_bytes l) sfx fsA = (tm_fs tm4, Inr ())" using pubB True h(1) by simp
      from pool_publish_frame [OF pB fA(1) sfx h(2)] h(3) show ?thesis by blast
    qed (use pubB fA(1) in simp)
    then show "fs_ok (tm_fs tm4)" "fs_store (tm_fs tm4) = fs_store fsA"
      "\<And>dir. dir \<in> set (pool_dirfds (tm_ssd tm)) \<Longrightarrow> fs_dirs (tm_fs tm4) dir = fs_dirs fsA dir" by blast+
  qed
  show "fs_ok (tm_fs tm4)" "fs_store (tm_fs tm4) = fs_store (tm_fs tm3)" using fB fA by simp_all
  have ok5: "fs_ok fs5" using kp fB(1) by (simp add: keeps_files_def)
  show "open_object k' (tm_ssd tm) d (ol_ssd_bytes l) False [] fs5 = (fs5, Inr sfd)" if sp: "0 < ol_ssd_bytes l"
  proof (rule publish_reopen [OF s(1) [OF sp] ok0 _ sp sfx _ _ ok3 _ pubA [OF sp] ok5])
    show "pool_ok (tm_ssd tm)" "no_wrap (pool_drives (tm_ssd tm)) (digest_bucket d) (ol_ssd_bytes l)"
      "ol_ssd_bytes l + dp_s (pool_drives (tm_ssd tm)) < 2 ^ 64"
      using ps lb(1) no_wrap_mono [of "pool_drives (tm_ssd tm)" "digest_bucket d" ?N "ol_ssd_bytes l"] by (auto simp: pool_fits_def)
    show "fs_dirs (tm_fs tm3) dir ?tmp = Some i" if "fs_dirs fs1 dir ?tmp = Some i" for dir i
      using ext2 [OF that] wr(1) by simp
    show "fs_dirs fs5 dir ?live = fs_dirs fsA dir ?live" if "dir \<in> set (pool_dirfds (tm_ssd tm))" for dir
      using fB(3) [OF that] kp by (simp add: keeps_files_def)
  qed (use kind in \<open>simp add: kind_kernel_def\<close>)
  show "\<exists>fds. hfd = Some fds \<and> open_object k' (the (tm_hdd tm)) d (ol_hdd_bytes l) False [] fs5 = (fs5, Inr fds)"
    if hpos: "0 < ol_hdd_bytes l"
  proof -
    obtain hpl where h: "tm_hdd tm = Some hpl" "pool_fits hpl d ?N" "set (pool_dirfds (tm_ssd tm)) \<inter> set (pool_dirfds hpl) = {}"
      using hp [OF hpos] by blast
    obtain fds where f: "hfd = Some fds" "open_object k hpl d (ol_hdd_bytes l) True sfx fs1 = (fs2, Inr fds)"
      using hd(1) [OF hpos] h(1) by auto
    have pB: "pool_publish k hpl d (ol_hdd_bytes l) sfx fsA = (tm_fs tm4, Inr ())" using pubB hpos h(1) by simp
    have "open_object k' hpl d (ol_hdd_bytes l) False [] fs5 = (fs5, Inr fds)"
    proof (rule publish_reopen [OF f(2) ok1 _ hpos sfx _ _ fA(1) _ pB ok5])
      show "pool_ok hpl" "no_wrap (pool_drives hpl) (digest_bucket d) (ol_hdd_bytes l)"
        "ol_hdd_bytes l + dp_s (pool_drives hpl) < 2 ^ 64"
        using h(2) lb(2) no_wrap_mono [of "pool_drives hpl" "digest_bucket d" ?N "ol_hdd_bytes l"] by (auto simp: pool_fits_def)
      show "fs_dirs fsA dir ?tmp = Some i" if "dir \<in> set (pool_dirfds hpl)" "fs_dirs fs2 dir ?tmp = Some i" for dir i
      proof -
        have "dir \<notin> set (pool_dirfds (tm_ssd tm))" using that(1) h(3) by blast
        with that(2) fA(3) [of dir] wr(1) show ?thesis by simp
      qed
      show "fs_dirs fs5 dir ?live = fs_dirs (tm_fs tm4) dir ?live" for dir using kp by (simp add: keeps_files_def)
    qed (use kind in \<open>simp add: kind_kernel_def\<close>)
    with f(1) h(1) show ?thesis by simp
  qed
qed

text \<open>The head of a handle is in the RAM pool, away from its staging buffer.\<close>

lemma handle_head_apart:
  assumes "world_ok (tm, h # hs, ps)"
  shows "stage_span h \<inter> head_span h = {}"
proof (cases "sh_head h")
  case None
  then show ?thesis by (simp add: head_span_def)
next
  case (Some r)
  let ?bb = "pool_bb (tm_ram tm)"
  have ow: "owned tm (handles_ms ?bb (h # hs)) ps" and hk: "handle_ok tm h" and pk: "pools_ok tm" using assms by simp_all
  obtain L where L: "pool_live (tm_ram tm) L"
    "mset L = heads_ms ?bb (heads_of (tm_index tm)) + orphans_ms ?bb (tm_pins tm) + handles_ms ?bb (h # hs)"
    using ow by (rule cache_okD)
  have "rg_reg ?bb r \<in># mset L" unfolding L(2) using Some by simp
  then have "(fst (rg_reg ?bb r), snd (rg_reg ?bb r)) \<in> set L" by simp
  from pool.live_bounds [OF L(1) this] have "fst (rg_reg ?bb r) + rg_len r \<le> pool_capacity (tm_ram tm)" by (simp add: rg_reg_def)
  then have "head_span h \<subseteq> {bp_base (pl_blocks (tm_ram tm)) ..< bp_base (pl_blocks (tm_ram tm)) + pool_capacity (tm_ram tm)}"
    using hk Some by (auto simp: head_span_def handle_ok_def)
  with hk pk show ?thesis unfolding handle_ok_def pools_ok_def by blast
qed

text \<open>A successful store, operation by operation.\<close>

lemma tm_store_parts:
  assumes "tm_store k now tm d data flags expiry = Some (tm', Inr u)"
  obtains tm1 h tm2 h2 tm3 h3 tm4 where
    "begin_store k tm d (length data) = (tm1, Inr h)" "handle_write k tm1 h data = Some (tm2, h2, Inr ())"
    "flush_tail k tm2 h2 = (tm3, h3, Inr ())" "publish_tiers k tm3 h3 = (tm4, Inr ())"
    "tm' = enforce_object_bound k (swap_in tm4 h3 (index_lookup (tm_index tm3) (sh_digest h3)) flags expiry)"
proof -
  obtain tm1 r1 where b: "begin_store k tm d (length data) = (tm1, r1)" by (metis surj_pair)
  with assms obtain h where r1: "r1 = Inr h" by (cases r1) (auto simp: tm_store_def)
  obtain w where hw: "handle_write k tm1 h data = Some w" using assms b r1 by (cases "handle_write k tm1 h data") (auto simp: tm_store_def)
  obtain tm2 h2 r2 where w: "w = (tm2, h2, r2)" by (metis prod_cases3)
  have r2: "r2 = Inr ()" using assms b r1 hw w by (cases r2) (auto simp: tm_store_def)
  obtain tm5 h5 r5 where c: "commit k now tm2 h2 flags expiry 0 = (tm5, h5, r5)" by (metis prod_cases3)
  have fin: "tm' = fst (abort_uncommitted k tm5 h5)" "r5 = Inr u" using assms b r1 hw w r2 c by (auto simp: tm_store_def)
  obtain tm3 h3 r3 where f: "flush_tail k tm2 h2 = (tm3, h3, r3)" by (metis prod_cases3)
  have r3: "r3 = Inr ()" and p: "publish_object k now tm3 h3 flags expiry 0 = (tm5, h5, Inr u)"
    using c f fin(2) by (cases r3; auto simp: commit_def split: if_splits)+
  obtain tm4 r4 where pt: "publish_tiers k tm3 h3 = (tm4, r4)" by (metis surj_pair)
  have r4: "r4 = Inr ()" "tm5 = enforce_object_bound k (swap_in tm4 h3 (index_lookup (tm_index tm3) (sh_digest h3)) flags expiry)"
    "sh_committed h5"
    using p pt by (cases r4; auto simp: publish_object_def Let_def cas_fails_def install_object_def)+
  have "tm' = tm5" using fin(1) r4(3) by (simp add: abort_uncommitted_def)
  with that b r1 hw w r2 f r3 pt r4(1,2) show thesis by simp
qed

text \<open>After a successful store that the object bound did not evict, the object is at rest.\<close>

lemma store_stored:
  assumes w: "world_ok (tm, hs, ps)" and dk: "disks_ok tm d (length data)" and rh: "ram_head (tm_tiers tm) < 2 ^ 32"
    and st: "tm_store k now tm d data flags expiry = Some (tm', Inr u)"
    and ix: "index_lookup (tm_index tm') d = Some m" and kind: "kind_kernel k'"
  shows "object_stored k' tm' d data m" and "tm_tiers tm' = tm_tiers tm"
proof -
  define l where "l = compute_layout (length data) (tm_tiers tm) (three_layer tm)"
  define sfx where "sfx = ''.tmp.'' @ dec_str (tm_store_seq tm)"
  let ?N = "length data + kDeviceBlock"
  have N: "?N \<le> 2 ^ 64" using dk by (simp add: disks_ok_def pool_fits_def)
  obtain tm1 h tm2 h2 tm3 h3 tm4 where b: "begin_store k tm d (length data) = (tm1, Inr h)"
    and hw: "handle_write k tm1 h data = Some (tm2, h2, Inr ())" and ft: "flush_tail k tm2 h2 = (tm3, h3, Inr ())"
    and pt: "publish_tiers k tm3 h3 = (tm4, Inr ())"
    and tm': "tm' = enforce_object_bound k (swap_in tm4 h3 (index_lookup (tm_index tm3) (sh_digest h3)) flags expiry)"
    by (rule tm_store_parts [OF st])
  obtain fs1 head stage sfd hfd where
    h: "h = \<lparr>sh_digest = d, sh_layout = l, sh_ssd = sfd, sh_hdd = hfd, sh_head = head, sh_suffix = sfx,
       sh_stage = stage, sh_stage_fill = 0, sh_flushed = 0, sh_off = 0, sh_committed = False\<rparr>"
    and s: "0 < ol_ssd_bytes l \<Longrightarrow> open_object k (tm_ssd tm) d (ol_ssd_bytes l) True sfx (tm_fs tm) = (fs1, Inr sfd)"
      "ol_ssd_bytes l = 0 \<Longrightarrow> fs1 = tm_fs tm \<and> sfd = []"
    and hd: "0 < ol_hdd_bytes l \<Longrightarrow> \<exists>fds. hfd = Some fds \<and>
       open_object k (the (tm_hdd tm)) d (ol_hdd_bytes l) True sfx fs1 = (tm_fs tm1, Inr fds)"
      "ol_hdd_bytes l = 0 \<Longrightarrow> hfd = None \<and> tm_fs tm1 = fs1"
    and head: "ol_ssd_bytes l = 0 \<Longrightarrow> 0 < min (length data) (ram_head (tm_tiers tm)) \<Longrightarrow> head \<noteq> None"
      "\<And>r. head = Some r \<Longrightarrow> rg_len r = u32 (min (length data) (ram_head (tm_tiers tm)))"
    by (rule begin_store_files [OF b, folded l_def sfx_def]) rule
  have w1: "world_ok (tm1, h # hs, ps)" using begin_store_world [OF w b] by (simp del: world_ok.simps)
  have hk: "handle_ok tm1 h" and pk: "pools_ok tm1" using w1 by simp_all
  have fits: "stage_fits h" using hk by (simp add: handle_ok_def)
  have fr: "tm_tiers tm1 = tm_tiers tm" "tm_ssd tm1 = tm_ssd tm" "tm_hdd tm1 = tm_hdd tm"
    using begin_store_place [OF b] by (simp_all add: same_place_def)
  note bf = begin_store_fits [OF b dk fr(2,3)]
  have hl: "length data = ol_size (sh_layout h)" by (simp add: h l_def)
  note wa = handle_write_all [OF hw fits _ hl handle_head_apart [OF w1] bf(1) _ bf(3)]
  have wa0: "sh_off h = 0" "length data \<le> ?N" by (simp_all add: h)
  note wb = wa [OF wa0]
  have fit2: "files_fit tm2 h2 ?N" using bf(1) wb(1,2) files_fit_cong [of tm2 tm1 h h2] by (simp add: same_books_def)
  note tl = flush_tail_same [OF ft wb(3)]
  have sb3: "same_books tm1 tm3" "same_handle h h3" using tl wb(1,2) same_books_trans same_handle_trans by blast+
  have th3: "tiers_hold tm3 h3 (padded data)" if "\<not> (ol_ssd_bytes l = 0 \<and> ol_hdd_bytes l = 0)"
  proof -
    have "staged tm2 h2 data" using wb(5) that by (simp add: h)
    from flush_tail_staged [OF this fit2 ft _ N] show ?thesis by simp
  qed
  define tm5 where "tm5 = swap_in tm4 h3 (index_lookup (tm_index tm3) (sh_digest h3)) flags expiry"
  have tm'5: "tm' = enforce_object_bound k tm5" by (simp add: tm' tm5_def)
  have pm: "same_books tm3 tm4" "tm_mem tm4 = tm_mem tm3" using publish_tiers_same [OF pt] by simp_all
  have sb4: "same_books tm1 tm4" using sb3(1) pm(1) by (rule same_books_trans)
  have h3: "sh_digest h3 = d" "sh_layout h3 = l" "sh_suffix h3 = sfx" "sh_head h3 = head" "sh_ssd h3 = sfd" "sh_hdd h3 = hfd"
    using sb3(2) by (simp_all add: same_handle_def h)
  have place: "same_place tm tm'"
    using enforce_object_bound_place [of tm5 k] sb4 fr unfolding tm'5 same_place_def
    by (simp add: tm5_def swap_in_sel same_books_def)
  then show "tm_tiers tm' = tm_tiers tm" by (simp add: same_place_def)
  have ix4: "index_ok (tm_index tm4)" using w1 sb4 by (simp add: same_books_def books_but_def)
  have dirs: "fs_dirs (tm_fs tm3) = fs_dirs (tm_fs tm1)" "fs_next (tm_fs tm3) = fs_next (tm_fs tm1)"
    using handle_write_dirs [OF hw] flush_tail_dirs [OF ft] by simp_all
  have pl3: "tm_ssd tm3 = tm_ssd tm" "tm_hdd tm3 = tm_hdd tm" using sb3(1) fr by (simp_all add: same_books_def)
  have sfx: "sfx \<noteq> []" by (simp add: sfx_def)
  have sI: "0 < ol_ssd_bytes l \<longrightarrow> open_object k (tm_ssd tm) d (ol_ssd_bytes l) True sfx (tm_fs tm) = (fs1, Inr sfd)"
      "ol_ssd_bytes l = 0 \<longrightarrow> fs1 = tm_fs tm \<and> sfd = []"
    and hdI: "0 < ol_hdd_bytes l \<longrightarrow> (\<exists>fds. hfd = Some fds \<and>
       open_object k (the (tm_hdd tm)) d (ol_hdd_bytes l) True sfx fs1 = (tm_fs tm1, Inr fds))"
      "ol_hdd_bytes l = 0 \<longrightarrow> hfd = None \<and> tm_fs tm1 = fs1"
    using s hd by simp_all
  note pb0 = published [OF dk l_def sfx sI hdI dirs pl3 h3(1-3) pt _ kind]
  have ok4: "fs_ok (tm_fs tm4)" by (rule pb0(1) [OF keeps_files_refl])
  have sw: "index_ok (tm_index tm5)" "index_lookup (tm_index tm5) = (index_lookup (tm_index tm4))(d \<mapsto> new_meta tm4 h3 flags expiry)"
    using swap_in_index [OF ix4, of h3] by (simp_all add: tm5_def h3(1))
  have fs5: "tm_fs tm5 = tm_fs tm4" by (simp add: tm5_def swap_in_sel)
  have ek: "index_lookup (tm_index tm5) d = Some m" "keeps_files d (tm_fs tm4) (tm_fs tm')"
    using enforce_object_bound_keeps [OF sw(1) _ ix [unfolded tm'5]] ok4 by (simp_all add: fs5 tm'5)
  note pb = pb0 [OF ek(2)]
  have st': "fs_store (tm_fs tm') = fs_store (tm_fs tm3)" using ek(2) pb(2) by (simp add: keeps_files_def)
  have m: "m = new_meta tm4 h3 flags expiry" using ek(1) sw(2) by simp
  have mf: "tm_mem tm' = tm_mem tm3" "same_params (tm_ram tm') (tm_ram tm1)"
  proof -
    have "mem_frame tm5 tm'" unfolding tm'5 by (rule enforce_object_bound_mem)
    moreover have "tm_mem tm5 = tm_mem tm4" "same_params (tm_ram tm5) (tm_ram tm4)"
      using retire_head_mem [of tm4 d] by (simp_all add: tm5_def swap_in_sel mem_frame_def h3(1))
    moreover have "tm_ram tm4 = tm_ram tm1" using sb4 by (simp add: same_books_def)
    ultimately show "tm_mem tm' = tm_mem tm3" "same_params (tm_ram tm') (tm_ram tm1)"
      using pm(2) by (auto simp: mem_frame_def intro: same_params_trans)
  qed
  have hs: "head_stored tm' (om_head m) data" if "head_is_resident (om_head m)"
  proof -
    from that obtain r where r: "head = Some r"
      by (cases head) (auto simp: m new_meta_def h3(4) region_loc_def)
    have rl: "rg_len r = min (length data) (ram_head (tm_tiers tm))" using head(2) [OF r] rh by (simp add: u32_id)
    have hr: "sh_head h = Some r" by (simp add: h r)
    have "rg_data r = bufpool_addr (tm_ram tm') (rg_block r) (rg_offset r)"
      using hk hr mf(2) by (simp add: handle_ok_def rg_reg_def bufpool_addr_def blockpool_block_data_def same_params_def)
    moreover have "mem_get (tm_mem tm3) (rg_data r) (rg_len r) = mem_get (tm_mem tm2) (rg_data r) (rg_len r)"
    proof (rule mem_get_cong)
      fix x
      assume "x \<in> {rg_data r ..< rg_data r + rg_len r}"
      then have "x \<notin> stage_span h2"
        using handle_head_apart [OF w1] hr wb(2) by (auto simp: head_span_def stage_span_def same_handle_def)
      with tl show "tm_mem tm3 x = tm_mem tm2 x" by blast
    qed
    ultimately show ?thesis
      using wb(7) [OF hr] rl place mf(1) by (simp add: head_stored_def m new_meta_def h3(4) region_loc_def r same_place_def)
  qed
  have lay: "compute_layout (length data) (tm_tiers tm') (three_layer tm') = l"
    using place by (simp add: same_place_def three_layer_def l_def)
  have pls: "tm_ssd tm' = tm_ssd tm" "tm_hdd tm' = tm_hdd tm" using place by (simp_all add: same_place_def)
  have ss: "tier_stored k' tm' (tm_ssd tm) d (ol_ssd_bytes l) ?N (take (ssd_extent l) (padded data))" if "0 < ol_ssd_bytes l"
    unfolding tier_stored_def
  proof (intro exI [of _ sfd] conjI pb(3) [OF that])
    show "extent_ok (pool_drives (tm_ssd tm)) (digest_bucket d) sfd ?N"
      using open_extent_ok [OF s(1) [OF that] _ that, of ?N] dk by (simp add: disks_ok_def)
    show "holds (pool_drives (tm_ssd tm)) (digest_bucket d) sfd (fs_store (tm_fs tm')) (take (ssd_extent l) (padded data))"
      using th3 that unfolding tiers_hold_def h3 pl3 st' by simp
  qed
  have hh: "tier_stored k' tm' (the (tm_hdd tm)) d (ol_hdd_bytes l) ?N (drop (ol_ssd_bytes l) (padded data))" if "0 < ol_hdd_bytes l"
  proof -
    from pb(4) [OF that] obtain fds where f: "hfd = Some fds"
      "open_object k' (the (tm_hdd tm)) d (ol_hdd_bytes l) False [] (tm_fs tm') = (tm_fs tm', Inr fds)" by blast
    have "extent_ok (pool_drives (the (tm_hdd tm))) (digest_bucket d) fds ?N"
      using bf(1) f(1) fr by (simp add: files_fit_def h)
    moreover have "holds (pool_drives (the (tm_hdd tm))) (digest_bucket d) fds (fs_store (tm_fs tm')) (drop (ol_ssd_bytes l) (padded data))"
      using th3 that f(1) unfolding tiers_hold_def h3 pl3 st' by simp
    ultimately show ?thesis using f(2) unfolding tier_stored_def by blast
  qed
  have ram: "head_is_resident (om_head m)" if "ol_ssd_bytes l = 0" "ol_hdd_bytes l = 0" "data \<noteq> []"
  proof -
    have "length data \<le> ram_head (tm_tiers tm)"
      using that by (auto simp: l_def compute_layout_def Let_def split: if_splits)
    with head(1) that have "head \<noteq> None" by simp
    then obtain r where r: "head = Some r" by blast
    have "rg_block r \<noteq> kNone" using hk pk r by (auto simp: handle_ok_def h pools_ok_def loc_ok_def)
    then show ?thesis by (simp add: m new_meta_def h3(4) r region_loc_resident)
  qed
  show "object_stored k' tm' d data m"
    unfolding object_stored_def Let_def lay pls using ix hs ss hh ram by (simp add: m new_meta_def h3(2) l_def)
qed

section \<open>Properties\<close>

text \<open>
  Property C1. What is stored is read back: after a successful store of an object that the
  object bound did not evict at once, a read at any device-block offset into a buffer of any
  length returns the object's bytes from that offset on, as many as there are and fit; those
  from the RAM head, the SSD stripes and the HDD stripes are put together in order, whatever
  the kernel's partial writes during the store.
\<close>

theorem store_read_round_trip:
  assumes "reachable tm0 (tm, hs, ps)" and "disks_ok tm d (length data)"
    and "ram_head (tm_tiers tm) < 2 ^ 32" and "kDeviceBlock dvd ram_head (tm_tiers tm)"
    and "kDeviceBlock dvd ssd_prefix (tm_tiers tm)"
    and "tm_store k now tm d data flags expiry = Some (tm', Inr u)" and "index_lookup (tm_index tm') d \<noteq> None"
    and "kind_kernel k'" and "kDeviceBlock dvd off"
  shows "\<exists>out'. tm_read k' tm' d off out = Inr (out', min (length out) (length data - off)) \<and>
    length out' = length out \<and>
    take (min (length out) (length data - off)) out' = slice off (min (length out) (length data - off)) data"
proof -
  obtain m where m: "index_lookup (tm_index tm') d = Some m" using assms(7) by blast
  note s = store_stored [OF reachable_world_ok [OF assms(1)] assms(2,3,6) m assms(8)]
  have "length data + kDeviceBlock \<le> 2 ^ 64" using assms(2) by (simp add: disks_ok_def pool_fits_def)
  then show ?thesis by (intro read_stored [OF s(1) assms(8,9)]) (simp_all only: s(2) assms)
qed

lemma demo_store: "tm_store ideal_kernel 0 demo_tm d [1, 2, 3] 0 0 = Some (demo_stored d, Inr ())"
  by (simp add: tm_store_def demo_begin [simplified] demo_write demo_commit abort_uncommitted_def numeral_3_eq_3 [symmetric])

lemma demo_disks_ok: "disks_ok demo_tm d n" if "n + 8192 < 2 ^ 64"
  using that
  by (simp add: disks_ok_def pool_fits_def pool_ok_def fs_ok_def demo_tm_def demo_fs_def dp_ok_def no_wrap_def size_defs)

theorem store_read_round_trip_witness:
  "\<exists>out'. tm_read ideal_kernel (demo_stored []) [] 0 [9, 9, 9, 9] = Inr (out', 3) \<and> take 3 out' = [1, 2, 3]"
proof -
  have "\<exists>out'. tm_read ideal_kernel (demo_stored []) [] 0 [9, 9, 9, 9] =
      Inr (out', min (length [9, 9, 9, 9 :: byte]) (length [1, 2, 3 :: byte] - 0)) \<and>
    length out' = length [9, 9, 9, 9 :: byte] \<and>
    take (min (length [9, 9, 9, 9 :: byte]) (length [1, 2, 3 :: byte] - 0)) out' =
      slice 0 (min (length [9, 9, 9, 9 :: byte]) (length [1, 2, 3 :: byte] - 0)) [1, 2, 3]"
    by (rule store_read_round_trip [OF demo_reachable demo_disks_ok _ _ _ demo_store])
      (simp_all add: demo_tm_def size_defs demo_stored_index kind_kernel_def ideal_kernel_def)
  then show ?thesis by (simp add: slice_def numeral_3_eq_3) blast
qed

end
