(* ===== verification/Mc_Protocol.thy ===== *)
theory Mc_Protocol
  imports Common
begin

text \<open>
  The memcache text protocol (\<^verbatim>\<open>protocol/memcache/protocol.hpp\<close>,
  \<^verbatim>\<open>protocol/memcache/protocol.cpp\<close>): parsing one command line of the classic and of the meta
  protocol, the conversion of expiry times, and the reply headers. Lines are strings without
  the final CRLF.
\<close>

section \<open>Commands\<close>

datatype verb = V_get | V_gets | V_set | V_add | V_replace | V_cas | V_del | V_version | V_quit
  | V_stats | V_unknown

record command =
  c_verb :: verb
  c_key :: string
  c_flags :: nat
  c_exptime :: nat
  c_bytes :: nat
  c_cas :: nat
  c_noreply :: bool

definition empty_command :: command where
  "empty_command = \<lparr>c_verb = V_unknown, c_key = [], c_flags = 0, c_exptime = 0, c_bytes = 0,
     c_cas = 0, c_noreply = False\<rparr>"

definition is_storage :: "command \<Rightarrow> bool" where
  "is_storage c \<longleftrightarrow> c_verb c = V_set \<or> c_verb c = V_add \<or> c_verb c = V_replace \<or> c_verb c = V_cas"

definition verb_of :: "string \<Rightarrow> verb" where
  "verb_of t =
     (if t = ''get'' then V_get else if t = ''gets'' then V_gets else if t = ''set'' then V_set
      else if t = ''add'' then V_add else if t = ''replace'' then V_replace
      else if t = ''cas'' then V_cas else if t = ''delete'' then V_del
      else if t = ''version'' then V_version else if t = ''quit'' then V_quit
      else if t = ''stats'' then V_stats else V_unknown)"

text \<open>\<^verbatim>\<open>to_int\<close> on an unsigned type of maximum \<open>mx\<close>: the whole token must be a number in range.\<close>

definition to_int_u :: "nat \<Rightarrow> string \<Rightarrow> nat option" where
  "to_int_u mx s =
     (case from_chars_u mx s of
        Some (v, rest) \<Rightarrow> if rest = [] then Some v else None
      | None \<Rightarrow> None)"

text \<open>\<^verbatim>\<open>to_int\<close> on \<^verbatim>\<open>std::int64_t\<close>: \<^verbatim>\<open>from_chars\<close> takes one minus sign.\<close>

definition to_int_i64 :: "string \<Rightarrow> int option" where
  "to_int_i64 s =
     (case s of
        c # cs \<Rightarrow>
          if c = CHR ''-'' then map_option (\<lambda>v. - int v) (to_int_u (2 ^ 63) cs)
          else map_option int (to_int_u (2 ^ 63 - 1) s)
      | [] \<Rightarrow> None)"

text \<open>At most \<open>n\<close> tokens, separated by runs of spaces.\<close>

fun tokens :: "nat \<Rightarrow> string \<Rightarrow> string list" where
  "tokens 0 s = []"
| "tokens (Suc n) s =
     (let t = dropWhile (\<lambda>c. c = CHR '' '') s in
      if t = [] then []
      else takeWhile (\<lambda>c. c \<noteq> CHR '' '') t # tokens n (dropWhile (\<lambda>c. c \<noteq> CHR '' '') t))"

abbreviation mk_command :: "verb \<Rightarrow> string \<Rightarrow> command" where
  "mk_command v k \<equiv> empty_command\<lparr>c_verb := v, c_key := k\<rparr>"

definition parse_command :: "string \<Rightarrow> command result" where
  "parse_command line =
     (let tok = tokens 7 line; ntok = length tok in
      if ntok = 0 then err invalid_protocol ''empty command''
      else
        let v = verb_of (tok ! 0) in
        (case v of
           V_get \<Rightarrow>
             if ntok < 2 then err invalid_protocol ''get needs a key'' else Inr (mk_command v (tok ! 1))
         | V_gets \<Rightarrow>
             if ntok < 2 then err invalid_protocol ''get needs a key'' else Inr (mk_command v (tok ! 1))
         | V_del \<Rightarrow>
             if ntok < 2 then err invalid_protocol ''delete needs a key''
             else Inr ((mk_command v (tok ! 1))\<lparr>c_noreply := ntok \<ge> 3 \<and> tok ! 2 = ''noreply''\<rparr>)
         | V_cas \<Rightarrow>
             if ntok < 6 then err invalid_protocol ''cas needs <key> <flags> <exptime> <bytes> <cas>''
             else (case (to_int_u UINT32_MAX (tok ! 2), to_int_u UINT32_MAX (tok ! 3),
                         to_int_u UINT64_MAX (tok ! 4), to_int_u UINT64_MAX (tok ! 5)) of
                     (Some f, Some e, Some b, Some k) \<Rightarrow>
                       Inr ((mk_command v (tok ! 1))\<lparr>c_flags := f, c_exptime := e, c_bytes := b,
                              c_cas := k, c_noreply := ntok \<ge> 7 \<and> tok ! 6 = ''noreply''\<rparr>)
                   | _ \<Rightarrow> err invalid_protocol ''bad numeric field'')
         | V_version \<Rightarrow> Inr (mk_command v [])
         | V_quit \<Rightarrow> Inr (mk_command v [])
         | V_stats \<Rightarrow> Inr (mk_command v [])
         | V_unknown \<Rightarrow> err invalid_protocol ''unknown command''
         | _ \<Rightarrow>
             if ntok < 5 then err invalid_protocol ''storage needs <key> <flags> <exptime> <bytes>''
             else (case (to_int_u UINT32_MAX (tok ! 2), to_int_u UINT32_MAX (tok ! 3),
                         to_int_u UINT64_MAX (tok ! 4)) of
                     (Some f, Some e, Some b) \<Rightarrow>
                       Inr ((mk_command v (tok ! 1))\<lparr>c_flags := f, c_exptime := e, c_bytes := b,
                              c_noreply := ntok \<ge> 6 \<and> tok ! 5 = ''noreply''\<rparr>)
                   | _ \<Rightarrow> err invalid_protocol ''bad numeric field'')))"

section \<open>The meta protocol\<close>

datatype meta_verb = M_mn | M_mg | M_ms | M_md | M_unknown

record meta_command =
  m_verb :: meta_verb
  m_key :: string
  m_datalen :: nat
  m_rf_value :: bool
  m_rf_flags :: bool
  m_rf_size :: bool
  m_rf_ttl :: bool
  m_rf_cas :: bool
  m_rf_key :: bool
  m_quiet :: bool
  m_set_flags :: "nat option"
  m_ttl :: "int option"
  m_cas :: "nat option"
  m_mode :: char
  m_opaque :: string

definition empty_meta :: meta_command where
  "empty_meta = \<lparr>m_verb = M_unknown, m_key = [], m_datalen = 0, m_rf_value = False, m_rf_flags = False,
     m_rf_size = False, m_rf_ttl = False, m_rf_cas = False, m_rf_key = False, m_quiet = False,
     m_set_flags = None, m_ttl = None, m_cas = None, m_mode = CHR ''S'', m_opaque = []\<rparr>"

definition next_token :: "string \<Rightarrow> string \<times> string" where
  "next_token s =
     (let t = dropWhile (\<lambda>c. c = CHR '' '') s
      in (takeWhile (\<lambda>c. c \<noteq> CHR '' '') t, dropWhile (\<lambda>c. c \<noteq> CHR '' '') t))"

lemma next_token_shorter:
  assumes "next_token s = (t, rest)" and "t \<noteq> []"
  shows "length rest < length s"
proof -
  let ?u = "dropWhile (\<lambda>c. c = CHR '' '') s"
  have "length t + length rest = length ?u"
    using assms(1) by (auto simp: next_token_def Let_def simp flip: length_append)
  moreover have "length ?u \<le> length s" by (rule length_dropWhile_le)
  moreover have "0 < length t" using assms(2) by simp
  ultimately show ?thesis by linarith
qed

text \<open>One flag token, \<open><letter>[arg]\<close>.\<close>

definition meta_flag :: "char \<Rightarrow> string \<Rightarrow> meta_command \<Rightarrow> meta_command result" where
  "meta_flag c arg m =
     (if c = CHR ''v'' then Inr (m\<lparr>m_rf_value := True\<rparr>)
      else if c = CHR ''f'' then Inr (m\<lparr>m_rf_flags := True\<rparr>)
      else if c = CHR ''s'' then Inr (m\<lparr>m_rf_size := True\<rparr>)
      else if c = CHR ''t'' then Inr (m\<lparr>m_rf_ttl := True\<rparr>)
      else if c = CHR ''c'' then Inr (m\<lparr>m_rf_cas := True\<rparr>)
      else if c = CHR ''k'' then Inr (m\<lparr>m_rf_key := True\<rparr>)
      else if c = CHR ''q'' then Inr (m\<lparr>m_quiet := True\<rparr>)
      else if c = CHR ''F'' then
        (case to_int_u UINT32_MAX arg of None \<Rightarrow> err invalid_protocol ''bad F''
         | Some v \<Rightarrow> Inr (m\<lparr>m_set_flags := Some v\<rparr>))
      else if c = CHR ''T'' then
        (case to_int_i64 arg of None \<Rightarrow> err invalid_protocol ''bad T''
         | Some v \<Rightarrow> Inr (m\<lparr>m_ttl := Some v\<rparr>))
      else if c = CHR ''C'' then
        (case to_int_u UINT64_MAX arg of None \<Rightarrow> err invalid_protocol ''bad C''
         | Some v \<Rightarrow> Inr (m\<lparr>m_cas := Some v\<rparr>))
      else if c = CHR ''M'' then
        (if arg = [] then err invalid_protocol ''bad M'' else Inr (m\<lparr>m_mode := hd arg\<rparr>))
      else if c = CHR ''O'' then Inr (m\<lparr>m_opaque := arg\<rparr>)
      else err invalid_protocol ''unsupported meta flag'')"

function meta_flags :: "string \<Rightarrow> meta_command \<Rightarrow> meta_command result" where
  "meta_flags s m =
     (case next_token s of
        ([], rest) \<Rightarrow> Inr m
      | (c # arg, rest) \<Rightarrow>
          (case meta_flag c arg m of
             Inl e \<Rightarrow> Inl e
           | Inr m' \<Rightarrow> meta_flags rest m'))"
  by pat_completeness auto
termination
  by (relation "measure (\<lambda>(s, m). length s)") (auto dest: next_token_shorter [OF sym])

declare meta_flags.simps [simp del]

definition parse_meta :: "string \<Rightarrow> meta_command result" where
  "parse_meta line =
     (let (v, s1) = next_token line in
      if v = ''mn'' then Inr (empty_meta\<lparr>m_verb := M_mn\<rparr>)
      else if v \<noteq> ''mg'' \<and> v \<noteq> ''ms'' \<and> v \<noteq> ''md'' then err invalid_protocol ''unknown meta command''
      else
        let mv = (if v = ''mg'' then M_mg else if v = ''ms'' then M_ms else M_md);
            (key, s2) = next_token s1
        in if key = [] then err invalid_protocol ''meta needs a key''
           else if mv = M_ms then
             (let (dl, s3) = next_token s2 in
              case to_int_u UINT64_MAX dl of
                None \<Rightarrow> err invalid_protocol ''ms needs <datalen>''
              | Some n \<Rightarrow> meta_flags s3 (empty_meta\<lparr>m_verb := mv, m_key := key, m_datalen := n\<rparr>))
           else meta_flags s2 (empty_meta\<lparr>m_verb := mv, m_key := key\<rparr>))"

section \<open>Expiry and replies\<close>

definition kRelativeMax :: nat where "kRelativeMax = 60 * 60 * 24 * 30"

definition exptime_to_expiry :: "nat \<Rightarrow> nat \<Rightarrow> nat" where
  "exptime_to_expiry exptime now =
     (if exptime = 0 then 0
      else if exptime > kRelativeMax then exptime
      else u32 (now + exptime))"

definition CRLF :: string where "CRLF = [char_of (13::nat), char_of (10::nat)]"

definition kStored :: string where "kStored = ''STORED'' @ CRLF"
definition kNotStored :: string where "kNotStored = ''NOT_STORED'' @ CRLF"
definition kExists :: string where "kExists = ''EXISTS'' @ CRLF"
definition kDeleted :: string where "kDeleted = ''DELETED'' @ CRLF"
definition kNotFound :: string where "kNotFound = ''NOT_FOUND'' @ CRLF"
definition kEnd :: string where "kEnd = ''END'' @ CRLF"
definition kError :: string where "kError = ''ERROR'' @ CRLF"
definition kBadDataChunk :: string where "kBadDataChunk = ''CLIENT_ERROR bad data chunk'' @ CRLF"
definition kVersion :: string where "kVersion = ''VERSION goblin-store 0.0.1'' @ CRLF"
definition kMetaNoop :: string where "kMetaNoop = ''MN'' @ CRLF"
definition kMetaMiss :: string where "kMetaMiss = ''EN'' @ CRLF"
definition kMetaOk :: string where "kMetaOk = ''HD'' @ CRLF"
definition kMetaNotStored :: string where "kMetaNotStored = ''NS'' @ CRLF"
definition kMetaExists :: string where "kMetaExists = ''EX'' @ CRLF"
definition kMetaNotFound :: string where "kMetaNotFound = ''NF'' @ CRLF"

definition value_header :: "string \<Rightarrow> nat \<Rightarrow> nat \<Rightarrow> string" where
  "value_header key flags bytes =
     ''VALUE '' @ key @ '' '' @ dec_str flags @ '' '' @ dec_str bytes @ CRLF"

definition value_header_cas :: "string \<Rightarrow> nat \<Rightarrow> nat \<Rightarrow> nat \<Rightarrow> string" where
  "value_header_cas key flags bytes cas =
     ''VALUE '' @ key @ '' '' @ dec_str flags @ '' '' @ dec_str bytes @ '' '' @ dec_str cas @ CRLF"

section \<open>Printing, for the round trips\<close>

text \<open>A client writes a command as its tokens with one space between them.\<close>

primrec unwords :: "string list \<Rightarrow> string" where
  "unwords [] = []"
| "unwords (t # ts) = t @ (if ts = [] then [] else CHR '' '' # unwords ts)"

definition token_ok :: "string \<Rightarrow> bool" where
  "token_ok t \<longleftrightarrow> t \<noteq> [] \<and> CHR '' '' \<notin> set t"

lemma token_ok_hd: "token_ok t \<Longrightarrow> dropWhile (\<lambda>c. c = CHR '' '') (t @ s) = t @ s"
  by (cases t) (auto simp: token_ok_def)

lemma token_ok_span:
  assumes "token_ok t" and "s = [] \<or> hd s = CHR '' ''"
  shows "takeWhile (\<lambda>c. c \<noteq> CHR '' '') (t @ s) = t" and "dropWhile (\<lambda>c. c \<noteq> CHR '' '') (t @ s) = s"
proof -
  have "\<forall>c \<in> set t. c \<noteq> CHR '' ''" using assms(1) by (auto simp: token_ok_def)
  with assms(2) show "takeWhile (\<lambda>c. c \<noteq> CHR '' '') (t @ s) = t" "dropWhile (\<lambda>c. c \<noteq> CHR '' '') (t @ s) = s"
    by (cases s; simp add: takeWhile_append2 dropWhile_append2)+
qed

lemma dropWhile_space_unwords:
  "\<forall>t \<in> set ts. token_ok t \<Longrightarrow> dropWhile (\<lambda>c. c = CHR '' '') (unwords ts) = unwords ts"
proof (cases ts)
  case (Cons t ts')
  assume "\<forall>t \<in> set ts. token_ok t"
  with Cons token_ok_hd [of t] show ?thesis by simp
qed simp

lemma tokens_space: "tokens n (CHR '' '' # s) = tokens n s"
  by (cases n) simp_all

lemma tokens_head:
  assumes "token_ok t" and "s = [] \<or> hd s = CHR '' ''"
  shows "tokens (Suc k) (t @ s) = t # tokens k s"
  using token_ok_span [OF assms] assms(1) by (simp add: Let_def token_ok_hd) (simp add: token_ok_def)

lemma tokens_unwords:
  "\<forall>t \<in> set ts. token_ok t \<Longrightarrow> tokens n (unwords ts) = take n ts"
proof (induction ts arbitrary: n)
  case Nil
  then show ?case by (cases n) simp_all
next
  case (Cons t ts)
  show ?case
  proof (cases n)
    case (Suc k)
    have "tokens k (if ts = [] then [] else CHR '' '' # unwords ts) = take k ts"
      using Cons.IH [of k] Cons.prems by (cases k) (auto simp: tokens_space)
    moreover have "tokens (Suc k) (unwords (t # ts)) =
        t # tokens k (if ts = [] then [] else CHR '' '' # unwords ts)"
      unfolding unwords.simps using Cons.prems by (intro tokens_head) auto
    ultimately show ?thesis by (simp only: Suc take_Suc_Cons)
  qed simp
qed

lemma dec_str_token: "token_ok (dec_str n)"
  using dec_str_digits [of n] space_not_dec by (auto simp: token_ok_def)

lemma to_int_u_dec_str: "n \<le> mx \<Longrightarrow> to_int_u mx (dec_str n) = Some n"
  by (simp add: to_int_u_def from_chars_u_dec_str)

lemma to_int_u_le: "to_int_u mx s = Some v \<Longrightarrow> v \<le> mx"
  by (auto simp: to_int_u_def from_chars_u_def Let_def split: option.splits if_splits)

definition verb_name :: "verb \<Rightarrow> string" where
  "verb_name v = (case v of V_get \<Rightarrow> ''get'' | V_gets \<Rightarrow> ''gets'' | V_set \<Rightarrow> ''set'' | V_add \<Rightarrow> ''add''
     | V_replace \<Rightarrow> ''replace'' | V_cas \<Rightarrow> ''cas'' | V_del \<Rightarrow> ''delete'' | V_version \<Rightarrow> ''version''
     | V_quit \<Rightarrow> ''quit'' | V_stats \<Rightarrow> ''stats'' | V_unknown \<Rightarrow> ''?'')"

lemma verb_of_name: "verb_of (verb_name v) = v"
  by (cases v) (simp_all add: verb_name_def verb_of_def)

lemma verb_name_token: "token_ok (verb_name v)"
  by (cases v) (simp_all add: verb_name_def token_ok_def)

text \<open>The line of a command, and the commands that have one.\<close>

definition command_words :: "command \<Rightarrow> string list" where
  "command_words c =
     verb_name (c_verb c) #
     (if c_verb c \<in> {V_version, V_quit, V_stats} then []
      else c_key c #
        (if is_storage c then [dec_str (c_flags c), dec_str (c_exptime c), dec_str (c_bytes c)] @
           (if c_verb c = V_cas then [dec_str (c_cas c)] else []) else []) @
        (if c_noreply c then [''noreply''] else []))"

definition command_ok :: "command \<Rightarrow> bool" where
  "command_ok c \<longleftrightarrow> c_verb c \<noteq> V_unknown \<and>
     (if c_verb c \<in> {V_version, V_quit, V_stats} then c = mk_command (c_verb c) []
      else token_ok (c_key c) \<and>
        (if is_storage c then c_flags c < 2 ^ 32 \<and> c_exptime c < 2 ^ 32 \<and> c_bytes c < 2 ^ 64 \<and>
           c_cas c < 2 ^ 64 \<and> (c_verb c \<noteq> V_cas \<longrightarrow> c_cas c = 0)
         else c = (mk_command (c_verb c) (c_key c))\<lparr>c_noreply := c_noreply c \<and> c_verb c = V_del\<rparr>))"

lemma command_words_ok: "command_ok c \<Longrightarrow> (\<forall>t \<in> set (command_words c). token_ok t) \<and> length (command_words c) \<le> 7"
  by (auto simp: command_words_def command_ok_def verb_name_token dec_str_token)
    (simp_all add: token_ok_def)

section \<open>Properties\<close>

text \<open>
  Property C29. Print and parse are inverse: every well-formed command of the classic protocol,
  written with single spaces, parses back to itself, for storage commands with all flags,
  expiry, length and CAS fields in their 32- and 64-bit ranges.
\<close>

theorem parse_command_round_trip:
  assumes "command_ok c"
  shows "parse_command (unwords (command_words c)) = Inr c"
proof -
  have tok: "tokens 7 (unwords (command_words c)) = command_words c"
    using tokens_unwords command_words_ok [OF assms] by (metis take_all)
  have "u \<le> UINT32_MAX \<longleftrightarrow> u < 2 ^ 32" "w \<le> UINT64_MAX \<longleftrightarrow> w < 2 ^ 64" for u w :: nat by auto
  with tok assms show ?thesis
    unfolding parse_command_def Let_def tok
    by (cases c; cases "c_verb c")
      (auto simp: command_words_def command_ok_def verb_of_name is_storage_def to_int_u_dec_str
        empty_command_def)
qed

theorem parse_command_round_trip_witness:
  "parse_command ''set foo 1 60 5 noreply'' =
     Inr \<lparr>c_verb = V_set, c_key = ''foo'', c_flags = 1, c_exptime = 60, c_bytes = 5, c_cas = 0,
          c_noreply = True\<rparr>"
proof -
  let ?c = "\<lparr>c_verb = V_set, c_key = ''foo'', c_flags = 1, c_exptime = 60, c_bytes = 5, c_cas = 0,
    c_noreply = True\<rparr>"
  have ok: "command_ok ?c" by (simp add: command_ok_def is_storage_def token_ok_def)
  have "unwords (command_words ?c) = ''set foo 1 60 5 noreply''"
    by code_simp
  with parse_command_round_trip [OF ok] show ?thesis by simp
qed



text \<open>
  The expiry rule: zero means never; up to thirty days is relative and gives a
  deadline in the future as long as the 32-bit clock does not wrap; anything larger is taken
  as an absolute time. The deadline fits 32 bits.
\<close>

lemma exptime_to_expiry_spec:
  assumes "exptime < 2 ^ 32" and "now < 2 ^ 32"
  shows "exptime_to_expiry exptime now < 2 ^ 32 \<and>
    (exptime = 0 \<longrightarrow> exptime_to_expiry exptime now = 0) \<and>
    (0 < exptime \<and> exptime \<le> 2592000 \<and> now + exptime < 2 ^ 32 \<longrightarrow>
       exptime_to_expiry exptime now = now + exptime \<and> now < exptime_to_expiry exptime now) \<and>
    (2592000 < exptime \<longrightarrow> exptime_to_expiry exptime now = exptime)"
proof -
  have "u32 (now + exptime) = now + exptime" if "now + exptime < 2 ^ 32" using that by (rule u32_id)
  then show ?thesis
    using assms u32_less [of "now + exptime"] by (auto simp: exptime_to_expiry_def kRelativeMax_def)
qed

lemma meta_flag_sound:
  assumes "meta_flag c arg m = Inr m'"
  shows "m_verb m' = m_verb m \<and> m_key m' = m_key m \<and> m_datalen m' = m_datalen m"
    and "(case m_set_flags m' of None \<Rightarrow> True | Some v \<Rightarrow> m_set_flags m = Some v \<or> v < 2 ^ 32) \<and>
      (case m_cas m' of None \<Rightarrow> True | Some v \<Rightarrow> m_cas m = Some v \<or> v < 2 ^ 64) \<and>
      (case m_ttl m' of None \<Rightarrow> True | Some v \<Rightarrow> m_ttl m = Some v \<or> - (2 ^ 63) \<le> v \<and> v < 2 ^ 63)"
proof -
  have ttl: "- (2 ^ 63) \<le> v \<and> v < 2 ^ 63" if i: "to_int_i64 s = Some v" for s v
  proof (cases s)
    case (Cons c cs)
    then show ?thesis
    proof (cases "c = CHR ''-''")
      case True
      with i Cons obtain n where n: "to_int_u (2 ^ 63) cs = Some n" "v = - int n"
        by (auto simp: to_int_i64_def)
      with to_int_u_le [OF n(1)] show ?thesis by simp
    next
      case False
      with i Cons obtain n where n: "to_int_u (2 ^ 63 - 1) s = Some n" "v = int n"
        by (auto simp: to_int_i64_def)
      with to_int_u_le [OF n(1)] show ?thesis by simp
    qed
  qed (use i in \<open>simp add: to_int_i64_def\<close>)
  show "m_verb m' = m_verb m \<and> m_key m' = m_key m \<and> m_datalen m' = m_datalen m"
    using assms by (auto simp: meta_flag_def split: if_splits option.splits)
  show "(case m_set_flags m' of None \<Rightarrow> True | Some v \<Rightarrow> m_set_flags m = Some v \<or> v < 2 ^ 32) \<and>
      (case m_cas m' of None \<Rightarrow> True | Some v \<Rightarrow> m_cas m = Some v \<or> v < 2 ^ 64) \<and>
      (case m_ttl m' of None \<Rightarrow> True | Some v \<Rightarrow> m_ttl m = Some v \<or> - (2 ^ 63) \<le> v \<and> v < 2 ^ 63)"
    using assms to_int_u_le [of UINT32_MAX arg] to_int_u_le [of UINT64_MAX arg] ttl [of arg]
    by (auto simp: meta_flag_def split: if_splits option.splits)
qed

definition meta_ranges :: "meta_command \<Rightarrow> bool" where
  "meta_ranges m \<longleftrightarrow> m_datalen m < 2 ^ 64 \<and>
     (\<forall>v. m_set_flags m = Some v \<longrightarrow> v < 2 ^ 32) \<and> (\<forall>v. m_cas m = Some v \<longrightarrow> v < 2 ^ 64) \<and>
     (\<forall>v. m_ttl m = Some v \<longrightarrow> - (2 ^ 63) \<le> v \<and> v < 2 ^ 63)"

lemma meta_flags_sound:
  "meta_flags s m = Inr m' \<Longrightarrow> meta_ranges m \<Longrightarrow>
     meta_ranges m' \<and> m_verb m' = m_verb m \<and> m_key m' = m_key m"
proof (induction s m rule: meta_flags.induct)
  case (1 s m)
  obtain t rest where n: "next_token s = (t, rest)" by (metis surj_pair)
  show ?case
  proof (cases t)
    case Nil
    with n "1.prems" show ?thesis by (simp add: meta_flags.simps [of s m])
  next
    case (Cons c arg)
    then obtain m1 where m1: "meta_flag c arg m = Inr m1" "meta_flags rest m1 = Inr m'"
      using n "1.prems"(1) by (auto simp: meta_flags.simps [of s m] split: sum.splits)
    note f = meta_flag_sound [OF m1(1)]
    have "meta_ranges m1"
      using "1.prems"(2) f by (auto simp: meta_ranges_def split: option.splits)
    with "1.IH" [OF n [symmetric] Cons m1(1) m1(2)] f(1) show ?thesis by simp
  qed
qed

lemma next_token_ok: "next_token s = (t, rest) \<Longrightarrow> t \<noteq> [] \<Longrightarrow> token_ok t"
  by (auto simp: next_token_def Let_def token_ok_def dest: set_takeWhileD)

text \<open>
  A meta command that parses has a known verb and, except for the no-op, a key
  without spaces; data length, client flags, CAS value and TTL are in the ranges of their
  types.
\<close>

lemma parse_meta_sound:
  assumes "parse_meta line = Inr m"
  shows "m_verb m \<noteq> M_unknown \<and> meta_ranges m \<and> (m_verb m \<noteq> M_mn \<longrightarrow> token_ok (m_key m))"
proof -
  obtain v s1 where v: "next_token line = (v, s1)" by (metis surj_pair)
  obtain key s2 where key: "next_token s1 = (key, s2)" by (metis surj_pair)
  obtain dl s3 where dl: "next_token s2 = (dl, s3)" by (metis surj_pair)
  have e: "meta_ranges (empty_meta\<lparr>m_verb := x, m_key := key, m_datalen := n\<rparr>)" if "n \<le> UINT64_MAX" for x n
    using that by (simp add: meta_ranges_def empty_meta_def)
  have e0: "meta_ranges (empty_meta\<lparr>m_verb := x, m_key := key\<rparr>)" "meta_ranges (empty_meta\<lparr>m_verb := x\<rparr>)" for x
    by (simp_all add: meta_ranges_def empty_meta_def)
  show ?thesis
    using assms next_token_ok [OF key] e0 meta_flags_sound [OF _ e] meta_flags_sound [OF _ e0(1)] to_int_u_le
    unfolding parse_meta_def v key dl Let_def prod.case
    by (fastforce split: if_splits option.splits)
qed

end
