(* ===== verification/Key_Derivation.thy ===== *)
theory Key_Derivation
  imports Common
begin

text \<open>
  HTTP key derivation (\<^verbatim>\<open>http/key_derivation.hpp\<close>, \<^verbatim>\<open>http/key_derivation.cpp\<close>): one rule turns a
  request target, or the relative path of a preloaded file, into an object key.
\<close>

section \<open>Canonical paths\<close>

text \<open>\<^verbatim>\<open>-1\<close> for a character that is no hexadecimal digit is \<open>None\<close>.\<close>

definition hexval :: "char \<Rightarrow> nat option" where
  "hexval c =
     (let n = of_char c :: nat in
      if 48 \<le> n \<and> n \<le> 57 then Some (n - 48)
      else if 97 \<le> n \<and> n \<le> 102 then Some (n - 97 + 10)
      else if 65 \<le> n \<and> n \<le> 70 then Some (n - 65 + 10)
      else None)"

fun percent_decode :: "string \<Rightarrow> string" where
  "percent_decode (p # a # b # s) =
     (if p = CHR ''%'' then
        (case (hexval a, hexval b) of
           (Some hi, Some lo) \<Rightarrow> char_of (hi * 16 + lo) # percent_decode s
         | _ \<Rightarrow> p # percent_decode (a # b # s))
      else p # percent_decode (a # b # s))"
| "percent_decode (p # s) = p # percent_decode s"
| "percent_decode [] = []"

text \<open>The segments between slashes; there is always at least one, possibly empty.\<close>

function split_slash :: "string \<Rightarrow> string list" where
  "split_slash s =
     (case dropWhile (\<lambda>c. c \<noteq> CHR ''/'') s of
        [] \<Rightarrow> [s]
      | c # rest \<Rightarrow> takeWhile (\<lambda>c. c \<noteq> CHR ''/'') s # split_slash rest)"
  by pat_completeness auto
termination
proof (relation "measure length")
  fix s c and rest :: string
  assume "dropWhile (\<lambda>c. c \<noteq> CHR ''/'') s = c # rest"
  then show "(rest, s) \<in> measure length"
    using length_dropWhile_le [of "\<lambda>c. c \<noteq> CHR ''/''" s] by simp
qed simp

declare split_slash.simps [simp del]

definition seg_step :: "string \<Rightarrow> string list \<Rightarrow> string list" where
  "seg_step seg stack =
     (if seg = ''..'' then (if stack \<noteq> [] then butlast stack else stack)
      else if seg \<noteq> [] \<and> seg \<noteq> ''.'' then stack @ [seg]
      else stack)"

primrec join_slash :: "string list \<Rightarrow> string" where
  "join_slash [] = []"
| "join_slash (x # xs) = x @ (if xs = [] then [] else CHR ''/'' # join_slash xs)"

definition canonical_path :: "string \<Rightarrow> bool \<Rightarrow> string" where
  "canonical_path path decode =
     (let decoded = (if decode then percent_decode path else path)
      in CHR ''/'' # join_slash (fold seg_step (split_slash decoded) []))"

section \<open>Hosts and keys\<close>

text \<open>\<^verbatim>\<open>std::tolower\<close> in the C locale.\<close>

definition to_lower :: "char \<Rightarrow> char" where
  "to_lower c = (let n = of_char c :: nat in if 65 \<le> n \<and> n \<le> 90 then char_of (n + 32) else c)"

definition strip_dots :: "string \<Rightarrow> string" where
  "strip_dots h = rev (dropWhile (\<lambda>c. c = CHR ''.'') (rev h))"

definition normalize_host :: "string \<Rightarrow> string" where
  "normalize_host host = map to_lower (strip_dots (takeWhile (\<lambda>c. c \<noteq> CHR '':'') host))"

datatype key_mode = mode_path | mode_vhost

record key_options =
  ko_mode :: key_mode
  ko_keep_query :: bool
  ko_strip_leading_slash :: bool
  ko_index_name :: string

definition default_key_options :: key_options where
  "default_key_options = \<lparr>ko_mode = mode_path, ko_keep_query = False, ko_strip_leading_slash = False,
     ko_index_name = []\<rparr>"

definition derive_key :: "string \<Rightarrow> string \<Rightarrow> key_options \<Rightarrow> string option" where
  "derive_key host uri opt =
     (let u = takeWhile (\<lambda>c. c \<noteq> CHR ''#'') uri;
          path_part = takeWhile (\<lambda>c. c \<noteq> CHR ''?'') u;
          query_part = dropWhile (\<lambda>c. c \<noteq> CHR ''?'') u;
          key = (if ko_index_name opt \<noteq> [] \<and> (path_part = [] \<or> last path_part = CHR ''/'')
                 then canonical_path (path_part @ ko_index_name opt) True
                 else canonical_path path_part True);
          key = (if ko_keep_query opt \<and> query_part \<noteq> [] then key @ query_part else key)
      in if ko_mode opt = mode_vhost then
           (let h = normalize_host host in if h = [] then None else Some (h @ key))
         else if ko_strip_leading_slash opt then Some (tl key)
         else Some key)"

definition derive_key_from_relpath :: "string \<Rightarrow> key_options \<Rightarrow> string" where
  "derive_key_from_relpath relpath opt =
     (if ko_mode opt = mode_vhost then
        let host = takeWhile (\<lambda>c. c \<noteq> CHR ''/'') relpath;
            rest = dropWhile (\<lambda>c. c \<noteq> CHR ''/'') relpath;
            path = (if rest = [] then ''/'' else canonical_path rest False)
        in normalize_host host @ path
      else
        let key = canonical_path (CHR ''/'' # relpath) False
        in if ko_strip_leading_slash opt then tl key else key)"

section \<open>Segments\<close>

text \<open>A segment that survives: not empty, not a dot segment, without a slash.\<close>

definition seg_ok :: "string \<Rightarrow> bool" where
  "seg_ok t \<longleftrightarrow> t \<noteq> [] \<and> t \<noteq> ''.'' \<and> t \<noteq> ''..'' \<and> CHR ''/'' \<notin> set t"

lemma split_slash_no_slash: "t \<in> set (split_slash s) \<Longrightarrow> CHR ''/'' \<notin> set t"
proof (induction s rule: split_slash.induct)
  case (1 s)
  show ?case
  proof (cases "dropWhile (\<lambda>c. c \<noteq> CHR ''/'') s")
    case Nil
    with "1.prems" show ?thesis by (auto simp: split_slash.simps [of s] dropWhile_eq_Nil_conv)
  next
    case (Cons c rest)
    with 1 show ?thesis by (auto simp: split_slash.simps [of s] dest: set_takeWhileD)
  qed
qed

lemma seg_step_ok:
  "CHR ''/'' \<notin> set seg \<Longrightarrow> \<forall>t \<in> set stack. seg_ok t \<Longrightarrow> \<forall>t \<in> set (seg_step seg stack). seg_ok t"
  by (auto simp: seg_step_def seg_ok_def dest: in_set_butlastD)

lemma fold_seg_ok:
  "\<forall>seg \<in> set segs. CHR ''/'' \<notin> set seg \<Longrightarrow> \<forall>t \<in> set stack. seg_ok t \<Longrightarrow>
     \<forall>t \<in> set (fold seg_step segs stack). seg_ok t"
proof (induction segs arbitrary: stack)
  case (Cons seg segs)
  have "\<forall>t \<in> set (seg_step seg stack). seg_ok t"
    using Cons.prems by (intro seg_step_ok) simp_all
  with Cons show ?case by simp
qed simp

lemma fold_seg_id: "\<forall>t \<in> set segs. seg_ok t \<Longrightarrow> fold seg_step segs stack = stack @ segs"
proof (induction segs arbitrary: stack)
  case (Cons seg segs)
  have "seg_step seg stack = stack @ [seg]" using Cons.prems by (auto simp: seg_step_def seg_ok_def)
  with Cons show ?case by simp
qed simp

lemma split_slash_append:
  "CHR ''/'' \<notin> set t \<Longrightarrow> split_slash (t @ CHR ''/'' # s) = t # split_slash s"
proof -
  assume "CHR ''/'' \<notin> set t"
  then have "\<forall>c \<in> set t. c \<noteq> CHR ''/''" by auto
  then show ?thesis
    by (simp add: split_slash.simps [of "t @ CHR ''/'' # s"] dropWhile_append2 takeWhile_append2)
qed

lemma split_slash_single: "CHR ''/'' \<notin> set t \<Longrightarrow> split_slash t = [t]"
proof -
  assume "CHR ''/'' \<notin> set t"
  then have d: "dropWhile (\<lambda>c. c \<noteq> CHR ''/'') t = []" by (auto simp: dropWhile_eq_Nil_conv)
  show ?thesis unfolding split_slash.simps [of t] d by simp
qed

lemma split_join: "\<forall>t \<in> set ts. CHR ''/'' \<notin> set t \<Longrightarrow> ts \<noteq> [] \<Longrightarrow> split_slash (join_slash ts) = ts"
proof (induction ts)
  case (Cons t ts)
  then show ?case by (cases "ts = []") (simp_all add: split_slash_append split_slash_single)
qed simp

text \<open>Splitting starts over after any slash, and an empty leading segment is dropped.\<close>

lemma fold_leading_slash: "fold seg_step (split_slash (CHR ''/'' # s)) stack = fold seg_step (split_slash s) stack"
  using split_slash_append [of "[]" s] by (simp add: seg_step_def)

lemma canonical_segments:
  obtains segs where "canonical_path path dec = CHR ''/'' # join_slash segs" and "\<forall>t \<in> set segs. seg_ok t"
proof
  let ?d = "if dec then percent_decode path else path"
  show "canonical_path path dec = CHR ''/'' # join_slash (fold seg_step (split_slash ?d) [])"
    by (simp add: canonical_path_def)
  show "\<forall>t \<in> set (fold seg_step (split_slash ?d) []). seg_ok t"
    using split_slash_no_slash by (intro fold_seg_ok) auto
qed

lemma canonical_fixed:
  assumes "\<forall>t \<in> set segs. seg_ok t"
  shows "canonical_path (CHR ''/'' # join_slash segs) False = CHR ''/'' # join_slash segs"
proof (cases "segs = []")
  case True
  have "split_slash [] = [[]]" by (rule split_slash_single) simp
  with True show ?thesis
    by (simp add: canonical_path_def fold_leading_slash) (simp add: seg_step_def)
next
  case False
  have "split_slash (join_slash segs) = segs"
    using assms False by (intro split_join) (auto simp: seg_ok_def)
  with assms show ?thesis
    by (simp add: canonical_path_def fold_leading_slash fold_seg_id)
qed

section \<open>Properties\<close>

text \<open>
  Property C31. A canonical path starts with a slash and consists of segments none of which is
  empty, a single dot or a double dot, however the input is written and encoded: no request
  climbs out of the key space and no two spellings of such a path differ. Canonicalising
  again changes nothing.
\<close>

theorem canonical_path_normal:
  "(\<exists>segs. canonical_path path dec = CHR ''/'' # join_slash segs \<and>
      (\<forall>t \<in> set segs. t \<noteq> [] \<and> t \<noteq> ''.'' \<and> t \<noteq> ''..'' \<and> CHR ''/'' \<notin> set t)) \<and>
   canonical_path (canonical_path path dec) False = canonical_path path dec"
proof -
  obtain segs where s: "canonical_path path dec = CHR ''/'' # join_slash segs" "\<forall>t \<in> set segs. seg_ok t"
    by (rule canonical_segments)
  have "canonical_path (canonical_path path dec) False = canonical_path path dec"
    unfolding s(1) by (rule canonical_fixed [OF s(2)])
  with s show ?thesis by (auto simp: seg_ok_def)
qed

theorem canonical_path_normal_witness:
  "canonical_path ''/a//b/../%2e%2e/./c'' True = ''/c'' \<and>
   canonical_path (canonical_path ''/a//b/../%2e%2e/./c'' True) False =
     canonical_path ''/a//b/../%2e%2e/./c'' True"
proof -
  have "canonical_path ''/a//b/../%2e%2e/./c'' True = ''/c''" by code_simp
  with canonical_path_normal [of "''/a//b/../%2e%2e/./c''" True] show ?thesis by blast
qed

text \<open>A client's encoding of arbitrary bytes: every character as \<open>%XX\<close>.\<close>

definition hex_char :: "nat \<Rightarrow> char" where
  "hex_char n = (if n < 10 then char_of (48 + n) else char_of (55 + n))"

definition percent_encode :: "string \<Rightarrow> string" where
  "percent_encode s =
     concat (map (\<lambda>c. [CHR ''%'', hex_char (of_char c div 16), hex_char (of_char c mod 16)]) s)"

lemma hexval_hex_char: "n < 16 \<Longrightarrow> hexval (hex_char n) = Some n"
  by (simp add: hexval_def hex_char_def Let_def)

lemma high_digit: "(of_char c :: nat) div 16 < 16"
  using nat_of_char_less_256 [of c] by linarith

lemma char_of_split: "char_of ((of_char c div 16) * 16 + of_char c mod 16 :: nat) = (c :: char)"
  by (simp only: div_mult_mod_eq char_of_char)

lemma percent_decode_encode: "percent_decode (percent_encode s) = s"
proof (induction s)
  case (Cons c s)
  note high_digit [of c]
  with Cons show ?case
    by (simp add: percent_encode_def hexval_hex_char char_of_split)
qed (simp add: percent_encode_def)

text \<open>The encoding uses the percent sign and upper-case hexadecimal digits only.\<close>

definition plain :: "char \<Rightarrow> bool" where
  "plain c \<longleftrightarrow> c \<noteq> CHR ''#'' \<and> c \<noteq> CHR ''?'' \<and> c \<noteq> CHR ''/''"

lemma hex_char_plain:
  assumes "n < 16"
  shows "plain (hex_char n)"
proof -
  have "(of_char (hex_char n) :: nat) = (if n < 10 then 48 + n else 55 + n)"
    using assms by (simp add: hex_char_def)
  moreover have "(of_char CHR ''#'' :: nat) = 35" "(of_char CHR ''?'' :: nat) = 63" "(of_char CHR ''/'' :: nat) = 47"
    by simp_all
  ultimately show ?thesis using assms unfolding plain_def by (auto split: if_splits)
qed

lemma percent_encode_plain: "c \<in> set (percent_encode s) \<Longrightarrow> plain c"
proof (induction s)
  case (Cons d s)
  note high_digit [of d]
  moreover have "plain CHR ''%''" by (simp add: plain_def)
  ultimately show ?case using Cons by (auto simp: percent_encode_def hex_char_plain)
qed (simp add: percent_encode_def)

lemma takeWhile_plain:
  assumes "\<forall>c \<in> set s. plain c"
  shows "takeWhile (\<lambda>c. c \<noteq> CHR ''#'') (CHR ''/'' # s) = CHR ''/'' # s"
    and "takeWhile (\<lambda>c. c \<noteq> CHR ''?'') (CHR ''/'' # s) = CHR ''/'' # s"
    and "dropWhile (\<lambda>c. c \<noteq> CHR ''?'') (CHR ''/'' # s) = []"
  using assms by (auto simp: takeWhile_eq_all_conv dropWhile_eq_Nil_conv plain_def)

lemma percent_decode_slash: "percent_decode (CHR ''/'' # s) = CHR ''/'' # percent_decode s"
  by (cases s rule: percent_decode.cases) simp_all

lemma canonical_encoded:
  "canonical_path (CHR ''/'' # percent_encode s) True = canonical_path (CHR ''/'' # s) False"
  by (simp add: canonical_path_def percent_decode_slash percent_decode_encode)

lemma derive_key_encoded:
  assumes "s \<noteq> [] \<or> ko_index_name opt = []"
  shows "derive_key host (CHR ''/'' # percent_encode s) opt =
    (let key = canonical_path (CHR ''/'' # s) False in
     if ko_mode opt = mode_vhost then
       (if normalize_host host = [] then None else Some (normalize_host host @ key))
     else Some (if ko_strip_leading_slash opt then tl key else key))"
proof -
  have "\<forall>c \<in> set (percent_encode s). plain c" using percent_encode_plain by blast
  note tw = takeWhile_plain [OF this]
  have "last (CHR ''/'' # percent_encode s) \<noteq> CHR ''/''" if "s \<noteq> []"
  proof -
    have "percent_encode s \<noteq> []" using that by (cases s) (simp_all add: percent_encode_def)
    then have "last (CHR ''/'' # percent_encode s) \<in> set (percent_encode s)" by simp
    then show ?thesis using percent_encode_plain by (fastforce simp: plain_def)
  qed
  with assms show ?thesis
    unfolding derive_key_def Let_def tw canonical_encoded by auto
qed

text \<open>
  Property C32. The preloader and the HTTP front end agree on keys: whatever its name, a file
  preloaded from a source directory is found by the request for its percent-encoded path,
  in path mode, and in virtual-host mode for the host its first directory names.
\<close>

theorem preloaded_file_reachable:
  assumes "relpath \<noteq> []"
  shows "(ko_mode opt = mode_path \<longrightarrow>
      derive_key host (CHR ''/'' # percent_encode relpath) opt = Some (derive_key_from_relpath relpath opt)) \<and>
    (ko_mode opt = mode_vhost \<and> CHR ''/'' \<notin> set dir \<and> normalize_host dir \<noteq> [] \<longrightarrow>
      derive_key dir (CHR ''/'' # percent_encode relpath) opt =
        Some (derive_key_from_relpath (dir @ CHR ''/'' # relpath) opt))"
proof -
  have "takeWhile (\<lambda>c. c \<noteq> CHR ''/'') (dir @ CHR ''/'' # relpath) = dir"
    "dropWhile (\<lambda>c. c \<noteq> CHR ''/'') (dir @ CHR ''/'' # relpath) = CHR ''/'' # relpath"
    if "CHR ''/'' \<notin> set dir"
  proof -
    have "\<forall>c \<in> set dir. c \<noteq> CHR ''/''" using that by auto
    then show "takeWhile (\<lambda>c. c \<noteq> CHR ''/'') (dir @ CHR ''/'' # relpath) = dir"
      "dropWhile (\<lambda>c. c \<noteq> CHR ''/'') (dir @ CHR ''/'' # relpath) = CHR ''/'' # relpath"
      by (simp_all add: takeWhile_append2 dropWhile_append2)
  qed
  with assms show ?thesis
    by (auto simp: derive_key_encoded derive_key_from_relpath_def Let_def)
qed

theorem preloaded_file_reachable_witness:
  "derive_key ''any'' (CHR ''/'' # percent_encode ''a b?.txt'') default_key_options =
     Some (derive_key_from_relpath ''a b?.txt'' default_key_options)"
  using preloaded_file_reachable [of "''a b?.txt''" default_key_options "''any''"]
  by (simp add: default_key_options_def)

end
