(* ===== verification/Http_Request.thy ===== *)
theory Http_Request
  imports Common
begin

text \<open>
  HTTP request heads (\<^verbatim>\<open>http/request.hpp\<close>, \<^verbatim>\<open>http/request.cpp\<close>): byte ranges, content types, and
  the extraction of the fields the server needs from what picohttpparser delivers. That
  parser is third-party code and a parameter: \<open>phr buf prev_len\<close> is its return code with the
  method, path, minor version and headers it found.
\<close>

section \<open>Small text helpers\<close>

definition ascii_lower :: "char \<Rightarrow> char" where
  "ascii_lower c = (let n = of_char c :: nat in if 65 \<le> n \<and> n \<le> 90 then char_of (n - 65 + 97) else c)"

definition iequals :: "string \<Rightarrow> string \<Rightarrow> bool" where
  "iequals a b \<longleftrightarrow> length a = length b \<and> map ascii_lower a = map ascii_lower b"

definition is_blank :: "char \<Rightarrow> bool" where
  "is_blank c \<longleftrightarrow> c = CHR '' '' \<or> c = char_of (9::nat)"

definition trim :: "string \<Rightarrow> string" where
  "trim s = rev (dropWhile is_blank (rev (dropWhile is_blank s)))"

datatype http_method = H_get | H_head | H_other

definition method_of :: "string \<Rightarrow> http_method" where
  "method_of m = (if m = ''GET'' then H_get else if m = ''HEAD'' then H_head else H_other)"

definition to_u64 :: "string \<Rightarrow> nat option" where
  "to_u64 s =
     (if s = [] then None
      else case from_chars_u UINT64_MAX s of
        None \<Rightarrow> None
      | Some (v, rest) \<Rightarrow> if rest = [] then Some v else None)"

section \<open>Byte ranges\<close>

definition parse_range :: "string \<Rightarrow> byte_range option" where
  "parse_range value =
     (let v = trim value in
      if take 6 v \<noteq> ''bytes='' then None
      else
        let v = drop 6 v in
        if CHR '','' \<in> set v then None
        else if CHR ''-'' \<notin> set v then None
        else
          let lo = trim (takeWhile (\<lambda>c. c \<noteq> CHR ''-'') v);
              hi = trim (tl (dropWhile (\<lambda>c. c \<noteq> CHR ''-'') v))
          in if lo = [] then
               (case to_u64 hi of
                  None \<Rightarrow> None
                | Some n \<Rightarrow> if n = 0 then None else Some \<lparr>br_kind = Suffix, br_a = n, br_b = 0\<rparr>)
             else
               (case to_u64 lo of
                  None \<Rightarrow> None
                | Some a \<Rightarrow>
                    if hi = [] then Some \<lparr>br_kind = From, br_a = a, br_b = 0\<rparr>
                    else (case to_u64 hi of
                            None \<Rightarrow> None
                          | Some b \<Rightarrow> if b < a then None
                                     else Some \<lparr>br_kind = Closed, br_a = a, br_b = b\<rparr>)))"

text \<open>
  Every closed range the parser makes has its first byte no later than its last, so the
  subtraction below never meets a smaller number; only the \<open>+ 1\<close> can leave 64 bits.
\<close>

definition resolve_range :: "byte_range \<Rightarrow> nat \<Rightarrow> (nat \<times> nat) option" where
  "resolve_range r sz =
     (case br_kind r of
        Closed \<Rightarrow> if br_a r \<ge> sz then None
                  else Some (br_a r, u64 (min (br_b r) (sz - 1) - br_a r + 1))
      | From \<Rightarrow> if br_a r \<ge> sz then None else Some (br_a r, sz - br_a r)
      | Suffix \<Rightarrow> if sz = 0 then None else (let n = min (br_a r) sz in Some (sz - n, n)))"

section \<open>Content types\<close>

definition kTable :: "(string \<times> string) list" where
  "kTable = [
     (''html'', ''text/html; charset=utf-8''), (''htm'', ''text/html; charset=utf-8''),
     (''css'', ''text/css; charset=utf-8''), (''js'', ''text/javascript; charset=utf-8''),
     (''mjs'', ''text/javascript; charset=utf-8''), (''json'', ''application/json; charset=utf-8''),
     (''map'', ''application/json; charset=utf-8''), (''xml'', ''application/xml; charset=utf-8''),
     (''txt'', ''text/plain; charset=utf-8''), (''csv'', ''text/csv; charset=utf-8''),
     (''md'', ''text/markdown; charset=utf-8''), (''svg'', ''image/svg+xml; charset=utf-8''),
     (''png'', ''image/png''), (''jpg'', ''image/jpeg''),
     (''jpeg'', ''image/jpeg''), (''gif'', ''image/gif''),
     (''webp'', ''image/webp''), (''avif'', ''image/avif''),
     (''ico'', ''image/x-icon''), (''bmp'', ''image/bmp''),
     (''woff'', ''font/woff''), (''woff2'', ''font/woff2''),
     (''ttf'', ''font/ttf''), (''otf'', ''font/otf''),
     (''eot'', ''application/vnd.ms-fontobject''), (''wasm'', ''application/wasm''),
     (''pdf'', ''application/pdf''), (''zip'', ''application/zip''),
     (''gz'', ''application/gzip''), (''mp4'', ''video/mp4''),
     (''webm'', ''video/webm''), (''ogg'', ''audio/ogg''),
     (''mp3'', ''audio/mpeg''), (''wav'', ''audio/wav''),
     (''ics'', ''text/calendar; charset=utf-8'')]"

text \<open>The part after the last occurrence of a character, or the whole when there is none.\<close>

definition after_last :: "char \<Rightarrow> string \<Rightarrow> string" where
  "after_last x s = rev (takeWhile (\<lambda>c. c \<noteq> x) (rev s))"

definition content_type_for :: "string \<Rightarrow> string" where
  "content_type_for key =
     (let k = takeWhile (\<lambda>c. c \<noteq> CHR ''?'') key;
          name = after_last CHR ''/'' k;
          ext_raw = after_last CHR ''.'' name
      in if CHR ''.'' \<notin> set name \<or> length name = length ext_raw + 1 \<or> ext_raw = []
         then ''application/octet-stream''
         else if length ext_raw > 8 then ''application/octet-stream''
         else (case map_of kTable (map ascii_lower ext_raw) of
                 Some t \<Rightarrow> t
               | None \<Rightarrow> ''application/octet-stream''))"

section \<open>Request heads\<close>

record http_request =
  hr_method :: http_method
  hr_target :: string
  hr_host :: string
  hr_range :: "byte_range option"
  hr_if_none_match :: string
  hr_keep_alive :: bool
  hr_minor_version :: int

datatype parse_status = P_ok | P_partial | P_bad

record parse_result =
  pr_status :: parse_status
  pr_consumed :: nat
  pr_req :: http_request

definition empty_request :: http_request where
  "empty_request = \<lparr>hr_method = H_other, hr_target = [], hr_host = [], hr_range = None,
     hr_if_none_match = [], hr_keep_alive = True, hr_minor_version = 1\<rparr>"

record phr_out =
  phr_rc :: int
  phr_method :: string
  phr_path :: string
  phr_minor :: int
  phr_headers :: "(string \<times> string) list"

fun apply_header :: "string \<times> string \<Rightarrow> http_request \<Rightarrow> http_request" where
  "apply_header (name, value) req =
     (if iequals name ''host'' then req\<lparr>hr_host := trim value\<rparr>
      else if iequals name ''range'' then req\<lparr>hr_range := parse_range value\<rparr>
      else if iequals name ''if-none-match'' then req\<lparr>hr_if_none_match := trim value\<rparr>
      else if iequals name ''connection'' then req\<lparr>hr_keep_alive := \<not> iequals (trim value) ''close''\<rparr>
      else req)"

definition parse_request :: "(string \<Rightarrow> nat \<Rightarrow> phr_out) \<Rightarrow> string \<Rightarrow> nat \<Rightarrow> parse_result" where
  "parse_request phr buf prev_len =
     (let r = phr buf (min prev_len (length buf)) in
      if phr_rc r = - 2 then \<lparr>pr_status = P_partial, pr_consumed = 0, pr_req = empty_request\<rparr>
      else if phr_rc r < 0 then \<lparr>pr_status = P_bad, pr_consumed = 0, pr_req = empty_request\<rparr>
      else
        let req = empty_request\<lparr>hr_method := method_of (phr_method r), hr_target := phr_path r,
                    hr_minor_version := phr_minor r, hr_keep_alive := phr_minor r \<ge> 1\<rparr>
        in \<lparr>pr_status = P_ok, pr_consumed = nat (phr_rc r),
            pr_req = fold apply_header (phr_headers r) req\<rparr>)"

section \<open>Lemmas\<close>

lemma to_u64_dec_str: "n < 2 ^ 64 \<Longrightarrow> to_u64 (dec_str n) = Some n"
  by (simp add: to_u64_def from_chars_u_dec_str)

lemma to_u64_less: "to_u64 s = Some v \<Longrightarrow> v < 2 ^ 64"
  by (auto simp: to_u64_def from_chars_u_def Let_def split: option.splits if_splits)

lemma trim_id: "s = [] \<or> \<not> is_blank (hd s) \<and> \<not> is_blank (last s) \<Longrightarrow> trim s = s"
proof (elim disjE)
  assume a: "\<not> is_blank (hd s) \<and> \<not> is_blank (last s)"
  have l: "dropWhile is_blank s = s" using a by (cases s) auto
  have "dropWhile is_blank (rev s) = rev s" using a by (cases s rule: rev_cases) auto
  with l show "trim s = s" by (simp add: trim_def)
qed (simp add: trim_def)

lemma dec_not_blank: "is_dec c \<Longrightarrow> \<not> is_blank c"
  by (auto simp: is_blank_def is_dec_def)

lemma dec_str_hd_last: "is_dec (hd (dec_str n))" "is_dec (last (dec_str n))"
  using dec_str_digits [of n] by simp_all

lemma trim_dec_str: "trim (dec_str n) = dec_str n"
  using dec_str_hd_last [of n] dec_not_blank by (intro trim_id) blast

lemma dec_str_no_dash: "CHR ''-'' \<notin> set (dec_str n)" "CHR '','' \<notin> set (dec_str n)"
  using dec_str_digits [of n] by (auto simp: is_dec_def)

lemma take_while_dash:
  assumes "CHR ''-'' \<notin> set s"
  shows "takeWhile (\<lambda>c. c \<noteq> CHR ''-'') (s @ CHR ''-'' # t) = s"
    and "dropWhile (\<lambda>c. c \<noteq> CHR ''-'') (s @ CHR ''-'' # t) = CHR ''-'' # t"
proof -
  have "\<forall>c \<in> set s. c \<noteq> CHR ''-''" using assms by auto
  then show "takeWhile (\<lambda>c. c \<noteq> CHR ''-'') (s @ CHR ''-'' # t) = s"
    "dropWhile (\<lambda>c. c \<noteq> CHR ''-'') (s @ CHR ''-'' # t) = CHR ''-'' # t"
    by (simp_all add: takeWhile_append2 dropWhile_append2)
qed

text \<open>How a client writes a range.\<close>

fun show_range :: "byte_range \<Rightarrow> string" where
  "show_range r =
     ''bytes='' @
     (case br_kind r of
        Closed \<Rightarrow> dec_str (br_a r) @ ''-'' @ dec_str (br_b r)
      | From \<Rightarrow> dec_str (br_a r) @ ''-''
      | Suffix \<Rightarrow> ''-'' @ dec_str (br_a r))"

definition range_ok :: "byte_range \<Rightarrow> bool" where
  "range_ok r \<longleftrightarrow> br_a r < 2 ^ 64 \<and> br_b r < 2 ^ 64 \<and>
     (case br_kind r of Closed \<Rightarrow> br_a r \<le> br_b r | From \<Rightarrow> br_b r = 0
      | Suffix \<Rightarrow> 0 < br_a r \<and> br_b r = 0)"

lemma trim_show_range: "trim (show_range r) = show_range r"
proof (rule trim_id)
  have "\<not> is_blank CHR ''b''" "\<not> is_blank CHR ''-''" by code_simp+
  then have "\<not> is_blank (hd (show_range r))" by simp
  moreover have "\<not> is_blank (last (show_range r))"
    using dec_str_hd_last(2) [of "br_a r"] dec_str_hd_last(2) [of "br_b r"] dec_not_blank
    by (cases "br_kind r") (auto simp: \<open>\<not> is_blank CHR ''-''\<close>)
  ultimately show "show_range r = [] \<or> \<not> is_blank (hd (show_range r)) \<and> \<not> is_blank (last (show_range r))"
    by blast
qed

section \<open>Properties\<close>

text \<open>
  Ranges survive the wire: the header a client writes for a well-formed range
  parses back to it, and everything the parser accepts is well formed (a closed range is not
  reversed, a suffix is not empty).
\<close>

lemma parse_range_round_trip:
  "(range_ok r \<longrightarrow> parse_range (show_range r) = Some r) \<and>
   (parse_range value = Some q \<longrightarrow> range_ok q)"
proof (intro conjI impI)
  assume ok: "range_ok r"
  have pre: "take 6 (show_range r) = ''bytes=''" by simp
  show "parse_range (show_range r) = Some r"
    using ok
    unfolding parse_range_def Let_def trim_show_range pre
    by (cases r; cases "br_kind r")
      (auto simp: range_ok_def take_while_dash dec_str_no_dash trim_dec_str to_u64_dec_str
        take_while_dash(1) [of "[]", simplified] trim_def [of "[]"])
next
  assume "parse_range value = Some q"
  then show "range_ok q"
    by (auto simp: parse_range_def Let_def range_ok_def dest: to_u64_less split: if_splits option.splits)
qed

text \<open>The bytes of an object of size \<open>sz\<close> that a range asks for (RFC 7233).\<close>

definition range_bytes :: "byte_range \<Rightarrow> nat \<Rightarrow> nat set" where
  "range_bytes r sz =
     (case br_kind r of
        Closed \<Rightarrow> {br_a r..br_b r} \<inter> {..<sz}
      | From \<Rightarrow> {br_a r..<sz}
      | Suffix \<Rightarrow> {sz - br_a r..<sz})"

text \<open>
  Property C33. Resolving a well-formed range against an object's size yields exactly the bytes
  asked for that exist, as a non-empty stretch inside the object, and is refused exactly when
  there are none.
\<close>

theorem resolve_range_exact:
  assumes "range_ok r" and "sz < 2 ^ 64"
  shows "(case resolve_range r sz of
      None \<Rightarrow> range_bytes r sz = {}
    | Some (off, len) \<Rightarrow> 0 < len \<and> off + len \<le> sz \<and> {off..<off + len} = range_bytes r sz)"
proof (cases "br_kind r")
  case Closed
  show ?thesis
  proof (cases "br_a r < sz")
    case True
    let ?l = "min (br_b r) (sz - 1) - br_a r + 1"
    have "?l < 2 ^ 64" using assms True by (auto simp: range_ok_def)
    then have "resolve_range r sz = Some (br_a r, ?l)"
      using True Closed by (simp add: resolve_range_def u64_id)
    moreover have "{br_a r..<br_a r + ?l} = {br_a r..br_b r} \<inter> {..<sz}"
      using True assms Closed by (auto simp: range_ok_def)
    ultimately show ?thesis using True assms Closed by (auto simp: range_bytes_def)
  next
    case False
    then show ?thesis using Closed by (auto simp: resolve_range_def range_bytes_def)
  qed
next
  case From
  then show ?thesis by (auto simp: resolve_range_def range_bytes_def)
next
  case Suffix
  then show ?thesis using assms by (auto simp: resolve_range_def range_bytes_def range_ok_def Let_def min_def)
qed

theorem resolve_range_exact_witness:
  "range_ok \<lparr>br_kind = Suffix, br_a = 500, br_b = 0\<rparr> \<and>
   resolve_range \<lparr>br_kind = Suffix, br_a = 500, br_b = 0\<rparr> 200 = Some (0, 200) \<and>
   {0..<0 + 200} = range_bytes \<lparr>br_kind = Suffix, br_a = 500, br_b = 0\<rparr> (200::nat)"
proof -
  let ?r = "\<lparr>br_kind = Suffix, br_a = 500, br_b = 0\<rparr>"
  have ok: "range_ok ?r" by (simp add: range_ok_def)
  have e: "resolve_range ?r 200 = Some (0, 200)" by (simp add: resolve_range_def)
  show ?thesis using ok e resolve_range_exact [OF ok, of 200] by simp
qed

lemma after_last_append:
  "x \<notin> set t \<Longrightarrow> after_last x (s @ x # t) = t"
proof -
  assume "x \<notin> set t"
  then have "takeWhile (\<lambda>c. c \<noteq> x) (rev t @ x # rev s) = rev t"
    by (subst takeWhile_append2) auto
  then show ?thesis by (simp add: after_last_def)
qed

lemma table_exts:
  "(ext, type) \<in> set kTable \<Longrightarrow> ext \<noteq> [] \<and> length ext \<le> 8 \<and> map_of kTable ext = Some type \<and>
     CHR ''.'' \<notin> set ext \<and> CHR ''/'' \<notin> set ext \<and> CHR ''?'' \<notin> set ext"
proof -
  assume "(ext, type) \<in> set kTable"
  moreover have "list_all (\<lambda>(ext, type). ext \<noteq> [] \<and> length ext \<le> 8 \<and> map_of kTable ext = Some type \<and>
     CHR ''.'' \<notin> set ext \<and> CHR ''/'' \<notin> set ext \<and> CHR ''?'' \<notin> set ext) kTable"
    by code_simp
  ultimately show ?thesis by (auto simp only: list_all_iff)
qed

lemma lower_keeps: "map ascii_lower e = ext \<Longrightarrow> c \<notin> set ext \<Longrightarrow> ascii_lower c = c \<Longrightarrow> c \<notin> set e"
  by (metis image_eqI list.set_map)

text \<open>
  The content type follows the extension of the last path segment, in any letter
  case and whatever directories or query string surround it, for every entry of the table;
  and no key yields anything but a type of the table or the binary default.
\<close>

theorem content_type_by_extension:
  assumes "(map ascii_lower ext, type) \<in> set kTable" and "CHR ''?'' \<notin> set dir"
    and "stem \<noteq> []" and "CHR ''/'' \<notin> set stem" and "CHR ''?'' \<notin> set stem"
    and "query = [] \<or> hd query = CHR ''?''"
  shows "content_type_for (dir @ CHR ''/'' # stem @ CHR ''.'' # ext @ query) = type \<and>
    content_type_for key \<in> insert ''application/octet-stream'' (snd ` set kTable)"
proof
  note t = table_exts [OF assms(1)]
  have low: "ascii_lower CHR ''.'' = CHR ''.''" "ascii_lower CHR ''/'' = CHR ''/''"
    "ascii_lower CHR ''?'' = CHR ''?''" by code_simp+
  have e: "CHR ''.'' \<notin> set ext" "CHR ''/'' \<notin> set ext" "CHR ''?'' \<notin> set ext"
    using t low lower_keeps [OF refl, of _ ext] by blast+
  let ?name = "stem @ CHR ''.'' # ext" and ?key = "dir @ CHR ''/'' # stem @ CHR ''.'' # ext"
  have "\<forall>c \<in> set ?key. c \<noteq> CHR ''?''" using assms(2,5) e(3) by auto
  then have k: "takeWhile (\<lambda>c. c \<noteq> CHR ''?'') (?key @ query) = ?key"
    using assms(6) by (cases query) (simp_all only: takeWhile_append2, simp_all)
  have n: "after_last CHR ''/'' ?key = ?name"
    using after_last_append [of "CHR ''/''" ?name dir] assms(4) e(2) by simp
  have x: "after_last CHR ''.'' ?name = ext" by (rule after_last_append [OF e(1)])
  have len: "length ext \<le> 8" "ext \<noteq> []" using t by auto
  show "content_type_for (dir @ CHR ''/'' # stem @ CHR ''.'' # ext @ query) = type"
    using k n x len t assms(3) by (simp add: content_type_for_def Let_def)
next
  show "content_type_for key \<in> insert ''application/octet-stream'' (snd ` set kTable)"
    by (auto simp: content_type_for_def Let_def dest!: map_of_SomeD split: option.splits)
      (metis image_eqI snd_conv)
qed

theorem content_type_by_extension_witness:
  "content_type_for ''/blog/Index.HTML?x=1'' = ''text/html; charset=utf-8''"
proof -
  have "map ascii_lower ''HTML'' = ''html''" by code_simp
  then have "(map ascii_lower ''HTML'', ''text/html; charset=utf-8'') \<in> set kTable" by (simp add: kTable_def)
  from content_type_by_extension [OF this, of "''/blog''" "''Index''" "''?x=1''"] show ?thesis by simp
qed

end
