(* ===== verification/Stats.thy ===== *)
theory Stats
  imports Prelude
begin

text \<open>
  Server counters (\<^verbatim>\<open>core/stats.hpp\<close>): one slot of 64-bit counters per worker, and the registry
  that sums the slots when a client asks for them. Every counter wraps.
\<close>

record stats_snapshot =
  ss_conns :: nat
  ss_curr_conns :: nat
  ss_get_hits :: nat
  ss_get_misses :: nat
  ss_sets :: nat
  ss_set_rejected :: nat
  ss_bytes_served :: nat
  ss_bytes_stored :: nat
  ss_get_backpressure :: nat
  ss_set_backpressure :: nat
  ss_slow_drops :: nat

definition zero_snapshot :: stats_snapshot where
  "zero_snapshot = \<lparr>ss_conns = 0, ss_curr_conns = 0, ss_get_hits = 0, ss_get_misses = 0, ss_sets = 0,
     ss_set_rejected = 0, ss_bytes_served = 0, ss_bytes_stored = 0, ss_get_backpressure = 0,
     ss_set_backpressure = 0, ss_slow_drops = 0\<rparr>"

definition add_snapshot :: "stats_snapshot \<Rightarrow> stats_snapshot \<Rightarrow> stats_snapshot" where
  "add_snapshot t s =
     \<lparr>ss_conns = u64 (ss_conns t + ss_conns s),
      ss_curr_conns = u64 (ss_curr_conns t + ss_curr_conns s),
      ss_get_hits = u64 (ss_get_hits t + ss_get_hits s),
      ss_get_misses = u64 (ss_get_misses t + ss_get_misses s),
      ss_sets = u64 (ss_sets t + ss_sets s),
      ss_set_rejected = u64 (ss_set_rejected t + ss_set_rejected s),
      ss_bytes_served = u64 (ss_bytes_served t + ss_bytes_served s),
      ss_bytes_stored = u64 (ss_bytes_stored t + ss_bytes_stored s),
      ss_get_backpressure = u64 (ss_get_backpressure t + ss_get_backpressure s),
      ss_set_backpressure = u64 (ss_set_backpressure t + ss_set_backpressure s),
      ss_slow_drops = u64 (ss_slow_drops t + ss_slow_drops s)\<rparr>"

text \<open>A worker's slot.\<close>

record stats =
  st_conns :: nat
  st_curr_conns :: nat
  st_get_hits :: nat
  st_get_misses :: nat
  st_sets :: nat
  st_set_rejected :: nat
  st_bytes_served :: nat
  st_bytes_stored :: nat
  st_get_backpressure :: nat
  st_set_backpressure :: nat
  st_slow_drops :: nat

definition zero_stats :: stats where
  "zero_stats = \<lparr>st_conns = 0, st_curr_conns = 0, st_get_hits = 0, st_get_misses = 0, st_sets = 0,
     st_set_rejected = 0, st_bytes_served = 0, st_bytes_stored = 0, st_get_backpressure = 0,
     st_set_backpressure = 0, st_slow_drops = 0\<rparr>"

definition take_snapshot :: "stats \<Rightarrow> stats_snapshot" where
  "take_snapshot s =
     \<lparr>ss_conns = st_conns s, ss_curr_conns = st_curr_conns s, ss_get_hits = st_get_hits s,
      ss_get_misses = st_get_misses s, ss_sets = st_sets s, ss_set_rejected = st_set_rejected s,
      ss_bytes_served = st_bytes_served s, ss_bytes_stored = st_bytes_stored s,
      ss_get_backpressure = st_get_backpressure s, ss_set_backpressure = st_set_backpressure s,
      ss_slow_drops = st_slow_drops s\<rparr>"

text \<open>
  The registry holds pointers to slots: numbers, which \<open>slot\<close> reads. \<^verbatim>\<open>uptime_secs\<close> is the steady
  clock, in milliseconds, since the registry was made, cut to seconds.
\<close>

record stats_registry =
  reg_slots :: "nat list"
  reg_start :: nat

definition reg_add :: "stats_registry \<Rightarrow> nat \<Rightarrow> stats_registry" where
  "reg_add r p = r\<lparr>reg_slots := reg_slots r @ [p]\<rparr>"

definition reg_remove :: "stats_registry \<Rightarrow> nat \<Rightarrow> stats_registry" where
  "reg_remove r p = r\<lparr>reg_slots := filter (\<lambda>q. q \<noteq> p) (reg_slots r)\<rparr>"

definition aggregate :: "stats_registry \<Rightarrow> (nat \<Rightarrow> stats) \<Rightarrow> stats_snapshot" where
  "aggregate r slot = fold (\<lambda>p t. add_snapshot t (take_snapshot (slot p))) (reg_slots r) zero_snapshot"

definition uptime_secs :: "stats_registry \<Rightarrow> nat \<Rightarrow> nat" where
  "uptime_secs r clock = (clock - reg_start r) div 1000"

section \<open>Aggregation is a sum\<close>

lemma u64_add_left [simp]: "u64 (u64 a + b) = u64 (a + b)"
  by (simp add: u64_def mod_add_left_eq)

text \<open>One counter of the aggregate, for any counter that both records have.\<close>

lemma aggregate_counter:
  assumes "\<And>t s. get_ss (add_snapshot t s) = u64 (get_ss t + get_ss s)"
    and "\<And>s. get_ss (take_snapshot s) = get_st s" and "get_ss zero_snapshot = 0"
  shows "get_ss (aggregate r slot) = u64 (\<Sum>p \<leftarrow> reg_slots r. get_st (slot p))"
proof -
  have "u64 (get_ss (fold (\<lambda>p t. add_snapshot t (take_snapshot (slot p))) ps t)) =
      u64 (get_ss t + (\<Sum>p \<leftarrow> ps. get_st (slot p)))" for ps t
    by (induction ps arbitrary: t) (simp_all add: assms add.assoc)
  from this [of "reg_slots r" zero_snapshot]
  have s: "u64 (get_ss (aggregate r slot)) = u64 (\<Sum>p \<leftarrow> reg_slots r. get_st (slot p))"
    by (simp add: aggregate_def assms(3))
  have "get_ss (aggregate r slot) < 2 ^ 64"
  proof (cases "reg_slots r" rule: rev_cases)
    case Nil
    then show ?thesis by (simp add: aggregate_def assms(3))
  next
    case (snoc ps p)
    then show ?thesis by (simp add: aggregate_def assms(1) u64_def)
  qed
  then show ?thesis using s by (simp add: u64_id)
qed

lemma aggregate_counters:
  "ss_conns (aggregate r slot) = u64 (\<Sum>p \<leftarrow> reg_slots r. st_conns (slot p))"
  "ss_curr_conns (aggregate r slot) = u64 (\<Sum>p \<leftarrow> reg_slots r. st_curr_conns (slot p))"
  "ss_get_hits (aggregate r slot) = u64 (\<Sum>p \<leftarrow> reg_slots r. st_get_hits (slot p))"
  "ss_get_misses (aggregate r slot) = u64 (\<Sum>p \<leftarrow> reg_slots r. st_get_misses (slot p))"
  "ss_sets (aggregate r slot) = u64 (\<Sum>p \<leftarrow> reg_slots r. st_sets (slot p))"
  "ss_set_rejected (aggregate r slot) = u64 (\<Sum>p \<leftarrow> reg_slots r. st_set_rejected (slot p))"
  "ss_bytes_served (aggregate r slot) = u64 (\<Sum>p \<leftarrow> reg_slots r. st_bytes_served (slot p))"
  "ss_bytes_stored (aggregate r slot) = u64 (\<Sum>p \<leftarrow> reg_slots r. st_bytes_stored (slot p))"
  by (rule aggregate_counter; simp add: add_snapshot_def take_snapshot_def zero_snapshot_def)+

end
