(* ===== verification/Stream_Loop.thy ===== *)
theory Stream_Loop
  imports Stats Tier_World
begin

text \<open>
  The per-core event loop (\<^verbatim>\<open>net/stream_loop.hpp\<close>, \<^verbatim>\<open>net/stream_loop.cpp\<close>, class \<^verbatim>\<open>StreamLoop\<close>):
  connections, the operations they have in flight on the ring, the streaming of a GET through
  one or two read buffers, and the queues of parked connections. The four protocol seams are
  a record of functions. A handler works on one connection, taken out of the table, and on the
  state the loop shares among its connections.

  An operation on the ring is its submission entry: it names memory by address, and the bytes
  it moves are those in memory when it completes. Whether the ring has room for an entry, the
  storage kernel's answers and the two clocks are a record \<open>env\<close>; a handler sees one value of
  each clock. Closing a socket has no effect on the model beyond the \<^verbatim>\<open>closing\<close> flag.
\<close>

section \<open>Connections\<close>

datatype conn_st = St_idle | St_set_body | St_set_wait | St_get_wait | St_get_header
  | St_get_send_head | St_get_stream | St_get_trailer

record lane =
  ln_buf :: "nat \<times> nat"
  ln_have :: bool
  ln_len :: nat
  ln_sent :: nat
  ln_reads :: nat
  ln_err :: bool
  ln_ready :: bool

definition new_lane :: lane where
  "new_lane = \<lparr>ln_buf = (0, 0), ln_have = False, ln_len = 0, ln_sent = 0, ln_reads = 0, ln_err = False,
     ln_ready = False\<rparr>"

text \<open>The fields of \<^verbatim>\<open>Conn\<close> in four groups: the meta request, the GET, the write, the rest.\<close>

record meta_part =
  mp_meta :: bool
  mp_rflags :: byte
  mp_quiet :: bool
  mp_opaque :: string
  mp_key :: string
  mp_expiry :: nat

record get_part =
  gp_with_cas :: bool
  gp_rs :: "read_stream option"
  gp_size :: nat
  gp_pos :: nat
  gp_pin :: head_pin
  gp_head_sent :: nat
  gp_lanes :: "lane \<times> lane"
  gp_n_lanes :: nat
  gp_read_lane :: "nat option"
  gp_send_lane :: "nat option"
  gp_fill_i :: nat
  gp_send_i :: nat
  gp_plan_pos :: nat
  gp_send_pos :: nat

record put_part =
  pp_sh :: "store_handle option"
  pp_digest :: digest
  pp_remaining :: nat
  pp_flags :: nat
  pp_exptime :: nat
  pp_cas :: nat
  pp_reply :: string
  pp_noreply :: bool
  pp_reject :: bool
  pp_failed :: bool

record conn =
  cn_id :: nat
  cn_fd :: nat
  cn_inflight :: nat
  cn_closing :: bool
  cn_quit_after :: bool
  cn_state :: conn_st
  cn_last_progress :: nat
  cn_in :: string
  cn_out :: string
  cn_out_sent :: nat
  cn_sni :: string
  cn_get_key :: string
  cn_req_range :: "byte_range option"
  cn_inm :: string
  cn_meta :: meta_part
  cn_get :: get_part
  cn_put :: put_part

definition new_conn :: "nat \<Rightarrow> nat \<Rightarrow> nat \<Rightarrow> conn" where
  "new_conn i fd now =
     \<lparr>cn_id = i, cn_fd = fd, cn_inflight = 0, cn_closing = False, cn_quit_after = False,
      cn_state = St_idle, cn_last_progress = now, cn_in = [], cn_out = [], cn_out_sent = 0, cn_sni = [],
      cn_get_key = [], cn_req_range = None, cn_inm = [],
      cn_meta = \<lparr>mp_meta = False, mp_rflags = 0, mp_quiet = False, mp_opaque = [], mp_key = [],
        mp_expiry = 0\<rparr>,
      cn_get = \<lparr>gp_with_cas = False, gp_rs = None, gp_size = 0, gp_pos = 0, gp_pin = no_pin,
        gp_head_sent = 0, gp_lanes = (new_lane, new_lane), gp_n_lanes = 0, gp_read_lane = None,
        gp_send_lane = None, gp_fill_i = 0, gp_send_i = 0, gp_plan_pos = 0, gp_send_pos = 0\<rparr>,
      cn_put = \<lparr>pp_sh = None, pp_digest = replicate 32 0, pp_remaining = 0, pp_flags = 0,
        pp_exptime = 0, pp_cas = 0, pp_reply = [], pp_noreply = False, pp_reject = False,
        pp_failed = False\<rparr>\<rparr>"

text \<open>The two lanes, by index.\<close>

definition lane_at :: "get_part \<Rightarrow> nat \<Rightarrow> lane" where
  "lane_at g i = (if i = 0 then fst (gp_lanes g) else snd (gp_lanes g))"

definition set_lane :: "nat \<Rightarrow> lane \<Rightarrow> get_part \<Rightarrow> get_part" where
  "set_lane i l g = g\<lparr>gp_lanes := (if i = 0 then (l, snd (gp_lanes g)) else (fst (gp_lanes g), l))\<rparr>"

section \<open>The loop\<close>

text \<open>
  Submission entries. A send takes its bytes from the \<^verbatim>\<open>out\<close> string of the connection (from an
  offset, so many), from a read buffer, or from the head cache. The user data of an entry is
  the connection and the operation.
\<close>

datatype send_src = Src_out nat nat | Src_lane nat nat | Src_head nat nat

datatype sqe = Sq_accept | Sq_recv nat | Sq_send nat send_src
  | Sq_read nat "nat option" nat nat nat | Sq_poll nat nat

fun sq_conn :: "sqe \<Rightarrow> nat option" where
  "sq_conn Sq_accept = None"
| "sq_conn (Sq_recv i) = Some i"
| "sq_conn (Sq_send i src) = Some i"
| "sq_conn (Sq_read i fd off a n) = Some i"
| "sq_conn (Sq_poll i ev) = Some i"

record loop =
  lp_tm :: tier_manager
  lp_iobufs :: block_pool
  lp_mem :: ram
  lp_stats :: stats
  lp_slot :: nat
  lp_reg :: "stats_registry option"
  lp_read_ahead :: bool
  lp_set_waiters :: "nat list"
  lp_get_waiters :: "nat list"
  lp_timeout :: nat
  lp_last_sweep :: nat
  lp_draining :: bool
  lp_conns :: "(nat \<times> conn) list"
  lp_sq :: "sqe list"

text \<open>The world outside a handler: \<open>env\<close>.\<close>

record env =
  ev_kernel :: kernel
  ev_now :: nat
  ev_clock :: nat
  ev_room :: "sqe list \<Rightarrow> sqe \<Rightarrow> bool"
  ev_pid :: nat
  ev_slots :: "nat \<Rightarrow> stats"

type_synonym focus = "loop \<times> conn"

definition submit :: "env \<Rightarrow> loop \<Rightarrow> sqe \<Rightarrow> loop option" where
  "submit ev lp s = (if ev_room ev (lp_sq lp) s then Some (lp\<lparr>lp_sq := lp_sq lp @ [s]\<rparr>) else None)"

definition bump :: "(stats \<Rightarrow> stats) \<Rightarrow> loop \<Rightarrow> loop" where
  "bump f lp = lp\<lparr>lp_stats := f (lp_stats lp)\<rparr>"

text \<open>The constructor and the destructor register and unregister the slot.\<close>

definition loop_new ::
  "tier_manager \<Rightarrow> block_pool \<Rightarrow> ram \<Rightarrow> nat \<Rightarrow> stats_registry option \<Rightarrow> nat \<Rightarrow> nat \<Rightarrow> loop" where
  "loop_new tm iobufs mem slot reg timeout clock =
     \<lparr>lp_tm = tm, lp_iobufs = iobufs, lp_mem = mem, lp_stats = zero_stats, lp_slot = slot,
      lp_reg = map_option (\<lambda>r. reg_add r slot) reg, lp_read_ahead = True, lp_set_waiters = [],
      lp_get_waiters = [], lp_timeout = timeout, lp_last_sweep = clock, lp_draining = False,
      lp_conns = [], lp_sq = []\<rparr>"

definition loop_delete :: "loop \<Rightarrow> stats_registry option" where
  "loop_delete lp = map_option (\<lambda>r. reg_remove r (lp_slot lp)) (lp_reg lp)"

section \<open>Posting operations\<close>

definition close_conn :: "conn \<Rightarrow> conn" where
  "close_conn c = (if cn_closing c then c else c\<lparr>cn_closing := True\<rparr>)"

text \<open>An operation of the connection: in flight, or the connection is closed.\<close>

definition post :: "env \<Rightarrow> sqe \<Rightarrow> focus \<Rightarrow> focus" where
  "post ev s = (\<lambda>(lp, c). case submit ev lp s of
     Some lp \<Rightarrow> (lp, c\<lparr>cn_inflight := cn_inflight c + 1\<rparr>)
   | None \<Rightarrow> (lp, close_conn c))"

definition start_recv :: "env \<Rightarrow> focus \<Rightarrow> focus" where
  "start_recv ev = (\<lambda>(lp, c). if cn_closing c then (lp, c) else post ev (Sq_recv (cn_id c)) (lp, c))"

definition start_send :: "env \<Rightarrow> focus \<Rightarrow> focus" where
  "start_send ev = (\<lambda>(lp, c).
     if cn_closing c then (lp, c)
     else post ev (Sq_send (cn_id c) (Src_out (cn_out_sent c) (length (cn_out c) - cn_out_sent c))) (lp, c))"

definition start_lane_send :: "env \<Rightarrow> focus \<Rightarrow> focus" where
  "start_lane_send ev = (\<lambda>(lp, c).
     if cn_closing c then (lp, c)
     else let l = lane_at (cn_get c) (the (gp_send_lane (cn_get c)))
          in post ev (Sq_send (cn_id c) (Src_lane (fst (ln_buf l) + ln_sent l) (ln_len l - ln_sent l))) (lp, c))"

text \<open>The head bytes within the range.\<close>

definition head_hi :: "get_part \<Rightarrow> nat" where
  "head_hi g = min (hp_len (gp_pin g)) (gp_size g)"

definition pin_addr :: "tier_manager \<Rightarrow> head_pin \<Rightarrow> nat" where
  "pin_addr tm p = bufpool_addr (tm_ram tm) (hp_block p) (hp_offset p)"

definition start_send_head :: "env \<Rightarrow> focus \<Rightarrow> focus" where
  "start_send_head ev = (\<lambda>(lp, c).
     if cn_closing c then (lp, c)
     else let g = cn_get c
          in post ev (Sq_send (cn_id c)
               (Src_head (pin_addr (lp_tm lp) (gp_pin g) + gp_head_sent g) (head_hi g - gp_head_sent g))) (lp, c))"

text \<open>Destroying the writer of a connection, if it has one.\<close>

definition reset_sh :: "env \<Rightarrow> focus \<Rightarrow> focus" where
  "reset_sh ev = (\<lambda>(lp, c). case pp_sh (cn_put c) of
     None \<Rightarrow> (lp, c)
   | Some h \<Rightarrow> (lp\<lparr>lp_tm := fst (abort_uncommitted (ev_kernel ev) (lp_tm lp) h)\<rparr>,
               c\<lparr>cn_put := (cn_put c)\<lparr>pp_sh := None\<rparr>\<rparr>))"

text \<open>A store that did not begin because the staging buffers are out.\<close>

definition blocked :: "'a result \<Rightarrow> bool" where
  "blocked r = (case r of Inl e \<Rightarrow> code e = would_block | Inr _ \<Rightarrow> False)"

section \<open>Beginning a GET\<close>

definition unpin_if_held :: "focus \<Rightarrow> focus" where
  "unpin_if_held = (\<lambda>(lp, c).
     if hp_valid (gp_pin (cn_get c))
     then (lp\<lparr>lp_tm := unpin_head (lp_tm lp) (gp_pin (cn_get c))\<rparr>,
           c\<lparr>cn_get := (cn_get c)\<lparr>gp_pin := (gp_pin (cn_get c))\<lparr>hp_valid := False\<rparr>\<rparr>\<rparr>)
     else (lp, c))"

definition clear_lane :: "lane \<Rightarrow> lane" where
  "clear_lane l = l\<lparr>ln_len := 0, ln_sent := 0, ln_reads := 0, ln_ready := False, ln_err := False\<rparr>"

definition park_get :: "string \<Rightarrow> focus \<Rightarrow> focus" where
  "park_get key = (\<lambda>(lp, c).
     (bump (\<lambda>s. s\<lparr>st_get_backpressure := u64 (st_get_backpressure s + 1)\<rparr>)
        (lp\<lparr>lp_get_waiters := lp_get_waiters lp @ [cn_id c]\<rparr>),
      c\<lparr>cn_get_key := key, cn_state := St_get_wait\<rparr>))"

text \<open>The lanes of a GET with a disk tail: one buffer, and a second one when there is one.\<close>

definition take_lanes :: "nat \<times> nat \<Rightarrow> read_stream option \<Rightarrow> focus \<Rightarrow> focus" where
  "take_lanes buf rs = (\<lambda>(lp, c).
     let g = cn_get c;
         l0 = (lane_at g 0)\<lparr>ln_buf := buf, ln_have := True\<rparr>;
         (lp, l1, n) = (case (if lp_read_ahead lp then iopool_acquire (lp_iobufs lp) else None) of
             None \<Rightarrow> (lp, lane_at g 1, 1)
           | Some (buf2, io) \<Rightarrow>
               (lp\<lparr>lp_iobufs := io\<rparr>, (lane_at g 1)\<lparr>ln_buf := buf2, ln_have := True\<rparr>, 2))
     in (lp, c\<lparr>cn_get := g\<lparr>gp_rs := rs, gp_lanes := (clear_lane l0, clear_lane l1), gp_n_lanes := n,
           gp_read_lane := None, gp_send_lane := None, gp_fill_i := 0, gp_send_i := 0\<rparr>\<rparr>))"

definition open_hit ::
  "env \<Rightarrow> (env \<Rightarrow> conn \<Rightarrow> string \<Rightarrow> object_meta \<Rightarrow> conn) \<Rightarrow> string \<Rightarrow> snapshot \<Rightarrow> focus \<Rightarrow> focus" where
  "open_hit ev frame_hit key s = (\<lambda>(lp, c).
     let c = c\<lparr>cn_get := (cn_get c)\<lparr>gp_pin := sn_pin s, gp_head_sent := 0\<rparr>\<rparr>;
         lp = bump (\<lambda>s. s\<lparr>st_get_hits := u64 (st_get_hits s + 1)\<rparr>) lp
     in (lp, (frame_hit ev c key (sn_meta s))\<lparr>cn_state := St_get_header\<rparr>))"

definition begin_get ::
  "env \<Rightarrow> (env \<Rightarrow> conn \<Rightarrow> string \<Rightarrow> object_meta \<Rightarrow> conn) \<Rightarrow> (conn \<Rightarrow> conn) \<Rightarrow> string \<Rightarrow> focus \<Rightarrow>
     focus \<times> bool" where
  "begin_get ev frame_hit frame_miss key = (\<lambda>(lp, c).
     case open_snapshot (ev_kernel ev) (ev_now ev) (lp_tm lp) (hash_key key) of
       (tm, None) \<Rightarrow>
         ((bump (\<lambda>s. s\<lparr>st_get_misses := u64 (st_get_misses s + 1)\<rparr>) (lp\<lparr>lp_tm := tm\<rparr>), frame_miss c), True)
     | (tm, Some s) \<Rightarrow>
         let lp = lp\<lparr>lp_tm := tm\<rparr>;
             head_len = (if hp_valid (sn_pin s) then hp_len (sn_pin s) else 0)
         in if om_size (sn_meta s) > head_len
            then (case iopool_acquire (lp_iobufs lp) of
                    None \<Rightarrow>
                      (park_get key
                        (lp\<lparr>lp_tm := (if hp_valid (sn_pin s) then unpin_head tm (sn_pin s) else tm)\<rparr>, c), False)
                  | Some (buf, io) \<Rightarrow>
                      (open_hit ev frame_hit key s (take_lanes buf (sn_rs s) (lp\<lparr>lp_iobufs := io\<rparr>, c)), True))
            else (open_hit ev frame_hit key s (lp, c), True))"

section \<open>Ending a GET\<close>

definition release_lane :: "lane \<Rightarrow> block_pool \<Rightarrow> lane \<times> block_pool" where
  "release_lane l io =
     (clear_lane (l\<lparr>ln_have := False\<rparr>), if ln_have l then iopool_release io (ln_buf l) else io)"

definition release_lanes :: "focus \<Rightarrow> focus" where
  "release_lanes = (\<lambda>(lp, c).
     let g = cn_get c;
         (l0, io) = release_lane (lane_at g 0) (lp_iobufs lp);
         (l1, io) = release_lane (lane_at g 1) io
     in (lp\<lparr>lp_iobufs := io\<rparr>,
         c\<lparr>cn_get := g\<lparr>gp_lanes := (l0, l1), gp_n_lanes := 0, gp_read_lane := None, gp_send_lane := None,
             gp_fill_i := 0, gp_send_i := 0\<rparr>\<rparr>))"

definition drop_get :: "focus \<Rightarrow> focus" where
  "drop_get f =
     (case unpin_if_held (release_lanes f) of (lp, c) \<Rightarrow> (lp, c\<lparr>cn_get := (cn_get c)\<lparr>gp_rs := None\<rparr>\<rparr>))"

definition finish_get :: "env \<Rightarrow> (env \<Rightarrow> focus \<Rightarrow> focus option) \<Rightarrow> focus \<Rightarrow> focus option" where
  "finish_get ev process f =
     (case drop_get f of (lp, c) \<Rightarrow> process ev (lp, c\<lparr>cn_state := St_idle\<rparr>))"

definition abort_get :: "focus \<Rightarrow> focus" where
  "abort_get f = (case drop_get f of (lp, c) \<Rightarrow> (lp, close_conn c))"

section \<open>The protocol seams\<close>

record seams =
  sm_process :: "env \<Rightarrow> focus \<Rightarrow> focus option"
  sm_frame_hit :: "env \<Rightarrow> conn \<Rightarrow> string \<Rightarrow> object_meta \<Rightarrow> conn"
  sm_frame_miss :: "conn \<Rightarrow> conn"
  sm_value_sent :: "env \<Rightarrow> focus \<Rightarrow> focus option"


section \<open>Streaming the disk tail\<close>

text \<open>The reads of one piece; a read may be longer than its segment, up to a whole device block.\<close>

fun submit_reads :: "env \<Rightarrow> nat \<Rightarrow> read_seg list \<Rightarrow> focus \<Rightarrow> focus \<times> bool" where
  "submit_reads ev i [] f = (f, True)"
| "submit_reads ev i (s # segs) (lp, c) =
     (let l = lane_at (cn_get c) i;
          rlen = min (align_up (sg_len s) kDeviceBlock) (snd (ln_buf l) - sg_out_off s)
      in case submit ev lp (Sq_read (cn_id c) (sg_fd s) (sg_file_off s) (fst (ln_buf l) + sg_out_off s) rlen) of
           None \<Rightarrow> ((lp, c), False)
         | Some lp \<Rightarrow>
             submit_reads ev i segs
               (lp, c\<lparr>cn_inflight := cn_inflight c + 1,
                      cn_get := set_lane i (l\<lparr>ln_reads := ln_reads l + 1\<rparr>) (cn_get c)\<rparr>))"

definition plan_lane_read :: "env \<Rightarrow> nat \<Rightarrow> focus \<Rightarrow> focus \<times> bool" where
  "plan_lane_read ev i = (\<lambda>(lp, c).
     let g = cn_get c; l = lane_at g i;
         want = min (snd (ln_buf l)) (gp_size g - gp_plan_pos g);
         (plan, bs) = stream_plan (lp_tm lp) (the (gp_rs g)) (gp_plan_pos g)
                        (mem_get (lp_mem lp) (fst (ln_buf l)) want);
         lp = lp\<lparr>lp_mem := mem_put (fst (ln_buf l)) bs (lp_mem lp)\<rparr>
     in if rp_total plan \<noteq> want then ((lp, c), False)
        else
          let l = l\<lparr>ln_len := rp_total plan, ln_sent := 0, ln_reads := 0, ln_err := False, ln_ready := False\<rparr>;
              g = g\<lparr>gp_plan_pos := gp_plan_pos g + rp_total plan,
                     gp_fill_i := (gp_fill_i g + 1) mod gp_n_lanes g\<rparr>
          in if rp_segs plan = []
             then ((lp, c\<lparr>cn_get := set_lane i (l\<lparr>ln_ready := True\<rparr>) g\<rparr>), True)
             else (case submit_reads ev i (rp_segs plan) (lp, c\<lparr>cn_get := set_lane i l g\<rparr>) of
                     (f, False) \<Rightarrow> (f, False)
                   | ((lp, c), True) \<Rightarrow> ((lp, c\<lparr>cn_get := (cn_get c)\<lparr>gp_read_lane := Some i\<rparr>\<rparr>), True)))"

text \<open>
  One round of the loop in \<^verbatim>\<open>pump_stream\<close>: the next send in order, the next read-ahead. The result
  says whether the loop goes on (something was started), stops to wait, gives up, or has sent
  the whole value.
\<close>

datatype pump_flow = Pump_on | Pump_wait | Pump_abort | Pump_done

definition pump_send :: "env \<Rightarrow> focus \<Rightarrow> focus \<times> bool" where
  "pump_send ev = (\<lambda>(lp, c).
     let g = cn_get c in
     if gp_send_lane g = None \<and> gp_send_pos g < gp_size g \<and> ln_ready (lane_at g (gp_send_i g))
     then (start_lane_send ev
             (lp, c\<lparr>cn_get := set_lane (gp_send_i g) ((lane_at g (gp_send_i g))\<lparr>ln_sent := 0\<rparr>)
                      (g\<lparr>gp_send_lane := Some (gp_send_i g)\<rparr>)\<rparr>), True)
     else ((lp, c), False))"

definition pump_read :: "env \<Rightarrow> focus \<Rightarrow> focus \<times> pump_flow" where
  "pump_read ev = (\<lambda>(lp, c).
     let g = cn_get c; f = gp_fill_i g in
     if gp_read_lane g = None \<and> gp_plan_pos g < gp_size g \<and>
        ln_have (lane_at g f) \<and> \<not> ln_ready (lane_at g f) \<and> gp_send_lane g \<noteq> Some f
     then (case plan_lane_read ev f (lp, c) of
             (fc, True) \<Rightarrow> (fc, Pump_on)
           | (fc, False) \<Rightarrow> (fc, Pump_abort))
     else ((lp, c), Pump_wait))"

definition pump_round :: "env \<Rightarrow> focus \<Rightarrow> focus \<times> pump_flow" where
  "pump_round ev f =
     (case pump_send ev f of ((lp, c), sent) \<Rightarrow>
        if sent \<and> cn_closing c then ((lp, c), Pump_wait)
        else
          (case pump_read ev (lp, c) of
             (f, Pump_abort) \<Rightarrow> (f, Pump_abort)
           | ((lp, c), flow) \<Rightarrow>
               let g = cn_get c in
               if gp_send_lane g = None \<and> gp_read_lane g = None \<and> gp_send_pos g \<ge> gp_size g
               then ((lp, c), Pump_done)
               else ((lp, c), if sent then Pump_on else flow)))"

text \<open>Every round that starts something leaves fewer things to start.\<close>

definition pump_left :: "get_part \<Rightarrow> nat" where
  "pump_left g =
     (if gp_send_lane g = None then 1 else 0) + (if gp_read_lane g = None then 1 else 0) +
     (if ln_ready (lane_at g 0) then 0 else 1) + (if ln_ready (lane_at g 1) then 0 else 1)"

lemma lane_at_set [simp]:
  "lane_at (set_lane i l g) j = (if (i = 0) = (j = 0) then l else lane_at g j)"
  by (auto simp: lane_at_def set_lane_def)

lemma set_lane_set [simp]: "set_lane i l (set_lane i l' g) = set_lane i l g"
  by (simp add: set_lane_def)

lemma set_lane_same: "P l = P (lane_at g i) \<Longrightarrow> P (lane_at (set_lane i l g) j) = P (lane_at g j)"
  by (cases "i = 0"; cases "j = 0") (auto simp: lane_at_def set_lane_def)

lemma set_lane_id: "set_lane i (lane_at g i) g = g"
  by (simp add: set_lane_def lane_at_def)

lemma lane_at_cong: "(i = 0) = (j = 0) \<Longrightarrow> lane_at g i = lane_at g j"
  by (auto simp: lane_at_def)

lemma lane_at_upd [simp]:
  "lane_at (g\<lparr>gp_with_cas := b\<rparr>) j = lane_at g j" "lane_at (g\<lparr>gp_rs := rs\<rparr>) j = lane_at g j"
  "lane_at (g\<lparr>gp_size := n\<rparr>) j = lane_at g j" "lane_at (g\<lparr>gp_pos := n\<rparr>) j = lane_at g j"
  "lane_at (g\<lparr>gp_pin := p\<rparr>) j = lane_at g j" "lane_at (g\<lparr>gp_head_sent := n\<rparr>) j = lane_at g j"
  "lane_at (g\<lparr>gp_n_lanes := n\<rparr>) j = lane_at g j" "lane_at (g\<lparr>gp_read_lane := r\<rparr>) j = lane_at g j"
  "lane_at (g\<lparr>gp_send_lane := r\<rparr>) j = lane_at g j" "lane_at (g\<lparr>gp_fill_i := n\<rparr>) j = lane_at g j"
  "lane_at (g\<lparr>gp_send_i := n\<rparr>) j = lane_at g j" "lane_at (g\<lparr>gp_plan_pos := n\<rparr>) j = lane_at g j"
  "lane_at (g\<lparr>gp_send_pos := n\<rparr>) j = lane_at g j"
  by (simp_all add: lane_at_def)

lemma set_lane_sel [simp]:
  "gp_with_cas (set_lane i l g) = gp_with_cas g" "gp_rs (set_lane i l g) = gp_rs g"
  "gp_size (set_lane i l g) = gp_size g" "gp_pos (set_lane i l g) = gp_pos g"
  "gp_pin (set_lane i l g) = gp_pin g" "gp_head_sent (set_lane i l g) = gp_head_sent g"
  "gp_n_lanes (set_lane i l g) = gp_n_lanes g" "gp_read_lane (set_lane i l g) = gp_read_lane g"
  "gp_send_lane (set_lane i l g) = gp_send_lane g" "gp_fill_i (set_lane i l g) = gp_fill_i g"
  "gp_send_i (set_lane i l g) = gp_send_i g" "gp_plan_pos (set_lane i l g) = gp_plan_pos g"
  "gp_send_pos (set_lane i l g) = gp_send_pos g"
  by (simp_all add: set_lane_def)

lemma close_conn_sel [simp]:
  "cn_id (close_conn c) = cn_id c" "cn_inflight (close_conn c) = cn_inflight c"
  "cn_closing (close_conn c)" "cn_state (close_conn c) = cn_state c" "cn_get (close_conn c) = cn_get c"
  "cn_put (close_conn c) = cn_put c" "cn_in (close_conn c) = cn_in c" "cn_out (close_conn c) = cn_out c"
  by (simp_all add: close_conn_def)

text \<open>What posting leaves alone.\<close>

lemma post_get: "post ev s (lp, c) = (lp', c') \<Longrightarrow> cn_get c' = cn_get c \<and> cn_put c' = cn_put c \<and>
    cn_state c' = cn_state c \<and> cn_id c' = cn_id c \<and> cn_in c' = cn_in c \<and> cn_out c' = cn_out c"
  by (auto simp: post_def submit_def split: option.splits if_splits)

lemma submit_reads_get:
  "submit_reads ev i segs (lp, c) = ((lp', c'), b) \<Longrightarrow>
     gp_send_lane (cn_get c') = gp_send_lane (cn_get c) \<and> gp_read_lane (cn_get c') = gp_read_lane (cn_get c) \<and>
     ln_ready (lane_at (cn_get c') j) = ln_ready (lane_at (cn_get c) j)"
proof (induction segs arbitrary: lp c)
  case (Cons s segs)
  let ?l = "lane_at (cn_get c) i"
  let ?s = "Sq_read (cn_id c) (sg_fd s) (sg_file_off s) (fst (ln_buf ?l) + sg_out_off s)
      (min (align_up (sg_len s) kDeviceBlock) (snd (ln_buf ?l) - sg_out_off s))"
  show ?case
  proof (cases "submit ev lp ?s")
    case None
    with Cons.prems show ?thesis by simp
  next
    case (Some lp1)
    from Cons.IH [of lp1 "c\<lparr>cn_inflight := cn_inflight c + 1,
        cn_get := set_lane i (?l\<lparr>ln_reads := ln_reads ?l + 1\<rparr>) (cn_get c)\<rparr>"] Cons.prems Some
    show ?thesis using lane_at_cong [of i j "cn_get c"] by (auto simp: Let_def split: if_splits)
  qed
qed simp

lemma pump_send_left:
  assumes "pump_send ev (lp, c) = ((lp', c'), sent)"
  shows "pump_left (cn_get c') + (if sent then 1 else 0) = pump_left (cn_get c)"
proof (cases sent)
  case False
  with assms show ?thesis by (auto simp: pump_send_def Let_def split: if_splits)
next
  case True
  let ?g = "cn_get c"
  let ?c = "c\<lparr>cn_get := set_lane (gp_send_i ?g) ((lane_at ?g (gp_send_i ?g))\<lparr>ln_sent := 0\<rparr>)
      (?g\<lparr>gp_send_lane := Some (gp_send_i ?g)\<rparr>)\<rparr>"
  have s: "gp_send_lane ?g = None" "start_lane_send ev (lp, ?c) = (lp', c')"
    using assms True by (auto simp: pump_send_def Let_def split: if_splits)
  then have "cn_get c' = cn_get ?c"
    by (auto simp: start_lane_send_def Let_def dest!: post_get split: if_splits)
  with s True lane_at_cong [of "gp_send_i ?g" 1 ?g] show ?thesis by (simp add: pump_left_def)
qed

text \<open>The three ways a piece is planned: not mapped, all in the head, or read from disk.\<close>

definition piece_lane :: "nat \<Rightarrow> lane \<Rightarrow> lane" where
  "piece_lane n l = l\<lparr>ln_len := n, ln_sent := 0, ln_reads := 0, ln_err := False, ln_ready := False\<rparr>"

definition piece_get :: "nat \<Rightarrow> get_part \<Rightarrow> get_part" where
  "piece_get n g = g\<lparr>gp_plan_pos := gp_plan_pos g + n, gp_fill_i := (gp_fill_i g + 1) mod gp_n_lanes g\<rparr>"

definition piece_want :: "nat \<Rightarrow> get_part \<Rightarrow> nat" where
  "piece_want i g = min (snd (ln_buf (lane_at g i))) (gp_size g - gp_plan_pos g)"

definition piece_plan :: "nat \<Rightarrow> focus \<Rightarrow> read_plan \<times> bytes" where
  "piece_plan i = (\<lambda>(lp, c). let g = cn_get c in
     stream_plan (lp_tm lp) (the (gp_rs g)) (gp_plan_pos g)
       (mem_get (lp_mem lp) (fst (ln_buf (lane_at g i))) (piece_want i g)))"

definition plan_mem :: "nat \<Rightarrow> focus \<Rightarrow> loop" where
  "plan_mem i = (\<lambda>(lp, c).
     lp\<lparr>lp_mem := mem_put (fst (ln_buf (lane_at (cn_get c) i))) (snd (piece_plan i (lp, c))) (lp_mem lp)\<rparr>)"

lemma plan_lane_read_cases:
  assumes "plan_lane_read ev i (lp, c) = ((lp', c'), b)"
  obtains (bad) "rp_total (fst (piece_plan i (lp, c))) \<noteq> piece_want i (cn_get c)"
      "lp' = plan_mem i (lp, c)" "c' = c" "\<not> b"
  | (resident) "rp_total (fst (piece_plan i (lp, c))) = piece_want i (cn_get c)"
      "rp_segs (fst (piece_plan i (lp, c))) = []" "lp' = plan_mem i (lp, c)" "b"
      "c' = c\<lparr>cn_get := set_lane i ((piece_lane (piece_want i (cn_get c)) (lane_at (cn_get c) i))\<lparr>ln_ready := True\<rparr>)
                (piece_get (piece_want i (cn_get c)) (cn_get c))\<rparr>"
  | (disk) lp1 c1 where "rp_total (fst (piece_plan i (lp, c))) = piece_want i (cn_get c)"
      "rp_segs (fst (piece_plan i (lp, c))) \<noteq> []"
      "submit_reads ev i (rp_segs (fst (piece_plan i (lp, c)))) (plan_mem i (lp, c),
         c\<lparr>cn_get := set_lane i (piece_lane (piece_want i (cn_get c)) (lane_at (cn_get c) i))
           (piece_get (piece_want i (cn_get c)) (cn_get c))\<rparr>) = ((lp1, c1), b)"
      "lp' = lp1" "c' = (if b then c1\<lparr>cn_get := (cn_get c1)\<lparr>gp_read_lane := Some i\<rparr>\<rparr> else c1)"
proof -
  obtain plan bs where p: "piece_plan i (lp, c) = (plan, bs)" by (cases "piece_plan i (lp, c)")
  let ?W = "piece_want i (cn_get c)"
  let ?f = "(plan_mem i (lp, c), c\<lparr>cn_get := set_lane i (piece_lane ?W (lane_at (cn_get c) i)) (piece_get ?W (cn_get c))\<rparr>)"
  have e: "plan_lane_read ev i (lp, c) =
      (if rp_total plan \<noteq> ?W then ((plan_mem i (lp, c), c), False)
       else if rp_segs plan = []
       then ((plan_mem i (lp, c), c\<lparr>cn_get := set_lane i ((piece_lane ?W (lane_at (cn_get c) i))\<lparr>ln_ready := True\<rparr>)
                (piece_get ?W (cn_get c))\<rparr>), True)
       else (case submit_reads ev i (rp_segs plan) ?f of
                     (f, False) \<Rightarrow> (f, False)
                   | ((lp, c), True) \<Rightarrow> ((lp, c\<lparr>cn_get := (cn_get c)\<lparr>gp_read_lane := Some i\<rparr>\<rparr>), True)))"
    using p unfolding plan_lane_read_def plan_mem_def piece_plan_def
    by (simp add: Let_def piece_lane_def piece_get_def piece_want_def)
  obtain lp1 c1 b1 where s: "submit_reads ev i (rp_segs plan) ?f = ((lp1, c1), b1)" by (metis surj_pair)
  show thesis
  proof (cases "rp_total plan \<noteq> ?W")
    case True
    with assms e p show ?thesis by (intro bad) auto
  next
    case t: False
    show ?thesis
    proof (cases "rp_segs plan = []")
      case True
      with assms e p t show ?thesis by (intro resident) auto
    next
      case False
      with assms e p t s show ?thesis by (intro disk [of lp1 c1]) (auto split: bool.splits)
    qed
  qed
qed

lemma plan_lane_read_left:
  assumes "plan_lane_read ev f (lp, c) = ((lp', c'), True)"
    and "gp_read_lane (cn_get c) = None" and "\<not> ln_ready (lane_at (cn_get c) f)"
  shows "pump_left (cn_get c') < pump_left (cn_get c)"
proof (cases rule: plan_lane_read_cases [OF assms(1)])
  case 2
  with assms(3) lane_at_cong [of f 1 "cn_get c"] show ?thesis
    by (auto simp: pump_left_def piece_lane_def piece_get_def)
next
  case (3 lp1 c1)
  have "ln_ready (lane_at (cn_get c1) j) = ln_ready (lane_at (cn_get c) j)" for j
    using submit_reads_get [OF 3(3), of j] assms(3) lane_at_cong [of f j "cn_get c"]
    by (auto simp: piece_lane_def piece_get_def split: if_splits)
  with submit_reads_get [OF 3(3)] 3(5) assms(2) show ?thesis by (simp add: pump_left_def piece_get_def)
qed simp

lemma pump_round_left:
  assumes "pump_round ev (lp, c) = ((lp', c'), Pump_on)"
  shows "pump_left (cn_get c') < pump_left (cn_get c)"
proof -
  obtain lp1 c1 sent where s: "pump_send ev (lp, c) = ((lp1, c1), sent)" by (metis surj_pair)
  obtain lp2 c2 fl where r: "pump_read ev (lp1, c1) = ((lp2, c2), fl)" by (metis surj_pair)
  have e: "lp' = lp2" "c' = c2" "sent \<or> fl = Pump_on"
    using assms s r by (auto simp: pump_round_def Let_def split: if_splits pump_flow.splits)
  have l: "pump_left (cn_get c2) \<le> pump_left (cn_get c1) \<and>
      (fl = Pump_on \<longrightarrow> pump_left (cn_get c2) < pump_left (cn_get c1))" if "fl \<noteq> Pump_abort"
    using r that
    by (auto simp: pump_read_def Let_def split: if_splits prod.splits bool.splits intro: less_imp_le dest!: plan_lane_read_left)
  have "fl \<noteq> Pump_abort" using assms s r by (auto simp: pump_round_def Let_def split: if_splits)
  with l e pump_send_left [OF s] show ?thesis by (auto split: if_splits)
qed

function pump_loop :: "env \<Rightarrow> focus \<Rightarrow> focus \<times> pump_flow" where
  "pump_loop ev f =
     (case pump_round ev f of
        (f, Pump_on) \<Rightarrow> pump_loop ev f
      | (f, flow) \<Rightarrow> (f, flow))"
  by pat_completeness auto
termination
  by (relation "measure (\<lambda>(ev, lp, c). pump_left (cn_get c))") (auto dest!: pump_round_left [OF sym])

declare pump_loop.simps [simp del]

definition pump_stream :: "env \<Rightarrow> seams \<Rightarrow> focus \<Rightarrow> focus option" where
  "pump_stream ev sm f =
     (case pump_loop ev f of
        (f, Pump_abort) \<Rightarrow> Some (abort_get f)
      | (f, Pump_done) \<Rightarrow> sm_value_sent sm ev f
      | (f, _) \<Rightarrow> Some f)"

definition enter_stream :: "env \<Rightarrow> seams \<Rightarrow> focus \<Rightarrow> focus option" where
  "enter_stream ev sm = (\<lambda>(lp, c).
     pump_stream ev sm
       (lp, c\<lparr>cn_get := (cn_get c)\<lparr>gp_plan_pos := gp_pos (cn_get c), gp_send_pos := gp_pos (cn_get c)\<rparr>,
             cn_state := St_get_stream\<rparr>))"

section \<open>Completions\<close>

definition on_recv :: "env \<Rightarrow> seams \<Rightarrow> int \<Rightarrow> string \<Rightarrow> focus \<Rightarrow> focus option" where
  "on_recv ev sm res data = (\<lambda>(lp, c).
     if res \<le> 0 then Some (lp, close_conn c)
     else sm_process sm ev (lp, c\<lparr>cn_in := cn_in c @ take (nat res) data\<rparr>))"

definition on_read :: "env \<Rightarrow> seams \<Rightarrow> int \<Rightarrow> focus \<Rightarrow> focus option" where
  "on_read ev sm res = (\<lambda>(lp, c).
     case gp_read_lane (cn_get c) of
       None \<Rightarrow> Some (lp, c)
     | Some i \<Rightarrow>
         let l = lane_at (cn_get c) i;
             l = (if res \<le> 0 then l\<lparr>ln_err := True\<rparr> else l);
             l = (if ln_reads l \<noteq> 0 then l\<lparr>ln_reads := ln_reads l - 1\<rparr> else l);
             c = c\<lparr>cn_get := set_lane i l (cn_get c)\<rparr>
         in if ln_reads l \<noteq> 0 then Some (lp, c)
            else
              let c = c\<lparr>cn_get := (cn_get c)\<lparr>gp_read_lane := None\<rparr>\<rparr> in
              if cn_closing c then Some (lp, c)
              else if ln_err l then Some (abort_get (lp, c))
              else pump_stream ev sm (lp, c\<lparr>cn_get := set_lane i (l\<lparr>ln_ready := True\<rparr>) (cn_get c)\<rparr>))"

text \<open>\<^verbatim>\<open>EAGAIN\<close> and \<^verbatim>\<open>EWOULDBLOCK\<close> are one number on Linux.\<close>

definition EAGAIN :: int where "EAGAIN = 11"

definition sent_lane :: "nat \<Rightarrow> get_part \<Rightarrow> get_part" where
  "sent_lane i g =
     (let l = lane_at g i
      in set_lane i (clear_lane l)
           (g\<lparr>gp_send_pos := gp_send_pos g + ln_len l, gp_send_lane := None,
              gp_send_i := (gp_send_i g + 1) mod gp_n_lanes g\<rparr>))"

text \<open>
  The lane is indexed with the number of the lane that sends; without one the source indexes
  outside the array, and the handler has no result.
\<close>

definition on_lane_sent :: "env \<Rightarrow> seams \<Rightarrow> nat \<Rightarrow> focus \<Rightarrow> focus option" where
  "on_lane_sent ev sm n = (\<lambda>(lp, c).
     case gp_send_lane (cn_get c) of
       None \<Rightarrow> None
     | Some i \<Rightarrow>
         let g = cn_get c;
             l = (lane_at g i)\<lparr>ln_sent := ln_sent (lane_at g i) + n\<rparr>;
             g = set_lane i l g
         in if ln_sent l < ln_len l then Some (start_lane_send ev (lp, c\<lparr>cn_get := g\<rparr>))
            else pump_stream ev sm (lp, c\<lparr>cn_get := sent_lane i g\<rparr>))"

definition on_head_sent :: "env \<Rightarrow> seams \<Rightarrow> nat \<Rightarrow> focus \<Rightarrow> focus option" where
  "on_head_sent ev sm n = (\<lambda>(lp, c).
     let g = (cn_get c)\<lparr>gp_head_sent := gp_head_sent (cn_get c) + n\<rparr>;
         c = c\<lparr>cn_get := g\<rparr>
     in if gp_head_sent g < head_hi g then Some (start_send_head ev (lp, c))
        else (case unpin_if_held (lp, c) of (lp, c) \<Rightarrow>
                enter_stream ev sm (lp, c\<lparr>cn_get := (cn_get c)\<lparr>gp_pos := head_hi g\<rparr>\<rparr>)))"

text \<open>The header of a GET is out: the head next, when the range begins in it, else the tail.\<close>

definition on_header_sent :: "env \<Rightarrow> seams \<Rightarrow> focus \<Rightarrow> focus option" where
  "on_header_sent ev sm = (\<lambda>(lp, c).
     let g = cn_get c; hi = (if hp_valid (gp_pin g) then head_hi g else 0)
     in if gp_pos g < hi
        then Some (start_send_head ev
               (lp, c\<lparr>cn_get := g\<lparr>gp_head_sent := gp_pos g\<rparr>, cn_state := St_get_send_head\<rparr>))
        else enter_stream ev sm (unpin_if_held (lp, c)))"

definition on_out_sent :: "env \<Rightarrow> seams \<Rightarrow> nat \<Rightarrow> focus \<Rightarrow> focus option" where
  "on_out_sent ev sm n = (\<lambda>(lp, c).
     let c = c\<lparr>cn_out_sent := cn_out_sent c + n\<rparr> in
     if cn_out_sent c < length (cn_out c) then Some (start_send ev (lp, c))
     else
       let c = c\<lparr>cn_out := [], cn_out_sent := 0\<rparr> in
       if cn_state c = St_get_header then on_header_sent ev sm (lp, c)
       else if cn_state c = St_get_trailer then finish_get ev (sm_process sm) (lp, c)
       else if cn_quit_after c then Some (lp, close_conn c)
       else Some (start_recv ev (lp, c)))"

definition on_send :: "env \<Rightarrow> seams \<Rightarrow> int \<Rightarrow> focus \<Rightarrow> focus option" where
  "on_send ev sm res = (\<lambda>(lp, c).
     if res < 0
     then if res = - EAGAIN
          then Some (if cn_state c = St_get_stream then start_lane_send ev (lp, c)
                     else if cn_state c = St_get_send_head then start_send_head ev (lp, c)
                     else start_send ev (lp, c))
          else Some (lp, close_conn c)
     else if res = 0 then Some (lp, close_conn c)
     else
       let lp = bump (\<lambda>s. s\<lparr>st_bytes_served := u64 (st_bytes_served s + nat res)\<rparr>) lp in
       if cn_state c = St_get_stream then on_lane_sent ev sm (nat res) (lp, c)
       else if cn_state c = St_get_send_head then on_head_sent ev sm (nat res) (lp, c)
       else on_out_sent ev sm (nat res) (lp, c))"

text \<open>The default of the readiness seam.\<close>

definition on_poll :: "focus \<Rightarrow> focus" where
  "on_poll = (\<lambda>(lp, c). (lp, close_conn c))"

section \<open>Shared by the protocols\<close>

definition reply :: "string \<Rightarrow> conn \<Rightarrow> conn" where
  "reply s c = c\<lparr>cn_out := cn_out c @ s\<rparr>"

text \<open>How the loop of \<^verbatim>\<open>process\<close> goes on after a round: again, to its end, or out of \<^verbatim>\<open>process\<close>.\<close>

datatype flow = Go | Break | Return

text \<open>What leaves the input of a connection alone.\<close>

named_theorems in_kept \<open>what leaves the input of a connection alone\<close>

lemma post_in [in_kept]: "cn_in (snd (post ev s f)) = cn_in (snd f)"
  by (cases f) (auto simp: post_def submit_def close_conn_def split: option.split)

lemma start_in [in_kept]:
  "cn_in (snd (start_recv ev f)) = cn_in (snd f)" "cn_in (snd (start_send ev f)) = cn_in (snd f)"
  by (cases f; simp add: start_recv_def start_send_def post_in)+

lemma reset_sh_in [in_kept]: "cn_in (snd (reset_sh ev f)) = cn_in (snd f)"
  by (cases f) (simp add: reset_sh_def split: option.split)

lemma reply_in [in_kept]: "cn_in (reply s c) = cn_in c"
  by (simp add: reply_def)

end
