(* ===== verification/Stream_Table.thy ===== *)
theory Stream_Table
  imports Stream_Loop "HOL-Library.AList"
begin

text \<open>
  The event loop above its connections (\<^verbatim>\<open>net/stream_loop.cpp\<close>): the connection table, the
  dispatch of completions, retiring, the two queues of parked connections, the sweep of
  stalled ones, one turn of the loop, running and draining. The value \<open>None\<close> stands for a turn
  that does not return or that follows a pointer to a connection that is gone.
\<close>

section \<open>The table\<close>

definition put_conn :: "focus \<Rightarrow> loop" where
  "put_conn = (\<lambda>(lp, c). lp\<lparr>lp_conns := AList.update (cn_id c) c (lp_conns lp)\<rparr>)"

definition arm_accept :: "env \<Rightarrow> loop \<Rightarrow> loop" where
  "arm_accept ev lp = (case submit ev lp Sq_accept of None \<Rightarrow> lp | Some lp \<Rightarrow> lp)"

text \<open>\<open>i\<close> is the address of the new \<^verbatim>\<open>Conn\<close>. A new connection starts to receive.\<close>

definition on_accept :: "env \<Rightarrow> nat \<Rightarrow> int \<Rightarrow> loop \<Rightarrow> loop" where
  "on_accept ev i res lp =
     (let lp = (if lp_draining lp then lp else arm_accept ev lp) in
      if res < 0 \<or> lp_draining lp then lp
      else
        let lp = bump (\<lambda>s. s\<lparr>st_conns := u64 (st_conns s + 1), st_curr_conns := u64 (st_curr_conns s + 1)\<rparr>) lp
        in put_conn (start_recv ev (lp, new_conn i (nat res) (ev_clock ev))))"

text \<open>A closed connection with nothing in flight is destroyed, and its writer with it.\<close>

definition retire :: "env \<Rightarrow> focus \<Rightarrow> loop" where
  "retire ev = (\<lambda>(lp, c).
     if cn_closing c \<and> cn_inflight c = 0
     then (case unpin_if_held (release_lanes (lp, c)) of (lp, c) \<Rightarrow>
             let lp = bump (\<lambda>s. s\<lparr>st_curr_conns := u64 (st_curr_conns s + (2 ^ 64 - 1))\<rparr>) lp;
                 (lp, c) = reset_sh ev (lp, c)
             in lp\<lparr>lp_conns := AList.delete (cn_id c) (lp_conns lp)\<rparr>)
     else put_conn (lp, c))"

section \<open>Dispatching a completion\<close>

text \<open>
  A completion is its submission entry, the result, and the bytes a recv brought. What the
  kernel does to memory happens before the handler runs.
\<close>

type_synonym cqe = "sqe \<times> int \<times> string"

fun kernel_effect :: "sqe \<Rightarrow> int \<Rightarrow> loop \<Rightarrow> loop" where
  "kernel_effect (Sq_read i (Some ino) off a n) res lp =
     lp\<lparr>lp_mem := mem_put a (slice off (nat res) (fs_store (tm_fs (lp_tm lp)) ino)) (lp_mem lp)\<rparr>"
| "kernel_effect s res lp = lp"

definition on_op :: "env \<Rightarrow> seams \<Rightarrow> cqe \<Rightarrow> focus \<Rightarrow> focus option" where
  "on_op ev sm = (\<lambda>(s, res, data) f. case s of
     Sq_recv i \<Rightarrow> on_recv ev sm res data f
   | Sq_send i src \<Rightarrow> on_send ev sm res f
   | Sq_read i fd off a n \<Rightarrow> on_read ev sm res f
   | Sq_poll i pe \<Rightarrow> Some (on_poll f)
   | Sq_accept \<Rightarrow> Some f)"

definition took_op :: "env \<Rightarrow> int \<Rightarrow> conn \<Rightarrow> conn" where
  "took_op ev res c =
     c\<lparr>cn_inflight := cn_inflight c - 1,
       cn_last_progress := (if res > 0 then ev_clock ev else cn_last_progress c)\<rparr>"

definition dispatch :: "env \<Rightarrow> seams \<Rightarrow> nat \<Rightarrow> cqe \<Rightarrow> loop \<Rightarrow> loop option" where
  "dispatch ev sm new_id = (\<lambda>(s, res, data) lp.
     let lp = kernel_effect s res (lp\<lparr>lp_sq := remove1 s (lp_sq lp)\<rparr>) in
     case sq_conn s of
       None \<Rightarrow> Some (on_accept ev new_id res lp)
     | Some i \<Rightarrow>
         (case map_of (lp_conns lp) i of
            None \<Rightarrow> None
          | Some c \<Rightarrow> map_option (retire ev) (on_op ev sm (s, res, data) (lp, took_op ev res c))))"

section \<open>Parked connections\<close>

partial_function (option) drain_set_waiters :: "env \<Rightarrow> seams \<Rightarrow> loop \<Rightarrow> loop option" where
  "drain_set_waiters ev sm lp =
     (case lp_set_waiters lp of
        [] \<Rightarrow> Some lp
      | i # ws \<Rightarrow>
          (case map_of (lp_conns lp) i of
             None \<Rightarrow> None
           | Some c \<Rightarrow>
               if cn_closing c then drain_set_waiters ev sm (lp\<lparr>lp_set_waiters := ws\<rparr>)
               else
                 (case begin_store (ev_kernel ev) (lp_tm lp) (pp_digest (cn_put c)) (pp_remaining (cn_put c)) of
                    (tm, r) \<Rightarrow>
                      if blocked r then Some (lp\<lparr>lp_tm := tm\<rparr>)
                      else
                        Option.bind
                          (sm_process sm ev
                             (lp\<lparr>lp_tm := tm, lp_set_waiters := ws\<rparr>,
                              c\<lparr>cn_state := St_set_body,
                                cn_put := (case r of Inl e \<Rightarrow> (cn_put c)\<lparr>pp_reject := True\<rparr>
                                                   | Inr h \<Rightarrow> (cn_put c)\<lparr>pp_sh := Some h\<rparr>)\<rparr>))
                          (\<lambda>f. drain_set_waiters ev sm (put_conn f)))))"

partial_function (option) drain_get_waiters :: "env \<Rightarrow> seams \<Rightarrow> loop \<Rightarrow> loop option" where
  "drain_get_waiters ev sm lp =
     (case lp_get_waiters lp of
        [] \<Rightarrow> Some lp
      | i # ws \<Rightarrow>
          (case map_of (lp_conns lp) i of
             None \<Rightarrow> None
           | Some c \<Rightarrow>
               if cn_closing c then drain_get_waiters ev sm (lp\<lparr>lp_get_waiters := ws\<rparr>)
               else
                 (case begin_get ev (sm_frame_hit sm) (sm_frame_miss sm) (cn_get_key c)
                         (lp\<lparr>lp_get_waiters := ws\<rparr>, c) of
                    (f, opened) \<Rightarrow>
                      if \<not> opened then Some (put_conn f)
                      else Option.bind
                        (if cn_state (snd f) = St_get_header then Some (start_send ev f) else sm_process sm ev f)
                        (\<lambda>f. drain_get_waiters ev sm (put_conn f)))))"

section \<open>Stalled connections\<close>

definition holds_buffer :: "conn \<Rightarrow> bool" where
  "holds_buffer c \<longleftrightarrow> gp_n_lanes (cn_get c) > 0 \<or> hp_valid (gp_pin (cn_get c)) \<or> pp_sh (cn_put c) \<noteq> None"

definition abort_conn :: "focus \<Rightarrow> focus" where
  "abort_conn = (\<lambda>(lp, c).
     if cn_closing c then (lp, c)
     else (bump (\<lambda>s. s\<lparr>st_slow_drops := u64 (st_slow_drops s + 1)\<rparr>) lp, close_conn c))"

definition sweep_one :: "env \<Rightarrow> conn \<Rightarrow> loop \<Rightarrow> loop" where
  "sweep_one ev c lp =
     (if \<not> cn_closing c \<and> holds_buffer c \<and> ev_clock ev - cn_last_progress c \<ge> lp_timeout lp
      then put_conn (abort_conn (lp, c)) else lp)"

definition sweep_stalled :: "env \<Rightarrow> loop \<Rightarrow> loop" where
  "sweep_stalled ev lp = fold (sweep_one ev) (map snd (lp_conns lp)) lp"

section \<open>Turns of the loop\<close>

fun dispatch_all :: "env \<Rightarrow> seams \<Rightarrow> (nat \<times> cqe) list \<Rightarrow> loop \<Rightarrow> loop option" where
  "dispatch_all ev sm [] lp = Some lp"
| "dispatch_all ev sm ((i, q) # qs) lp = Option.bind (dispatch ev sm i q lp) (dispatch_all ev sm qs)"

definition sweep_due :: "env \<Rightarrow> loop \<Rightarrow> loop" where
  "sweep_due ev lp =
     (if lp_timeout lp \<noteq> 0 \<and> ev_clock ev - lp_last_sweep lp \<ge> min (lp_timeout lp) 250
      then sweep_stalled ev (lp\<lparr>lp_last_sweep := ev_clock ev\<rparr>) else lp)"

definition run_once :: "env \<Rightarrow> seams \<Rightarrow> (nat \<times> cqe) list \<Rightarrow> loop \<Rightarrow> loop option" where
  "run_once ev sm qs lp =
     Option.bind (dispatch_all ev sm qs lp) (\<lambda>lp.
     Option.bind (if lp_set_waiters lp \<noteq> [] then drain_set_waiters ev sm lp else Some lp) (\<lambda>lp.
     Option.bind (if lp_get_waiters lp \<noteq> [] then drain_get_waiters ev sm lp else Some lp) (\<lambda>lp.
     Some (sweep_due ev lp))))"

text \<open>
  Running: a tick is what the outside world does during one turn. The list of ticks ends where
  the observation ends. At the end of the run the table is cleared, which destroys the writers.
\<close>

record tick =
  tk_env :: env
  tk_cqes :: "(nat \<times> cqe) list"
  tk_stop :: bool
  tk_shutdown :: bool

definition half_closed :: "loop \<Rightarrow> nat list" where
  "half_closed lp =
     map fst (filter (\<lambda>(i, c). \<not> cn_closing c \<and> cn_state c = St_idle \<and> cn_out c = []) (lp_conns lp))"

fun drain_loop :: "seams \<Rightarrow> nat \<Rightarrow> tick list \<Rightarrow> loop \<Rightarrow> loop option" where
  "drain_loop sm deadline [] lp = Some lp"
| "drain_loop sm deadline (t # ts) lp =
     (if lp_conns lp \<noteq> [] \<and> ev_clock (tk_env t) < deadline
      then Option.bind (run_once (tk_env t) sm (tk_cqes t) lp) (drain_loop sm deadline ts)
      else Some lp)"

definition close_all :: "env \<Rightarrow> loop \<Rightarrow> loop" where
  "close_all ev lp = (fold (\<lambda>c lp. fst (reset_sh ev (lp, c))) (map snd (lp_conns lp)) lp)\<lparr>lp_conns := []\<rparr>"

fun run_loop :: "seams \<Rightarrow> nat \<Rightarrow> tick list \<Rightarrow> loop \<Rightarrow> loop option" where
  "run_loop sm grace [] lp = Some lp"
| "run_loop sm grace (t # ts) lp =
     (if tk_stop t then Some (close_all (tk_env t) lp)
      else if tk_shutdown t
      then map_option (close_all (tk_env t))
             (drain_loop sm (ev_clock (tk_env t) + grace) (t # ts) (lp\<lparr>lp_draining := True\<rparr>))
      else Option.bind (run_once (tk_env t) sm (tk_cqes t) lp) (run_loop sm grace ts))"

definition run :: "seams \<Rightarrow> nat \<Rightarrow> env \<Rightarrow> tick list \<Rightarrow> loop \<Rightarrow> loop option" where
  "run sm grace ev ts lp = run_loop sm grace ts (arm_accept ev lp)"

end
