(* ===== verification/Loop_Inv.thy ===== *)
theory Loop_Inv
  imports Stream_Table
begin

text \<open>
  What holds of a loop between its turns. A connection owns a writer, a head pin and up to two
  read buffers; the loop's connections together with the other users of the storage engine own
  exactly what the engine and the buffer pool have given out. A connection counts its operations
  on the ring exactly. What a protocol must keep for that is the locale \<open>protocol_seams\<close>; the
  lemmas about the loop are proved once, inside it.
\<close>

section \<open>What a connection owns\<close>

definition conn_handles :: "conn \<Rightarrow> store_handle list" where
  "conn_handles c = (case pp_sh (cn_put c) of None \<Rightarrow> [] | Some h \<Rightarrow> [h])"

definition conn_pins :: "conn \<Rightarrow> head_pin list" where
  "conn_pins c = (if hp_valid (gp_pin (cn_get c)) then [gp_pin (cn_get c)] else [])"

definition lane_bufs :: "lane \<Rightarrow> (nat \<times> nat) list" where
  "lane_bufs l = (if ln_have l then [ln_buf l] else [])"

definition conn_bufs :: "conn \<Rightarrow> (nat \<times> nat) list" where
  "conn_bufs c = lane_bufs (lane_at (cn_get c) 0) @ lane_bufs (lane_at (cn_get c) 1)"

definition lanes_ok :: "get_part \<Rightarrow> bool" where
  "lanes_ok g \<longleftrightarrow>
     gp_n_lanes g = (if ln_have (lane_at g 0) then 1 else 0) + (if ln_have (lane_at g 1) then 1 else 0) \<and>
     (ln_have (lane_at g 1) \<longrightarrow> ln_have (lane_at g 0))"

definition own :: "nat \<Rightarrow> sqe list \<Rightarrow> sqe list" where
  "own i sq = filter (\<lambda>s. sq_conn s = Some i) sq"

fun is_send :: "sqe \<Rightarrow> bool" where
  "is_send (Sq_send i src) = True" | "is_send _ = False"

fun is_recv :: "sqe \<Rightarrow> bool" where
  "is_recv (Sq_recv i) = True" | "is_recv _ = False"

fun is_read :: "sqe \<Rightarrow> bool" where
  "is_read (Sq_read i fd off a n) = True" | "is_read _ = False"

fun is_poll :: "sqe \<Rightarrow> bool" where
  "is_poll (Sq_poll i pe) = True" | "is_poll _ = False"

text \<open>The operations a connection may have in flight, by its state.\<close>

definition fits :: "conn \<Rightarrow> sqe list \<Rightarrow> bool" where
  "fits c os \<longleftrightarrow>
     (\<forall>s \<in> set os. \<not> is_poll s) \<and>
     (if cn_state c = St_get_stream
      then (\<forall>s \<in> set os. \<not> is_recv s) \<and>
           length (filter is_send os) = (if gp_send_lane (cn_get c) = None then 0 else 1)
      else (\<forall>s \<in> set os. \<not> is_read s \<and>
              (is_recv s \<longrightarrow> cn_state c = St_idle \<or> cn_state c = St_set_body)))"

text \<open>
  A context: what the others own, the rest of the ring, the table, the two queues without the
  connection in focus, and whether the protocol stores (HTTP does not).
\<close>

record ctx =
  cx_hs :: "store_handle list"
  cx_ps :: "head_pin list"
  cx_bs :: "(nat \<times> nat) list"
  cx_sq :: "sqe list"
  cx_conns :: "(nat \<times> conn) list"
  cx_id :: nat
  cx_sw :: "nat list"
  cx_gw :: "nat list"
  cx_puts :: bool

text \<open>The connection in focus owns what it should, and is in no queue (\<open>held\<close>) or where its state says (\<open>rested\<close>).\<close>

definition core :: "ctx \<Rightarrow> focus \<Rightarrow> bool" where
  "core X = (\<lambda>(lp, c).
     world_ok (lp_tm lp, conn_handles c @ cx_hs X, conn_pins c @ cx_ps X) \<and> length (cx_ps X) + 1 < 2 ^ 32 \<and>
     lent (lp_iobufs lp) (set (conn_bufs c @ cx_bs X)) \<and> distinct (conn_bufs c @ cx_bs X) \<and>
     lanes_ok (cn_get c) \<and> cn_inflight c = length (own (cn_id c) (lp_sq lp)) \<and> cn_id c = cx_id X \<and>
     filter (\<lambda>s. sq_conn s \<noteq> Some (cx_id X)) (lp_sq lp) = cx_sq X \<and> lp_conns lp = cx_conns X)"

definition held :: "ctx \<Rightarrow> focus \<Rightarrow> bool" where
  "held X = (\<lambda>(lp, c). core X (lp, c) \<and> lp_set_waiters lp = cx_sw X \<and> lp_get_waiters lp = cx_gw X)"

definition calm :: "get_part \<Rightarrow> bool" where
  "calm g \<longleftrightarrow> \<not> hp_valid (gp_pin g) \<and> \<not> ln_have (lane_at g 0) \<and> \<not> ln_have (lane_at g 1)"

definition quiet :: "get_part \<Rightarrow> bool" where
  "quiet g \<longleftrightarrow> gp_read_lane g = None \<and> gp_send_lane g = None \<and>
     \<not> ln_ready (lane_at g 0) \<and> \<not> ln_ready (lane_at g 1) \<and> gp_fill_i g = 0 \<and> gp_send_i g = 0"

text \<open>
  The pieces of a streamed value: a lane is busy from the planning of its piece until the piece
  is sent. The bytes sent and those in busy lanes are those planned; the oldest piece is in the
  lane that sends next, a new one goes into the lane after the youngest.
\<close>

definition busy :: "get_part \<Rightarrow> nat \<Rightarrow> bool" where
  "busy g i \<longleftrightarrow> ln_ready (lane_at g i) \<or> gp_read_lane g = Some i"

definition pending :: "get_part \<Rightarrow> nat" where
  "pending g = (if busy g 0 then ln_len (lane_at g 0) else 0) + (if busy g 1 then ln_len (lane_at g 1) else 0)"

definition flow_ok :: "nat \<Rightarrow> nat \<Rightarrow> nat \<Rightarrow> nat \<Rightarrow> nat \<Rightarrow> nat \<Rightarrow> nat option \<Rightarrow> bool \<Rightarrow> bool \<Rightarrow> nat \<Rightarrow> bool" where
  "flow_ok n sz pl sp fi si sl b0 b1 pend \<longleftrightarrow>
     (n = 0 \<longrightarrow> pl = sz) \<and> (0 < n \<longrightarrow> fi < n \<and> si < n) \<and> sp + pend = pl \<and> pl \<le> sz \<and>
     (sl = None \<or> sl = Some si) \<and> (b0 \<or> b1 \<longrightarrow> (if si = 0 then b0 else b1)) \<and>
     (n = 1 \<longrightarrow> \<not> b1) \<and> (n = 2 \<longrightarrow> (fi = si) = (b0 = b1))"

definition flows :: "get_part \<Rightarrow> bool" where
  "flows g \<longleftrightarrow> flow_ok (gp_n_lanes g) (gp_size g) (gp_plan_pos g) (gp_send_pos g) (gp_fill_i g) (gp_send_i g)
     (gp_send_lane g) (busy g 0) (busy g 1) (pending g)"

text \<open>A piece planned, a piece sent.\<close>

lemma flow_plan:
  assumes "flow_ok n sz pl sp fi si sl b0 b1 ((if b0 then l0 else 0) + (if b1 then l1 else 0))"
    and "n = 1 \<or> n = 2" and "\<not> (if fi = 0 then b0 else b1)" and "pl + W \<le> sz"
  shows "flow_ok n sz (pl + W) sp ((fi + 1) mod n) si sl (b0 \<or> fi = 0) (b1 \<or> fi \<noteq> 0)
    ((if b0 \<or> fi = 0 then if fi = 0 then W else l0 else 0) + (if b1 \<or> fi \<noteq> 0 then if fi = 0 then l1 else W else 0))"
proof -
  have "fi < n" "si < n" using assms(1,2) by (auto simp: flow_ok_def)
  then have "fi = 0 \<or> fi = 1 \<and> n = 2" "si = 0 \<or> si = 1 \<and> n = 2" using assms(2) by auto
  with assms show ?thesis unfolding flow_ok_def by (elim disjE conjE) (simp_all split: if_splits)
qed

lemma flow_sent:
  assumes "flow_ok n sz pl sp fi si (Some si) b0 b1 ((if b0 then l0 else 0) + (if b1 then l1 else 0))"
    and "n = 1 \<or> n = 2" and "if si = 0 then b0 else b1"
  shows "flow_ok n sz pl (sp + (if si = 0 then l0 else l1)) fi ((si + 1) mod n) None (b0 \<and> si \<noteq> 0) (b1 \<and> si = 0)
    ((if b0 \<and> si \<noteq> 0 then l0 else 0) + (if b1 \<and> si = 0 then l1 else 0))"
proof -
  have "fi < n" "si < n" using assms(1,2) by (auto simp: flow_ok_def)
  then have "fi = 0 \<or> fi = 1 \<and> n = 2" "si = 0 \<or> si = 1 \<and> n = 2" using assms(2) by auto
  with assms show ?thesis unfolding flow_ok_def by (elim disjE conjE) (simp_all split: if_splits)
qed

lemma flow_sending: "flow_ok n sz pl sp fi si sl b0 b1 l \<Longrightarrow> sl' = sl \<or> sl' = Some si \<Longrightarrow> flow_ok n sz pl sp fi si sl' b0 b1 l"
  by (auto simp: flow_ok_def)

lemma flows_cong:
  assumes "flows g" and b: "\<And>i. i < 2 \<Longrightarrow> busy g' i = busy g i" and l: "\<And>i. i < 2 \<Longrightarrow> ln_len (lane_at g' i) = ln_len (lane_at g i)"
    and "gp_n_lanes g' = gp_n_lanes g" "gp_size g' = gp_size g" "gp_plan_pos g' = gp_plan_pos g" "gp_send_pos g' = gp_send_pos g"
      "gp_fill_i g' = gp_fill_i g" "gp_send_i g' = gp_send_i g"
    and "gp_send_lane g' = gp_send_lane g \<or> gp_send_lane g' = Some (gp_send_i g)"
  shows "flows g'"
proof -
  have b: "busy g' 0 = busy g 0" "busy g' 1 = busy g 1" using b by simp_all
  have "pending g' = pending g" unfolding pending_def b using l by simp
  with flow_sending [OF assms(1) [unfolded flows_def] assms(10)] show ?thesis unfolding flows_def b assms(4-9) by simp
qed

lemma flows_planned:
  assumes "flows g" and "gp_n_lanes g = 1 \<or> gp_n_lanes g = 2" and "\<not> busy g (gp_fill_i g)" and "gp_plan_pos g + W \<le> gp_size g"
    and b: "\<And>i. i < 2 \<Longrightarrow> busy g' i \<longleftrightarrow> busy g i \<or> i = gp_fill_i g"
    and l: "\<And>i. i < 2 \<Longrightarrow> ln_len (lane_at g' i) = (if i = gp_fill_i g then W else ln_len (lane_at g i))"
    and "gp_n_lanes g' = gp_n_lanes g" "gp_size g' = gp_size g" "gp_plan_pos g' = gp_plan_pos g + W" "gp_send_pos g' = gp_send_pos g"
      "gp_fill_i g' = (gp_fill_i g + 1) mod gp_n_lanes g" "gp_send_i g' = gp_send_i g" "gp_send_lane g' = gp_send_lane g"
  shows "flows g'"
proof -
  have fi: "gp_fill_i g = 0 \<or> gp_fill_i g = 1" using assms(1,2) by (auto simp: flows_def flow_ok_def)
  have nb: "\<not> (if gp_fill_i g = 0 then busy g 0 else busy g 1)" using assms(3) fi by auto
  from flow_plan [OF assms(1) [unfolded flows_def pending_def] assms(2) nb assms(4)]
  have "flow_ok (gp_n_lanes g') (gp_size g') (gp_plan_pos g') (gp_send_pos g') (gp_fill_i g') (gp_send_i g') (gp_send_lane g')
    (busy g 0 \<or> gp_fill_i g = 0) (busy g 1 \<or> gp_fill_i g \<noteq> 0)
    ((if busy g 0 \<or> gp_fill_i g = 0 then if gp_fill_i g = 0 then W else ln_len (lane_at g 0) else 0) +
     (if busy g 1 \<or> gp_fill_i g \<noteq> 0 then if gp_fill_i g = 0 then ln_len (lane_at g 1) else W else 0))"
    unfolding assms(7-13) .
  moreover have "busy g' 0 \<longleftrightarrow> busy g 0 \<or> gp_fill_i g = 0" "busy g' 1 \<longleftrightarrow> busy g 1 \<or> gp_fill_i g \<noteq> 0"
    using b [of 0] b [of 1] fi by auto
  moreover have "ln_len (lane_at g' 0) = (if gp_fill_i g = 0 then W else ln_len (lane_at g 0))"
    "ln_len (lane_at g' 1) = (if gp_fill_i g = 0 then ln_len (lane_at g 1) else W)"
    using l [of 0] l [of 1] fi by auto
  ultimately show ?thesis by (simp only: flows_def pending_def)
qed

lemma flows_set_lane:
  assumes "flows g" and "ln_ready l = ln_ready (lane_at g i)" and "ln_len l = ln_len (lane_at g i)"
  shows "flows (set_lane i l g)"
proof (rule flows_cong [OF assms(1)])
  show "busy (set_lane i l g) j = busy g j" for j using set_lane_same [OF assms(2), of j] by (simp add: busy_def del: lane_at_set)
  show "ln_len (lane_at (set_lane i l g) j) = ln_len (lane_at g j)" for j using set_lane_same [OF assms(3), of j] .
qed simp_all

text \<open>A piece is sent; a piece has been read.\<close>

lemma flows_sent:
  assumes f: "flows g" and n: "gp_n_lanes g = 1 \<or> gp_n_lanes g = 2" and sl: "gp_send_lane g = Some i"
    and r: "ln_ready (lane_at g i)" and rl: "\<And>j. gp_read_lane g = Some j \<Longrightarrow> j < 2 \<and> (i = 0) \<noteq> (j = 0)"
  shows "flows (sent_lane i g)"
proof -
  let ?g = "sent_lane i g"
  have si: "gp_send_i g = i" using f sl by (simp add: flows_def flow_ok_def)
  have i: "i = 0 \<or> i = 1" using f n si by (auto simp: flows_def flow_ok_def)
  have b: "if i = 0 then busy g 0 else busy g 1" using r i by (auto simp: busy_def)
  have "flow_ok (gp_n_lanes g) (gp_size g) (gp_plan_pos g) (gp_send_pos g) (gp_fill_i g) i (Some i) (busy g 0) (busy g 1)
      ((if busy g 0 then ln_len (lane_at g 0) else 0) + (if busy g 1 then ln_len (lane_at g 1) else 0))"
    using f [unfolded flows_def pending_def] unfolding sl si .
  note k = flow_sent [OF this n b]
  have bs: "busy ?g 0 \<longleftrightarrow> busy g 0 \<and> i \<noteq> 0" "busy ?g 1 \<longleftrightarrow> busy g 1 \<and> i = 0"
    using i rl [of 0] rl [of 1] by (auto simp: busy_def sent_lane_def Let_def clear_lane_def)
  have ls: "busy ?g 0 \<Longrightarrow> ln_len (lane_at ?g 0) = ln_len (lane_at g 0)" "busy ?g 1 \<Longrightarrow> ln_len (lane_at ?g 1) = ln_len (lane_at g 1)"
    using bs i by (auto simp: sent_lane_def Let_def)
  have li: "(if i = 0 then ln_len (lane_at g 0) else ln_len (lane_at g 1)) = ln_len (lane_at g i)" using i by auto
  have pe: "pending ?g = (if busy g 0 \<and> i \<noteq> 0 then ln_len (lane_at g 0) else 0) + (if busy g 1 \<and> i = 0 then ln_len (lane_at g 1) else 0)"
    using ls unfolding pending_def bs by simp
  have sel: "gp_n_lanes ?g = gp_n_lanes g" "gp_size ?g = gp_size g" "gp_plan_pos ?g = gp_plan_pos g"
    "gp_send_pos ?g = gp_send_pos g + ln_len (lane_at g i)" "gp_fill_i ?g = gp_fill_i g"
    "gp_send_i ?g = (i + 1) mod gp_n_lanes g" "gp_send_lane ?g = None"
    by (simp_all add: sent_lane_def Let_def si)
  show ?thesis unfolding flows_def sel bs pe using k unfolding li .
qed

lemma flows_read:
  assumes f: "flows g" and r: "gp_read_lane g = Some i" "i < 2" and l: "ln_len l = ln_len (lane_at g i)"
  shows "flows (set_lane i (l\<lparr>ln_ready := True\<rparr>) ((set_lane i l g)\<lparr>gp_read_lane := None\<rparr>))"
proof (rule flows_cong [OF f])
  fix j :: nat
  assume "j < 2"
  then have j: "j = 0 \<or> j = 1" by auto
  let ?g = "set_lane i (l\<lparr>ln_ready := True\<rparr>) ((set_lane i l g)\<lparr>gp_read_lane := None\<rparr>)"
  have i: "i = 0 \<or> i = 1" using r(2) by auto
  show "ln_len (lane_at ?g j) = ln_len (lane_at g j)" using l lane_at_cong [of i j g] by auto
  show "busy ?g j = busy g j" using i j r(1) by (auto simp: busy_def)
qed simp_all

text \<open>Before the stream: a lane, or a head that has all of the range.\<close>

definition reaches :: "get_part \<Rightarrow> bool" where
  "reaches g \<longleftrightarrow> gp_pos g \<le> gp_size g \<and>
     (0 < gp_n_lanes g \<or> gp_size g \<le> (if hp_valid (gp_pin g) then hp_len (gp_pin g) else 0))"

lemma reaches_upd [simp]: "reaches (g\<lparr>gp_head_sent := n\<rparr>) = reaches g"
  by (simp add: reaches_def)

definition stream_ok :: "get_part \<Rightarrow> bool" where
  "stream_ok g \<longleftrightarrow> flows g \<and>
     (case gp_read_lane g of None \<Rightarrow> True
      | Some i \<Rightarrow> i < 2 \<and> \<not> ln_ready (lane_at g i) \<and> 0 < ln_reads (lane_at g i)) \<and>
     (case gp_send_lane g of None \<Rightarrow> True | Some i \<Rightarrow> i < 2 \<and> ln_ready (lane_at g i)) \<and>
     gp_fill_i g < 2 \<and> gp_send_i g < 2 \<and>
     (ln_ready (lane_at g 0) \<or> ln_ready (lane_at g 1) \<or> gp_read_lane g \<noteq> None \<longrightarrow> 0 < gp_n_lanes g)"

definition stream_ops :: "get_part \<Rightarrow> nat" where
  "stream_ops g = (if gp_send_lane g = None then 0 else 1) +
     (case gp_read_lane g of None \<Rightarrow> 0 | Some i \<Rightarrow> ln_reads (lane_at g i))"

definition parked :: "conn_st \<Rightarrow> bool" where
  "parked s \<longleftrightarrow> s = St_set_wait \<or> s = St_get_wait"

definition want_ops :: "conn \<Rightarrow> nat" where
  "want_ops c = (if parked (cn_state c) then 0
     else if cn_state c = St_get_stream then stream_ops (cn_get c) else 1)"

definition shape :: "conn \<Rightarrow> bool" where
  "shape c \<longleftrightarrow>
     (parked (cn_state c) \<longrightarrow> \<not> cn_closing c) \<and>
     (\<not> cn_closing c \<longrightarrow>
        cn_inflight c = want_ops c \<and>
        (cn_state c \<noteq> St_set_body \<longrightarrow> pp_sh (cn_put c) = None) \<and>
        (cn_state c \<noteq> St_get_stream \<and> cn_state c \<noteq> St_get_trailer \<longrightarrow> quiet (cn_get c)) \<and>
        (cn_state c = St_idle \<or> cn_state c = St_set_body \<or> parked (cn_state c) \<longrightarrow> calm (cn_get c)) \<and>
        (cn_state c = St_get_header \<or> cn_state c = St_get_send_head \<longrightarrow> reaches (cn_get c)) \<and>
        (cn_state c = St_get_stream \<longrightarrow>
           stream_ok (cn_get c) \<and> 0 < stream_ops (cn_get c) \<and> \<not> hp_valid (gp_pin (cn_get c))))"

text \<open>Only a protocol that stores takes bodies and waits for a writer.\<close>

definition stores_only :: "bool \<Rightarrow> conn \<Rightarrow> bool" where
  "stores_only puts c \<longleftrightarrow> (cn_state c = St_set_body \<or> cn_state c = St_set_wait \<longrightarrow> puts)"

lemma stores_only_upd [simp]:
  "stores_only puts (c\<lparr>cn_in := i\<rparr>) = stores_only puts c"
  "stores_only puts (c\<lparr>cn_out := out\<rparr>) = stores_only puts c"
  "stores_only puts (c\<lparr>cn_out_sent := n\<rparr>) = stores_only puts c"
  "stores_only puts (c\<lparr>cn_meta := m\<rparr>) = stores_only puts c"
  "stores_only puts (c\<lparr>cn_quit_after := b\<rparr>) = stores_only puts c"
  "stores_only puts (c\<lparr>cn_inm := s\<rparr>) = stores_only puts c"
  "stores_only puts (c\<lparr>cn_req_range := r\<rparr>) = stores_only puts c"
  "stores_only puts (c\<lparr>cn_get := g\<rparr>) = stores_only puts c"
  "stores_only puts (c\<lparr>cn_put := p\<rparr>) = stores_only puts c"
  "stores_only puts (c\<lparr>cn_inflight := n\<rparr>) = stores_only puts c"
  "stores_only puts (c\<lparr>cn_last_progress := n\<rparr>) = stores_only puts c"
  "stores_only puts (c\<lparr>cn_closing := b\<rparr>) = stores_only puts c"
  by (simp_all add: stores_only_def)

definition rested :: "ctx \<Rightarrow> focus \<Rightarrow> bool" where
  "rested X = (\<lambda>(lp, c). core X (lp, c) \<and> shape c \<and>
     (\<not> cn_closing c \<longrightarrow> fits c (own (cn_id c) (lp_sq lp)) \<and> stores_only (cx_puts X) c) \<and>
     lp_set_waiters lp = cx_sw X @ (if cn_state c = St_set_wait then [cn_id c] else []) \<and>
     lp_get_waiters lp = cx_gw X @ (if cn_state c = St_get_wait then [cn_id c] else []))"

lemma rested_held:
  "held X (lp, c) \<Longrightarrow> shape c \<Longrightarrow> \<not> parked (cn_state c) \<Longrightarrow>
     (\<not> cn_closing c \<longrightarrow> fits c (own (cn_id c) (lp_sq lp)) \<and> stores_only (cx_puts X) c) \<Longrightarrow> rested X (lp, c)"
  by (simp add: rested_def held_def parked_def)

lemma shape_closing: "cn_closing c \<Longrightarrow> \<not> parked (cn_state c) \<Longrightarrow> shape c"
  by (simp add: shape_def)

text \<open>Changes the resources do not see.\<close>

declare world_ok.simps [simp del]

lemma own_upd [simp]:
  "conn_handles (c\<lparr>cn_inflight := n\<rparr>) = conn_handles c" "conn_pins (c\<lparr>cn_inflight := n\<rparr>) = conn_pins c"
  "conn_bufs (c\<lparr>cn_inflight := n\<rparr>) = conn_bufs c" "conn_pins (c\<lparr>cn_put := p\<rparr>) = conn_pins c"
  "conn_bufs (c\<lparr>cn_put := p\<rparr>) = conn_bufs c" "conn_handles (c\<lparr>cn_get := g\<rparr>) = conn_handles c"
  "conn_handles (c\<lparr>cn_state := s\<rparr>) = conn_handles c" "conn_pins (c\<lparr>cn_state := s\<rparr>) = conn_pins c"
  "conn_bufs (c\<lparr>cn_state := s\<rparr>) = conn_bufs c" "conn_handles (c\<lparr>cn_get_key := key\<rparr>) = conn_handles c"
  "conn_pins (c\<lparr>cn_get_key := key\<rparr>) = conn_pins c" "conn_bufs (c\<lparr>cn_get_key := key\<rparr>) = conn_bufs c"
  by (simp_all add: conn_handles_def conn_pins_def conn_bufs_def)

lemma held_loop_upd [simp]:
  "held X (bump f lp, c) = held X (lp, c)" "held X (lp\<lparr>lp_mem := m\<rparr>, c) = held X (lp, c)"
  by (simp_all add: held_def core_def bump_def)

lemma held_conn_cong:
  assumes "conn_handles c' = conn_handles c" and "conn_pins c' = conn_pins c" and "conn_bufs c' = conn_bufs c"
    and "lanes_ok (cn_get c') = lanes_ok (cn_get c)" and "cn_inflight c' = cn_inflight c" and "cn_id c' = cn_id c"
  shows "held X (lp, c') = held X (lp, c)"
  using assms by (simp add: held_def core_def)

lemma held_state [simp]:
  "held X (lp, c\<lparr>cn_state := s\<rparr>) = held X (lp, c)" "held X (lp, c\<lparr>cn_in := i\<rparr>) = held X (lp, c)"
  "held X (lp, c\<lparr>cn_out := out\<rparr>) = held X (lp, c)" "held X (lp, c\<lparr>cn_out_sent := n\<rparr>) = held X (lp, c)"
  "held X (lp, c\<lparr>cn_quit_after := b\<rparr>) = held X (lp, c)" "held X (lp, c\<lparr>cn_meta := mp\<rparr>) = held X (lp, c)"
  "held X (lp, c\<lparr>cn_inm := i\<rparr>) = held X (lp, c)" "held X (lp, c\<lparr>cn_req_range := r\<rparr>) = held X (lp, c)"
  "held X (lp, c\<lparr>cn_closing := b\<rparr>) = held X (lp, c)" "held X (lp, c\<lparr>cn_last_progress := n\<rparr>) = held X (lp, c)"
  "held X (lp, close_conn c) = held X (lp, c)"
  by (rule held_conn_cong; simp add: conn_handles_def conn_pins_def conn_bufs_def close_conn_def)+

lemma conn_pins_get: "gp_pin g = gp_pin (cn_get c) \<Longrightarrow> conn_pins (c\<lparr>cn_get := g\<rparr>) = conn_pins c"
  by (simp add: conn_pins_def)

text \<open>A change of the GET part that keeps pin and buffers.\<close>

lemma held_get_cong:
  assumes "gp_pin g = gp_pin (cn_get c)" and "gp_n_lanes g = gp_n_lanes (cn_get c)"
    and "\<And>i. ln_have (lane_at g i) = ln_have (lane_at (cn_get c) i) \<and> ln_buf (lane_at g i) = ln_buf (lane_at (cn_get c) i)"
  shows "held X (lp, c\<lparr>cn_get := g\<rparr>) = held X (lp, c)"
  by (rule held_conn_cong)
    (simp_all add: assms conn_handles_def conn_pins_def conn_bufs_def lane_bufs_def lanes_ok_def)

lemma held_set_lane:
  assumes "gp_pin g = gp_pin (cn_get c)" and "gp_n_lanes g = gp_n_lanes (cn_get c)" and "gp_lanes g = gp_lanes (cn_get c)"
    and "ln_have l = ln_have (lane_at (cn_get c) i)" and "ln_buf l = ln_buf (lane_at (cn_get c) i)"
  shows "held X (lp, c\<lparr>cn_get := set_lane i l g\<rparr>) = held X (lp, c)"
proof (rule held_get_cong)
  fix j
  show "ln_have (lane_at (set_lane i l g) j) = ln_have (lane_at (cn_get c) j) \<and>
      ln_buf (lane_at (set_lane i l g) j) = ln_buf (lane_at (cn_get c) j)"
    using assms by (cases "i = 0"; cases "j = 0") (simp_all add: lane_at_def set_lane_def)
qed (simp_all add: assms)

text \<open>A change of the write part that keeps the writer.\<close>

lemma held_put_cong:
  "pp_sh p = pp_sh (cn_put c) \<Longrightarrow> held X (lp, c\<lparr>cn_put := p\<rparr>) = held X (lp, c)"
  by (rule held_conn_cong) (simp_all add: conn_handles_def conn_pins_def conn_bufs_def)

lemma heldD:
  assumes "held X (lp, c)"
  shows "world_ok (lp_tm lp, conn_handles c @ cx_hs X, conn_pins c @ cx_ps X)" "length (cx_ps X) + 1 < 2 ^ 32"
    "lent (lp_iobufs lp) (set (conn_bufs c @ cx_bs X))" "distinct (conn_bufs c @ cx_bs X)" "lanes_ok (cn_get c)"
    "cn_inflight c = length (own (cn_id c) (lp_sq lp))" "cn_id c = cx_id X"
  using assms by (simp_all add: held_def core_def)

lemma held_tm:
  assumes "held X (lp, c)" and "world_ok (tm', conn_handles c' @ cx_hs X, conn_pins c' @ cx_ps X)"
    and "conn_bufs c' = conn_bufs c" and "lanes_ok (cn_get c')" and "cn_inflight c' = cn_inflight c" and "cn_id c' = cn_id c"
  shows "held X (lp\<lparr>lp_tm := tm'\<rparr>, c')"
  using assms by (simp add: held_def core_def)

section \<open>Posting\<close>

text \<open>The outcome of posting one operation of the connection.\<close>

definition posts :: "ctx \<Rightarrow> focus \<Rightarrow> sqe \<Rightarrow> focus \<Rightarrow> bool" where
  "posts X = (\<lambda>(lp, c) s (lp', c'). held X (lp', c') \<and>
     (c' = c\<lparr>cn_inflight := cn_inflight c + 1\<rparr> \<and> own (cn_id c) (lp_sq lp') = own (cn_id c) (lp_sq lp) @ [s] \<or>
      c' = close_conn c))"

lemma post_held:
  assumes "held X (lp, c)" and "sq_conn s = Some (cn_id c)"
  shows "posts X (lp, c) s (post ev s (lp, c))"
proof (cases "ev_room ev (lp_sq lp) s")
  case True
  let ?lp = "lp\<lparr>lp_sq := lp_sq lp @ [s]\<rparr>" and ?c = "c\<lparr>cn_inflight := cn_inflight c + 1\<rparr>"
  have "held X (?lp, ?c)" using assms by (simp add: held_def core_def own_def)
  with True assms(2) show ?thesis by (simp add: posts_def post_def submit_def own_def)
next
  case False
  with assms show ?thesis by (simp add: posts_def post_def submit_def)
qed

lemma start_held:
  assumes "held X (lp, c)" and "\<not> cn_closing c"
  shows "posts X (lp, c) (Sq_recv (cn_id c)) (start_recv ev (lp, c))"
    "\<exists>src. posts X (lp, c) (Sq_send (cn_id c) src) (start_send ev (lp, c))"
    "\<exists>src. posts X (lp, c) (Sq_send (cn_id c) src) (start_send_head ev (lp, c))"
    "\<exists>src. posts X (lp, c) (Sq_send (cn_id c) src) (start_lane_send ev (lp, c))"
  using assms unfolding start_recv_def start_send_def start_send_head_def start_lane_send_def Let_def
  by (auto intro!: exI post_held)

lemma rested_closed: "held X f \<Longrightarrow> cn_closing (snd f) \<Longrightarrow> \<not> parked (cn_state (snd f)) \<Longrightarrow> rested X f"
  by (cases f) (simp add: rested_held shape_closing)

text \<open>A connection with nothing in flight that posts one operation, or is closed, is at rest.\<close>

lemma rested_posts:
  assumes "posts X (lp, c) s f" and "held X (lp, c)" and "\<not> cn_closing c" and "cn_inflight c = 0"
    and "\<not> parked (cn_state c)" and "cn_state c \<noteq> St_get_stream"
    and "cn_state c \<noteq> St_set_body \<longrightarrow> pp_sh (cn_put c) = None"
    and "cn_state c \<noteq> St_get_trailer \<longrightarrow> quiet (cn_get c)"
    and "cn_state c = St_idle \<or> cn_state c = St_set_body \<longrightarrow> calm (cn_get c)"
    and "is_send s \<or> is_recv s \<and> (cn_state c = St_idle \<or> cn_state c = St_set_body)"
    and "stores_only (cx_puts X) c" and "cn_state c = St_get_header \<or> cn_state c = St_get_send_head \<longrightarrow> reaches (cn_get c)"
  shows "rested X f"
proof -
  obtain lp' c' where f: "f = (lp', c')" by (cases f)
  have h: "held X (lp', c')"
    and c: "c' = c\<lparr>cn_inflight := cn_inflight c + 1\<rparr> \<and> own (cn_id c) (lp_sq lp') = own (cn_id c) (lp_sq lp) @ [s] \<or> c' = close_conn c"
    using assms(1) by (simp_all add: posts_def f)
  from c show ?thesis
  proof
    assume c: "c' = c\<lparr>cn_inflight := cn_inflight c + 1\<rparr> \<and> own (cn_id c) (lp_sq lp') = own (cn_id c) (lp_sq lp) @ [s]"
    have "own (cn_id c) (lp_sq lp) = []" using heldD(6) [OF assms(2)] assms(4) by simp
    with c have o: "own (cn_id c) (lp_sq lp') = [s]" by simp
    have "fits c' [s]" using c assms(6,10) by (cases s) (auto simp: fits_def)
    moreover have "shape c'" using c assms(3-9,12) by (simp add: shape_def want_ops_def)
    moreover have "stores_only (cx_puts X) c'" using c assms(11) by (simp add: stores_only_def)
    ultimately show ?thesis using h c o assms(5) by (simp add: f rested_held)
  next
    assume c: "c' = close_conn c"
    with h assms(5) show ?thesis by (simp add: f rested_closed)
  qed
qed

section \<open>Giving back\<close>

lemma reset_sh_held:
  assumes "held X (lp, c)"
  obtains lp' where "reset_sh ev (lp, c) = (lp', c\<lparr>cn_put := (cn_put c)\<lparr>pp_sh := None\<rparr>\<rparr>)"
    "held X (lp', c\<lparr>cn_put := (cn_put c)\<lparr>pp_sh := None\<rparr>\<rparr>)"
proof (cases "pp_sh (cn_put c)")
  case None
  then have "c\<lparr>cn_put := (cn_put c)\<lparr>pp_sh := None\<rparr>\<rparr> = c" by simp
  with None that assms show ?thesis by (simp add: reset_sh_def)
next
  case (Some h)
  let ?c = "c\<lparr>cn_put := (cn_put c)\<lparr>pp_sh := None\<rparr>\<rparr>"
  obtain tm' h' where a: "abort_uncommitted (ev_kernel ev) (lp_tm lp) h = (tm', h')" by (metis surj_pair)
  have "world_ok (lp_tm lp, [] @ h # cx_hs X, conn_pins c @ cx_ps X)"
    using heldD(1) [OF assms] Some by (simp add: conn_handles_def)
  from abort_world [OF this a] have "held X (lp\<lparr>lp_tm := tm'\<rparr>, ?c)"
    using heldD(5) [OF assms] by (intro held_tm [OF assms]) (simp_all add: conn_handles_def)
  with that Some a show ?thesis by (simp add: reset_sh_def)
qed

lemma unpin_held:
  assumes "held X (lp, c)"
  obtains lp' where
    "unpin_if_held (lp, c) = (lp', c\<lparr>cn_get := (cn_get c)\<lparr>gp_pin := (gp_pin (cn_get c))\<lparr>hp_valid := False\<rparr>\<rparr>\<rparr>)"
    "held X (lp', c\<lparr>cn_get := (cn_get c)\<lparr>gp_pin := (gp_pin (cn_get c))\<lparr>hp_valid := False\<rparr>\<rparr>\<rparr>)"
proof (cases "hp_valid (gp_pin (cn_get c))")
  case False
  then have "c\<lparr>cn_get := (cn_get c)\<lparr>gp_pin := (gp_pin (cn_get c))\<lparr>hp_valid := False\<rparr>\<rparr>\<rparr> = c"
    by (cases c; cases "cn_get c"; cases "gp_pin (cn_get c)") simp
  with False that [of lp] assms show ?thesis by (simp add: unpin_if_held_def)
next
  case True
  let ?c = "c\<lparr>cn_get := (cn_get c)\<lparr>gp_pin := (gp_pin (cn_get c))\<lparr>hp_valid := False\<rparr>\<rparr>\<rparr>"
  have "world_ok (lp_tm lp, conn_handles c @ cx_hs X, [] @ gp_pin (cn_get c) # cx_ps X)"
    using heldD(1) [OF assms] True by (simp add: conn_pins_def)
  from unpin_world [OF this] have "held X (lp\<lparr>lp_tm := unpin_head (lp_tm lp) (gp_pin (cn_get c))\<rparr>, ?c)"
    using heldD(5) [OF assms] by (intro held_tm [OF assms]) (simp_all add: conn_pins_def conn_bufs_def lanes_ok_def)
  with that True show ?thesis by (simp add: unpin_if_held_def)
qed

lemma release_lane_lent:
  assumes "lent io (set (lane_bufs l @ bs))" and "distinct (lane_bufs l @ bs)"
  shows "lent (snd (release_lane l io)) (set bs)" and "lane_bufs (fst (release_lane l io)) = []"
    and "\<not> ln_have (fst (release_lane l io))" and "\<not> ln_ready (fst (release_lane l io))"
  using assms by (auto simp: release_lane_def lane_bufs_def clear_lane_def intro: lent_release)

lemma release_lanes_held:
  assumes "held X (lp, c)"
  obtains lp' g where "release_lanes (lp, c) = (lp', c\<lparr>cn_get := g\<rparr>)" "held X (lp', c\<lparr>cn_get := g\<rparr>)"
    "gp_pin g = gp_pin (cn_get c)" "\<not> ln_have (lane_at g 0)" "\<not> ln_have (lane_at g 1)" "quiet g"
proof -
  let ?g = "cn_get c" and ?io = "lp_iobufs lp"
  obtain l0 io0 where r0: "release_lane (lane_at ?g 0) ?io = (l0, io0)" by (metis surj_pair)
  obtain l1 io1 where r1: "release_lane (lane_at ?g 1) io0 = (l1, io1)" by (metis surj_pair)
  let ?g' = "?g\<lparr>gp_lanes := (l0, l1), gp_n_lanes := 0, gp_read_lane := None, gp_send_lane := None,
    gp_fill_i := 0, gp_send_i := 0\<rparr>"
  have e: "release_lanes (lp, c) = (lp\<lparr>lp_iobufs := io1\<rparr>, c\<lparr>cn_get := ?g'\<rparr>)"
    using r1 by (simp add: release_lanes_def Let_def r0)
  have d: "distinct (lane_bufs (lane_at ?g 0) @ lane_bufs (lane_at ?g 1) @ cx_bs X)"
    "lent ?io (set (lane_bufs (lane_at ?g 0) @ lane_bufs (lane_at ?g 1) @ cx_bs X))"
    using heldD(3,4) [OF assms] by (simp_all add: conn_bufs_def Un_assoc Int_assoc)
  note l0 = release_lane_lent [OF d(2,1), unfolded r0, simplified]
  have "lent io0 (set (lane_bufs (lane_at ?g 1) @ cx_bs X))" using l0(1) by simp
  note l1 = release_lane_lent [OF this, unfolded r1, simplified]
  have "distinct (cx_bs X)" "distinct (lane_bufs (lane_at ?g 1))"
    "set (lane_bufs (lane_at ?g 1)) \<inter> set (cx_bs X) = {}" using d(1) by auto
  then have "lent io1 (set (cx_bs X))" "lane_bufs l1 = []" "\<not> ln_have l1" "\<not> ln_ready l1" using l1 by auto
  moreover have "conn_bufs (c\<lparr>cn_get := ?g'\<rparr>) = []" "lanes_ok ?g'"
    using l0 \<open>lane_bufs l1 = []\<close> \<open>\<not> ln_have l1\<close> by (simp_all add: conn_bufs_def lanes_ok_def lane_at_def)
  ultimately have "held X (lp\<lparr>lp_iobufs := io1\<rparr>, c\<lparr>cn_get := ?g'\<rparr>)"
    using assms \<open>distinct (cx_bs X)\<close> by (simp add: held_def core_def conn_pins_get)
  with that e l0 \<open>\<not> ln_have l1\<close> \<open>\<not> ln_ready l1\<close> show ?thesis by (simp add: quiet_def lane_at_def)
qed

lemma drop_get_held:
  assumes "held X (lp, c)"
  obtains lp' g where "drop_get (lp, c) = (lp', c\<lparr>cn_get := g\<rparr>)" "held X (lp', c\<lparr>cn_get := g\<rparr>)" "calm g" "quiet g"
proof -
  from release_lanes_held [OF assms] obtain lp1 g1 where r: "release_lanes (lp, c) = (lp1, c\<lparr>cn_get := g1\<rparr>)"
    "held X (lp1, c\<lparr>cn_get := g1\<rparr>)" "\<not> ln_have (lane_at g1 0)" "\<not> ln_have (lane_at g1 1)" "quiet g1" by metis
  let ?g2 = "g1\<lparr>gp_pin := (gp_pin g1)\<lparr>hp_valid := False\<rparr>\<rparr>"
  from unpin_held [OF r(2)] obtain lp2 where u: "unpin_if_held (lp1, c\<lparr>cn_get := g1\<rparr>) = (lp2, c\<lparr>cn_get := ?g2\<rparr>)"
    "held X (lp2, c\<lparr>cn_get := ?g2\<rparr>)" by auto
  let ?g = "?g2\<lparr>gp_rs := None\<rparr>"
  have "held X (lp2, (c\<lparr>cn_get := ?g2\<rparr>)\<lparr>cn_get := ?g\<rparr>) = held X (lp2, c\<lparr>cn_get := ?g2\<rparr>)"
    by (rule held_get_cong) simp_all
  with u have "held X (lp2, c\<lparr>cn_get := ?g\<rparr>)" by simp
  with that [of lp2 ?g] u r show ?thesis by (simp add: drop_get_def calm_def quiet_def)
qed

lemma abort_get_held:
  assumes "held X (lp, c)" and "\<not> parked (cn_state c)"
  shows "rested X (abort_get (lp, c))"
proof -
  from drop_get_held [OF assms(1)] obtain lp' g where
    "drop_get (lp, c) = (lp', c\<lparr>cn_get := g\<rparr>)" "held X (lp', c\<lparr>cn_get := g\<rparr>)" by metis
  with assms(2) show ?thesis by (simp add: abort_get_def rested_closed)
qed

section \<open>Beginning a GET\<close>

lemma park_get_rested:
  assumes "held X (lp, c)" and "\<not> cn_closing c" and "cn_inflight c = 0" and "pp_sh (cn_put c) = None"
    and "calm (cn_get c)" and "quiet (cn_get c)"
  shows "rested X (park_get key (lp, c))"
  using assms
  by (clarsimp simp: park_get_def stores_only_def rested_def held_def core_def bump_def shape_def parked_def want_ops_def fits_def)

lemma clear_lane_sel [simp]:
  "ln_have (clear_lane l) = ln_have l" "ln_buf (clear_lane l) = ln_buf l" "\<not> ln_ready (clear_lane l)"
  "ln_reads (clear_lane l) = 0"
  by (simp_all add: clear_lane_def)

text \<open>A snapshot's pin and the read buffers become the connection's.\<close>

lemma take_lanes_lent:
  assumes "lent (lp_iobufs lp) (set (buf # bs))" and "distinct (buf # bs)" and "calm (cn_get c)"
  obtains io g where "take_lanes buf rs (lp, c) = (lp\<lparr>lp_iobufs := io\<rparr>, c\<lparr>cn_get := g\<rparr>)"
    "lent io (set (conn_bufs (c\<lparr>cn_get := g\<rparr>) @ bs))" "distinct (conn_bufs (c\<lparr>cn_get := g\<rparr>) @ bs)"
    "lanes_ok g" "quiet g" "gp_pin g = gp_pin (cn_get c)" "0 < gp_n_lanes g"
proof -
  let ?g = "cn_get c"
  define l0 where "l0 = clear_lane ((lane_at ?g 0)\<lparr>ln_buf := buf, ln_have := True\<rparr>)"
  define mk where "mk l1 n = ?g\<lparr>gp_rs := rs, gp_lanes := (l0, clear_lane l1), gp_n_lanes := n, gp_read_lane := None,
    gp_send_lane := None, gp_fill_i := 0, gp_send_i := 0\<rparr>" for l1 n
  have pin: "gp_pin (mk l1 n) = gp_pin ?g" for l1 n by (simp add: mk_def)
  have nl: "gp_n_lanes (mk l1 n) = n" for l1 n by (simp add: mk_def)
  have q: "quiet (mk l1 n)" for l1 n by (simp add: mk_def quiet_def lane_at_def l0_def)
  show thesis
  proof (cases "if lp_read_ahead lp then iopool_acquire (lp_iobufs lp) else None")
    case None
    let ?g' = "mk (lane_at ?g 1) 1"
    have "take_lanes buf rs (lp, c) = (lp\<lparr>lp_iobufs := lp_iobufs lp\<rparr>, c\<lparr>cn_get := ?g'\<rparr>)"
      using None by (simp add: take_lanes_def Let_def mk_def l0_def)
    moreover have "conn_bufs (c\<lparr>cn_get := ?g'\<rparr>) = [buf]" "lanes_ok ?g'"
      using assms(3) by (simp_all add: conn_bufs_def lane_bufs_def lanes_ok_def mk_def l0_def calm_def lane_at_def)
    ultimately show ?thesis using assms q pin nl by (intro that [of "lp_iobufs lp" ?g']) simp_all
  next
    case (Some x)
    obtain b2 io where x: "x = (b2, io)" by (cases x)
    with Some have a: "iopool_acquire (lp_iobufs lp) = Some (b2, io)" "lp_read_ahead lp" by (auto split: if_splits)
    let ?g' = "mk ((lane_at ?g 1)\<lparr>ln_buf := b2, ln_have := True\<rparr>) 2"
    have "take_lanes buf rs (lp, c) = (lp\<lparr>lp_iobufs := io\<rparr>, c\<lparr>cn_get := ?g'\<rparr>)"
      using a by (simp add: take_lanes_def Let_def mk_def l0_def)
    moreover have "conn_bufs (c\<lparr>cn_get := ?g'\<rparr>) = [buf, b2]" "lanes_ok ?g'"
      by (simp_all add: conn_bufs_def lane_bufs_def lanes_ok_def mk_def l0_def lane_at_def)
    ultimately show ?thesis using lent_acquire [OF assms(1) a(1)] assms(2) q pin nl
      by (intro that [of io ?g']) (auto simp: insert_commute)
  qed
qed

text \<open>What the framing of a hit or a miss may do to a connection.\<close>

definition frames_hit :: "(env \<Rightarrow> conn \<Rightarrow> string \<Rightarrow> object_meta \<Rightarrow> conn) \<Rightarrow> bool" where
  "frames_hit hit \<longleftrightarrow> (\<forall>ev c key m. \<exists>out pos stop. pos \<le> stop \<and> stop \<le> om_size m \<and>
     hit ev c key m = c\<lparr>cn_out := out, cn_get := (cn_get c)\<lparr>gp_pos := pos, gp_size := stop\<rparr>\<rparr>)"

definition frames_miss :: "(conn \<Rightarrow> conn) \<Rightarrow> bool" where
  "frames_miss miss \<longleftrightarrow> (\<forall>c. \<exists>out. miss c = c\<lparr>cn_out := out, cn_state := St_idle\<rparr>)"

lemma quiet_upd [simp]:
  "quiet (g\<lparr>gp_pos := n\<rparr>) = quiet g" "quiet (g\<lparr>gp_size := n\<rparr>) = quiet g" "quiet (g\<lparr>gp_pin := p\<rparr>) = quiet g"
  "quiet (g\<lparr>gp_head_sent := n\<rparr>) = quiet g" "quiet (g\<lparr>gp_with_cas := b\<rparr>) = quiet g" "quiet (g\<lparr>gp_plan_pos := n\<rparr>) = quiet g"
  "quiet (g\<lparr>gp_send_pos := n\<rparr>) = quiet g"
  by (simp_all add: quiet_def)

text \<open>
  The outcome of beginning a GET: a miss (nothing taken, state idle), a place in the queue, or
  an open GET whose header is still to be sent.
\<close>

lemma open_hit_held:
  assumes hit: "frames_hit hit"
    and w: "world_ok (lp_tm lp, conn_handles c @ cx_hs X, (if hp_valid (sn_pin s) then [sn_pin s] else []) @ cx_ps X)"
    and h: "held X (lp\<lparr>lp_tm := tm0\<rparr>, c)" and q: "quiet (cn_get c)"
    and cv: "0 < gp_n_lanes (cn_get c) \<or> om_size (sn_meta s) \<le> (if hp_valid (sn_pin s) then hp_len (sn_pin s) else 0)"
  obtains lp' c' where "open_hit ev hit key s (lp, c) = (lp', c')" "held X (lp', c')" "quiet (cn_get c')"
    "cn_state c' = St_get_header" "cn_closing c' = cn_closing c" "cn_inflight c' = cn_inflight c"
    "cn_put c' = cn_put c" "cn_in c' = cn_in c" "reaches (cn_get c')"
proof -
  let ?c = "c\<lparr>cn_get := (cn_get c)\<lparr>gp_pin := sn_pin s, gp_head_sent := 0\<rparr>\<rparr>"
  obtain out pos stop where ps: "pos \<le> stop" "stop \<le> om_size (sn_meta s)" and f: "hit ev ?c key (sn_meta s) = ?c\<lparr>cn_out := out, cn_get := (cn_get ?c)\<lparr>gp_pos := pos, gp_size := stop\<rparr>\<rparr>"
    using hit by (simp only: frames_hit_def) blast
  let ?c' = "(hit ev ?c key (sn_meta s))\<lparr>cn_state := St_get_header\<rparr>"
  have "conn_bufs ?c' = conn_bufs c" "lanes_ok (cn_get ?c') = lanes_ok (cn_get c)" "cn_inflight ?c' = cn_inflight c"
    "cn_id ?c' = cn_id c" "conn_handles ?c' = conn_handles c"
    "conn_pins ?c' = (if hp_valid (sn_pin s) then [sn_pin s] else [])"
    by (simp_all add: f conn_bufs_def lanes_ok_def conn_pins_def conn_handles_def)
  with w h have "held X (lp, ?c')" by (simp add: held_def core_def)
  moreover have "reaches (cn_get ?c')" using cv ps by (auto simp: f reaches_def)
  ultimately show ?thesis using that q by (simp add: open_hit_def Let_def f)
qed

lemma begin_get_held:
  assumes hit: "frames_hit hit" and miss: "frames_miss miss"
    and h: "held X (lp, c)" and "\<not> cn_closing c" and "cn_inflight c = 0" and "pp_sh (cn_put c) = None"
    and "calm (cn_get c)" and "quiet (cn_get c)" and b: "begin_get ev hit miss key (lp, c) = ((lp', c'), opened)"
  shows "if \<not> opened then rested X (lp', c') \<and> cn_state c' = St_get_wait \<and> cn_in c' = cn_in c
     else held X (lp', c') \<and> \<not> cn_closing c' \<and> cn_inflight c' = 0 \<and> pp_sh (cn_put c') = None \<and> quiet (cn_get c') \<and>
       cn_in c' = cn_in c \<and> (cn_state c' = St_get_header \<and> reaches (cn_get c') \<or> cn_state c' = St_idle \<and> calm (cn_get c'))"
proof -
  obtain tm so where o: "open_snapshot (ev_kernel ev) (ev_now ev) (lp_tm lp) (hash_key key) = (tm, so)" by (metis surj_pair)
  have np: "conn_pins c = []" and nb: "conn_bufs c = []" and nh: "conn_handles c = []"
    using assms(6,7) by (simp_all add: conn_pins_def conn_bufs_def lane_bufs_def calm_def conn_handles_def)
  have w: "world_ok (lp_tm lp, cx_hs X, cx_ps X)" using heldD(1) [OF h] by (simp add: np nh)
  note sw = open_snapshot_world [OF w o]
  show ?thesis
  proof (cases so)
    case None
    then have t: "world_ok (tm, cx_hs X, cx_ps X)" by (intro sw(1)) simp
    obtain out where m: "miss c = c\<lparr>cn_out := out, cn_state := St_idle\<rparr>" using miss by (auto simp: frames_miss_def)
    have "held X (lp\<lparr>lp_tm := tm\<rparr>, c)" using heldD(5) [OF h] by (intro held_tm [OF h]) (simp_all add: np nh t)
    moreover have "c' = c\<lparr>cn_out := out, cn_state := St_idle\<rparr>" "opened"
      "lp' = bump (\<lambda>s. s\<lparr>st_get_misses := u64 (st_get_misses s + 1)\<rparr>) (lp\<lparr>lp_tm := tm\<rparr>)"
      using b None o m by (simp_all add: begin_get_def)
    ultimately show ?thesis using assms(4-8) by simp
  next
    case (Some s)
    let ?P = "if hp_valid (sn_pin s) then [sn_pin s] else []"
    have t: "world_ok (tm, cx_hs X, ?P @ cx_ps X)"
      using sw(1) sw(2) [OF Some] heldD(2) [OF h] Some by simp
    let ?lp = "lp\<lparr>lp_tm := tm\<rparr>"
    have lpeq: "?lp\<lparr>lp_tm := lp_tm lp\<rparr> = lp" by simp
    show ?thesis
    proof (cases "om_size (sn_meta s) > (if hp_valid (sn_pin s) then hp_len (sn_pin s) else 0)")
      case False
      have w': "world_ok (lp_tm ?lp, conn_handles c @ cx_hs X, ?P @ cx_ps X)" using t by (simp add: nh)
      from open_hit_held [OF hit w' _ assms(8), of "lp_tm lp" ev key] h lpeq False
      obtain lp1 c1 where "open_hit ev hit key s (?lp, c) = (lp1, c1)" "held X (lp1, c1)" "quiet (cn_get c1)"
        "cn_state c1 = St_get_header" "cn_closing c1 = cn_closing c" "cn_inflight c1 = cn_inflight c"
        "cn_put c1 = cn_put c" "cn_in c1 = cn_in c" "reaches (cn_get c1)" by auto
      moreover have "lp' = lp1" "c' = c1" "opened" using calculation(1) b Some o False by (simp_all add: begin_get_def)
      ultimately show ?thesis using assms(4-6) by simp
    next
      case tail: True
      show ?thesis
      proof (cases "iopool_acquire (lp_iobufs lp)")
        case None
        let ?tm = "if hp_valid (sn_pin s) then unpin_head tm (sn_pin s) else tm"
        have "world_ok (?tm, cx_hs X, cx_ps X)" using t unpin_world [of tm "cx_hs X" "[]" "sn_pin s" "cx_ps X"] by (simp split: if_splits)
        then have "held X (?lp\<lparr>lp_tm := ?tm\<rparr>, c)" using heldD(5) [OF h] held_tm [OF h, of ?tm c] by (simp add: np nh)
        note r = park_get_rested [OF this assms(4-8), of key]
        have "park_get key (?lp\<lparr>lp_tm := ?tm\<rparr>, c) = (lp', c')" "\<not> opened"
          using b Some o tail None by (simp_all add: begin_get_def)
        moreover from this(1) have "cn_state c' = St_get_wait" "cn_in c' = cn_in c" by (auto simp: park_get_def)
        ultimately show ?thesis using r by simp
      next
        case (Some x)
        obtain buf io where x: "iopool_acquire (lp_iobufs lp) = Some (buf, io)" using Some by (cases x) simp
        have "lent (lp_iobufs lp) (set (cx_bs X))" "distinct (cx_bs X)" using heldD(3,4) [OF h] by (simp_all add: nb)
        note la = lent_acquire [OF this(1) x]
        let ?lp1 = "?lp\<lparr>lp_iobufs := io\<rparr>"
        have "lent (lp_iobufs ?lp1) (set (buf # cx_bs X))" "distinct (buf # cx_bs X)" using la \<open>distinct (cx_bs X)\<close> by simp_all
        from take_lanes_lent [OF this assms(7), of "sn_rs s"] obtain io2 g where
          g: "take_lanes buf (sn_rs s) (?lp1, c) = (?lp1\<lparr>lp_iobufs := io2\<rparr>, c\<lparr>cn_get := g\<rparr>)"
          "lent io2 (set (conn_bufs (c\<lparr>cn_get := g\<rparr>) @ cx_bs X))" "distinct (conn_bufs (c\<lparr>cn_get := g\<rparr>) @ cx_bs X)"
          "lanes_ok g" "quiet g" "gp_pin g = gp_pin (cn_get c)" "0 < gp_n_lanes g" by metis
        let ?lp2 = "?lp1\<lparr>lp_iobufs := io2\<rparr>" and ?c = "c\<lparr>cn_get := g\<rparr>"
        have h2: "held X (?lp2\<lparr>lp_tm := lp_tm lp\<rparr>, ?c)"
          using h g by (simp add: held_def core_def conn_pins_get)
        have w2: "world_ok (lp_tm ?lp2, conn_handles ?c @ cx_hs X, ?P @ cx_ps X)" using t by (simp add: nh)
        have q2: "quiet (cn_get ?c)" using g by simp
        have cv: "0 < gp_n_lanes (cn_get ?c) \<or> om_size (sn_meta s) \<le> (if hp_valid (sn_pin s) then hp_len (sn_pin s) else 0)"
          using g by simp
        from open_hit_held [OF hit w2 h2 q2 cv, of ev key]
        obtain lp3 c3 where "open_hit ev hit key s (?lp2, ?c) = (lp3, c3)" "held X (lp3, c3)" "quiet (cn_get c3)"
          "cn_state c3 = St_get_header" "cn_closing c3 = cn_closing c" "cn_inflight c3 = cn_inflight c"
          "cn_put c3 = cn_put c" "cn_in c3 = cn_in c" "reaches (cn_get c3)" by auto
        moreover have "lp' = lp3" "c' = c3" "opened"
          using calculation(1) b \<open>so = Some s\<close> o tail x g(1) by (simp_all add: begin_get_def)
        ultimately show ?thesis using assms(4-6) by simp
      qed
    qed
  qed
qed

section \<open>Streaming\<close>

text \<open>A connection in the middle of a stream, as a handler sees it: everything it has in flight is its own.\<close>

definition streaming :: "ctx \<Rightarrow> focus \<Rightarrow> bool" where
  "streaming X = (\<lambda>(lp, c). held X (lp, c) \<and> \<not> cn_closing c \<and> cn_state c = St_get_stream \<and>
     pp_sh (cn_put c) = None \<and> \<not> hp_valid (gp_pin (cn_get c)) \<and> stream_ok (cn_get c) \<and>
     cn_inflight c = stream_ops (cn_get c) \<and> fits c (own (cn_id c) (lp_sq lp)))"

lemma streaming_rested: "streaming X f \<Longrightarrow> 0 < cn_inflight (snd f) \<Longrightarrow> rested X f"
  by (cases f) (simp add: streaming_def rested_held shape_def parked_def want_ops_def stores_only_def)

lemma pump_send_streaming:
  assumes "streaming X (lp, c)" and "pump_send ev (lp, c) = ((lp', c'), sent)"
  shows "(sent \<and> cn_closing c' \<and> held X (lp', c') \<and> cn_state c' = St_get_stream) \<or> streaming X (lp', c')"
proof (cases sent)
  case False
  with assms show ?thesis by (auto simp: pump_send_def Let_def split: if_splits)
next
  case True
  let ?g = "cn_get c"
  let ?g' = "set_lane (gp_send_i ?g) ((lane_at ?g (gp_send_i ?g))\<lparr>ln_sent := 0\<rparr>) (?g\<lparr>gp_send_lane := Some (gp_send_i ?g)\<rparr>)"
  let ?c = "c\<lparr>cn_get := ?g'\<rparr>"
  have s: "gp_send_lane ?g = None" "ln_ready (lane_at ?g (gp_send_i ?g))" "start_lane_send ev (lp, ?c) = (lp', c')"
    using assms(2) True by (auto simp: pump_send_def Let_def split: if_splits)
  have h: "held X (lp, ?c)"
    using assms(1) by (subst held_set_lane) (simp_all add: streaming_def)
  have lr: "ln_ready (lane_at ?g' i) = ln_ready (lane_at ?g i)" "ln_reads (lane_at ?g' i) = ln_reads (lane_at ?g i)" for i
    using set_lane_same [of ln_ready "(lane_at ?g (gp_send_i ?g))\<lparr>ln_sent := 0\<rparr>" "?g\<lparr>gp_send_lane := Some (gp_send_i ?g)\<rparr>"]
      set_lane_same [of ln_reads "(lane_at ?g (gp_send_i ?g))\<lparr>ln_sent := 0\<rparr>" "?g\<lparr>gp_send_lane := Some (gp_send_i ?g)\<rparr>"]
    by (simp_all del: lane_at_set)
  have so: "stream_ok ?g" using assms(1) by (simp add: streaming_def)
  have fl: "flows ?g'"
  proof (rule flows_cong)
    show "flows ?g" using so by (simp add: stream_ok_def)
    show "busy ?g' i = busy ?g i" for i by (simp add: busy_def lr del: lane_at_set)
    show "ln_len (lane_at ?g' i) = ln_len (lane_at ?g i)" for i
      using set_lane_same [of ln_len "(lane_at ?g (gp_send_i ?g))\<lparr>ln_sent := 0\<rparr>" "?g\<lparr>gp_send_lane := Some (gp_send_i ?g)\<rparr>"]
      by (simp del: lane_at_set)
  qed simp_all
  have ok: "stream_ok ?g'" "stream_ops ?g' = stream_ops ?g + 1"
    using so s(1,2) fl by (simp_all add: stream_ok_def stream_ops_def lr del: lane_at_set split: option.split_asm)
  obtain src where "posts X (lp, ?c) (Sq_send (cn_id c) src) (lp', c')"
    using start_held(4) [OF h, of ev] assms(1) s(3) by (auto simp: streaming_def)
  then have p: "held X (lp', c')" "c' = ?c\<lparr>cn_inflight := cn_inflight c + 1\<rparr> \<and>
      own (cn_id c) (lp_sq lp') = own (cn_id c) (lp_sq lp) @ [Sq_send (cn_id c) src] \<or> c' = close_conn ?c"
    by (simp_all add: posts_def)
  have ft: "fits c (own (cn_id c) (lp_sq lp))" "cn_state c = St_get_stream" using assms(1) by (simp_all add: streaming_def)
  from p(2) show ?thesis
  proof
    assume c': "c' = ?c\<lparr>cn_inflight := cn_inflight c + 1\<rparr> \<and>
      own (cn_id c) (lp_sq lp') = own (cn_id c) (lp_sq lp) @ [Sq_send (cn_id c) src]"
    then have "fits c' (own (cn_id c) (lp_sq lp'))" using ft s(1) by (auto simp: fits_def)
    with c' p(1) ok assms(1) show ?thesis by (simp add: streaming_def)
  next
    assume "c' = close_conn ?c"
    with p(1) True ft show ?thesis by simp
  qed
qed

lemma submit_reads_held:
  assumes "submit_reads ev i segs (lp, c) = ((lp', c'), b)" and "held X (lp, c)"
  shows "held X (lp', c') \<and> cn_closing c' = cn_closing c \<and> cn_state c' = cn_state c \<and> cn_put c' = cn_put c \<and>
    cn_in c' = cn_in c \<and> cn_id c' = cn_id c \<and>
    (\<exists>rs. own (cn_id c) (lp_sq lp') = own (cn_id c) (lp_sq lp) @ rs \<and> (\<forall>r \<in> set rs. is_read r)) \<and>
    (\<exists>n. cn_get c' = set_lane i ((lane_at (cn_get c) i)\<lparr>ln_reads := ln_reads (lane_at (cn_get c) i) + n\<rparr>) (cn_get c) \<and>
       cn_inflight c' = cn_inflight c + n \<and> (b \<longrightarrow> n = length segs))"
  using assms
proof (induction segs arbitrary: lp c)
  case Nil
  have "set_lane i ((lane_at (cn_get c) i)\<lparr>ln_reads := ln_reads (lane_at (cn_get c) i) + 0\<rparr>) (cn_get c) = cn_get c"
    by (simp add: set_lane_def lane_at_def)
  with Nil show ?case by auto
next
  case (Cons s segs)
  let ?l = "lane_at (cn_get c) i"
  let ?s = "Sq_read (cn_id c) (sg_fd s) (sg_file_off s) (fst (ln_buf ?l) + sg_out_off s)
      (min (align_up (sg_len s) kDeviceBlock) (snd (ln_buf ?l) - sg_out_off s))"
  let ?g = "set_lane i (?l\<lparr>ln_reads := ln_reads ?l + 1\<rparr>) (cn_get c)"
  show ?case
  proof (cases "submit ev lp ?s")
    case None
    moreover have "set_lane i (?l\<lparr>ln_reads := ln_reads ?l + 0\<rparr>) (cn_get c) = cn_get c"
      by (simp add: set_lane_def lane_at_def)
    ultimately show ?thesis using Cons.prems by (auto simp: Let_def intro!: exI [of _ 0])
  next
    case (Some lp1)
    let ?c = "c\<lparr>cn_inflight := cn_inflight c + 1, cn_get := ?g\<rparr>"
    have lp1: "lp1 = lp\<lparr>lp_sq := lp_sq lp @ [?s]\<rparr>" using Some by (auto simp: submit_def split: if_splits)
    have "held X (lp1, c\<lparr>cn_inflight := cn_inflight c + 1\<rparr>)"
      using Cons.prems(2) by (simp add: lp1 held_def core_def own_def)
    then have h: "held X (lp1, ?c)"
      using held_set_lane [of "cn_get c" "c\<lparr>cn_inflight := cn_inflight c + 1\<rparr>" "?l\<lparr>ln_reads := ln_reads ?l + 1\<rparr>" i X lp1]
      by simp
    have r: "submit_reads ev i segs (lp1, ?c) = ((lp', c'), b)" using Cons.prems(1) Some by (simp add: Let_def)
    have o1: "own (cn_id c) (lp_sq lp1) = own (cn_id c) (lp_sq lp) @ [?s]" by (simp add: lp1 own_def)
    from Cons.IH [OF r h] obtain n rs where
      "own (cn_id c) (lp_sq lp') = own (cn_id c) (lp_sq lp) @ (?s # rs) \<and> (\<forall>r \<in> set (?s # rs). is_read r)" "cn_id c' = cn_id c"
      "cn_get c' = set_lane i (?l\<lparr>ln_reads := ln_reads ?l + (n + 1)\<rparr>) (cn_get c)" "cn_inflight c' = cn_inflight c + (n + 1)"
      "b \<longrightarrow> n = length segs" "held X (lp', c')" "cn_closing c' = cn_closing c" "cn_state c' = cn_state c"
      "cn_put c' = cn_put c" "cn_in c' = cn_in c"
      using o1 by auto
    then show ?thesis by (intro conjI exI [of _ "n + 1"] exI [of _ "?s # rs"]) simp_all
  qed
qed

lemma reads_only: "\<forall>r \<in> set rs. is_read r \<Longrightarrow> filter is_send rs = [] \<and> (\<forall>r \<in> set rs. \<not> is_recv r \<and> \<not> is_poll r)"
proof -
  assume a: "\<forall>r \<in> set rs. is_read r"
  have "is_read r \<Longrightarrow> \<not> is_send r \<and> \<not> is_recv r \<and> \<not> is_poll r" for r by (cases r) simp_all
  with a show ?thesis by (auto simp: filter_empty_conv)
qed

text \<open>A piece planned into a free lane: its reads are in flight, or all of it is there already.\<close>

lemma plan_lane_read_streaming:
  assumes st: "streaming X (lp, c)" and p: "plan_lane_read ev f (lp, c) = ((lp', c'), b)"
    and "gp_read_lane (cn_get c) = None" and "ln_have (lane_at (cn_get c) f)" and "\<not> ln_ready (lane_at (cn_get c) f)"
    and "f < 2" and fi: "f = gp_fill_i (cn_get c)" and le: "gp_plan_pos (cn_get c) < gp_size (cn_get c)"
  shows "if b then streaming X (lp', c') else held X (lp', c') \<and> cn_state c' = St_get_stream"
proof -
  let ?g = "cn_get c" and ?W = "piece_want f (cn_get c)"
  let ?l = "piece_lane ?W (lane_at ?g f)" and ?p = "piece_get ?W ?g"
  have h: "held X (plan_mem f (lp, c), c)" using st by (simp add: streaming_def plan_mem_def)
  have nl: "0 < gp_n_lanes ?g" "gp_n_lanes ?g \<le> 2"
    using heldD(5) [OF h] assms(4,6) by (auto simp: lanes_ok_def less_2_cases_iff)
  then have fill: "gp_fill_i ?p < 2" by (simp add: piece_get_def) (metis le_trans less_le_not_le mod_less_divisor not_le)
  have hg: "held X (plan_mem f (lp, c), c\<lparr>cn_get := set_lane f l ?p\<rparr>)"
    if "ln_have l = ln_have (lane_at ?g f)" "ln_buf l = ln_buf (lane_at ?g f)" for l
    using h that by (subst held_set_lane) (simp_all add: piece_get_def)
  have so: "stream_ok ?g" and si: "cn_inflight c = stream_ops ?g" using st by (simp_all add: streaming_def)
  have f01: "f = 0 \<or> f = 1" using assms(6) by auto
  have W: "gp_plan_pos ?g + ?W \<le> gp_size ?g" using le by (simp add: piece_want_def)
  have fl: "flows ?g" "gp_n_lanes ?g = 1 \<or> gp_n_lanes ?g = 2" "\<not> busy ?g (gp_fill_i ?g)"
    using so nl assms(3,5) fi by (auto simp: stream_ok_def busy_def)
  show ?thesis
  proof (cases rule: plan_lane_read_cases [OF p])
    case 1
    with h st show ?thesis by (simp add: streaming_def)
  next
    case 2
    let ?g' = "set_lane f (?l\<lparr>ln_ready := True\<rparr>) ?p"
    have "flows ?g'"
    proof (rule flows_planned [OF fl W])
      fix i :: nat
      assume "i < 2"
      then have i: "i = 0 \<or> i = 1" by auto
      show "busy ?g' i \<longleftrightarrow> busy ?g i \<or> i = gp_fill_i ?g"
        unfolding fi [symmetric] using i f01 assms(3) by (elim disjE) (simp_all add: busy_def piece_lane_def piece_get_def)
      show "ln_len (lane_at ?g' i) = (if i = gp_fill_i ?g then ?W else ln_len (lane_at ?g i))"
        unfolding fi [symmetric] using i f01 by (elim disjE) (simp_all add: piece_lane_def piece_get_def)
    qed (simp_all add: piece_get_def)
    then have "stream_ok ?g'" "stream_ops ?g' = stream_ops ?g"
      using so assms(3,5) nl fill f01
      by (auto simp: stream_ok_def stream_ops_def piece_lane_def piece_get_def less_2_cases_iff split: option.splits)
    with 2 hg [of "?l\<lparr>ln_ready := True\<rparr>"] st show ?thesis
      by (simp add: streaming_def piece_lane_def piece_get_def fits_def plan_mem_def)
  next
    case (3 lp1 c1)
    have "held X (plan_mem f (lp, c), c\<lparr>cn_get := set_lane f ?l ?p\<rparr>)" by (rule hg) (simp_all add: piece_lane_def)
    from submit_reads_held [OF 3(3) this] obtain n rs where
      rs: "own (cn_id c) (lp_sq lp1) = own (cn_id c) (lp_sq lp) @ rs" "\<forall>r \<in> set rs. is_read r" "cn_id c1 = cn_id c" and
      n: "cn_get c1 = set_lane f (?l\<lparr>ln_reads := n\<rparr>) ?p" "cn_inflight c1 = cn_inflight c + n" "b \<longrightarrow> 0 < n"
      and c1: "held X (lp1, c1)" "cn_closing c1 = cn_closing c" "cn_state c1 = cn_state c" "cn_put c1 = cn_put c"
      using 3(2) by (auto simp: piece_lane_def plan_mem_def)
    show ?thesis
    proof (cases b)
      case False
      with 3 c1 st show ?thesis by (simp add: streaming_def)
    next
      case True
      let ?g' = "(cn_get c1)\<lparr>gp_read_lane := Some f\<rparr>"
      have "held X (lp1, c1\<lparr>cn_get := ?g'\<rparr>) = held X (lp1, c1)" by (rule held_get_cong) simp_all
      moreover have fl': "flows ?g'"
      proof (rule flows_planned [OF fl W])
        fix i :: nat
        assume "i < 2"
        then have i: "i = 0 \<or> i = 1" by auto
        show "busy ?g' i \<longleftrightarrow> busy ?g i \<or> i = gp_fill_i ?g"
          unfolding fi [symmetric] n(1) using i f01 assms(3,5) by (elim disjE) (simp_all add: busy_def piece_lane_def piece_get_def)
        show "ln_len (lane_at ?g' i) = (if i = gp_fill_i ?g then ?W else ln_len (lane_at ?g i))"
          unfolding fi [symmetric] n(1) using i f01 by (elim disjE) (simp_all add: piece_lane_def piece_get_def)
      qed (simp_all add: piece_get_def n(1))
      moreover from this have "stream_ok ?g'" "stream_ops ?g' = stream_ops ?g + n"
        using so assms(3,5,6) nl fill n True f01
        by (auto simp: stream_ok_def stream_ops_def piece_lane_def piece_get_def less_2_cases_iff split: option.splits)
      moreover have "fits (c1\<lparr>cn_get := ?g'\<rparr>) (own (cn_id c) (lp_sq lp1))"
        using reads_only [OF rs(2)] st n(1) c1(3) by (auto simp: streaming_def fits_def rs(1) piece_get_def)
      ultimately show ?thesis using 3 c1 st n True rs(3) by (simp add: streaming_def piece_get_def)
    qed
  qed
qed

end
