(* ===== verification/Loop_Safe.thy ===== *)
theory Loop_Safe
  imports Loop_Inv
begin

text \<open>
  The handlers of the event loop keep its invariant, for every protocol that keeps the contract
  of its seams (the locale \<open>protocol_seams\<close>).
\<close>

section \<open>The stream pump\<close>

lemma pump_read_streaming:
  assumes st: "streaming X (lp, c)" and p: "pump_read ev (lp, c) = ((lp', c'), fl)"
  shows "if fl = Pump_abort then held X (lp', c') \<and> cn_state c' = St_get_stream else streaming X (lp', c')"
proof (cases "gp_read_lane (cn_get c) = None \<and> gp_plan_pos (cn_get c) < gp_size (cn_get c) \<and>
    ln_have (lane_at (cn_get c) (gp_fill_i (cn_get c))) \<and> \<not> ln_ready (lane_at (cn_get c) (gp_fill_i (cn_get c))) \<and>
    gp_send_lane (cn_get c) \<noteq> Some (gp_fill_i (cn_get c))")
  case True
  obtain lp1 c1 b where r: "plan_lane_read ev (gp_fill_i (cn_get c)) (lp, c) = ((lp1, c1), b)" by (metis surj_pair)
  have "gp_fill_i (cn_get c) < 2" using st by (simp add: streaming_def stream_ok_def)
  with plan_lane_read_streaming [OF st r _ _ _ _ refl] True
  have s: "if b then streaming X (lp1, c1) else held X (lp1, c1) \<and> cn_state c1 = St_get_stream" by simp
  have "pump_read ev (lp, c) = (if b then ((lp1, c1), Pump_on) else ((lp1, c1), Pump_abort))"
    using True r by (simp add: pump_read_def Let_def)
  with p s show ?thesis by (auto split: if_splits)
next
  case False
  with st p show ?thesis by (auto simp: pump_read_def Let_def)
qed

text \<open>What a round, and the loop, leave behind.\<close>

definition pumped :: "ctx \<Rightarrow> pump_flow \<Rightarrow> focus \<Rightarrow> bool" where
  "pumped X fl f \<longleftrightarrow> held X f \<and> cn_state (snd f) = St_get_stream \<and>
     (fl = Pump_on \<longrightarrow> streaming X f) \<and>
     (fl = Pump_wait \<longrightarrow> streaming X f \<and> 0 < cn_inflight (snd f) \<or> cn_closing (snd f)) \<and>
     (fl = Pump_done \<longrightarrow> streaming X f \<and> cn_inflight (snd f) = 0)"

lemma streaming_held: "streaming X f \<Longrightarrow> held X f \<and> cn_state (snd f) = St_get_stream"
  by (cases f) (simp add: streaming_def)

text \<open>
  A round that starts nothing and is not done leaves something in flight: were there nothing, no
  lane would be busy, so bytes would remain to be planned, and the lane to fill would be free.
\<close>

lemma no_stall:
  assumes f: "flows g" and ok: "stream_ok g" "lanes_ok g" and sl: "gp_send_lane g = None" and rl: "gp_read_lane g = None"
    and nd: "gp_send_pos g < gp_size g" and ns: "\<not> ln_ready (lane_at g (gp_send_i g))"
    and nr: "\<not> (gp_plan_pos g < gp_size g \<and> ln_have (lane_at g (gp_fill_i g)) \<and> \<not> ln_ready (lane_at g (gp_fill_i g)))"
  shows False
proof -
  have b: "busy g i = ln_ready (lane_at g i)" for i by (simp add: busy_def rl)
  have i: "gp_send_i g = 0 \<or> gp_send_i g = 1" "gp_fill_i g = 0 \<or> gp_fill_i g = 1" using ok(1) by (auto simp: stream_ok_def)
  have none: "\<not> busy g 0" "\<not> busy g 1" using f ns i(1) unfolding flows_def flow_ok_def b by (auto split: if_splits)
  then have "pending g = 0" by (simp add: pending_def)
  then have "gp_plan_pos g < gp_size g" using f nd by (simp add: flows_def flow_ok_def)
  moreover from this have "gp_fill_i g < gp_n_lanes g" using f by (auto simp: flows_def flow_ok_def)
  then have "ln_have (lane_at g (gp_fill_i g))" using ok(2) i(2) by (auto simp: lanes_ok_def split: if_splits)
  moreover have "\<not> ln_ready (lane_at g (gp_fill_i g))" using none i(2) by (auto simp: b)
  ultimately show False using nr by blast
qed

lemma pump_round_pumped:
  assumes st: "streaming X f" and p: "pump_round ev f = (f', fl)"
  shows "pumped X fl f'"
proof -
  obtain lp c where f: "f = (lp, c)" by (cases f)
  obtain lp1 c1 sent where s: "pump_send ev (lp, c) = ((lp1, c1), sent)" by (metis surj_pair)
  obtain lp2 c2 fl2 where r: "pump_read ev (lp1, c1) = ((lp2, c2), fl2)" by (metis surj_pair)
  note ps = pump_send_streaming [OF st [unfolded f] s]
  show ?thesis
  proof (cases "sent \<and> cn_closing c1")
    case True
    then have "f' = (lp1, c1)" "fl = Pump_wait" using p s by (simp_all add: f pump_round_def)
    with ps True streaming_held [of X "(lp1, c1)"] show ?thesis by (auto simp: pumped_def)
  next
    case False
    then have st1: "streaming X (lp1, c1)" using ps by auto
    note pr = pump_read_streaming [OF st1 r]
    show ?thesis
    proof (cases "fl2 = Pump_abort")
      case True
      with False p s r have "f' = (lp2, c2)" "fl = Pump_abort" by (auto simp: f pump_round_def)
      with pr True show ?thesis by (simp add: pumped_def)
    next
      case na: False
      then have st2: "streaming X (lp2, c2)" using pr by simp
      have fl2: "fl2 = Pump_on \<or> fl2 = Pump_wait"
        using r na by (auto simp: pump_read_def Let_def split: if_splits prod.splits bool.splits)
      let ?d = "gp_send_lane (cn_get c2) = None \<and> gp_read_lane (cn_get c2) = None \<and> gp_send_pos (cn_get c2) \<ge> gp_size (cn_get c2)"
      have e: "f' = (lp2, c2)" "fl = (if ?d then Pump_done else if sent then Pump_on else fl2)"
        using p False na s r fl2 by (auto simp: f pump_round_def Let_def split: if_splits)
      have "cn_inflight c2 = 0" if ?d using that st2 by (simp add: streaming_def stream_ops_def)
      moreover have "0 < cn_inflight c2" if w: "fl = Pump_wait"
      proof (rule ccontr)
        assume "\<not> 0 < cn_inflight c2"
        then have z: "stream_ops (cn_get c2) = 0" using st2 by (simp add: streaming_def)
        have so: "stream_ok (cn_get c2)" "flows (cn_get c2)" "lanes_ok (cn_get c2)"
          using st2 heldD(5) [of X lp2 c2] by (auto simp: streaming_def stream_ok_def)
        have sl: "gp_send_lane (cn_get c2) = None" "gp_read_lane (cn_get c2) = None"
          using z so(1) by (auto simp: stream_ops_def stream_ok_def split: option.splits if_splits)
        have "\<not> ?d" "\<not> sent" "fl2 = Pump_wait" using w e(2) by (auto split: if_splits)
        then have same: "lp1 = lp" "c1 = c" "lp2 = lp1" "c2 = c1"
          using s r by (auto simp: pump_send_def pump_read_def Let_def split: if_splits prod.splits bool.splits)
        have nd: "gp_send_pos (cn_get c2) < gp_size (cn_get c2)" using \<open>\<not> ?d\<close> sl by auto
        show False
          by (rule no_stall [OF so(2,1,3) sl nd])
            (use s r sl nd \<open>\<not> sent\<close> \<open>fl2 = Pump_wait\<close> same in
             \<open>auto simp: pump_send_def pump_read_def Let_def split: if_splits prod.splits bool.splits\<close>)
      qed
      ultimately show ?thesis using st2 streaming_held [OF st2] e fl2 by (auto simp: pumped_def)
    qed
  qed
qed

lemma pump_loop_pumped:
  "streaming X f \<Longrightarrow> pump_loop ev f = (f', fl) \<Longrightarrow> pumped X fl f' \<and> fl \<noteq> Pump_on"
proof (induction ev f rule: pump_loop.induct)
  case (1 ev f)
  obtain f1 fl1 where r: "pump_round ev f = (f1, fl1)" by (cases "pump_round ev f")
  note p = pump_round_pumped [OF "1.prems"(1) r]
  show ?case
  proof (cases "fl1 = Pump_on")
    case True
    then have "streaming X f1" "pump_loop ev f1 = (f', fl)"
      using p "1.prems"(2) r by (simp_all add: pumped_def pump_loop.simps [of ev f])
    from "1.IH" [OF r [symmetric] True this] show ?thesis .
  next
    case False
    then have "f' = f1" "fl = fl1" using "1.prems"(2) r by (cases fl1; simp add: pump_loop.simps [of ev f])+
    with p False show ?thesis by simp
  qed
qed

section \<open>The contract of a protocol\<close>

text \<open>
  A connection that a protocol may parse: nothing in flight, no GET open, and a writer only while
  it takes a body.
\<close>

definition tame :: "conn \<Rightarrow> bool" where
  "tame c \<longleftrightarrow> \<not> cn_closing c \<and> cn_inflight c = 0 \<and> calm (cn_get c) \<and> quiet (cn_get c) \<and>
     (cn_state c = St_idle \<and> pp_sh (cn_put c) = None \<or> cn_state c = St_set_body)"

locale protocol_seams =
  fixes sm :: seams and puts :: bool
  assumes hit: "frames_hit (sm_frame_hit sm)"
    and miss: "frames_miss (sm_frame_miss sm)"
    and process_ok: "held X (lp, c) \<Longrightarrow> tame c \<Longrightarrow> stores_only (cx_puts X) c \<Longrightarrow> cx_puts X = puts \<Longrightarrow>
      \<exists>lp' c'. sm_process sm ev (lp, c) = Some (lp', c') \<and> rested X (lp', c') \<and>
        length (cn_in c') \<le> length (cn_in c) \<and> (parked (cn_state c') \<longrightarrow> length (cn_in c') < length (cn_in c))"
    and value_sent_ok: "streaming X (lp, c) \<Longrightarrow> cn_inflight c = 0 \<Longrightarrow> cx_puts X = puts \<Longrightarrow>
      \<exists>lp' c'. sm_value_sent sm ev (lp, c) = Some (lp', c') \<and> rested X (lp', c')"
begin

lemma pump_stream_rested:
  assumes "streaming X f"
    and P: "cx_puts X = puts"
  shows "\<exists>f'. pump_stream ev sm f = Some f' \<and> rested X f'"
proof -
  obtain f1 fl where l: "pump_loop ev f = (f1, fl)" by (cases "pump_loop ev f")
  obtain lp c where f1: "f1 = (lp, c)" by (cases f1)
  note p = pump_loop_pumped [OF assms(1) l]
  show ?thesis
  proof (cases fl)
    case Pump_on
    with p show ?thesis by simp
  next
    case Pump_wait
    with l p show ?thesis
      by (auto simp: pump_stream_def pumped_def parked_def intro: streaming_rested rested_closed)
  next
    case Pump_abort
    with l p abort_get_held [of X lp c] show ?thesis by (simp add: pump_stream_def pumped_def f1 parked_def)
  next
    case Pump_done
    with p have "streaming X (lp, c)" "cn_inflight c = 0" by (simp_all add: pumped_def f1)
    from value_sent_ok [OF this P, of ev] l Pump_done show ?thesis by (auto simp: pump_stream_def f1)
  qed
qed

lemma enter_stream_rested:
  assumes "held X (lp, c)" and "\<not> cn_closing c" and "pp_sh (cn_put c) = None" and "\<not> hp_valid (gp_pin (cn_get c))"
    and "quiet (cn_get c)" and "cn_inflight c = 0"
    and cv: "gp_pos (cn_get c) \<le> gp_size (cn_get c)" "gp_n_lanes (cn_get c) = 0 \<longrightarrow> gp_pos (cn_get c) = gp_size (cn_get c)"
    and P: "cx_puts X = puts"
  shows "\<exists>f'. enter_stream ev sm (lp, c) = Some f' \<and> rested X f'"
proof -
  let ?g = "(cn_get c)\<lparr>gp_plan_pos := gp_pos (cn_get c), gp_send_pos := gp_pos (cn_get c)\<rparr>"
  have "held X (lp, c\<lparr>cn_get := ?g\<rparr>) = held X (lp, c)" by (rule held_get_cong) simp_all
  then have "held X (lp, c\<lparr>cn_get := ?g, cn_state := St_get_stream\<rparr>)" using assms(1) by simp
  moreover have "own (cn_id c) (lp_sq lp) = []" using heldD(6) [OF assms(1)] assms(6) by simp
  moreover have "flows ?g" using assms(5) cv by (simp add: flows_def flow_ok_def quiet_def busy_def pending_def)
  ultimately have "streaming X (lp, c\<lparr>cn_get := ?g, cn_state := St_get_stream\<rparr>)"
    using assms by (simp add: streaming_def stream_ok_def stream_ops_def quiet_def fits_def)
  from pump_stream_rested [OF this P] show ?thesis by (simp add: enter_stream_def)
qed

lemma finish_get_rested:
  assumes "held X (lp, c)" and "\<not> cn_closing c" and "pp_sh (cn_put c) = None" and "cn_inflight c = 0"
    and P: "cx_puts X = puts"
  shows "\<exists>f'. finish_get ev (sm_process sm) (lp, c) = Some f' \<and> rested X f'"
proof -
  from drop_get_held [OF assms(1)] obtain lp1 g where d: "drop_get (lp, c) = (lp1, c\<lparr>cn_get := g\<rparr>)"
    "held X (lp1, c\<lparr>cn_get := g\<rparr>)" "calm g" "quiet g" by metis
  have "held X (lp1, c\<lparr>cn_get := g, cn_state := St_idle\<rparr>)" using d(2) by simp
  moreover have "tame (c\<lparr>cn_get := g, cn_state := St_idle\<rparr>)" using assms d by (simp add: tame_def)
  ultimately show ?thesis using process_ok [of X lp1 "c\<lparr>cn_get := g, cn_state := St_idle\<rparr>" ev] d(1) P
    by (auto simp: finish_get_def stores_only_def)
qed

section \<open>Completions\<close>

text \<open>
  A connection whose operation has just completed: the operation is off the ring and off the
  count, and everything else is as a rested connection has it.
\<close>

definition took :: "ctx \<Rightarrow> sqe \<Rightarrow> focus \<Rightarrow> bool" where
  "took X s = (\<lambda>(lp, c). held X (lp, c) \<and> \<not> cn_closing c \<and> shape (c\<lparr>cn_inflight := cn_inflight c + 1\<rparr>) \<and>
     fits c (s # own (cn_id c) (lp_sq lp)) \<and> stores_only (cx_puts X) c)"

lemma tookD:
  assumes "took X s (lp, c)"
  shows "held X (lp, c)" "\<not> cn_closing c" "\<not> parked (cn_state c)"
    "cn_state c \<noteq> St_set_body \<longrightarrow> pp_sh (cn_put c) = None"
    "cn_state c \<noteq> St_get_stream \<longrightarrow> cn_inflight c = 0"
    "cn_state c \<noteq> St_get_stream \<and> cn_state c \<noteq> St_get_trailer \<longrightarrow> quiet (cn_get c)"
    "cn_state c = St_idle \<or> cn_state c = St_set_body \<longrightarrow> calm (cn_get c)"
    "cn_state c = St_get_stream \<longrightarrow> stream_ok (cn_get c) \<and> \<not> hp_valid (gp_pin (cn_get c)) \<and>
       cn_inflight c + 1 = stream_ops (cn_get c)"
    "fits c (s # own (cn_id c) (lp_sq lp))" "stores_only (cx_puts X) c"
    "cn_state c = St_get_header \<or> cn_state c = St_get_send_head \<longrightarrow> reaches (cn_get c)"
proof -
  let ?c = "c\<lparr>cn_inflight := cn_inflight c + 1\<rparr>"
  have h: "held X (lp, c)" "\<not> cn_closing c" "shape ?c" using assms by (simp_all add: took_def)
  then have w: "cn_inflight c + 1 = want_ops ?c" by (simp add: shape_def)
  then have p: "\<not> parked (cn_state c)" by (auto simp: want_ops_def split: if_splits)
  show "held X (lp, c)" "\<not> cn_closing c" "\<not> parked (cn_state c)" by (fact h(1) h(2) p)+
  show "fits c (s # own (cn_id c) (lp_sq lp))" "stores_only (cx_puts X) c" using assms by (simp_all add: took_def)
  show "cn_state c \<noteq> St_get_stream \<longrightarrow> cn_inflight c = 0" using w p by (simp add: want_ops_def split: if_splits)
  show "cn_state c \<noteq> St_set_body \<longrightarrow> pp_sh (cn_put c) = None"
    "cn_state c \<noteq> St_get_stream \<and> cn_state c \<noteq> St_get_trailer \<longrightarrow> quiet (cn_get c)"
    "cn_state c = St_idle \<or> cn_state c = St_set_body \<longrightarrow> calm (cn_get c)"
    "cn_state c = St_get_header \<or> cn_state c = St_get_send_head \<longrightarrow> reaches (cn_get c)"
    using h(2,3) by (simp_all add: shape_def)
  show "cn_state c = St_get_stream \<longrightarrow> stream_ok (cn_get c) \<and> \<not> hp_valid (gp_pin (cn_get c)) \<and>
      cn_inflight c + 1 = stream_ops (cn_get c)"
    using h(2,3) w p by (simp add: shape_def want_ops_def split: if_splits)
qed

lemma on_recv_rested:
  assumes "took X s (lp, c)" and "cn_state c = St_idle \<or> cn_state c = St_set_body"
    and P: "cx_puts X = puts"
  shows "\<exists>f'. on_recv ev sm res data (lp, c) = Some f' \<and> rested X f'"
proof (cases "res \<le> 0")
  case True
  with tookD [OF assms(1)] show ?thesis by (simp add: on_recv_def rested_closed)
next
  case False
  let ?c = "c\<lparr>cn_in := cn_in c @ take (nat res) data\<rparr>"
  have "held X (lp, ?c)" "tame ?c" "stores_only (cx_puts X) ?c"
    using tookD [OF assms(1)] assms(2) by (auto simp: tame_def stores_only_def)
  from process_ok [OF this P, of ev] False show ?thesis by (auto simp: on_recv_def)
qed

lemma on_header_sent_rested:
  assumes "took X s (lp, c)" and "cn_state c = St_get_header"
    and P: "cx_puts X = puts"
  shows "\<exists>f'. on_header_sent ev sm (lp, c) = Some f' \<and> rested X f'"
proof -
  let ?g = "cn_get c" and ?hi = "if hp_valid (gp_pin (cn_get c)) then head_hi (cn_get c) else 0"
  note t = tookD [OF assms(1)]
  show ?thesis
  proof (cases "gp_pos ?g < ?hi")
    case True
    let ?c = "c\<lparr>cn_get := ?g\<lparr>gp_head_sent := gp_pos ?g\<rparr>, cn_state := St_get_send_head\<rparr>"
    have "held X (lp, c\<lparr>cn_get := ?g\<lparr>gp_head_sent := gp_pos ?g\<rparr>\<rparr>) = held X (lp, c)" by (rule held_get_cong) simp_all
    then have h: "held X (lp, ?c)" using t(1) by simp
    obtain src where "posts X (lp, ?c) (Sq_send (cn_id ?c) src) (start_send_head ev (lp, ?c))"
      using start_held(3) [OF h, of ev] t by auto
    then have "rested X (start_send_head ev (lp, ?c))"
      by (rule rested_posts [OF _ h]) (use t assms(2) in \<open>simp_all add: parked_def stores_only_def\<close>)
    with True show ?thesis by (simp add: on_header_sent_def Let_def)
  next
    case False
    from unpin_held [OF t(1)] obtain lp1 where
      u: "unpin_if_held (lp, c) = (lp1, c\<lparr>cn_get := ?g\<lparr>gp_pin := (gp_pin ?g)\<lparr>hp_valid := False\<rparr>\<rparr>\<rparr>)"
      "held X (lp1, c\<lparr>cn_get := ?g\<lparr>gp_pin := (gp_pin ?g)\<lparr>hp_valid := False\<rparr>\<rparr>\<rparr>)" by metis
    have cv: "gp_pos ?g \<le> gp_size ?g" "gp_n_lanes ?g = 0 \<longrightarrow> gp_pos ?g = gp_size ?g"
      using t(11) assms(2) False by (auto simp: reaches_def head_hi_def split: if_splits)
    have "\<exists>f'. enter_stream ev sm (unpin_if_held (lp, c)) = Some f' \<and> rested X f'"
      unfolding u(1) by (rule enter_stream_rested [OF u(2)]) (use t assms(2) P cv in simp_all)
    with False show ?thesis by (simp add: on_header_sent_def Let_def)
  qed
qed

lemma on_head_sent_rested:
  assumes "took X s (lp, c)" and "cn_state c = St_get_send_head"
    and P: "cx_puts X = puts"
  shows "\<exists>f'. on_head_sent ev sm n (lp, c) = Some f' \<and> rested X f'"
proof -
  let ?g = "(cn_get c)\<lparr>gp_head_sent := gp_head_sent (cn_get c) + n\<rparr>"
  note t = tookD [OF assms(1)]
  let ?c = "c\<lparr>cn_get := ?g\<rparr>"
  have "held X (lp, ?c) = held X (lp, c)" by (rule held_get_cong) simp_all
  then have h: "held X (lp, ?c)" using t(1) by simp
  show ?thesis
  proof (cases "gp_head_sent ?g < head_hi ?g")
    case True
    obtain src where "posts X (lp, ?c) (Sq_send (cn_id ?c) src) (start_send_head ev (lp, ?c))"
      using start_held(3) [OF h, of ev] t by auto
    then have "rested X (start_send_head ev (lp, ?c))"
      by (rule rested_posts [OF _ h]) (use t assms(2) in \<open>simp_all add: parked_def stores_only_def\<close>)
    with True show ?thesis by (simp add: on_head_sent_def Let_def)
  next
    case False
    from unpin_held [OF h] obtain lp1 where
      u: "unpin_if_held (lp, ?c) = (lp1, c\<lparr>cn_get := ?g\<lparr>gp_pin := (gp_pin ?g)\<lparr>hp_valid := False\<rparr>\<rparr>\<rparr>)"
      "held X (lp1, c\<lparr>cn_get := ?g\<lparr>gp_pin := (gp_pin ?g)\<lparr>hp_valid := False\<rparr>\<rparr>\<rparr>)" by auto
    let ?g2 = "?g\<lparr>gp_pin := (gp_pin ?g)\<lparr>hp_valid := False\<rparr>, gp_pos := head_hi ?g\<rparr>"
    have "held X (lp1, c\<lparr>cn_get := ?g\<lparr>gp_pin := (gp_pin ?g)\<lparr>hp_valid := False\<rparr>\<rparr>\<rparr>\<lparr>cn_get := ?g2\<rparr>)"
      by (subst held_get_cong) (use u(2) in simp_all)
    then have "held X (lp1, c\<lparr>cn_get := ?g2\<rparr>)" by simp
    moreover have "head_hi ?g \<le> gp_size ?g" "gp_n_lanes ?g = 0 \<longrightarrow> head_hi ?g = gp_size ?g"
      using t(11) assms(2) by (auto simp: reaches_def head_hi_def split: if_splits)
    ultimately have "\<exists>f'. enter_stream ev sm (lp1, c\<lparr>cn_get := ?g2\<rparr>) = Some f' \<and> rested X f'"
      by (intro enter_stream_rested) (use t assms(2) P in simp_all)
    with False u(1) show ?thesis by (simp add: on_head_sent_def Let_def)
  qed
qed

lemma on_out_sent_rested:
  assumes "took X s (lp, c)" and "cn_state c \<noteq> St_get_stream" and "cn_state c \<noteq> St_get_send_head"
    and P: "cx_puts X = puts"
  shows "\<exists>f'. on_out_sent ev sm n (lp, c) = Some f' \<and> rested X f'"
proof -
  note t = tookD [OF assms(1)]
  show ?thesis
  proof (cases "cn_out_sent c + n < length (cn_out c)")
    case True
    let ?c = "c\<lparr>cn_out_sent := cn_out_sent c + n\<rparr>"
    have h: "held X (lp, ?c)" using t(1) by simp
    obtain src where "posts X (lp, ?c) (Sq_send (cn_id ?c) src) (start_send ev (lp, ?c))"
      using start_held(2) [OF h, of ev] t by auto
    then have "rested X (start_send ev (lp, ?c))" by (rule rested_posts [OF _ h]) (use t assms(2) P in simp_all)
    with True show ?thesis by (simp add: on_out_sent_def Let_def)
  next
    case False
    let ?c = "c\<lparr>cn_out := [], cn_out_sent := 0\<rparr>"
    have e: "on_out_sent ev sm n (lp, c) =
        (if cn_state c = St_get_header then on_header_sent ev sm (lp, ?c)
         else if cn_state c = St_get_trailer then finish_get ev (sm_process sm) (lp, ?c)
         else if cn_quit_after c then Some (lp, close_conn ?c) else Some (start_recv ev (lp, ?c)))"
      using False by (simp add: on_out_sent_def Let_def)
    have h: "held X (lp, ?c)" using t(1) by simp
    consider "cn_state c = St_get_header" | "cn_state c = St_get_trailer"
      | "cn_state c \<noteq> St_get_header" "cn_state c \<noteq> St_get_trailer" by blast
    then show ?thesis
    proof cases
      case 1
      have "took X s (lp, ?c)" using assms(1) by (auto simp: took_def shape_def want_ops_def fits_def split: if_splits)
      from on_header_sent_rested [OF this _ P, of ev] 1 show ?thesis by (simp add: e)
    next
      case 2
      from finish_get_rested [OF h _ _ _ P, of ev] 2 t show ?thesis by (simp add: e)
    next
      case 3
      have s: "cn_state c = St_idle \<or> cn_state c = St_set_body" using 3 t(3) assms by (cases "cn_state c") (auto simp: parked_def)
      have "posts X (lp, ?c) (Sq_recv (cn_id ?c)) (start_recv ev (lp, ?c))" by (rule start_held(1) [OF h]) (use t in simp)
      then have "rested X (start_recv ev (lp, ?c))" by (rule rested_posts [OF _ h]) (use t s in auto)
      moreover have "rested X (lp, close_conn ?c)" by (rule rested_closed) (use h t in simp_all)
      ultimately show ?thesis using 3 by (simp add: e del: split_paired_Ex)
    qed
  qed
qed

lemma mod_lanes: "lanes_ok g \<Longrightarrow> 0 < gp_n_lanes g \<Longrightarrow> n mod gp_n_lanes g < 2"
proof -
  assume "lanes_ok g" "0 < gp_n_lanes g"
  then have "gp_n_lanes g = 1 \<or> gp_n_lanes g = 2" by (auto simp: lanes_ok_def split: if_splits)
  then show ?thesis by auto
qed

lemma lane_send_rested:
  assumes h: "held X (lp, c)" and "\<not> cn_closing c" and "cn_state c = St_get_stream" and "pp_sh (cn_put c) = None"
    and "\<not> hp_valid (gp_pin (cn_get c))" and "stream_ok (cn_get c)" and "cn_inflight c + 1 = stream_ops (cn_get c)"
    and "gp_send_lane (cn_get c) \<noteq> None" and "filter is_send (own (cn_id c) (lp_sq lp)) = []"
    and "\<forall>s \<in> set (own (cn_id c) (lp_sq lp)). \<not> is_recv s \<and> \<not> is_poll s"
  shows "rested X (start_lane_send ev (lp, c))"
proof -
  obtain lp' c' where r: "start_lane_send ev (lp, c) = (lp', c')" by (metis surj_pair)
  obtain src where "posts X (lp, c) (Sq_send (cn_id c) src) (lp', c')"
    using start_held(4) [OF h assms(2), of ev] r by auto
  then have p: "held X (lp', c')" "c' = c\<lparr>cn_inflight := cn_inflight c + 1\<rparr> \<and>
      own (cn_id c) (lp_sq lp') = own (cn_id c) (lp_sq lp) @ [Sq_send (cn_id c) src] \<or> c' = close_conn c"
    by (simp_all add: posts_def)
  from p(2) have "rested X (lp', c')"
  proof
    assume c': "c' = c\<lparr>cn_inflight := cn_inflight c + 1\<rparr> \<and>
      own (cn_id c) (lp_sq lp') = own (cn_id c) (lp_sq lp) @ [Sq_send (cn_id c) src]"
    then have "fits c' (own (cn_id c) (lp_sq lp'))" using assms by (auto simp: fits_def)
    with c' p(1) assms(2-7) have "streaming X (lp', c')" by (simp add: streaming_def)
    then show ?thesis using c' by (intro streaming_rested) simp_all
  next
    assume "c' = close_conn c"
    with p(1) assms(3) show ?thesis by (simp add: rested_closed parked_def)
  qed
  with r show ?thesis by simp
qed

lemma on_lane_sent_rested:
  assumes "took X s (lp, c)" and "cn_state c = St_get_stream" and "is_send s"
    and P: "cx_puts X = puts"
  shows "\<exists>f'. on_lane_sent ev sm n (lp, c) = Some f' \<and> rested X f'"
proof -
  note t = tookD [OF assms(1)]
  let ?g = "cn_get c"
  obtain i where i: "gp_send_lane ?g = Some i" using t(9) assms(2,3) by (auto simp: fits_def split: if_splits)
  have ft: "filter is_send (own (cn_id c) (lp_sq lp)) = []" "\<forall>s \<in> set (own (cn_id c) (lp_sq lp)). \<not> is_recv s \<and> \<not> is_poll s"
    using t(9) assms(2,3) i by (auto simp: fits_def)
  let ?l = "(lane_at ?g i)\<lparr>ln_sent := ln_sent (lane_at ?g i) + n\<rparr>" and ?g1 = "set_lane i ((lane_at (cn_get c) i)\<lparr>ln_sent := ln_sent (lane_at (cn_get c) i) + n\<rparr>) (cn_get c)"
  have so: "stream_ok ?g" "\<not> hp_valid (gp_pin ?g)" "cn_inflight c + 1 = stream_ops ?g" using t(8) assms(2) by simp_all
  have h1: "held X (lp, c\<lparr>cn_get := ?g1\<rparr>)" using t(1) by (subst held_set_lane) simp_all
  have ls: "ln_ready (lane_at ?g1 j) = ln_ready (lane_at ?g j)" "ln_reads (lane_at ?g1 j) = ln_reads (lane_at ?g j)" for j
    by (rule set_lane_same [of ln_ready] set_lane_same [of ln_reads]; simp)+
  show ?thesis
  proof (cases "ln_sent ?l < ln_len ?l")
    case True
    have "flows ?g1" using so(1) by (intro flows_set_lane) (simp_all add: stream_ok_def)
    then have ok: "stream_ok ?g1" "stream_ops ?g1 = stream_ops ?g"
      using so(1) by (simp_all add: stream_ok_def stream_ops_def ls del: lane_at_set cong: option.case_cong)
    have "rested X (start_lane_send ev (lp, c\<lparr>cn_get := ?g1\<rparr>))"
      by (rule lane_send_rested [OF h1]) (use t so ok assms(2) ft i in simp_all)
    with True i show ?thesis by (simp add: on_lane_sent_def Let_def)
  next
    case False
    let ?g2 = "sent_lane i ?g1"
    have i2: "i < 2" "ln_ready (lane_at ?g i)" using so(1) i by (auto simp: stream_ok_def)
    then have nl: "0 < gp_n_lanes ?g" using so(1) by (auto simp: stream_ok_def less_2_cases_iff)
    have "held X (lp, c\<lparr>cn_get := ?g1\<rparr>\<lparr>cn_get := ?g2\<rparr>)"
      unfolding sent_lane_def Let_def by (subst held_set_lane) (use h1 in simp_all)
    then have h2: "held X (lp, c\<lparr>cn_get := ?g2\<rparr>)" by simp
    have m2: "(gp_send_i ?g + 1) mod gp_n_lanes ?g < 2" by (rule mod_lanes [OF heldD(5) [OF t(1)] nl])
    have l2: "ln_ready (lane_at ?g2 j) = ((i = 0) \<noteq> (j = 0) \<and> ln_ready (lane_at ?g j))"
      "ln_reads (lane_at ?g2 j) = (if (i = 0) = (j = 0) then 0 else ln_reads (lane_at ?g j))" for j
      by (auto simp: sent_lane_def Let_def)
    have sel: "gp_read_lane ?g2 = gp_read_lane ?g" "gp_send_lane ?g2 = None" "gp_fill_i ?g2 = gp_fill_i ?g"
      "gp_send_i ?g2 = (gp_send_i ?g + 1) mod gp_n_lanes ?g" "gp_n_lanes ?g2 = gp_n_lanes ?g" "gp_pin ?g2 = gp_pin ?g"
      by (simp_all add: sent_lane_def Let_def)
    have rd: "j < 2 \<and> (i = 0) \<noteq> (j = 0) \<and> \<not> ln_ready (lane_at ?g j) \<and> 0 < ln_reads (lane_at ?g j)" if "gp_read_lane ?g = Some j" for j
    proof -
      have r: "j < 2 \<and> \<not> ln_ready (lane_at ?g j) \<and> 0 < ln_reads (lane_at ?g j)" using so(1) that by (simp add: stream_ok_def)
      moreover have "(i = 0) \<noteq> (j = 0)" using lane_at_cong [of i j ?g] i2(2) r by metis
      ultimately show ?thesis by blast
    qed
    have fl: "flows ?g2"
    proof (rule flows_sent)
      show "flows ?g1" using so(1) by (intro flows_set_lane) (simp_all add: stream_ok_def)
      show "gp_n_lanes ?g1 = 1 \<or> gp_n_lanes ?g1 = 2" using heldD(5) [OF t(1)] nl by (auto simp: lanes_ok_def split: if_splits)
      show "gp_send_lane ?g1 = Some i" using i by simp
      show "ln_ready (lane_at ?g1 i)" using i2(2) by simp
      show "j < 2 \<and> (i = 0) \<noteq> (j = 0)" if "gp_read_lane ?g1 = Some j" for j using rd [of j] that by simp
    qed
    have "stream_ok ?g2"
    proof (cases "gp_read_lane ?g")
      case None
      then show ?thesis using so(1) fl nl m2 by (simp add: stream_ok_def sel l2)
    next
      case (Some j)
      then show ?thesis using so(1) fl nl m2 rd [OF Some] by (simp add: stream_ok_def sel l2)
    qed
    moreover have "stream_ops ?g2 + 1 = stream_ops ?g"
    proof (cases "gp_read_lane ?g")
      case None
      then show ?thesis using i by (simp add: stream_ops_def sel l2)
    next
      case (Some j)
      then show ?thesis using i rd [OF Some] by (simp add: stream_ops_def sel l2)
    qed
    moreover have "\<not> hp_valid (gp_pin ?g2)" using so(2) by (simp add: sel)
    ultimately
    have "streaming X (lp, c\<lparr>cn_get := ?g2\<rparr>)" using h2 t so(3) assms(2) ft by (simp add: streaming_def fits_def sel)
    from pump_stream_rested [OF this P, of ev] False i show ?thesis by (simp add: on_lane_sent_def Let_def)
  qed
qed

lemma on_send_rested:
  assumes "took X s (lp, c)" and "is_send s"
    and P: "cx_puts X = puts"
  shows "\<exists>f'. on_send ev sm res (lp, c) = Some f' \<and> rested X f'"
proof -
  note t = tookD [OF assms(1)]
  have closed: "rested X (lp, close_conn c)" by (rule rested_closed) (use t in simp_all)
  consider (again) "res = - EAGAIN" | (gone) "res \<le> 0" "res \<noteq> - EAGAIN" | (moved) "0 < res" by linarith
  then show ?thesis
  proof cases
    case gone
    then have "on_send ev sm res (lp, c) = Some (lp, close_conn c)" by (auto simp: on_send_def)
    with closed show ?thesis by blast
  next
    case again
    have "\<exists>f'. on_send ev sm res (lp, c) = Some f' \<and> rested X f'"
    proof (cases "cn_state c = St_get_stream")
      case True
      have "gp_send_lane (cn_get c) \<noteq> None" "filter is_send (own (cn_id c) (lp_sq lp)) = []"
        "\<forall>s \<in> set (own (cn_id c) (lp_sq lp)). \<not> is_recv s \<and> \<not> is_poll s"
        using t(9) True assms(2) by (auto simp: fits_def split: if_splits)
      from lane_send_rested [OF t(1,2) True _ _ _ _ this, of ev] t True
      have "rested X (start_lane_send ev (lp, c))" by simp
      with again True show ?thesis by (simp add: on_send_def EAGAIN_def del: split_paired_Ex)
    next
      case False
      have "rested X (start_send_head ev (lp, c))" "rested X (start_send ev (lp, c))"
        using start_held(2,3) [OF t(1,2), of ev] t False by (auto intro: rested_posts [OF _ t(1)])
      with again False show ?thesis by (simp add: on_send_def EAGAIN_def del: split_paired_Ex)
    qed
    then show ?thesis .
  next
    case moved
    let ?lp = "bump (\<lambda>s. s\<lparr>st_bytes_served := u64 (st_bytes_served s + nat res)\<rparr>) lp"
    have tk: "took X s (?lp, c)" using assms(1) by (simp add: took_def) (simp add: bump_def)
    have e: "on_send ev sm res (lp, c) =
        (if cn_state c = St_get_stream then on_lane_sent ev sm (nat res) (?lp, c)
         else if cn_state c = St_get_send_head then on_head_sent ev sm (nat res) (?lp, c)
         else on_out_sent ev sm (nat res) (?lp, c))"
      using moved by (simp add: on_send_def Let_def)
    show ?thesis
      unfolding e using on_lane_sent_rested [OF tk _ assms(2) P] on_head_sent_rested [OF tk _ P] on_out_sent_rested [OF tk _ _ P] by auto
  qed
qed

lemma on_read_rested:
  assumes "took X s (lp, c)" and "is_read s"
    and P: "cx_puts X = puts"
  shows "\<exists>f'. on_read ev sm res (lp, c) = Some f' \<and> rested X f'"
proof -
  note t = tookD [OF assms(1)]
  let ?g = "cn_get c"
  have st: "cn_state c = St_get_stream" using t(9) assms(2) by (auto simp: fits_def split: if_splits)
  have "is_read s \<Longrightarrow> \<not> is_send s" by (cases s) simp_all
  then have ft: "fits c (own (cn_id c) (lp_sq lp))" using t(9) st assms(2) by (simp add: fits_def)
  have so: "stream_ok ?g" "\<not> hp_valid (gp_pin ?g)" "cn_inflight c + 1 = stream_ops ?g" using t(8) st by simp_all
  have len: "cn_inflight c = length (own (cn_id c) (lp_sq lp))" by (rule heldD(6) [OF t(1)])
  have "length (filter is_send (own (cn_id c) (lp_sq lp))) = (if gp_send_lane ?g = None then 0 else 1)"
    using ft st by (simp add: fits_def)
  then obtain i where i: "gp_read_lane ?g = Some i"
    using so(3) len length_filter_le [of is_send "own (cn_id c) (lp_sq lp)"]
    by (cases "gp_read_lane ?g") (auto simp: stream_ops_def split: if_splits)
  define l where "l = (if res \<le> 0 then (lane_at ?g i)\<lparr>ln_err := True, ln_reads := ln_reads (lane_at ?g i) - 1\<rparr>
    else (lane_at ?g i)\<lparr>ln_reads := ln_reads (lane_at ?g i) - 1\<rparr>)"
  have i2: "i < 2" "\<not> ln_ready (lane_at ?g i)" "0 < ln_reads (lane_at ?g i)" using so(1) i by (simp_all add: stream_ok_def)
  have lsel: "ln_have l = ln_have (lane_at ?g i)" "ln_buf l = ln_buf (lane_at ?g i)" "\<not> ln_ready l"
    "ln_reads l = ln_reads (lane_at ?g i) - 1" "ln_len l = ln_len (lane_at ?g i)" using i2 by (simp_all add: l_def)
  let ?g1 = "set_lane i l ?g" and ?g2 = "(set_lane i l ?g)\<lparr>gp_read_lane := None\<rparr>"
  let ?g3 = "set_lane i (l\<lparr>ln_ready := True\<rparr>) ?g2"
  have e: "on_read ev sm res (lp, c) =
      (if ln_reads l \<noteq> 0 then Some (lp, c\<lparr>cn_get := ?g1\<rparr>)
       else if ln_err l then Some (abort_get (lp, c\<lparr>cn_get := ?g2\<rparr>))
       else pump_stream ev sm (lp, c\<lparr>cn_get := ?g3\<rparr>))"
    using i i2 t(2) by (simp add: on_read_def Let_def l_def)
  have h1: "held X (lp, c\<lparr>cn_get := ?g1\<rparr>)" by (subst held_set_lane) (simp_all add: lsel t(1))
  have "held X (lp, c\<lparr>cn_get := ?g1\<rparr>\<lparr>cn_get := ?g2\<rparr>)" by (subst held_get_cong) (use h1 in simp_all)
  then have h2: "held X (lp, c\<lparr>cn_get := ?g2\<rparr>)" by simp
  have "held X (lp, c\<lparr>cn_get := ?g2\<rparr>\<lparr>cn_get := ?g3\<rparr>)" by (subst held_set_lane) (use h2 in simp_all)
  then have h3: "held X (lp, c\<lparr>cn_get := ?g3\<rparr>)" by simp
  have snd_ne: "j < 2 \<and> ln_ready (lane_at ?g j) \<and> (i = 0) \<noteq> (j = 0)" if "gp_send_lane ?g = Some j" for j
  proof -
    from that have r: "j < 2 \<and> ln_ready (lane_at ?g j)" using so(1) by (simp add: stream_ok_def)
    moreover have "(i = 0) \<noteq> (j = 0)" using lane_at_cong [of i j ?g] i2(2) r by metis
    ultimately show ?thesis by blast
  qed
  show ?thesis
  proof (cases "ln_reads l \<noteq> 0")
    case True
    have ready: "ln_ready (lane_at ?g1 j) = ln_ready (lane_at ?g j)" for j
      by (rule set_lane_same) (simp add: lsel i2)
    have "flows ?g1" using so(1) lsel i2(2) by (intro flows_set_lane) (simp_all add: stream_ok_def)
    then have "stream_ok ?g1" using so(1) i i2 True lsel
      by (simp add: stream_ok_def ready [unfolded lane_at_set] split: option.split_asm)
    moreover have "stream_ops ?g1 = cn_inflight c" using so(3) i True lsel by (simp add: stream_ops_def)
    ultimately have "streaming X (lp, c\<lparr>cn_get := ?g1\<rparr>)" using h1 t st so ft by (simp add: streaming_def fits_def)
    moreover have "0 < cn_inflight c" using so(3) i True lsel by (simp add: stream_ops_def)
    ultimately show ?thesis using True streaming_rested by (auto simp: e)
  next
    case done0: False
    show ?thesis
    proof (cases "ln_err l")
      case True
      with done0 abort_get_held [OF h2] st show ?thesis by (simp add: e parked_def del: split_paired_Ex)
    next
      case False
      have nl: "0 < gp_n_lanes ?g" using so(1) i by (simp add: stream_ok_def)
      have "flows ?g3" using so(1) i i2(1) lsel(5) by (intro flows_read) (simp_all add: stream_ok_def)
      then have "stream_ok ?g3"
        using so(1) nl snd_ne by (auto simp: stream_ok_def split: option.splits)
      moreover have "stream_ops ?g3 = cn_inflight c"
        using so(3) i i2(3) done0 lsel by (auto simp: stream_ops_def split: if_splits)
      ultimately have "streaming X (lp, c\<lparr>cn_get := ?g3\<rparr>)" using h3 t st so ft by (simp add: streaming_def fits_def)
      from pump_stream_rested [OF this P, of ev] done0 False show ?thesis by (simp add: e)
    qed
  qed
qed

end

end
