(* ===== verification/Loop_Table.thy ===== *)
theory Loop_Table
  imports Loop_Safe
begin

text \<open>
  The invariant of the whole loop, \<open>loop_ok\<close>, and that every turn of the loop keeps it and
  returns. The connections are taken out of the table one at a time: \<open>around\<close> says what the
  others contribute.
\<close>

section \<open>Order does not matter\<close>

lemma handles_ms_mset: "handles_ms bb hs = (\<Sum>h \<in># mset hs. case sh_head h of None \<Rightarrow> {#} | Some r \<Rightarrow> {#rg_reg bb r#})"
  by (induction hs) simp_all

lemma pins_ok_mset: "mset ps = mset ps' \<Longrightarrow> pins_ok ram pins H ps = pins_ok ram pins H ps'"
proof -
  assume m: "mset ps = mset ps'"
  have "length (filter P ps) = length (filter P ps')" for P
    using m by (metis mset_filter size_mset)
  then show ?thesis unfolding pins_ok_def using mset_eq_setD [OF m] by simp
qed

lemma world_ok_mset:
  assumes "mset hs = mset hs'" and "mset ps = mset ps'"
  shows "world_ok (tm, hs, ps) = world_ok (tm, hs', ps')"
proof -
  have "handles_ms bb hs = handles_ms bb hs'" for bb by (simp only: handles_ms_mset assms(1))
  moreover have "cache_ok ram pins H R ps = cache_ok ram pins H R ps'" for ram pins H R
    by (simp add: cache_ok_def pins_ok_mset [OF assms(2)] mset_eq_length [OF assms(2)])
  moreover have "set hs = set hs'" "mset (map sh_stage hs) = mset (map sh_stage hs')"
    using mset_eq_setD [OF assms(1)] assms(1) by simp_all
  moreover from this(2) have "distinct (map sh_stage hs) = distinct (map sh_stage hs')" "set (map sh_stage hs) = set (map sh_stage hs')"
    by (metis mset_eq_imp_distinct_iff, metis mset_eq_setD)
  ultimately show ?thesis unfolding world_ok.simps by simp
qed

section \<open>The invariant\<close>

definition all_handles :: "(nat \<times> conn) list \<Rightarrow> store_handle list" where
  "all_handles cs = concat (map (\<lambda>(i, c). conn_handles c) cs)"

definition all_pins :: "(nat \<times> conn) list \<Rightarrow> head_pin list" where
  "all_pins cs = concat (map (\<lambda>(i, c). conn_pins c) cs)"

definition all_bufs :: "(nat \<times> conn) list \<Rightarrow> (nat \<times> nat) list" where
  "all_bufs cs = concat (map (\<lambda>(i, c). conn_bufs c) cs)"

lemma all_simps [simp]:
  "all_handles [] = []" "all_handles ((i, c) # cs) = conn_handles c @ all_handles cs"
  "all_handles (xs @ ys) = all_handles xs @ all_handles ys"
  "all_pins [] = []" "all_pins ((i, c) # cs) = conn_pins c @ all_pins cs" "all_pins (xs @ ys) = all_pins xs @ all_pins ys"
  "all_bufs [] = []" "all_bufs ((i, c) # cs) = conn_bufs c @ all_bufs cs" "all_bufs (xs @ ys) = all_bufs xs @ all_bufs ys"
  by (simp_all add: all_handles_def all_pins_def all_bufs_def)

text \<open>A connection of the table, by itself.\<close>

definition conn_ok :: "bool \<Rightarrow> sqe list \<Rightarrow> nat \<times> conn \<Rightarrow> bool" where
  "conn_ok puts sq = (\<lambda>(i, c). cn_id c = i \<and> lanes_ok (cn_get c) \<and> cn_inflight c = length (own i sq) \<and> shape c \<and>
     (\<not> cn_closing c \<longrightarrow> fits c (own i sq) \<and> stores_only puts c))"

text \<open>The queues hold exactly the parked connections.\<close>

definition queue_ok :: "conn_st \<Rightarrow> nat list \<Rightarrow> (nat \<times> conn) list \<Rightarrow> bool" where
  "queue_ok s ws cs \<longleftrightarrow> distinct ws \<and> (\<forall>i. i \<in> set ws \<longleftrightarrow> (\<exists>c. (i, c) \<in> set cs \<and> cn_state c = s))"

text \<open>
  \<open>puts\<close> says whether the protocol stores; \<open>hs\<close> and \<open>ps\<close> are the writers and the pins of the engine's other users: other loops, the preloader.
\<close>

definition loop_ok :: "bool \<Rightarrow> store_handle list \<Rightarrow> head_pin list \<Rightarrow> loop \<Rightarrow> bool" where
  "loop_ok puts hs ps lp \<longleftrightarrow>
     world_ok (lp_tm lp, all_handles (lp_conns lp) @ hs, all_pins (lp_conns lp) @ ps) \<and>
     length (lp_conns lp) + length ps < 2 ^ 32 \<and>
     lent (lp_iobufs lp) (set (all_bufs (lp_conns lp))) \<and> distinct (all_bufs (lp_conns lp)) \<and>
     distinct (map fst (lp_conns lp)) \<and> (\<forall>x \<in> set (lp_conns lp). conn_ok puts (lp_sq lp) x) \<and>
     (\<forall>s \<in> set (lp_sq lp). \<forall>i. sq_conn s = Some i \<longrightarrow> i \<in> fst ` set (lp_conns lp)) \<and>
     queue_ok St_set_wait (lp_set_waiters lp) (lp_conns lp) \<and> queue_ok St_get_wait (lp_get_waiters lp) (lp_conns lp)"

definition around :: "bool \<Rightarrow> store_handle list \<Rightarrow> head_pin list \<Rightarrow> ctx \<Rightarrow> (nat \<times> conn) list \<Rightarrow> (nat \<times> conn) list \<Rightarrow> bool" where
  "around puts hs ps X xs ys \<longleftrightarrow> cx_puts X = puts \<and>
     cx_hs X = all_handles (xs @ ys) @ hs \<and> cx_ps X = all_pins (xs @ ys) @ ps \<and> cx_bs X = all_bufs (xs @ ys) \<and>
     length (xs @ ys) + 1 + length ps < 2 ^ 32 \<and> distinct (map fst (xs @ ys)) \<and> cx_id X \<notin> fst ` set (xs @ ys) \<and>
     (\<exists>c. cx_conns X = xs @ (cx_id X, c) # ys) \<and> (\<forall>x \<in> set (xs @ ys). conn_ok puts (cx_sq X) x) \<and>
     (\<forall>s \<in> set (cx_sq X). \<forall>i. sq_conn s = Some i \<longrightarrow> i \<in> fst ` set (xs @ ys)) \<and>
     queue_ok St_set_wait (cx_sw X) (xs @ ys) \<and> queue_ok St_get_wait (cx_gw X) (xs @ ys)"

lemma own_others: "j \<noteq> i \<Longrightarrow> own j (filter (\<lambda>s. sq_conn s \<noteq> Some i) sq) = own j sq"
  by (auto simp: own_def intro: filter_cong)

lemma length_pins: "length (all_pins cs) \<le> length cs"
  by (induction cs) (auto simp: all_pins_def conn_pins_def)

lemma queue_ok_remove:
  assumes "queue_ok s ws (xs @ (i, c) # ys)" and "distinct (map fst (xs @ (i, c) # ys))"
  shows "queue_ok s (removeAll i ws) (xs @ ys)"
    and "removeAll i ws @ (if cn_state c = s then [i] else []) = ws \<or> cn_state c = s" and "cn_state c = s \<longleftrightarrow> i \<in> set ws"
proof -
  have d: "i \<notin> fst ` set xs" "i \<notin> fst ` set ys" using assms(2) by auto
  have e: "j \<in> set ws \<longleftrightarrow> (\<exists>d. (j, d) \<in> set (xs @ (i, c) # ys) \<and> cn_state d = s)" for j
    using assms(1) unfolding queue_ok_def by blast
  show m: "cn_state c = s \<longleftrightarrow> i \<in> set ws"
    using e [of i] d by (auto simp: image_iff)
  show "queue_ok s (removeAll i ws) (xs @ ys)"
    unfolding queue_ok_def
  proof (intro conjI allI)
    show "distinct (removeAll i ws)" using assms(1) by (simp add: queue_ok_def distinct_removeAll)
    fix j
    show "j \<in> set (removeAll i ws) \<longleftrightarrow> (\<exists>d. (j, d) \<in> set (xs @ ys) \<and> cn_state d = s)"
      using e [of j] d by (cases "j = i") (auto simp: image_iff)
  qed
  show "removeAll i ws @ (if cn_state c = s then [i] else []) = ws \<or> cn_state c = s"
    using m by (simp add: removeAll_id)
qed

text \<open>Taking a connection out of the table.\<close>

lemma loop_ok_core:
  assumes ok: "loop_ok puts hs ps lp" and cs: "lp_conns lp = xs @ (i, c) # ys"
  defines "X \<equiv> \<lparr>cx_hs = all_handles (xs @ ys) @ hs, cx_ps = all_pins (xs @ ys) @ ps, cx_bs = all_bufs (xs @ ys),
     cx_sq = filter (\<lambda>s. sq_conn s \<noteq> Some i) (lp_sq lp), cx_conns = lp_conns lp, cx_id = i,
     cx_sw = removeAll i (lp_set_waiters lp), cx_gw = removeAll i (lp_get_waiters lp), cx_puts = puts\<rparr>"
  shows "around puts hs ps X xs ys" "core X (lp, c)"
proof -
  have d: "distinct (map fst (xs @ (i, c) # ys))" using ok cs by (simp add: loop_ok_def)
  have q: "queue_ok St_set_wait (lp_set_waiters lp) (xs @ (i, c) # ys)" "queue_ok St_get_wait (lp_get_waiters lp) (xs @ (i, c) # ys)"
    using ok cs by (simp_all add: loop_ok_def)
  have co: "conn_ok puts (lp_sq lp) x" if "x \<in> set (xs @ (i, c) # ys)" for x using ok cs that by (auto simp: loop_ok_def)
  have oth: "conn_ok puts (cx_sq X) x" if "x \<in> set (xs @ ys)" for x
  proof -
    obtain j e where x: "x = (j, e)" by (cases x)
    have "j \<noteq> i" using d that by (auto simp: x image_iff)
    from own_others [OF this, of "lp_sq lp"] co [of x] that show ?thesis by (simp add: conn_ok_def x X_def)
  qed
  have sq: "j \<in> fst ` set (xs @ ys)" if "s \<in> set (cx_sq X)" "sq_conn s = Some j" for s j
  proof -
    have "j \<noteq> i" using that by (auto simp: X_def)
    moreover have "j \<in> fst ` set (xs @ (i, c) # ys)" using ok cs that by (auto simp: loop_ok_def X_def)
    ultimately show ?thesis by auto
  qed
  show "around puts hs ps X xs ys"
    unfolding around_def using ok cs d oth sq queue_ok_remove(1) [OF q(1) d] queue_ok_remove(1) [OF q(2) d]
    by (auto simp: X_def loop_ok_def)
  have w: "world_ok (lp_tm lp, conn_handles c @ cx_hs X, conn_pins c @ cx_ps X)"
    using ok world_ok_mset [of "all_handles (lp_conns lp) @ hs" "conn_handles c @ cx_hs X"
        "all_pins (lp_conns lp) @ ps" "conn_pins c @ cx_ps X" "lp_tm lp"]
    by (simp add: loop_ok_def cs X_def)
  have b: "mset (all_bufs (lp_conns lp)) = mset (conn_bufs c @ cx_bs X)" by (simp add: cs X_def)
  have "lent (lp_iobufs lp) (set (conn_bufs c @ cx_bs X))" "distinct (conn_bufs c @ cx_bs X)"
    using ok mset_eq_setD [OF b] mset_eq_imp_distinct_iff [OF b] by (simp_all add: loop_ok_def)
  moreover have "length (cx_ps X) + 1 < 2 ^ 32"
    using ok length_pins [of xs] length_pins [of ys] by (simp add: loop_ok_def cs X_def)
  ultimately show "core X (lp, c)" using w co [of "(i, c)"] by (simp add: core_def conn_ok_def X_def)
qed

text \<open>Putting it back, or destroying it.\<close>

lemma update_mid: "i \<notin> fst ` set xs \<Longrightarrow> AList.update i v (xs @ (i, c) # ys) = xs @ (i, v) # ys"
  by (induction xs) auto

lemma delete_mid: "i \<notin> fst ` set xs \<Longrightarrow> i \<notin> fst ` set ys \<Longrightarrow> AList.delete i (xs @ (i, c) # ys) = xs @ ys"
proof -
  assume a: "i \<notin> fst ` set xs" "i \<notin> fst ` set ys"
  then have "filter (\<lambda>(k, _). i \<noteq> k) xs = xs" "filter (\<lambda>(k, _). i \<noteq> k) ys = ys"
    by (auto intro!: filter_True simp: image_iff)
  then show ?thesis by (simp add: AList.delete_eq)
qed

lemma queue_ok_add:
  assumes "queue_ok s ws (xs @ ys)" and "i \<notin> fst ` set (xs @ ys)"
  shows "queue_ok s (ws @ (if cn_state c = s then [i] else [])) (xs @ (i, c) # ys)"
proof -
  have e: "j \<in> set ws \<longleftrightarrow> (\<exists>d. (j, d) \<in> set (xs @ ys) \<and> cn_state d = s)" for j
    using assms(1) unfolding queue_ok_def by blast
  have "i \<notin> set ws" using e [of i] assms(2) by (force simp: image_iff)
  moreover have "distinct ws" using assms(1) by (simp add: queue_ok_def)
  ultimately show ?thesis using e unfolding queue_ok_def by auto
qed

lemma aroundD:
  assumes "around puts hs ps X xs ys" and "core X (lp, c)"
  shows "cn_id c \<notin> fst ` set xs" "cn_id c \<notin> fst ` set ys" "\<exists>c0. lp_conns lp = xs @ (cn_id c, c0) # ys"
    "\<And>x. x \<in> set (xs @ ys) \<Longrightarrow> conn_ok puts (lp_sq lp) x"
    "\<And>s j. s \<in> set (lp_sq lp) \<Longrightarrow> sq_conn s = Some j \<Longrightarrow> j = cn_id c \<or> j \<in> fst ` set (xs @ ys)"
    "world_ok (lp_tm lp, all_handles (xs @ (cn_id c, c) # ys) @ hs, all_pins (xs @ (cn_id c, c) # ys) @ ps)"
    "lent (lp_iobufs lp) (set (all_bufs (xs @ (cn_id c, c) # ys)))" "distinct (all_bufs (xs @ (cn_id c, c) # ys))"
proof -
  let ?i = "cn_id c"
  have id: "cx_id X = ?i" and cq: "filter (\<lambda>s. sq_conn s \<noteq> Some ?i) (lp_sq lp) = cx_sq X"
    using assms(2) by (auto simp: core_def)
  show n: "cn_id c \<notin> fst ` set xs" "cn_id c \<notin> fst ` set ys" using assms(1) id by (auto simp: around_def)
  show "\<exists>c0. lp_conns lp = xs @ (cn_id c, c0) # ys" using assms id by (auto simp: around_def core_def)
  show "conn_ok puts (lp_sq lp) x" if "x \<in> set (xs @ ys)" for x
  proof -
    obtain j e where x: "x = (j, e)" by (cases x)
    have "j \<noteq> ?i" using n that by (auto simp: x image_iff)
    moreover have "conn_ok puts (cx_sq X) x" using that assms(1) unfolding around_def by blast
    ultimately show ?thesis using own_others [of j ?i "lp_sq lp"] by (simp add: conn_ok_def x cq)
  qed
  show "j = cn_id c \<or> j \<in> fst ` set (xs @ ys)" if "s \<in> set (lp_sq lp)" "sq_conn s = Some j" for s j
  proof (cases "j = ?i")
    case False
    then have "s \<in> set (cx_sq X)" using that unfolding cq [symmetric] by simp
    with that(2) assms(1) show ?thesis unfolding around_def by blast
  qed simp
  show "world_ok (lp_tm lp, all_handles (xs @ (cn_id c, c) # ys) @ hs, all_pins (xs @ (cn_id c, c) # ys) @ ps)"
    using assms world_ok_mset [of "all_handles (xs @ (?i, c) # ys) @ hs" "conn_handles c @ cx_hs X"
        "all_pins (xs @ (?i, c) # ys) @ ps" "conn_pins c @ cx_ps X" "lp_tm lp"]
    by (simp add: around_def core_def)
  have b: "mset (all_bufs (xs @ (?i, c) # ys)) = mset (conn_bufs c @ cx_bs X)" using assms(1) by (simp add: around_def)
  show "lent (lp_iobufs lp) (set (all_bufs (xs @ (cn_id c, c) # ys)))" "distinct (all_bufs (xs @ (cn_id c, c) # ys))"
    using assms(2) mset_eq_setD [OF b] mset_eq_imp_distinct_iff [OF b] by (simp_all add: core_def)
qed

lemma put_conn_ok:
  assumes a: "around puts hs ps X xs ys" and r: "rested X (lp, c)"
  shows "loop_ok puts hs ps (put_conn (lp, c))"
proof -
  let ?i = "cn_id c"
  have co: "core X (lp, c)" using r by (simp add: rested_def)
  note d = aroundD [OF a co]
  have id: "cx_id X = ?i" using co by (auto simp: core_def)
  obtain c0 where c0: "lp_conns lp = xs @ (?i, c0) # ys" using d(3) by blast
  have cs: "lp_conns (put_conn (lp, c)) = xs @ (?i, c) # ys" using update_mid [OF d(1)] by (simp add: put_conn_def c0)
  have pu: "cx_puts X = puts" using a by (simp add: around_def)
  have me: "conn_ok puts (lp_sq lp) (?i, c)" using r pu by (auto simp: rested_def core_def conn_ok_def)
  have all: "conn_ok puts (lp_sq lp) x" if "x \<in> set (xs @ (?i, c) # ys)" for x using that d(4) [of x] me by auto
  have sq: "j \<in> fst ` set (xs @ (?i, c) # ys)" if "s \<in> set (lp_sq lp)" "sq_conn s = Some j" for s j using d(5) [OF that] by auto
  have q: "queue_ok St_set_wait (lp_set_waiters lp) (xs @ (?i, c) # ys)" "queue_ok St_get_wait (lp_get_waiters lp) (xs @ (?i, c) # ys)"
    using r a queue_ok_add [of _ _ xs ys ?i c] id by (auto simp: rested_def around_def)
  have n: "distinct (map fst (xs @ (?i, c) # ys))" "length (xs @ (?i, c) # ys) + length ps < 2 ^ 32"
    using a id by (auto simp: around_def)
  have f: "lp_tm (put_conn (lp, c)) = lp_tm lp" "lp_iobufs (put_conn (lp, c)) = lp_iobufs lp" "lp_sq (put_conn (lp, c)) = lp_sq lp"
    "lp_set_waiters (put_conn (lp, c)) = lp_set_waiters lp" "lp_get_waiters (put_conn (lp, c)) = lp_get_waiters lp"
    by (simp_all add: put_conn_def)
  show ?thesis unfolding loop_ok_def cs f using d(6-8) all sq q n by blast
qed

lemma retire_ok:
  assumes a: "around puts hs ps X xs ys" and r: "rested X (lp, c)"
  shows "loop_ok puts hs ps (retire ev (lp, c))"
proof (cases "cn_closing c \<and> cn_inflight c = 0")
  case False
  then have "retire ev (lp, c) = put_conn (lp, c)" by (simp only: retire_def prod.case if_False)
  with put_conn_ok [OF a r] show ?thesis by simp
next
  case True
  have np: "\<not> parked (cn_state c)" using r True by (auto simp: rested_def shape_def)
  have h: "held X (lp, c)" using r np by (auto simp: rested_def held_def parked_def)
  from release_lanes_held [OF h] obtain lp1 g1 where r1: "release_lanes (lp, c) = (lp1, c\<lparr>cn_get := g1\<rparr>)"
    "held X (lp1, c\<lparr>cn_get := g1\<rparr>)" "\<not> ln_have (lane_at g1 0)" "\<not> ln_have (lane_at g1 1)" by metis
  let ?g2 = "g1\<lparr>gp_pin := (gp_pin g1)\<lparr>hp_valid := False\<rparr>\<rparr>"
  from unpin_held [OF r1(2)] obtain lp2 where u: "unpin_if_held (lp1, c\<lparr>cn_get := g1\<rparr>) = (lp2, c\<lparr>cn_get := ?g2\<rparr>)"
    "held X (lp2, c\<lparr>cn_get := ?g2\<rparr>)" by auto
  let ?c2 = "c\<lparr>cn_get := ?g2\<rparr>" and ?lp2 = "bump (\<lambda>s. s\<lparr>st_curr_conns := u64 (st_curr_conns s + (2 ^ 64 - 1))\<rparr>) lp2"
  have h2: "held X (?lp2, ?c2)" using u(2) by simp
  obtain lp3 where
    z: "reset_sh ev (?lp2, ?c2) = (lp3, ?c2\<lparr>cn_put := (cn_put ?c2)\<lparr>pp_sh := None\<rparr>\<rparr>)"
    "held X (lp3, ?c2\<lparr>cn_put := (cn_put ?c2)\<lparr>pp_sh := None\<rparr>\<rparr>)" by (rule reset_sh_held [OF h2, of ev])
  let ?c3 = "?c2\<lparr>cn_put := (cn_put ?c2)\<lparr>pp_sh := None\<rparr>\<rparr>"
  have e: "retire ev (lp, c) = lp3\<lparr>lp_conns := AList.delete (cn_id c) (lp_conns lp3)\<rparr>"
    unfolding retire_def prod.case if_P [OF True] r1(1) u(1) Let_def z(1) by simp
  have co: "core X (lp3, ?c3)" using z(2) by (simp add: held_def)
  note d = aroundD [OF a co]
  have id: "cx_id X = cn_id c" "lp_set_waiters lp3 = cx_sw X" "lp_get_waiters lp3 = cx_gw X"
    using z(2) by (auto simp: held_def core_def)
  obtain c0 where "lp_conns lp3 = xs @ (cn_id c, c0) # ys" using d(3) by auto
  then have cs: "AList.delete (cn_id c) (lp_conns lp3) = xs @ ys" using d(1,2) by (simp add: delete_mid)
  have none: "conn_handles ?c3 = []" "conn_pins ?c3 = []" "conn_bufs ?c3 = []"
    using r1(3,4) by (simp_all add: conn_handles_def conn_pins_def conn_bufs_def lane_bufs_def)
  have "own (cn_id c) (lp_sq lp3) = []" using co True by (auto simp: core_def)
  then have sq: "j \<in> fst ` set (xs @ ys)" if "s \<in> set (lp_sq lp3)" "sq_conn s = Some j" for s j
    using d(5) [OF that] that by (auto simp: own_def filter_empty_conv)
  have w: "world_ok (lp_tm lp3, all_handles (xs @ ys) @ hs, all_pins (xs @ ys) @ ps)"
    "lent (lp_iobufs lp3) (set (all_bufs (xs @ ys)))" "distinct (all_bufs (xs @ ys))"
    using d(6-8) unfolding all_simps none append_Nil append_Nil2 conn.simps by (simp_all add: none)
  show ?thesis unfolding loop_ok_def e cs loop.simps id(2,3)
    using w d(4) sq a by (auto simp: around_def id)
qed

text \<open>A connection in focus that is in no queue.\<close>

lemma loop_ok_focus:
  assumes ok: "loop_ok puts hs ps lp" and m: "map_of (lp_conns lp) i = Some c"
  obtains X xs ys where "around puts hs ps X xs ys" "cx_id X = i" "core X (lp, c)" "conn_ok puts (lp_sq lp) (i, c)"
    "cx_sw X = removeAll i (lp_set_waiters lp)" "cx_gw X = removeAll i (lp_get_waiters lp)"
    "lp_set_waiters lp = cx_sw X \<or> cn_state c = St_set_wait" "lp_get_waiters lp = cx_gw X \<or> cn_state c = St_get_wait"
proof -
  obtain xs ys where cs: "lp_conns lp = xs @ (i, c) # ys" using map_of_SomeD [OF m] by (metis split_list)
  have d: "distinct (map fst (xs @ (i, c) # ys))" and q: "queue_ok St_set_wait (lp_set_waiters lp) (xs @ (i, c) # ys)"
    "queue_ok St_get_wait (lp_get_waiters lp) (xs @ (i, c) # ys)" and c: "conn_ok puts (lp_sq lp) (i, c)"
    using ok cs by (auto simp: loop_ok_def)
  note k = queue_ok_remove(3) [OF q(1) d] queue_ok_remove(3) [OF q(2) d]
  show thesis
    by (rule that [OF loop_ok_core(1) [OF ok cs] _ loop_ok_core(2) [OF ok cs]]) (use k c in \<open>auto simp: removeAll_id\<close>)
qed


section \<open>A completion\<close>

lemma fits_mset: "mset os = mset os' \<Longrightarrow> fits c os = fits c os'"
proof -
  assume m: "mset os = mset os'"
  have "length (filter is_send os) = length (filter is_send os')" by (metis m mset_filter size_mset)
  with mset_eq_setD [OF m] show ?thesis by (simp add: fits_def)
qed

lemma own_remove: "sq_conn s = Some i \<Longrightarrow> own i (remove1 s sq) = remove1 s (own i sq)"
  by (induction sq) (auto simp: own_def)

lemma others_remove:
  "sq_conn s = Some i \<Longrightarrow> filter (\<lambda>t. sq_conn t \<noteq> Some i) (remove1 s sq) = filter (\<lambda>t. sq_conn t \<noteq> Some i) sq"
  by (induction sq) auto

lemma kernel_effect_upd: "\<exists>m. kernel_effect s res lp = lp\<lparr>lp_mem := m\<rparr>"
proof (cases "(s, res, lp)" rule: kernel_effect.cases)
  case (1 i ino off a n res lp)
  then show ?thesis by auto
qed (auto intro!: exI [of _ "lp_mem lp"])

lemma core_mem [simp]: "core X (lp\<lparr>lp_mem := m\<rparr>, c) = core X (lp, c)"
  by (simp add: core_def)

text \<open>The completed operation is off the ring and off the count.\<close>

lemma took_op_core:
  assumes co: "core X (lp, c)" and s: "s \<in> set (lp_sq lp)" "sq_conn s = Some (cn_id c)"
  shows "core X (kernel_effect s res (lp\<lparr>lp_sq := remove1 s (lp_sq lp)\<rparr>), took_op ev res c)"
    and "0 < cn_inflight c"
    and "mset (s # own (cn_id c) (remove1 s (lp_sq lp))) = mset (own (cn_id c) (lp_sq lp))"
proof -
  have m: "s \<in> set (own (cn_id c) (lp_sq lp))" using s by (simp add: own_def)
  then show i: "0 < cn_inflight c" using co by (auto simp: core_def)
  show "mset (s # own (cn_id c) (remove1 s (lp_sq lp))) = mset (own (cn_id c) (lp_sq lp))"
    using m s by (simp add: own_remove)
  obtain mem where k: "kernel_effect s res (lp\<lparr>lp_sq := remove1 s (lp_sq lp)\<rparr>) = lp\<lparr>lp_sq := remove1 s (lp_sq lp)\<rparr>\<lparr>lp_mem := mem\<rparr>"
    using kernel_effect_upd by blast
  have own: "conn_handles (took_op ev res c) = conn_handles c" "conn_pins (took_op ev res c) = conn_pins c"
    "conn_bufs (took_op ev res c) = conn_bufs c" "cn_get (took_op ev res c) = cn_get c" "cn_id (took_op ev res c) = cn_id c"
    "cn_inflight (took_op ev res c) = cn_inflight c - 1"
    by (simp_all add: took_op_def conn_handles_def conn_pins_def conn_bufs_def)
  have "length (own (cn_id c) (remove1 s (lp_sq lp))) = length (own (cn_id c) (lp_sq lp)) - 1"
    using m s by (simp add: own_remove length_remove1)
  then show "core X (kernel_effect s res (lp\<lparr>lp_sq := remove1 s (lp_sq lp)\<rparr>), took_op ev res c)"
    unfolding k using co s(2) by (auto simp: core_def own others_remove)
qed

text \<open>A socket that has been closed moves no more bytes.\<close>

definition closed_moves_nothing :: "loop \<Rightarrow> cqe \<Rightarrow> bool" where
  "closed_moves_nothing lp = (\<lambda>(s, res, data). \<forall>i c. sq_conn s = Some i \<longrightarrow> map_of (lp_conns lp) i = Some c \<longrightarrow>
     cn_closing c \<longrightarrow> is_send s \<or> is_recv s \<longrightarrow> res \<le> 0)"

section \<open>A new connection\<close>

lemma queue_ok_new: "queue_ok s ws cs \<Longrightarrow> cn_state c \<noteq> s \<Longrightarrow> i \<notin> fst ` set cs \<Longrightarrow> queue_ok s ws (cs @ [(i, c)])"
  using queue_ok_add [of s ws cs "[]" i c] by simp

lemma own_none: "\<forall>s \<in> set sq. \<forall>j. sq_conn s = Some j \<longrightarrow> j \<in> A \<Longrightarrow> i \<notin> A \<Longrightarrow> own i sq = []"
  by (auto simp: own_def filter_empty_conv)

lemma update_new: "i \<notin> fst ` set xs \<Longrightarrow> AList.update i v xs = xs @ [(i, v)]"
  by (induction xs) auto

lemma start_recv_conns:
  "start_recv ev (lp\<lparr>lp_conns := cs\<rparr>, c) = (case start_recv ev (lp, c) of (lp, c) \<Rightarrow> (lp\<lparr>lp_conns := cs\<rparr>, c))"
  "lp_conns (fst (start_recv ev (lp, c))) = lp_conns lp" "cn_id (snd (start_recv ev (lp, c))) = cn_id c"
  by (simp_all add: start_recv_def post_def submit_def close_conn_def)

lemma arm_accept_ok: "loop_ok puts hs ps lp \<Longrightarrow> loop_ok puts hs ps (arm_accept ev lp)"
  by (auto simp: arm_accept_def submit_def loop_ok_def conn_ok_def own_def)

lemma arm_accept_upd: "\<exists>sq. arm_accept ev lp = lp\<lparr>lp_sq := sq\<rparr>"
  by (auto simp: arm_accept_def submit_def intro: exI [of _ "lp_sq lp"])

lemma loop_ok_bump [simp]: "loop_ok puts hs ps (bump f lp) = loop_ok puts hs ps lp"
  by (simp add: loop_ok_def bump_def)

lemma new_conn_owns: "conn_handles (new_conn i fd now) = []" "conn_pins (new_conn i fd now) = []" "conn_bufs (new_conn i fd now) = []"
  by (simp_all add: new_conn_def conn_handles_def conn_pins_def conn_bufs_def lane_bufs_def lane_at_def new_lane_def no_pin_def)

lemma new_conn_rests:
  "calm (cn_get (new_conn i fd now))" "quiet (cn_get (new_conn i fd now))" "lanes_ok (cn_get (new_conn i fd now))"
  "pp_sh (cn_put (new_conn i fd now)) = None"
  by (simp_all add: new_conn_def calm_def quiet_def lanes_ok_def lane_at_def new_lane_def no_pin_def)

lemma add_conn_ok:
  assumes ok: "loop_ok puts hs ps lp" and n: "i \<notin> fst ` set (lp_conns lp)" and len: "length (lp_conns lp) + 1 + length ps < 2 ^ 32"
  shows "loop_ok puts hs ps (put_conn (start_recv ev (lp, new_conn i fd now)))"
proof -
  let ?c = "new_conn i fd now" and ?cs = "lp_conns lp"
  let ?lp = "lp\<lparr>lp_conns := ?cs @ [(i, ?c)]\<rparr>"
  let ?X = "\<lparr>cx_hs = all_handles ?cs @ hs, cx_ps = all_pins ?cs @ ps, cx_bs = all_bufs ?cs, cx_sq = lp_sq lp,
    cx_conns = ?cs @ [(i, ?c)], cx_id = i, cx_sw = lp_set_waiters lp, cx_gw = lp_get_waiters lp, cx_puts = puts\<rparr>"
  have idc: "cn_id ?c = i" "\<not> cn_closing ?c" "cn_inflight ?c = 0" "cn_state ?c = St_idle" by (simp_all add: new_conn_def)
  have sq: "\<forall>s \<in> set (lp_sq lp). \<forall>j. sq_conn s = Some j \<longrightarrow> j \<in> fst ` set ?cs" using ok by (simp add: loop_ok_def)
  have o: "own i (lp_sq lp) = []" by (rule own_none [OF sq n])
  then have f: "filter (\<lambda>s. sq_conn s \<noteq> Some i) (lp_sq lp) = lp_sq lp"
    by (auto simp: own_def filter_empty_conv intro!: filter_True)
  have a: "around puts hs ps ?X ?cs []" using ok n len sq by (auto simp: around_def loop_ok_def)
  have h: "held ?X (?lp, ?c)"
    using ok len length_pins [of ?cs] f by (simp add: held_def core_def loop_ok_def new_conn_owns new_conn_rests idc o)
  have "posts ?X (?lp, ?c) (Sq_recv (cn_id ?c)) (start_recv ev (?lp, ?c))" by (rule start_held(1) [OF h idc(2)])
  then have r: "rested ?X (start_recv ev (?lp, ?c))"
    by (rule rested_posts [OF _ h]) (simp_all add: idc new_conn_rests parked_def stores_only_def)
  obtain lp1 c1 where s: "start_recv ev (lp, ?c) = (lp1, c1)" by (metis surj_pair)
  have s2: "lp_conns lp1 = ?cs" "cn_id c1 = i" using start_recv_conns(2,3) [of ev lp ?c] s idc by simp_all
  have "put_conn (lp1\<lparr>lp_conns := ?cs @ [(i, ?c)]\<rparr>, c1) = put_conn (lp1, c1)"
    using n by (simp add: put_conn_def s2 update_new update_mid)
  moreover have "start_recv ev (?lp, ?c) = (lp1\<lparr>lp_conns := ?cs @ [(i, ?c)]\<rparr>, c1)" by (simp add: start_recv_conns(1) s)
  ultimately show ?thesis using put_conn_ok [of puts hs ps ?X ?cs "[]"] a r s by metis
qed

lemma on_accept_ok:
  assumes "loop_ok puts hs ps lp" and "i \<notin> fst ` set (lp_conns lp)" and "length (lp_conns lp) + 1 + length ps < 2 ^ 32"
  shows "loop_ok puts hs ps (on_accept ev i res lp)"
proof -
  obtain sq where sq: "arm_accept ev lp = lp\<lparr>lp_sq := sq\<rparr>" using arm_accept_upd by blast
  let ?f = "\<lambda>s. s\<lparr>st_conns := u64 (st_conns s + 1), st_curr_conns := u64 (st_curr_conns s + 1)\<rparr>"
  let ?lp = "bump ?f (arm_accept ev lp)"
  have "lp_conns ?lp = lp_conns lp" by (simp add: bump_def sq)
  then have "loop_ok puts hs ps (put_conn (start_recv ev (?lp, new_conn i (nat res) (ev_clock ev))))"
    using add_conn_ok [of puts hs ps ?lp i] assms arm_accept_ok [OF assms(1), of ev] by simp
  with assms(1) arm_accept_ok [OF assms(1), of ev] show ?thesis by (auto simp: on_accept_def Let_def)
qed

text \<open>
  What the kernel promises of a completion: it answers an operation on the ring, and a new
  connection is stored where no other is.
\<close>

definition completes :: "head_pin list \<Rightarrow> loop \<Rightarrow> nat \<Rightarrow> cqe \<Rightarrow> bool" where
  "completes ps lp new_id q \<longleftrightarrow> fst q \<in> set (lp_sq lp) \<and> closed_moves_nothing lp q \<and>
     (sq_conn (fst q) = None \<longrightarrow> new_id \<notin> fst ` set (lp_conns lp) \<and> length (lp_conns lp) + 1 + length ps < 2 ^ 32)"

context protocol_seams
begin

lemma on_op_closing:
  assumes h: "held X (lp, c)" and cl: "cn_closing c" and np: "\<not> parked (cn_state c)" and r: "is_send s \<or> is_recv s \<longrightarrow> res \<le> 0"
  shows "\<exists>f'. on_op ev sm (s, res, data) (lp, c) = Some f' \<and> rested X f'"
proof -
  have same: "rested X (lp, c)" "close_conn c = c" using h cl np by (simp_all add: rested_closed close_conn_def)
  show ?thesis
  proof (cases s)
    case Sq_accept
    with same show ?thesis by (auto simp: on_op_def)
  next
    case (Sq_recv i)
    with same r show ?thesis by (auto simp: on_op_def on_recv_def)
  next
    case (Sq_send i src)
    with r have "on_send ev sm res (lp, c) = Some (lp, c)"
      using cl same(2) by (auto simp: on_send_def start_send_def start_lane_send_def start_send_head_def)
    with Sq_send same show ?thesis by (auto simp: on_op_def)
  next
    case (Sq_poll i pe)
    with same show ?thesis by (auto simp: on_op_def on_poll_def)
  next
    case (Sq_read i fd off a n)
    show ?thesis
    proof (cases "gp_read_lane (cn_get c)")
      case None
      with Sq_read same show ?thesis by (auto simp: on_op_def on_read_def)
    next
      case (Some j)
      define l where "l = (let l = lane_at (cn_get c) j; l = (if res \<le> 0 then l\<lparr>ln_err := True\<rparr> else l)
        in if ln_reads l \<noteq> 0 then l\<lparr>ln_reads := ln_reads l - 1\<rparr> else l)"
      have ls: "ln_have l = ln_have (lane_at (cn_get c) j)" "ln_buf l = ln_buf (lane_at (cn_get c) j)"
        by (simp_all add: l_def Let_def)
      let ?g = "set_lane j l (cn_get c)"
      have h1: "held X (lp, c\<lparr>cn_get := ?g\<rparr>)" by (subst held_set_lane) (simp_all add: ls h)
      have "held X (lp, c\<lparr>cn_get := ?g\<rparr>\<lparr>cn_get := ?g\<lparr>gp_read_lane := None\<rparr>\<rparr>)"
        by (subst held_get_cong) (use h1 in simp_all)
      then have "rested X (lp, c\<lparr>cn_get := ?g\<lparr>gp_read_lane := None\<rparr>\<rparr>)" "rested X (lp, c\<lparr>cn_get := ?g\<rparr>)"
        using h1 cl np by (simp_all add: rested_closed)
      moreover have "on_read ev sm res (lp, c) =
          Some (lp, if ln_reads l \<noteq> 0 then c\<lparr>cn_get := ?g\<rparr> else c\<lparr>cn_get := ?g\<lparr>gp_read_lane := None\<rparr>\<rparr>)"
        using Some cl by (simp add: on_read_def l_def Let_def)
      ultimately show ?thesis using Sq_read by (auto simp: on_op_def)
    qed
  qed
qed

lemma on_op_took:
  assumes t: "took X s (lp, c)" and s: "s \<noteq> Sq_accept" and P: "cx_puts X = puts"
  shows "\<exists>f'. on_op ev sm (s, res, data) (lp, c) = Some f' \<and> rested X f'"
proof (cases s)
  case (Sq_recv i)
  have "cn_state c = St_idle \<or> cn_state c = St_set_body"
    using tookD(9) [OF t] Sq_recv by (auto simp: fits_def split: if_splits)
  from on_recv_rested [OF t this P] Sq_recv show ?thesis by (simp add: on_op_def)
next
  case (Sq_send i src)
  then show ?thesis using on_send_rested [OF t _ P] by (simp add: on_op_def)
next
  case (Sq_read i fd off a n)
  then show ?thesis using on_read_rested [OF t _ P] by (simp add: on_op_def)
next
  case (Sq_poll i pe)
  then show ?thesis using tookD(9) [OF t] by (simp add: fits_def)
qed (use s in simp)

lemma dispatch_conn_ok:
  assumes ok: "loop_ok puts hs ps lp" and s: "s \<in> set (lp_sq lp)" "sq_conn s = Some i"
    and nm: "closed_moves_nothing lp (s, res, data)"
  shows "\<exists>lp'. dispatch ev sm new_id (s, res, data) lp = Some lp' \<and> loop_ok puts hs ps lp'"
proof -
  have "i \<in> fst ` set (lp_conns lp)" using ok s by (auto simp: loop_ok_def)
  then obtain c where m: "map_of (lp_conns lp) i = Some c" by (cases "map_of (lp_conns lp) i") (auto simp: map_of_eq_None_iff)
  obtain X xs ys where X: "around puts hs ps X xs ys" "cx_id X = i" "core X (lp, c)" "conn_ok puts (lp_sq lp) (i, c)"
    "lp_set_waiters lp = cx_sw X \<or> cn_state c = St_set_wait" "lp_get_waiters lp = cx_gw X \<or> cn_state c = St_get_wait"
    by (rule loop_ok_focus [OF ok m])
  let ?lp = "kernel_effect s res (lp\<lparr>lp_sq := remove1 s (lp_sq lp)\<rparr>)" and ?c = "took_op ev res c"
  have id: "cn_id c = i" "shape c" "\<not> cn_closing c \<longrightarrow> fits c (own i (lp_sq lp)) \<and> stores_only puts c" using X(4) by (simp_all add: conn_ok_def)
  note t = took_op_core [OF X(3) s(1) s(2) [folded id(1)]]
  have np: "\<not> parked (cn_state c)" using id(2) t(2) by (auto simp: shape_def want_ops_def)
  obtain mem where k: "?lp = lp\<lparr>lp_sq := remove1 s (lp_sq lp)\<rparr>\<lparr>lp_mem := mem\<rparr>" using kernel_effect_upd by blast
  have h: "held X (?lp, ?c)" using t(1) [of res ev] X(5,6) np by (auto simp: held_def k parked_def)
  have "\<exists>f'. on_op ev sm (s, res, data) (?lp, ?c) = Some f' \<and> rested X f'"
  proof (cases "cn_closing c")
    case True
    show ?thesis by (rule on_op_closing [OF h])
      (use True np nm m s(2) in \<open>auto simp: took_op_def closed_moves_nothing_def\<close>)
  next
    case False
    have e: "?c\<lparr>cn_inflight := cn_inflight ?c + 1\<rparr> = c\<lparr>cn_last_progress := cn_last_progress ?c\<rparr>"
      using t(2) by (simp add: took_op_def)
    have sh: "shape (?c\<lparr>cn_inflight := cn_inflight ?c + 1\<rparr>)" unfolding e using id(2) by (simp add: shape_def want_ops_def)
    have "fits c (s # own i (remove1 s (lp_sq lp)))" using id(1,3) False fits_mset [OF t(3)] by simp
    moreover have "fits ?c os = fits c os" "cn_id ?c = i" for os by (simp_all add: fits_def took_op_def id(1))
    ultimately have "fits ?c (s # own (cn_id ?c) (lp_sq ?lp))" by (simp add: k)
    moreover have P: "cx_puts X = puts" using X(1) by (simp add: around_def)
    moreover have "stores_only puts ?c" using id(3) False by (simp add: took_op_def)
    ultimately have "took X s (?lp, ?c)" using h sh False by (simp add: took_def) (simp add: took_op_def)
    then show ?thesis by (rule on_op_took) (use s P in auto)
  qed
  then obtain lp1 c1 where r: "on_op ev sm (s, res, data) (?lp, ?c) = Some (lp1, c1)" "rested X (lp1, c1)" by auto
  have "map_of (lp_conns ?lp) i = Some c" using m by (simp add: k)
  then have "dispatch ev sm new_id (s, res, data) lp = Some (retire ev (lp1, c1))"
    unfolding dispatch_def using r(1) s(2) by (simp add: Let_def)
  with retire_ok [OF X(1) r(2)] show ?thesis by simp
qed

lemma dispatch_ok:
  assumes ok: "loop_ok puts hs ps lp" and q: "completes ps lp new_id q"
  shows "\<exists>lp'. dispatch ev sm new_id q lp = Some lp' \<and> loop_ok puts hs ps lp'"
proof -
  obtain s res data where e: "q = (s, res, data)" by (cases q)
  show ?thesis
  proof (cases "sq_conn s")
    case (Some i)
    with dispatch_conn_ok [OF ok _ Some] q show ?thesis by (simp add: e completes_def)
  next
    case None
    then have s: "s = Sq_accept" by (cases s) simp_all
    let ?lp = "lp\<lparr>lp_sq := remove1 Sq_accept (lp_sq lp)\<rparr>"
    have "own j (remove1 Sq_accept sq) = own j sq" for j sq by (induction sq) (auto simp: own_def)
    then have "loop_ok puts hs ps ?lp" using ok by (auto simp: loop_ok_def conn_ok_def dest: notin_set_remove1)
    from on_accept_ok [OF this, of new_id ev res] q None show ?thesis by (simp add: e completes_def dispatch_def s)
  qed
qed

end

section \<open>Waking the parked\<close>

text \<open>What the drains consume: input not yet read, and places in the queue.\<close>

definition unread :: "loop \<Rightarrow> nat" where
  "unread lp = (\<Sum>(i, c) \<leftarrow> lp_conns lp. length (cn_in c))"

lemma unread_mid: "unread (lp\<lparr>lp_conns := xs @ (i, c) # ys\<rparr>) = length (cn_in c) + unread (lp\<lparr>lp_conns := xs @ ys\<rparr>)"
  by (simp add: unread_def)

lemma unread_cong: "lp_conns lp' = lp_conns lp \<Longrightarrow> unread lp' = unread lp"
  by (simp add: unread_def)

text \<open>The connection at the front of a queue.\<close>

lemma parked_front:
  assumes ok: "loop_ok puts hs ps lp" and q: "lp_set_waiters lp = i # ws \<and> st = St_set_wait \<or> lp_get_waiters lp = i # ws \<and> st = St_get_wait"
  obtains c X xs ys where "map_of (lp_conns lp) i = Some c" "lp_conns lp = xs @ (i, c) # ys" "cn_state c = st"
    "around puts hs ps X xs ys" "core X (lp, c)" "cn_id c = i" "cn_inflight c = 0" "pp_sh (cn_put c) = None" "calm (cn_get c)" "quiet (cn_get c)"
    "\<not> cn_closing c" "st = St_set_wait \<longrightarrow> cx_sw X = ws \<and> cx_gw X = lp_get_waiters lp"
    "st = St_get_wait \<longrightarrow> cx_gw X = ws \<and> cx_sw X = lp_set_waiters lp" "stores_only puts c"
proof -
  have qs: "queue_ok St_set_wait (lp_set_waiters lp) (lp_conns lp)" "queue_ok St_get_wait (lp_get_waiters lp) (lp_conns lp)"
    and d: "distinct (map fst (lp_conns lp))" using ok by (simp_all add: loop_ok_def)
  have "\<exists>c. (i, c) \<in> set (lp_conns lp) \<and> cn_state c = st"
    using q qs unfolding queue_ok_def by (metis list.set_intros(1))
  then obtain c where c: "(i, c) \<in> set (lp_conns lp)" "cn_state c = st" by blast
  then obtain xs ys where cs: "lp_conns lp = xs @ (i, c) # ys" by (metis split_list)
  note k = loop_ok_core [OF ok cs]
  have co: "conn_ok puts (lp_sq lp) (i, c)" using ok c by (auto simp: loop_ok_def)
  have "parked (cn_state c)" "cn_state c \<noteq> St_set_body" "cn_state c \<noteq> St_get_stream" "cn_state c \<noteq> St_get_trailer"
    using q c(2) by (auto simp: parked_def)
  then have sh: "\<not> cn_closing c" "cn_inflight c = 0" "pp_sh (cn_put c) = None" "calm (cn_get c)" "quiet (cn_get c)" "cn_id c = i" "stores_only puts c"
    using co by (auto simp: conn_ok_def shape_def want_ops_def)
  have n: "removeAll i ws = ws" if "lp_set_waiters lp = i # ws \<or> lp_get_waiters lp = i # ws"
    using that qs by (auto simp: queue_ok_def removeAll_id)
  have o1: "st = St_set_wait \<longrightarrow> i \<notin> set (lp_get_waiters lp)"
    using queue_ok_remove(3) [OF qs(2) [unfolded cs]] d c(2) by (auto simp: cs)
  have o2: "st = St_get_wait \<longrightarrow> i \<notin> set (lp_set_waiters lp)"
    using queue_ok_remove(3) [OF qs(1) [unfolded cs]] d c(2) by (auto simp: cs)
  show thesis
    by (rule that [OF map_of_is_SomeI [OF d c(1)] cs c(2) k sh(6,2-5,1)]) (use q n o1 o2 sh(7) in \<open>auto simp: removeAll_id\<close>)
qed

lemma put_conn_unread:
  assumes "around puts hs ps X xs ys" and "core X (lp', c')" and "lp_conns lp = xs @ (cn_id c', c) # ys"
  shows "unread (put_conn (lp', c')) + length (cn_in c) = unread lp + length (cn_in c')"
proof -
  obtain c0 where "lp_conns lp' = xs @ (cn_id c', c0) # ys" using aroundD(3) [OF assms(1,2)] by blast
  then have "lp_conns (put_conn (lp', c')) = xs @ (cn_id c', c') # ys"
    using update_mid [OF aroundD(1) [OF assms(1,2)]] by (simp add: put_conn_def)
  with assms(3) show ?thesis by (simp add: unread_def)
qed

context protocol_seams
begin

lemma drain_set_waiters_ok:
  "loop_ok puts hs ps lp \<Longrightarrow> \<exists>lp'. drain_set_waiters ev sm lp = Some lp' \<and> loop_ok puts hs ps lp'"
proof (induction "unread lp + length (lp_set_waiters lp)" arbitrary: lp rule: less_induct)
  case less
  show ?case
  proof (cases "lp_set_waiters lp")
    case Nil
    with less.prems show ?thesis by (simp add: drain_set_waiters.simps)
  next
    case (Cons i ws)
    obtain c X xs ys where c: "map_of (lp_conns lp) i = Some c" "lp_conns lp = xs @ (i, c) # ys" "cn_state c = St_set_wait"
      "around puts hs ps X xs ys" "core X (lp, c)" "cn_id c = i" "cn_inflight c = 0" "pp_sh (cn_put c) = None" "calm (cn_get c)" "quiet (cn_get c)"
      "\<not> cn_closing c" "cx_sw X = ws" "cx_gw X = lp_get_waiters lp" "stores_only puts c"
      by (rule parked_front [OF less.prems, of i ws St_set_wait]) (use Cons in auto)
    obtain tm r where b: "begin_store (ev_kernel ev) (lp_tm lp) (pp_digest (cn_put c)) (pp_remaining (cn_put c)) = (tm, r)" by (metis surj_pair)
    have "world_ok (lp_tm lp, all_handles (lp_conns lp) @ hs, all_pins (lp_conns lp) @ ps)" using less.prems by (simp add: loop_ok_def)
    note bw = begin_store_world [OF this b]
    show ?thesis
    proof (cases "blocked r")
      case True
      then have "world_ok (tm, all_handles (lp_conns lp) @ hs, all_pins (lp_conns lp) @ ps)"
        using bw by (auto simp: blocked_def split: sum.splits)
      then have "loop_ok puts hs ps (lp\<lparr>lp_tm := tm\<rparr>)" using less.prems by (simp add: loop_ok_def)
      with Cons c b True show ?thesis by (simp add: drain_set_waiters.simps)
    next
      case False
      let ?p = "case r of Inl e \<Rightarrow> (cn_put c)\<lparr>pp_reject := True\<rparr> | Inr h \<Rightarrow> (cn_put c)\<lparr>pp_sh := Some h\<rparr>"
      let ?lp = "lp\<lparr>lp_tm := tm, lp_set_waiters := ws\<rparr>" and ?c = "c\<lparr>cn_state := St_set_body, cn_put := ?p\<rparr>"
      have w: "world_ok (lp_tm lp, cx_hs X, conn_pins c @ cx_ps X)" using c(5,8) by (simp add: core_def conn_handles_def)
      have "world_ok (tm, conn_handles ?c @ cx_hs X, conn_pins ?c @ cx_ps X)"
        using begin_store_world [OF w b] c(8) by (cases r) (simp_all add: conn_handles_def)
      then have h: "held X (?lp, ?c)" using c(5,12,13) by (simp add: held_def core_def)
      have P: "cx_puts X = puts" using c(4) by (simp add: around_def)
      have so: "stores_only (cx_puts X) ?c" using c(3,11,14) P by (simp add: stores_only_def)
      have "tame ?c" using c by (simp add: tame_def)
      with h obtain lp1 c1 where p: "sm_process sm ev (?lp, ?c) = Some (lp1, c1)" "rested X (lp1, c1)"
        "length (cn_in c1) \<le> length (cn_in c)" "parked (cn_state c1) \<longrightarrow> length (cn_in c1) < length (cn_in c)"
        using process_ok [of X ?lp ?c ev] P so by auto
      have co: "core X (lp1, c1)" and id: "cn_id c1 = i" and q: "lp_set_waiters lp1 = ws @ (if cn_state c1 = St_set_wait then [i] else [])"
        using p(2) c(5,6,12) by (auto simp: rested_def core_def)
      have "unread (put_conn (lp1, c1)) + length (cn_in c) = unread lp + length (cn_in c1)"
        by (rule put_conn_unread [OF c(4) co]) (simp add: id c(2))
      moreover have "lp_set_waiters (put_conn (lp1, c1)) = lp_set_waiters lp1" by (simp add: put_conn_def)
      ultimately have "unread (put_conn (lp1, c1)) + length (lp_set_waiters (put_conn (lp1, c1))) < unread lp + length (lp_set_waiters lp)"
        using p(3,4) q Cons by (auto simp: parked_def)
      from less.hyps [OF this put_conn_ok [OF c(4) p(2)]] show ?thesis
        using Cons c b False p(1) by (simp add: drain_set_waiters.simps [of ev sm lp] del: split_paired_Ex)
    qed
  qed
qed

lemma drain_get_waiters_ok:
  "loop_ok puts hs ps lp \<Longrightarrow> \<exists>lp'. drain_get_waiters ev sm lp = Some lp' \<and> loop_ok puts hs ps lp'"
proof (induction "unread lp + length (lp_get_waiters lp)" arbitrary: lp rule: less_induct)
  case less
  show ?case
  proof (cases "lp_get_waiters lp")
    case Nil
    with less.prems show ?thesis by (simp add: drain_get_waiters.simps)
  next
    case (Cons i ws)
    obtain c X xs ys where c: "map_of (lp_conns lp) i = Some c" "lp_conns lp = xs @ (i, c) # ys" "cn_state c = St_get_wait"
      "around puts hs ps X xs ys" "core X (lp, c)" "cn_id c = i" "cn_inflight c = 0" "pp_sh (cn_put c) = None" "calm (cn_get c)" "quiet (cn_get c)"
      "\<not> cn_closing c" "cx_gw X = ws" "cx_sw X = lp_set_waiters lp"
      by (rule parked_front [OF less.prems, of i ws St_get_wait]) (use Cons in auto)
    let ?lp = "lp\<lparr>lp_get_waiters := ws\<rparr>"
    have h: "held X (?lp, c)" using c(5,12,13) by (simp add: held_def core_def)
    obtain lp1 c1 opened where b: "begin_get ev (sm_frame_hit sm) (sm_frame_miss sm) (cn_get_key c) (?lp, c) = ((lp1, c1), opened)"
      by (metis surj_pair)
    note bg = begin_get_held [OF hit miss h c(11,7,8,9,10) b]
    show ?thesis
    proof (cases opened)
      case False
      with bg put_conn_ok [OF c(4), of lp1 c1] Cons c b show ?thesis by (simp add: drain_get_waiters.simps)
    next
      case True
      then have o: "held X (lp1, c1)" "\<not> cn_closing c1" "cn_inflight c1 = 0" "pp_sh (cn_put c1) = None" "quiet (cn_get c1)"
        "cn_in c1 = cn_in c" "cn_state c1 = St_get_header \<and> reaches (cn_get c1) \<or> cn_state c1 = St_idle \<and> calm (cn_get c1)" using bg by simp_all
      have "\<exists>lp2 c2. (if cn_state c1 = St_get_header then Some (start_send ev (lp1, c1)) else sm_process sm ev (lp1, c1)) = Some (lp2, c2) \<and>
          rested X (lp2, c2) \<and> length (cn_in c2) \<le> length (cn_in c) \<and> (parked (cn_state c2) \<longrightarrow> length (cn_in c2) < length (cn_in c))"
      proof (cases "cn_state c1 = St_get_header")
        case hd: True
        obtain src where p: "posts X (lp1, c1) (Sq_send (cn_id c1) src) (start_send ev (lp1, c1))" using start_held(2) [OF o(1,2)] by blast
        then have "rested X (start_send ev (lp1, c1))" by (rule rested_posts [OF _ o(1-3)]) (use hd o(4-7) in \<open>simp_all add: parked_def stores_only_def\<close>)
        moreover obtain lp2 c2 where s: "start_send ev (lp1, c1) = (lp2, c2)" by (metis surj_pair)
        moreover have "cn_in c2 = cn_in c" "\<not> parked (cn_state c2)"
          using p s o(6) hd by (auto simp: posts_def parked_def close_conn_def split: if_splits)
        ultimately show ?thesis using hd by simp
      next
        case False
        with o have "tame c1" "stores_only (cx_puts X) c1" by (auto simp: tame_def stores_only_def)
        moreover have "cx_puts X = puts" using c(4) by (simp add: around_def)
        ultimately show ?thesis using process_ok [OF o(1), of ev] False o(6) by auto
      qed
      then obtain lp2 c2 where p: "(if cn_state c1 = St_get_header then Some (start_send ev (lp1, c1)) else sm_process sm ev (lp1, c1)) = Some (lp2, c2)"
        "rested X (lp2, c2)" "length (cn_in c2) \<le> length (cn_in c)" "parked (cn_state c2) \<longrightarrow> length (cn_in c2) < length (cn_in c)" by blast
      have co: "core X (lp2, c2)" and id: "cn_id c2 = i" and q: "lp_get_waiters lp2 = ws @ (if cn_state c2 = St_get_wait then [i] else [])"
        using p(2) c(5,6,12) by (auto simp: rested_def core_def)
      have "unread (put_conn (lp2, c2)) + length (cn_in c) = unread lp + length (cn_in c2)"
        by (rule put_conn_unread [OF c(4) co]) (simp add: id c(2))
      moreover have "lp_get_waiters (put_conn (lp2, c2)) = lp_get_waiters lp2" by (simp add: put_conn_def)
      ultimately have "unread (put_conn (lp2, c2)) + length (lp_get_waiters (put_conn (lp2, c2))) < unread lp + length (lp_get_waiters lp)"
        using p(3,4) q Cons by (auto simp: parked_def)
      from less.hyps [OF this put_conn_ok [OF c(4) p(2)]] show ?thesis
        using Cons c b True p(1) by (simp add: drain_get_waiters.simps [of ev sm lp] del: split_paired_Ex)
    qed
  qed
qed

end

section \<open>The sweep\<close>

lemma update_keeps: "x \<in> set al \<Longrightarrow> fst x \<noteq> k \<Longrightarrow> x \<in> set (AList.update k v al)"
  by (induction al) auto

lemma sweep_one_ok:
  assumes ok: "loop_ok puts hs ps lp" and m: "(cn_id c, c) \<in> set (lp_conns lp)"
  shows "loop_ok puts hs ps (sweep_one ev c lp)"
    and "x \<in> set (lp_conns lp) \<Longrightarrow> fst x \<noteq> cn_id c \<Longrightarrow> x \<in> set (lp_conns (sweep_one ev c lp))"
proof -
  let ?g = "\<not> cn_closing c \<and> holds_buffer c \<and> ev_clock ev - cn_last_progress c \<ge> lp_timeout lp"
  let ?lp = "bump (\<lambda>s. s\<lparr>st_slow_drops := u64 (st_slow_drops s + 1)\<rparr>) lp"
  have e: "sweep_one ev c lp = (if ?g then put_conn (?lp, close_conn c) else lp)"
    by (simp add: sweep_one_def abort_conn_def)
  have d: "distinct (map fst (lp_conns lp))" using ok by (simp add: loop_ok_def)
  obtain X xs ys where X: "around puts hs ps X xs ys" "cx_id X = cn_id c" "core X (lp, c)" "conn_ok puts (lp_sq lp) (cn_id c, c)"
    "lp_set_waiters lp = cx_sw X \<or> cn_state c = St_set_wait" "lp_get_waiters lp = cx_gw X \<or> cn_state c = St_get_wait"
    by (rule loop_ok_focus [OF ok map_of_is_SomeI [OF d m]])
  have np: "\<not> parked (cn_state c)" if ?g
  proof
    assume p: "parked (cn_state c)"
    then have "calm (cn_get c)" "pp_sh (cn_put c) = None" "lanes_ok (cn_get c)"
      using X(4) that by (auto simp: conn_ok_def shape_def parked_def)
    with that show False by (simp add: holds_buffer_def calm_def lanes_ok_def)
  qed
  show "loop_ok puts hs ps (sweep_one ev c lp)"
  proof (cases ?g)
    case True
    have "held X (lp, c)" using X np [OF True] by (auto simp: held_def parked_def)
    then have "rested X (?lp, close_conn c)" using np [OF True] by (intro rested_closed) simp_all
    with e True put_conn_ok [OF X(1)] show ?thesis by simp
  qed (use ok e in auto)
  have id: "cn_id (close_conn c) = cn_id c" by (simp add: close_conn_def)
  show "x \<in> set (lp_conns (sweep_one ev c lp))" if "x \<in> set (lp_conns lp)" "fst x \<noteq> cn_id c"
    using that unfolding e by (simp add: put_conn_def bump_def id update_keeps)
qed

lemma sweep_fold_ok:
  assumes "loop_ok puts hs ps lp" and "\<forall>c \<in> set cs. (cn_id c, c) \<in> set (lp_conns lp)" and "distinct (map cn_id cs)"
  shows "loop_ok puts hs ps (fold (sweep_one ev) cs lp)"
  using assms
proof (induction cs arbitrary: lp)
  case (Cons c cs)
  have k: "(cn_id c, c) \<in> set (lp_conns lp)" using Cons.prems(2) by simp
  note s = sweep_one_ok [OF Cons.prems(1) k, where ev = ev]
  have "\<forall>b \<in> set cs. (cn_id b, b) \<in> set (lp_conns (sweep_one ev c lp))"
  proof
    fix b
    assume b: "b \<in> set cs"
    then have "cn_id b \<noteq> cn_id c" using Cons.prems(3) by (auto simp: image_iff)
    with s(2) [of "(cn_id b, b)"] Cons.prems(2) b show "(cn_id b, b) \<in> set (lp_conns (sweep_one ev c lp))" by simp
  qed
  from Cons.IH [OF s(1) this] Cons.prems(3) show ?case by simp
qed simp

lemma sweep_due_ok: "loop_ok puts hs ps lp \<Longrightarrow> loop_ok puts hs ps (sweep_due ev lp)"
proof -
  assume ok: "loop_ok puts hs ps lp"
  let ?lp = "lp\<lparr>lp_last_sweep := ev_clock ev\<rparr>"
  have id: "\<forall>(i, c) \<in> set (lp_conns lp). cn_id c = i" using ok by (auto simp: loop_ok_def conn_ok_def)
  have "map cn_id (map snd (lp_conns lp)) = map fst (lp_conns lp)" using id by auto
  moreover have "distinct (map fst (lp_conns lp))" using ok by (simp add: loop_ok_def)
  ultimately have "distinct (map cn_id (map snd (lp_conns lp)))" by metis
  moreover have "loop_ok puts hs ps ?lp" using ok by (simp add: loop_ok_def)
  ultimately have "loop_ok puts hs ps (sweep_stalled ev ?lp)"
    unfolding sweep_stalled_def using id by (intro sweep_fold_ok) auto
  with ok show ?thesis by (simp add: sweep_due_def)
qed

section \<open>Turns\<close>

text \<open>Every completion of a turn answers an operation that is on the ring when it is handled.\<close>

fun all_complete :: "env \<Rightarrow> seams \<Rightarrow> head_pin list \<Rightarrow> (nat \<times> cqe) list \<Rightarrow> loop \<Rightarrow> bool" where
  "all_complete ev sm ps [] lp = True"
| "all_complete ev sm ps ((i, q) # qs) lp =
     (completes ps lp i q \<and> (case dispatch ev sm i q lp of None \<Rightarrow> True | Some lp' \<Rightarrow> all_complete ev sm ps qs lp'))"

text \<open>
  A step: the loop handles a completion, wakes its parked connections, sweeps, or another user of
  the storage engine takes a step.
\<close>

inductive loop_step :: "seams \<Rightarrow> store_handle list \<times> head_pin list \<times> loop \<Rightarrow> store_handle list \<times> head_pin list \<times> loop \<Rightarrow> bool"
  for sm where
  completion: "completes ps lp i q \<Longrightarrow> dispatch ev sm i q lp = Some lp' \<Longrightarrow> loop_step sm (hs, ps, lp) (hs, ps, lp')"
| wake_set: "drain_set_waiters ev sm lp = Some lp' \<Longrightarrow> loop_step sm (hs, ps, lp) (hs, ps, lp')"
| wake_get: "drain_get_waiters ev sm lp = Some lp' \<Longrightarrow> loop_step sm (hs, ps, lp) (hs, ps, lp')"
| sweep: "loop_step sm (hs, ps, lp) (hs, ps, sweep_due ev lp)"
| others: "tm_step (lp_tm lp, hs1, ps1) (tm', hs2, ps2) \<Longrightarrow>
     mset hs1 = mset (all_handles (lp_conns lp) @ hs) \<Longrightarrow> mset ps1 = mset (all_pins (lp_conns lp) @ ps) \<Longrightarrow>
     mset hs2 = mset (all_handles (lp_conns lp) @ hs') \<Longrightarrow> mset ps2 = mset (all_pins (lp_conns lp) @ ps') \<Longrightarrow>
     length (lp_conns lp) + length ps' < 2 ^ 32 \<Longrightarrow>
     loop_step sm (hs, ps, lp) (hs', ps', lp\<lparr>lp_tm := tm'\<rparr>)"

lemma others_ok:
  assumes ok: "loop_ok puts hs ps lp" and st: "tm_step (lp_tm lp, hs1, ps1) (tm', hs2, ps2)"
    and "mset hs1 = mset (all_handles (lp_conns lp) @ hs)" "mset ps1 = mset (all_pins (lp_conns lp) @ ps)"
    and "mset hs2 = mset (all_handles (lp_conns lp) @ hs')" "mset ps2 = mset (all_pins (lp_conns lp) @ ps')"
    and "length (lp_conns lp) + length ps' < 2 ^ 32"
  shows "loop_ok puts hs' ps' (lp\<lparr>lp_tm := tm'\<rparr>)"
proof -
  have "world_ok (lp_tm lp, hs1, ps1)" using ok world_ok_mset [OF assms(3,4)] by (simp add: loop_ok_def)
  from tm_step_world [OF st this] world_ok_mset [OF assms(5,6)]
  have "world_ok (tm', all_handles (lp_conns lp) @ hs', all_pins (lp_conns lp) @ ps')" by simp
  with ok assms(7) show ?thesis by (simp add: loop_ok_def)
qed

context protocol_seams
begin

lemma loop_step_ok: "loop_step sm w w' \<Longrightarrow> (case w of (hs, ps, lp) \<Rightarrow> loop_ok puts hs ps lp) \<Longrightarrow> (case w' of (hs, ps, lp) \<Rightarrow> loop_ok puts hs ps lp)"
proof (induction rule: loop_step.induct)
  case (completion ps lp i q ev lp' hs)
  with dispatch_ok [of hs ps lp i q ev] show ?case by auto
next
  case (wake_set ev lp lp' hs ps)
  with drain_set_waiters_ok [of hs ps lp ev] show ?case by auto
next
  case (wake_get ev lp lp' hs ps)
  with drain_get_waiters_ok [of hs ps lp ev] show ?case by auto
next
  case (sweep hs ps lp ev)
  then show ?case by (simp add: sweep_due_ok)
next
  case (others lp hs1 ps1 tm' hs2 ps2 hs ps hs' ps')
  show ?case using others_ok [OF _ others.hyps(1-6)] others.prems by simp
qed

lemma loop_steps_ok:
  "(loop_step sm)\<^sup>*\<^sup>* (hs, ps, lp) (hs', ps', lp') \<Longrightarrow> loop_ok puts hs ps lp \<Longrightarrow> loop_ok puts hs' ps' lp'"
  by (induction "(hs', ps', lp')" arbitrary: hs' ps' lp' rule: rtranclp_induct) (auto dest!: loop_step_ok)

lemma dispatch_all_ok:
  "loop_ok puts hs ps lp \<Longrightarrow> all_complete ev sm ps qs lp \<Longrightarrow> \<exists>lp'. dispatch_all ev sm qs lp = Some lp' \<and> loop_ok puts hs ps lp'"
proof (induction qs arbitrary: lp)
  case (Cons x qs)
  obtain i q where x: "x = (i, q)" by (cases x)
  from Cons.prems dispatch_ok [of hs ps lp i q ev] obtain lp1 where "dispatch ev sm i q lp = Some lp1" "loop_ok puts hs ps lp1"
    by (auto simp: x)
  with Cons.IH [of lp1] Cons.prems show ?case by (simp add: x)
qed simp

lemma run_once_ok:
  assumes "loop_ok puts hs ps lp" and "all_complete ev sm ps qs lp"
  shows "\<exists>lp'. run_once ev sm qs lp = Some lp' \<and> loop_ok puts hs ps lp'"
proof -
  obtain lp1 where 1: "dispatch_all ev sm qs lp = Some lp1" "loop_ok puts hs ps lp1" using dispatch_all_ok [OF assms] by blast
  obtain lp2 where 2: "(if lp_set_waiters lp1 \<noteq> [] then drain_set_waiters ev sm lp1 else Some lp1) = Some lp2" "loop_ok puts hs ps lp2"
    using drain_set_waiters_ok [OF 1(2), of ev] 1(2) by (cases "lp_set_waiters lp1 = []") auto
  obtain lp3 where 3: "(if lp_get_waiters lp2 \<noteq> [] then drain_get_waiters ev sm lp2 else Some lp2) = Some lp3" "loop_ok puts hs ps lp3"
    using drain_get_waiters_ok [OF 2(2), of ev] 2(2) by (cases "lp_get_waiters lp2 = []") auto
  have "run_once ev sm qs lp = Some (sweep_due ev lp3)" unfolding run_once_def 1(1) Option.bind.bind_lunit 2(1) 3(1) ..
  with sweep_due_ok [OF 3(2)] show ?thesis by blast
qed

end

lemma loop_new_ok:
  assumes "world_ok (tm, hs, ps)" and "length ps < 2 ^ 32" and "lent io {}"
  shows "loop_ok puts hs ps (loop_new tm io mem slot reg timeout clock)"
  using assms by (simp add: loop_new_def loop_ok_def queue_ok_def)

end
