(* ===== verification/Mc_Event_Loop.thy ===== *)
theory Mc_Event_Loop
  imports Stream_Loop Mc_Protocol
begin

text \<open>
  The memcache protocol on the event loop (\<^verbatim>\<open>protocol/memcache/event_loop.cpp\<close>, class \<^verbatim>\<open>EventLoop\<close>):
  the four seams. \<^verbatim>\<open>process\<close> is a loop over the buffered input; one round of it, \<open>process_step\<close>,
  says how the loop goes on. Its branches are definitions of their own: the body of a store,
  the meta commands, the classic commands.
\<close>

section \<open>Replies\<close>

definition RF_F :: byte where "RF_F = 1"
definition RF_S :: byte where "RF_S = 2"
definition RF_T :: byte where "RF_T = 4"
definition RF_C :: byte where "RF_C = 8"
definition RF_K :: byte where "RF_K = 16"

definition has_rf :: "byte \<Rightarrow> byte \<Rightarrow> bool" where
  "has_rf rf b \<longleftrightarrow> rf AND b \<noteq> 0"

text \<open>The remaining time is \<^verbatim>\<open>-1\<close> without an expiry, and never below zero.\<close>

definition meta_rflags_str :: "byte \<Rightarrow> object_meta \<Rightarrow> string \<Rightarrow> string \<Rightarrow> nat \<Rightarrow> string" where
  "meta_rflags_str rf m key opaque now =
     (if has_rf rf RF_F then '' f'' @ dec_str (om_flags m) else []) @
     (if has_rf rf RF_S then '' s'' @ dec_str (om_size m) else []) @
     (if has_rf rf RF_T then '' t'' @ (if om_expiry m = 0 then ''-1'' else dec_str (om_expiry m - now)) else []) @
     (if has_rf rf RF_C then '' c'' @ dec_str (om_etag m) else []) @
     (if has_rf rf RF_K then '' k'' @ key else []) @
     (if opaque \<noteq> [] then '' O'' @ opaque else [])"

definition stat_line :: "string \<Rightarrow> nat \<Rightarrow> string" where
  "stat_line name v = ''STAT '' @ name @ '' '' @ dec_str v @ CRLF"

definition format_stats :: "env \<Rightarrow> loop \<Rightarrow> string" where
  "format_stats ev lp =
     (let slot = (\<lambda>p. if p = lp_slot lp then lp_stats lp else ev_slots ev p);
          s = (case lp_reg lp of Some r \<Rightarrow> aggregate r slot | None \<Rightarrow> take_snapshot (lp_stats lp));
          uptime = (case lp_reg lp of Some r \<Rightarrow> uptime_secs r (ev_clock ev) | None \<Rightarrow> 0)
      in stat_line ''pid'' (ev_pid ev) @
         stat_line ''uptime'' uptime @
         ''STAT version goblin-store 0.0.1'' @ CRLF @
         stat_line ''curr_connections'' (ss_curr_conns s) @
         stat_line ''total_connections'' (ss_conns s) @
         stat_line ''cmd_get'' (u64 (ss_get_hits s + ss_get_misses s)) @
         stat_line ''cmd_set'' (u64 (ss_sets s + ss_set_rejected s)) @
         stat_line ''get_hits'' (ss_get_hits s) @
         stat_line ''get_misses'' (ss_get_misses s) @
         stat_line ''sets_stored'' (ss_sets s) @
         stat_line ''sets_rejected'' (ss_set_rejected s) @
         stat_line ''bytes_served'' (ss_bytes_served s) @
         stat_line ''bytes_stored'' (ss_bytes_stored s) @
         stat_line ''get_backpressure'' (ss_get_backpressure s) @
         stat_line ''set_backpressure'' (ss_set_backpressure s) @
         stat_line ''slow_drops'' (ss_slow_drops s) @
         kEnd)"

section \<open>The GET seams\<close>

definition frame_get_hit :: "env \<Rightarrow> conn \<Rightarrow> string \<Rightarrow> object_meta \<Rightarrow> conn" where
  "frame_get_hit ev c key m =
     reply (if mp_meta (cn_meta c)
            then ''VA '' @ dec_str (om_size m) @
                 meta_rflags_str (mp_rflags (cn_meta c)) m key (mp_opaque (cn_meta c)) (ev_now ev) @ CRLF
            else if gp_with_cas (cn_get c) then value_header_cas key (om_flags m) (om_size m) (om_etag m)
            else value_header key (om_flags m) (om_size m))
       (c\<lparr>cn_get := (cn_get c)\<lparr>gp_pos := 0, gp_size := om_size m\<rparr>\<rparr>)"

definition frame_get_miss :: "conn \<Rightarrow> conn" where
  "frame_get_miss c =
     (reply (if mp_meta (cn_meta c) then if mp_quiet (cn_meta c) then [] else kMetaMiss else kEnd) c)
       \<lparr>cn_state := St_idle\<rparr>"

definition on_value_sent :: "env \<Rightarrow> focus \<Rightarrow> focus option" where
  "on_value_sent ev = (\<lambda>(lp, c).
     Some (start_send ev
       (lp, (reply (CRLF @ (if mp_meta (cn_meta c) then [] else kEnd)) c)\<lparr>cn_state := St_get_trailer\<rparr>)))"

section \<open>The body of a store\<close>

text \<open>Part of the body goes to the writer, unless the store was refused or has failed.\<close>

definition ingest_chunk :: "env \<Rightarrow> nat \<Rightarrow> focus \<Rightarrow> focus option" where
  "ingest_chunk ev n = (\<lambda>(lp, c).
     let p = cn_put c in
     case pp_sh p of
       Some h \<Rightarrow>
         if pp_failed p then Some (lp, c)
         else (case handle_write (ev_kernel ev) (lp_tm lp) h (str_bytes (take n (cn_in c))) of
                 None \<Rightarrow> None
               | Some (tm, h, Inl e) \<Rightarrow>
                   Some (lp\<lparr>lp_tm := tm\<rparr>, c\<lparr>cn_put := p\<lparr>pp_sh := Some h, pp_failed := True\<rparr>\<rparr>)
               | Some (tm, h, Inr _) \<Rightarrow>
                   Some (bump (\<lambda>s. s\<lparr>st_bytes_stored := u64 (st_bytes_stored s + n)\<rparr>) (lp\<lparr>lp_tm := tm\<rparr>),
                         c\<lparr>cn_put := p\<lparr>pp_sh := Some h\<rparr>\<rparr>))
     | None \<Rightarrow> Some (lp, c))"

lemma ingest_chunk_in:
  "ingest_chunk ev n (lp, c) = Some (lp', c') \<Longrightarrow>
     cn_in c' = cn_in c \<and> pp_remaining (cn_put c') = pp_remaining (cn_put c)"
  by (auto simp: ingest_chunk_def Let_def split: option.splits if_splits sum.splits)

definition ate :: "nat \<Rightarrow> conn \<Rightarrow> conn" where
  "ate n c = c\<lparr>cn_in := drop n (cn_in c), cn_put := (cn_put c)\<lparr>pp_remaining := pp_remaining (cn_put c) - n\<rparr>\<rparr>"

function ingest :: "env \<Rightarrow> focus \<Rightarrow> focus option" where
  "ingest ev (lp, c) =
     (if pp_remaining (cn_put c) > 0 \<and> cn_in c \<noteq> []
      then let n = min (length (cn_in c)) (pp_remaining (cn_put c)) in
           (case ingest_chunk ev n (lp, c) of
              None \<Rightarrow> None
            | Some (lp, c) \<Rightarrow> ingest ev (lp, ate n c))
      else Some (lp, c))"
  by pat_completeness auto
termination
  by (relation "measure (\<lambda>(ev, lp, c). length (cn_in c))") (auto dest!: ingest_chunk_in simp: ate_def)

declare ingest.simps [simp del]

text \<open>The body and its CRLF are in: the outcome of the store, then the reply.\<close>

definition settle :: "env \<Rightarrow> bool \<Rightarrow> focus \<Rightarrow> focus \<times> string option" where
  "settle ev crlf = (\<lambda>(lp, c).
     let p = cn_put c; m = mp_meta (cn_meta c);
         expiry = (if m then mp_expiry (cn_meta c) else exptime_to_expiry (pp_exptime p) (ev_now ev))
     in if \<not> crlf then ((lp, c), Some kBadDataChunk)
        else if pp_reject p then ((lp, c), Some (pp_reply p))
        else (case pp_sh p of
                None \<Rightarrow> ((lp, c), Some (if m then kMetaNotStored else kNotStored))
              | Some h \<Rightarrow>
                  if pp_failed p then ((lp, c), Some (if m then kMetaNotStored else kNotStored))
                  else (case commit (ev_kernel ev) (ev_now ev) (lp_tm lp) h (pp_flags p) expiry (pp_cas p) of
                          (tm, h, r) \<Rightarrow>
                            ((lp\<lparr>lp_tm := tm\<rparr>, c\<lparr>cn_put := p\<lparr>pp_sh := Some h\<rparr>\<rparr>),
                             (case r of
                                Inr _ \<Rightarrow> None
                              | Inl e \<Rightarrow> Some (if code e = cas_mismatch then if m then kMetaExists else kExists
                                              else if m then kMetaNotStored else kNotStored))))))"

definition stored_reply :: "loop \<Rightarrow> conn \<Rightarrow> string" where
  "stored_reply lp c =
     (let m = cn_meta c in
      if mp_meta m
      then if mp_quiet m then []
           else ''HD'' @
             (if has_rf (mp_rflags m) RF_C
              then '' c'' @ dec_str (case index_lookup (tm_index (lp_tm lp)) (pp_digest (cn_put c)) of
                                       None \<Rightarrow> 0 | Some nm \<Rightarrow> om_etag nm) else []) @
             (if has_rf (mp_rflags m) RF_K then '' k'' @ mp_key m else []) @
             (if mp_opaque m \<noteq> [] then '' O'' @ mp_opaque m else []) @ CRLF
      else if pp_noreply (cn_put c) then [] else kStored)"

definition end_set :: "env \<Rightarrow> focus \<Rightarrow> focus" where
  "end_set ev = (\<lambda>(lp, c).
     let crlf = (take 2 (cn_in c) = CRLF);
         (f, refused) = settle ev crlf (lp, c\<lparr>cn_in := drop 2 (cn_in c)\<rparr>);
         (lp, c) = reset_sh ev f
     in case refused of
          None \<Rightarrow>
            let lp = bump (\<lambda>s. s\<lparr>st_sets := u64 (st_sets s + 1)\<rparr>) lp
            in (lp, (reply (stored_reply lp c) c)\<lparr>cn_state := St_idle\<rparr>)
        | Some r \<Rightarrow>
            (if r \<noteq> kBadDataChunk
             then bump (\<lambda>s. s\<lparr>st_set_rejected := u64 (st_set_rejected s + 1)\<rparr>) lp else lp,
             (reply (if mp_meta (cn_meta c) \<or> \<not> pp_noreply (cn_put c) then r else []) c)\<lparr>cn_state := St_idle\<rparr>))"

section \<open>Commands\<close>

fun find_crlf :: "string \<Rightarrow> nat option" where
  "find_crlf (a # b # s) = (if [a, b] = CRLF then Some 0 else map_option Suc (find_crlf (b # s)))"
| "find_crlf _ = None"

lemma find_crlf_bound: "find_crlf s = Some n \<Longrightarrow> n + 2 \<le> length s"
  by (induction s arbitrary: n rule: find_crlf.induct) (auto split: if_splits)

text \<open>Admission of a store: whether it is refused, with what reply, and the CAS to check.\<close>

definition present :: "nat \<Rightarrow> object_meta option \<Rightarrow> bool" where
  "present now exist = (case exist of None \<Rightarrow> False | Some m \<Rightarrow> \<not> is_expired m now)"

definition admit_classic :: "verb \<Rightarrow> nat \<Rightarrow> nat \<Rightarrow> object_meta option \<Rightarrow> bool \<times> string \<times> nat" where
  "admit_classic v cas now exist =
     (if v = V_add \<and> present now exist then (True, kNotStored, 0)
      else if v = V_replace \<and> \<not> present now exist then (True, kNotStored, 0)
      else if v = V_cas
      then if \<not> present now exist then (True, kNotFound, 0)
           else if om_etag (the exist) \<noteq> cas then (True, kExists, 0)
           else (False, kNotStored, cas)
      else (False, kNotStored, 0))"

definition admit_meta :: "char \<Rightarrow> nat option \<Rightarrow> nat \<Rightarrow> object_meta option \<Rightarrow> bool \<times> string \<times> nat" where
  "admit_meta mode mcas now exist =
     (let pr = present now exist;
          (rej, tok, chk) =
            (case mcas of
               None \<Rightarrow> (False, kMetaNotStored, 0)
             | Some cas \<Rightarrow>
                 if \<not> pr then (True, kMetaNotFound, 0)
                 else if om_etag (the exist) \<noteq> cas then (True, kMetaExists, 0)
                 else (False, kMetaNotStored, cas))
      in (rej \<or> mode = CHR ''E'' \<and> pr \<or> mode = CHR ''R'' \<and> \<not> pr \<or>
          mode \<noteq> CHR ''S'' \<and> mode \<noteq> CHR ''E'' \<and> mode \<noteq> CHR ''R'', tok, chk))"

text \<open>The writer of an admitted store, or its place in the queue of those that wait for one.\<close>

definition open_set :: "env \<Rightarrow> string \<Rightarrow> focus \<Rightarrow> focus \<times> flow" where
  "open_set ev failed = (\<lambda>(lp, c).
     let p = cn_put c; body = (\<lambda>p. c\<lparr>cn_put := p, cn_state := St_set_body\<rparr>) in
     if pp_reject p then ((lp, body p), Go)
     else (case begin_store (ev_kernel ev) (lp_tm lp) (pp_digest p) (pp_remaining p) of
             (tm, Inr h) \<Rightarrow> ((lp\<lparr>lp_tm := tm\<rparr>, body (p\<lparr>pp_sh := Some h\<rparr>)), Go)
           | (tm, Inl e) \<Rightarrow>
               if code e = would_block
               then ((bump (\<lambda>s. s\<lparr>st_set_backpressure := u64 (st_set_backpressure s + 1)\<rparr>)
                        (lp\<lparr>lp_tm := tm, lp_set_waiters := lp_set_waiters lp @ [cn_id c]\<rparr>),
                      c\<lparr>cn_state := St_set_wait\<rparr>), Return)
               else ((lp\<lparr>lp_tm := tm\<rparr>, body (p\<lparr>pp_reject := True, pp_reply := failed\<rparr>)), Go)))"

text \<open>A relative time of the meta protocol: negative ones have already run out.\<close>

definition meta_ttl :: "int \<Rightarrow> nat \<Rightarrow> nat" where
  "meta_ttl ttl now =
     (if ttl = 0 then 0 else if ttl < 0 then 1 else exptime_to_expiry (u32 (nat ttl)) now)"

definition rflag :: "bool \<Rightarrow> byte \<Rightarrow> byte" where
  "rflag b f = (if b then f else 0)"

definition do_ms :: "env \<Rightarrow> meta_command \<Rightarrow> focus \<Rightarrow> focus \<times> flow" where
  "do_ms ev mc f =
     (let d = hash_key (m_key mc);
          (reject, tok, chk) =
            admit_meta (m_mode mc) (m_cas mc) (ev_now ev) (index_lookup (tm_index (lp_tm (fst f))) d);
          (lp, c) = reset_sh ev f
      in open_set ev kMetaNotStored
           (lp, c\<lparr>cn_meta := \<lparr>mp_meta = True, mp_rflags = rflag (m_rf_cas mc) RF_C OR rflag (m_rf_key mc) RF_K,
                     mp_quiet = m_quiet mc, mp_opaque = m_opaque mc, mp_key = m_key mc,
                     mp_expiry = (case m_ttl mc of None \<Rightarrow> 0 | Some t \<Rightarrow> meta_ttl t (ev_now ev))\<rparr>,
                  cn_put := (cn_put c)\<lparr>pp_digest := d, pp_remaining := m_datalen mc,
                     pp_flags := (case m_set_flags mc of None \<Rightarrow> 0 | Some v \<Rightarrow> v), pp_cas := chk,
                     pp_reply := tok, pp_noreply := False, pp_reject := reject, pp_failed := False\<rparr>\<rparr>))"

definition do_md :: "env \<Rightarrow> meta_command \<Rightarrow> focus \<Rightarrow> focus" where
  "do_md ev mc = (\<lambda>(lp, c).
     let d = hash_key (m_key mc); m = index_lookup (tm_index (lp_tm lp)) d;
         say = (\<lambda>s. reply (if m_quiet mc then [] else s) c)
     in if \<not> present (ev_now ev) m then (lp, say kMetaNotFound)
        else if m_cas mc \<noteq> None \<and> om_etag (the m) \<noteq> the (m_cas mc) then (lp, say kMetaExists)
        else (lp\<lparr>lp_tm := fst (tm_remove (ev_kernel ev) (lp_tm lp) d)\<rparr>,
              say (''HD'' @ (if m_rf_key mc then '' k'' @ m_key mc else []) @
                   (if m_opaque mc \<noteq> [] then '' O'' @ m_opaque mc else []) @ CRLF)))"

text \<open>A GET that was opened is streamed before the input is parsed further.\<close>

definition do_get :: "env \<Rightarrow> string \<Rightarrow> focus \<Rightarrow> focus \<times> flow" where
  "do_get ev key f =
     (case begin_get ev frame_get_hit frame_get_miss key f of
        (f, opened) \<Rightarrow>
          (f, if \<not> opened then Return else if cn_state (snd f) = St_get_header then Break else Go))"

definition meta_flags_of :: "meta_command \<Rightarrow> byte" where
  "meta_flags_of mc =
     rflag (m_rf_flags mc) RF_F OR rflag (m_rf_size mc) RF_S OR rflag (m_rf_ttl mc) RF_T OR
     rflag (m_rf_cas mc) RF_C OR rflag (m_rf_key mc) RF_K"

definition do_mg :: "env \<Rightarrow> meta_command \<Rightarrow> focus \<Rightarrow> focus \<times> flow" where
  "do_mg ev mc = (\<lambda>(lp, c).
     let d = hash_key (m_key mc);
         lp = (case m_ttl mc of
                 None \<Rightarrow> lp
               | Some t \<Rightarrow> lp\<lparr>lp_tm := fst (touch_ttl (lp_tm lp) d (meta_ttl t (ev_now ev)))\<rparr>)
     in if m_rf_value mc
        then do_get ev (m_key mc)
               (lp, c\<lparr>cn_get := (cn_get c)\<lparr>gp_with_cas := False\<rparr>,
                      cn_meta := (cn_meta c)\<lparr>mp_meta := True, mp_rflags := meta_flags_of mc,
                        mp_quiet := m_quiet mc, mp_opaque := m_opaque mc\<rparr>\<rparr>)
        else
          let m = index_lookup (tm_index (lp_tm lp)) d in
          ((lp, reply (if \<not> present (ev_now ev) m then if m_quiet mc then [] else kMetaMiss
                       else ''HD'' @ meta_rflags_str (meta_flags_of mc) (the m) (m_key mc) (m_opaque mc) (ev_now ev)
                            @ CRLF) c), Go))"

definition is_meta_line :: "string \<Rightarrow> bool" where
  "is_meta_line line \<longleftrightarrow>
     length line \<ge> 2 \<and> line ! 0 = CHR ''m'' \<and>
     (line ! 1 = CHR ''n'' \<or> line ! 1 = CHR ''g'' \<or> line ! 1 = CHR ''s'' \<or> line ! 1 = CHR ''d'') \<and>
     (length line = 2 \<or> line ! 2 = CHR '' '')"

definition meta_line :: "env \<Rightarrow> string \<Rightarrow> focus \<Rightarrow> focus \<times> flow" where
  "meta_line ev line = (\<lambda>(lp, c).
     case parse_meta line of
       Inl e \<Rightarrow> ((lp, reply (''CLIENT_ERROR bad meta command'' @ CRLF) c), Go)
     | Inr mc \<Rightarrow>
         if m_verb mc = M_mn then ((lp, reply kMetaNoop c), Go)
         else if m_verb mc = M_ms then do_ms ev mc (lp, c)
         else if m_verb mc = M_md then (do_md ev mc (lp, c), Go)
         else do_mg ev mc (lp, c))"

definition do_set :: "env \<Rightarrow> command \<Rightarrow> focus \<Rightarrow> focus \<times> flow" where
  "do_set ev cmd f =
     (let d = hash_key (c_key cmd);
          (reject, tok, chk) =
            admit_classic (c_verb cmd) (c_cas cmd) (ev_now ev) (index_lookup (tm_index (lp_tm (fst f))) d);
          (lp, c) = reset_sh ev f
      in open_set ev tok
           (lp, c\<lparr>cn_meta := (cn_meta c)\<lparr>mp_meta := False\<rparr>,
                  cn_put := (cn_put c)\<lparr>pp_digest := d, pp_remaining := c_bytes cmd, pp_flags := c_flags cmd,
                     pp_exptime := c_exptime cmd, pp_cas := chk, pp_reply := tok,
                     pp_noreply := c_noreply cmd, pp_reject := reject, pp_failed := False\<rparr>\<rparr>))"

definition command_line :: "env \<Rightarrow> string \<Rightarrow> focus \<Rightarrow> focus \<times> flow" where
  "command_line ev line = (\<lambda>(lp, c).
     case parse_command line of
       Inl e \<Rightarrow> ((lp, reply kError c), Go)
     | Inr cmd \<Rightarrow>
         (case c_verb cmd of
            V_version \<Rightarrow> ((lp, reply kVersion c), Go)
          | V_quit \<Rightarrow> ((lp, c\<lparr>cn_quit_after := True\<rparr>), Break)
          | V_del \<Rightarrow>
              (case tm_remove (ev_kernel ev) (lp_tm lp) (hash_key (c_key cmd)) of
                 (tm, erased) \<Rightarrow>
                   ((lp\<lparr>lp_tm := tm\<rparr>,
                     reply (if c_noreply cmd then [] else if erased then kDeleted else kNotFound) c), Go))
          | V_get \<Rightarrow>
              do_get ev (c_key cmd) (lp, c\<lparr>cn_meta := (cn_meta c)\<lparr>mp_meta := False\<rparr>,
                 cn_get := (cn_get c)\<lparr>gp_with_cas := False\<rparr>\<rparr>)
          | V_gets \<Rightarrow>
              do_get ev (c_key cmd) (lp, c\<lparr>cn_meta := (cn_meta c)\<lparr>mp_meta := False\<rparr>,
                 cn_get := (cn_get c)\<lparr>gp_with_cas := True\<rparr>\<rparr>)
          | V_stats \<Rightarrow> ((lp, reply (format_stats ev lp) c), Go)
          | V_unknown \<Rightarrow> ((lp, reply kError c), Go)
          | _ \<Rightarrow> do_set ev cmd (lp, c)))"

section \<open>The loop over the input\<close>

definition body_round :: "env \<Rightarrow> focus \<Rightarrow> (focus \<times> flow) option" where
  "body_round ev f =
     (case ingest ev f of
        None \<Rightarrow> None
      | Some (lp, c) \<Rightarrow>
          Some (if pp_remaining (cn_put c) > 0 \<or> length (cn_in c) < 2 then ((lp, c), Break)
                else (end_set ev (lp, c), Go)))"

definition line_round :: "env \<Rightarrow> focus \<Rightarrow> focus \<times> flow" where
  "line_round ev = (\<lambda>(lp, c).
     case find_crlf (cn_in c) of
       None \<Rightarrow> ((lp, c), Break)
     | Some eol \<Rightarrow>
         let line = take eol (cn_in c); c = c\<lparr>cn_in := drop (eol + 2) (cn_in c)\<rparr>
         in if is_meta_line line then meta_line ev line (lp, c) else command_line ev line (lp, c))"

definition process_step :: "env \<Rightarrow> focus \<Rightarrow> (focus \<times> flow) option" where
  "process_step ev = (\<lambda>(lp, c).
     if cn_state c = St_set_body then body_round ev (lp, c)
     else if cn_state c \<noteq> St_idle then Some ((lp, c), Return)
     else Some (line_round ev (lp, c)))"


text \<open>Every round that goes on has taken input: nothing but the parser and the body touch it.\<close>

lemma frame_in [in_kept]: "cn_in (frame_get_hit ev c key m) = cn_in c" "cn_in (frame_get_miss c) = cn_in c"
  by (simp_all add: frame_get_hit_def frame_get_miss_def reply_def)

lemma settle_in [in_kept]: "cn_in (snd (fst (settle ev b f))) = cn_in (snd f)"
  by (cases f) (simp add: settle_def Let_def split: option.split prod.split)

lemma end_set_in: "cn_in (snd (end_set ev f)) = drop 2 (cn_in (snd f))"
proof -
  obtain lp c where f: "f = (lp, c)" by (cases f)
  obtain g r where s: "settle ev (take 2 (cn_in c) = CRLF) (lp, c\<lparr>cn_in := drop 2 (cn_in c)\<rparr>) = (g, r)"
    by (cases "settle ev (take 2 (cn_in c) = CRLF) (lp, c\<lparr>cn_in := drop 2 (cn_in c)\<rparr>)")
  obtain lp2 c2 where r: "reset_sh ev g = (lp2, c2)" by (cases "reset_sh ev g")
  have "cn_in c2 = drop 2 (cn_in c)"
    using reset_sh_in [of ev g] settle_in [of ev "take 2 (cn_in c) = CRLF" "(lp, c\<lparr>cn_in := drop 2 (cn_in c)\<rparr>)"] s r
    by simp
  then show ?thesis by (simp add: end_set_def f s r in_kept Let_def split: option.split)
qed

lemma begin_get_in [in_kept]: "cn_in (snd (fst (begin_get ev frame_get_hit frame_get_miss key f))) = cn_in (snd f)"
  by (cases f)
    (simp add: begin_get_def park_get_def open_hit_def take_lanes_def in_kept Let_def split: prod.split option.split)

lemma do_get_in [in_kept]: "cn_in (snd (fst (do_get ev key f))) = cn_in (snd f)"
  using begin_get_in [of ev key f]
  by (cases "begin_get ev frame_get_hit frame_get_miss key f") (simp add: do_get_def)

lemma open_set_in [in_kept]: "cn_in (snd (fst (open_set ev s f))) = cn_in (snd f)"
  by (cases f) (simp add: open_set_def Let_def split: prod.split sum.split)

lemma do_set_in [in_kept]:
  "cn_in (snd (fst (do_set ev cmd f))) = cn_in (snd f)" "cn_in (snd (fst (do_ms ev mc f))) = cn_in (snd f)"
  using reset_sh_in [of ev f]
  by (cases "reset_sh ev f"; simp add: do_set_def do_ms_def in_kept Let_def split: prod.split)+

lemma do_meta_in [in_kept]:
  "cn_in (snd (do_md ev mc f)) = cn_in (snd f)" "cn_in (snd (fst (do_mg ev mc f))) = cn_in (snd f)"
  by (cases f; simp add: do_md_def do_mg_def in_kept Let_def)+

lemma meta_line_in [in_kept]: "cn_in (snd (fst (meta_line ev line f))) = cn_in (snd f)"
  by (cases f) (simp add: meta_line_def in_kept split: sum.split)

lemma command_line_in [in_kept]: "cn_in (snd (fst (command_line ev line f))) = cn_in (snd f)"
  by (cases f) (simp add: command_line_def in_kept split: sum.split verb.split prod.split)

lemma ingest_in: "ingest ev f = Some f' \<Longrightarrow> length (cn_in (snd f')) \<le> length (cn_in (snd f))"
proof (induction ev f arbitrary: f' rule: ingest.induct)
  case (1 ev lp c)
  show ?case
  proof (cases "pp_remaining (cn_put c) > 0 \<and> cn_in c \<noteq> []")
    case True
    let ?n = "min (length (cn_in c)) (pp_remaining (cn_put c))"
    obtain lp1 c1 where i: "ingest_chunk ev ?n (lp, c) = Some (lp1, c1)" "ingest ev (lp1, ate ?n c1) = Some f'"
      using "1.prems" True by (auto simp: ingest.simps [of ev lp c] Let_def split: option.splits)
    from "1.IH" [OF True refl i(1) refl i(2)] ingest_chunk_in [OF i(1)] show ?thesis by (simp add: ate_def)
  next
    case False
    with "1.prems" show ?thesis by (auto simp: ingest.simps [of ev lp c])
  qed
qed

lemma process_step_shorter:
  assumes "process_step ev f = Some (f', Go)"
  shows "length (cn_in (snd f')) < length (cn_in (snd f))"
proof -
  obtain lp c where f: "f = (lp, c)" by (cases f)
  show ?thesis
  proof (cases "cn_state c = St_set_body")
    case True
    then obtain lp1 c1 where i: "ingest ev (lp, c) = Some (lp1, c1)" "length (cn_in c1) \<ge> 2" "f' = end_set ev (lp1, c1)"
      using assms by (auto simp: f process_step_def body_round_def split: option.splits if_splits)
    with ingest_in [OF i(1)] end_set_in [of ev "(lp1, c1)"] show ?thesis by (simp add: f)
  next
    case False
    then have "line_round ev (lp, c) = (f', Go)" using assms by (auto simp: f process_step_def split: if_splits)
    then obtain eol where e: "find_crlf (cn_in c) = Some eol"
      by (auto simp: line_round_def split: option.splits)
    with \<open>line_round ev (lp, c) = (f', Go)\<close> have "cn_in (snd f') = drop (eol + 2) (cn_in c)"
      using meta_line_in [of ev "take eol (cn_in c)" "(lp, c\<lparr>cn_in := drop (eol + 2) (cn_in c)\<rparr>)"]
        command_line_in [of ev "take eol (cn_in c)" "(lp, c\<lparr>cn_in := drop (eol + 2) (cn_in c)\<rparr>)"]
      by (simp add: line_round_def Let_def split: if_splits)
    with find_crlf_bound [OF e] show ?thesis by (simp add: f)
  qed
qed

function process_loop :: "env \<Rightarrow> focus \<Rightarrow> (focus \<times> bool) option" where
  "process_loop ev f =
     (case process_step ev f of
        None \<Rightarrow> None
      | Some (f, Go) \<Rightarrow> process_loop ev f
      | Some (f, Break) \<Rightarrow> Some (f, True)
      | Some (f, Return) \<Rightarrow> Some (f, False))"
  by pat_completeness auto
termination
  by (relation "measure (\<lambda>(ev, f). length (cn_in (snd f)))") (auto dest: process_step_shorter)

declare process_loop.simps [simp del]

definition kMaxLine :: nat where "kMaxLine = 8 * 1024"

text \<open>The end of \<^verbatim>\<open>process\<close>, reached by \<open>Break\<close>: send, close or receive.\<close>

definition process_tail :: "env \<Rightarrow> focus \<Rightarrow> focus" where
  "process_tail ev = (\<lambda>(lp, c).
     if cn_state c = St_idle \<and> length (cn_in c) > kMaxLine then (lp, close_conn c)
     else if cn_out c \<noteq> [] then start_send ev (lp, c)
     else if cn_quit_after c then (lp, close_conn c)
     else start_recv ev (lp, c))"

definition process :: "env \<Rightarrow> focus \<Rightarrow> focus option" where
  "process ev f =
     (case process_loop ev f of
        None \<Rightarrow> None
      | Some (f, True) \<Rightarrow> Some (process_tail ev f)
      | Some (f, False) \<Rightarrow> Some f)"

definition mc_seams :: seams where
  "mc_seams = \<lparr>sm_process = process, sm_frame_hit = frame_get_hit, sm_frame_miss = frame_get_miss,
     sm_value_sent = on_value_sent\<rparr>"

end
