(* ===== verification/Chunked_Store.thy ===== *)
theory Chunked_Store
  imports Tier_Roundtrip
begin

text \<open>
  A value that reaches a store handle in pieces. However the clients of the engine cut it, the
  pieces have the effect of the one write of \<open>tm_store\<close>: the staging loop continues where it stopped,
  and the head is filled piece by piece, away from the staging buffer.
\<close>

declare world_ok.simps [simp del]

section \<open>Staging in pieces\<close>

lemma mem_put_append: "mem_put (a + length xs) ys (mem_put a xs m) = mem_put a (xs @ ys) m"
  by (rule ext) (auto simp: mem_put_def nth_append)

lemma mem_put_Nil [simp]: "mem_put a [] m = m"
  by (rule ext) (auto simp: mem_put_def)

lemma stage_loop_short:
  fixes k tm h b
  assumes a: "a \<noteq> []" and room: "length a < snd (sh_stage h) - sh_stage_fill h"
  defines "tm1 \<equiv> tm\<lparr>tm_mem := mem_put (fst (sh_stage h) + sh_stage_fill h) a (tm_mem tm)\<rparr>"
    and "h1 \<equiv> h\<lparr>sh_stage_fill := sh_stage_fill h + length a\<rparr>"
  shows "stage_loop k tm h (a @ b) = stage_loop k tm1 h1 b"
proof -
  let ?n = "min (length (a @ b)) (snd (sh_stage h) - sh_stage_fill h)"
  let ?m = "min (length b) (snd (sh_stage h1) - sh_stage_fill h1)"
  have n: "?n = length a + ?m" using room by (simp add: h1_def)
  have t: "take ?n (a @ b) = a @ take ?m b" "drop ?n (a @ b) = drop ?m b" unfolding n by simp_all
  have mem: "mem_put (fst (sh_stage h) + sh_stage_fill h) (take ?n (a @ b)) (tm_mem tm) =
      mem_put (fst (sh_stage h1) + sh_stage_fill h1) (take ?m b) (tm_mem tm1)"
    unfolding t(1) using mem_put_append [of "fst (sh_stage h) + sh_stage_fill h" a "take ?m b" "tm_mem tm"]
    by (simp add: tm1_def h1_def add.assoc)
  have upd: "tm\<lparr>tm_mem := mm\<rparr> = tm1\<lparr>tm_mem := mm\<rparr>" "h\<lparr>sh_stage_fill := sh_stage_fill h + ?n\<rparr> = h1\<lparr>sh_stage_fill := sh_stage_fill h1 + ?m\<rparr>"
    "snd (sh_stage h) = snd (sh_stage h1)" for mm
    unfolding n by (simp_all add: tm1_def h1_def add.assoc)
  show ?thesis
  proof (cases "b = []")
    case True
    have "min (length a) (snd (sh_stage h) - sh_stage_fill h) = length a" "sh_stage_fill h + length a \<noteq> snd (sh_stage h)"
      using room by simp_all
    then have "stage_loop k tm h a = stage_loop k tm1 h1 []"
      using stage_loop_step [OF a, of k tm h] by (simp add: tm1_def h1_def)
    with True show ?thesis by simp
  next
    case False
    have ab: "a @ b \<noteq> []" using a by simp
    show ?thesis
      unfolding stage_loop_step [OF ab, of k tm h] stage_loop_step [OF False, of k tm1 h1] mem t(2) upd(2)
      unfolding upd(1,3) ..
  qed
qed

lemma stage_loop_append:
  "stage_fits h \<Longrightarrow> stage_loop k tm h (a @ b) =
     (case stage_loop k tm h a of
        Some (tm', h', Inr _) \<Rightarrow> stage_loop k tm' h' b
      | r \<Rightarrow> r)"
proof (induction "2 * length a + of_bool (sh_stage_fill h = snd (sh_stage h))" arbitrary: tm h a rule: less_induct)
  case less
  show ?case
  proof (cases "a = []")
    case True
    then show ?thesis by (simp add: stage_loop.simps [of k tm h "[]"])
  next
    case False
    show ?thesis
    proof (cases "length a < snd (sh_stage h) - sh_stage_fill h")
      case True
      from stage_loop_short [OF False True, of k tm b] stage_loop_short [OF False True, of k tm "[]"] show ?thesis
        by (simp add: stage_loop.simps [of k _ _ "[]"])
    next
      case long: False
      let ?n = "snd (sh_stage h) - sh_stage_fill h"
      define tm1 where "tm1 = tm\<lparr>tm_mem := mem_put (fst (sh_stage h) + sh_stage_fill h) (take ?n a) (tm_mem tm)\<rparr>"
      define h1 where "h1 = h\<lparr>sh_stage_fill := snd (sh_stage h)\<rparr>"
      have fill: "sh_stage_fill h + ?n = snd (sh_stage h)" using less.prems by (simp add: stage_fits_def)
      have n: "min (length a) ?n = ?n" "min (length (a @ b)) ?n = ?n" "take ?n (a @ b) = take ?n a" "drop ?n (a @ b) = drop ?n a @ b"
        using long by simp_all
      have step: "stage_loop k tm h (a @ c) = (case flush_block k tm1 h1 (snd (sh_stage h)) of
          (tm, h, Inl e) \<Rightarrow> Some (tm, h, Inl e) | (tm, h, Inr _) \<Rightarrow> stage_loop k tm h (drop ?n a @ c))" for c
      proof -
        have "a @ c \<noteq> []" "min (length (a @ c)) ?n = ?n" "take ?n (a @ c) = take ?n a" "drop ?n (a @ c) = drop ?n a @ c"
          using long False by simp_all
        note q = this
        show ?thesis unfolding stage_loop_step [OF q(1), of k tm h] q(2-4) fill h1_def [symmetric] tm1_def [symmetric]
          by (simp add: h1_def)
      qed
      obtain tm2 h2 res where f: "flush_block k tm1 h1 (snd (sh_stage h)) = (tm2, h2, res)" by (metis prod_cases3)
      show ?thesis
      proof (cases res)
        case (Inl e)
        with step [of b] step [of "[]"] f show ?thesis by simp
      next
        case (Inr v)
        have h2: "h2 = h1\<lparr>sh_flushed := sh_flushed h1 + snd (sh_stage h), sh_stage_fill := 0\<rparr>"
          using flush_block_same [OF f] Inr by simp
        have dec: "2 * length (drop ?n a) + of_bool (sh_stage_fill h2 = snd (sh_stage h2)) <
            2 * length a + (of_bool (sh_stage_fill h = snd (sh_stage h)) :: nat)"
          using less.prems long False by (auto simp: h2 h1_def stage_fits_def)
        have "stage_fits h2" using less.prems by (simp add: h2 h1_def stage_fits_def)
        from less.hyps [OF dec this] step [of b] step [of "[]"] f Inr show ?thesis by simp
      qed
    qed
  qed
qed

section \<open>Bytes of memory the staging does not look at\<close>

definition overlay :: "nat set \<Rightarrow> (nat \<Rightarrow> byte) \<Rightarrow> (nat \<Rightarrow> byte) \<Rightarrow> nat \<Rightarrow> byte" where
  "overlay A g m = (\<lambda>x. if x \<in> A then g x else m x)"

definition poke :: "nat set \<Rightarrow> (nat \<Rightarrow> byte) \<Rightarrow> tier_manager \<Rightarrow> tier_manager" where
  "poke A g tm = tm\<lparr>tm_mem := overlay A g (tm_mem tm)\<rparr>"

lemma poke_sel [simp]:
  "tm_ssd (poke A g tm) = tm_ssd tm" "tm_hdd (poke A g tm) = tm_hdd tm" "tm_fs (poke A g tm) = tm_fs tm"
  "tm_mem (poke A g tm) = overlay A g (tm_mem tm)"
  by (simp_all add: poke_def)

lemma poke_empty [simp]: "poke {} g tm = tm"
  by (simp add: poke_def overlay_def)

lemma overlay_get: "{a ..< a + n} \<inter> A = {} \<Longrightarrow> mem_get (overlay A g m) a n = mem_get m a n"
  by (rule mem_get_cong) (auto simp: overlay_def)

lemma overlay_put: "{a ..< a + length bs} \<inter> A = {} \<Longrightarrow> mem_put a bs (overlay A g m) = overlay A g (mem_put a bs m)"
  by (rule ext) (auto simp: overlay_def mem_put_def)

lemma poke_mem_put:
  "{a ..< a + length bs} \<inter> A = {} \<Longrightarrow>
     (poke A g tm)\<lparr>tm_mem := mem_put a bs (tm_mem (poke A g tm))\<rparr> = poke A g (tm\<lparr>tm_mem := mem_put a bs (tm_mem tm)\<rparr>)"
  by (simp add: poke_def overlay_put)

lemma tier_pwrite_poke:
  "tier_pwrite k (poke A g tm) p d fds off bs = apfst (poke A g) (tier_pwrite k tm p d fds off bs)"
  by (simp add: tier_pwrite_def poke_def split: prod.split)

text \<open>Nor does it look at the handle's count of the bytes written.\<close>

definition moved :: "nat set \<Rightarrow> (nat \<Rightarrow> byte) \<Rightarrow> nat \<Rightarrow> tier_manager \<times> store_handle \<times> 'r \<Rightarrow> tier_manager \<times> store_handle \<times> 'r" where
  "moved A g off = (\<lambda>(tm, h, r). (poke A g tm, h\<lparr>sh_off := off\<rparr>, r))"

lemma moved_simp [simp]: "moved A g off (tm, h, r) = (poke A g tm, h\<lparr>sh_off := off\<rparr>, r)"
  by (simp add: moved_def)

lemma flush_block_poke:
  assumes "n \<le> snd (sh_stage h)" and "stage_span h \<inter> A = {}"
  shows "flush_block k (poke A g tm) (h\<lparr>sh_off := off\<rparr>) n = moved A g off (flush_block k tm h n)"
proof -
  let ?buf = "fst (sh_stage h)" and ?l = "sh_layout h" and ?pos = "sh_flushed h"
  have mem: "mem_get (overlay A g m) (?buf + i) j = mem_get m (?buf + i) j" if "i + j \<le> n" for m i j
  proof (rule overlay_get)
    have "{?buf + i ..< ?buf + i + j} \<subseteq> stage_span h" using assms(1) that by (auto simp: stage_span_def)
    with assms(2) show "{?buf + i ..< ?buf + i + j} \<inter> A = {}" by blast
  qed
  define stop where "stop = min (?pos + n) (if 0 < ol_hdd_bytes ?l then ol_ssd_bytes ?l else align_up (ol_ssd_bytes ?l) kDeviceBlock)"
  define start where "start = max ?pos (ol_ssd_bytes ?l)"
  define ssd where "ssd t = (if ?pos < stop then tier_pwrite k t (tm_ssd t) (sh_digest h) (sh_ssd h) ?pos
     (mem_get (tm_mem t) ?buf (stop - ?pos)) else (t, Inr ()))" for t
  define hdd where "hdd t = (case sh_hdd h of None \<Rightarrow> (t, Inr ()) | Some fds \<Rightarrow>
     if ?pos + n > ol_ssd_bytes ?l then tier_pwrite k t (the (tm_hdd t)) (sh_digest h) fds (start - ol_ssd_bytes ?l)
       (mem_get (tm_mem t) (?buf + (start - ?pos)) (?pos + n - start)) else (t, Inr ()))" for t
  have fb: "flush_block k t h n = (case ssd t of (t, Inl e) \<Rightarrow> (t, h, Inl e) | (t, Inr _) \<Rightarrow>
     (case hdd t of (t, Inl e) \<Rightarrow> (t, h, Inl e)
      | (t, Inr _) \<Rightarrow> (t, h\<lparr>sh_flushed := sh_flushed h + n, sh_stage_fill := 0\<rparr>, Inr ())))" for t
    unfolding flush_block_def Let_def ssd_def hdd_def stop_def start_def ..
  have s: "ssd (poke A g t) = apfst (poke A g) (ssd t)" for t
    using mem [of 0 "stop - ?pos"] by (simp add: ssd_def tier_pwrite_poke stop_def)
  have h: "hdd (poke A g t) = apfst (poke A g) (hdd t)" for t
    using mem [of "start - ?pos" "?pos + n - start"] by (simp add: hdd_def tier_pwrite_poke start_def split: option.split)
  have sel: "sh_layout (h\<lparr>sh_off := off\<rparr>) = ?l" "sh_flushed (h\<lparr>sh_off := off\<rparr>) = ?pos" "sh_stage (h\<lparr>sh_off := off\<rparr>) = sh_stage h"
    "sh_digest (h\<lparr>sh_off := off\<rparr>) = sh_digest h" "sh_ssd (h\<lparr>sh_off := off\<rparr>) = sh_ssd h" "sh_hdd (h\<lparr>sh_off := off\<rparr>) = sh_hdd h"
    by simp_all
  have fo: "flush_block k t (h\<lparr>sh_off := off\<rparr>) n = (case ssd t of (t, Inl e) \<Rightarrow> (t, h\<lparr>sh_off := off\<rparr>, Inl e) | (t, Inr _) \<Rightarrow>
     (case hdd t of (t, Inl e) \<Rightarrow> (t, h\<lparr>sh_off := off\<rparr>, Inl e)
      | (t, Inr _) \<Rightarrow> (t, h\<lparr>sh_off := off, sh_flushed := sh_flushed h + n, sh_stage_fill := 0\<rparr>, Inr ())))" for t
    unfolding flush_block_def Let_def sel ssd_def hdd_def stop_def start_def ..
  obtain t1 r1 where r1: "ssd tm = (t1, r1)" by (metis surj_pair)
  obtain t2 r2 where r2: "hdd t1 = (t2, r2)" by (metis surj_pair)
  show ?thesis unfolding fo fb [of tm] s r1 using h [of t1] r2 by (cases r1; cases r2) simp_all
qed

lemma stage_loop_poke:
  "stage_fits h \<Longrightarrow> stage_span h \<inter> A = {} \<Longrightarrow>
     stage_loop k (poke A g tm) (h\<lparr>sh_off := off\<rparr>) p = map_option (moved A g off) (stage_loop k tm h p)"
proof (induction "2 * length p + of_bool (sh_stage_fill h = snd (sh_stage h))" arbitrary: tm h p rule: less_induct)
  case less
  show ?case
  proof (cases "p = []")
    case True
    then show ?thesis by (simp add: stage_loop.simps [of k _ _ "[]"])
  next
    case False
    define n where "n = min (length p) (snd (sh_stage h) - sh_stage_fill h)"
    define tm1 where "tm1 = tm\<lparr>tm_mem := mem_put (fst (sh_stage h) + sh_stage_fill h) (take n p) (tm_mem tm)\<rparr>"
    define h1 where "h1 = h\<lparr>sh_stage_fill := sh_stage_fill h + n\<rparr>"
    have sub: "{fst (sh_stage h) + sh_stage_fill h ..< fst (sh_stage h) + sh_stage_fill h + length (take n p)} \<subseteq> stage_span h"
      using less.prems(1) by (auto simp: stage_span_def stage_fits_def n_def)
    have pk: "(poke A g tm)\<lparr>tm_mem := mem_put (fst (sh_stage h) + sh_stage_fill h) (take n p) (tm_mem (poke A g tm))\<rparr> = poke A g tm1"
      unfolding tm1_def by (rule poke_mem_put) (use sub less.prems(2) in blast)
    define k1 where "k1 = h1\<lparr>sh_off := off\<rparr>"
    note step = stage_loop_step [OF False, of k tm h, folded n_def, folded h1_def tm1_def]
    have stepp: "stage_loop k (poke A g tm) (h\<lparr>sh_off := off\<rparr>) p =
      (if sh_stage_fill h1 = snd (sh_stage h)
       then case flush_block k (poke A g tm1) k1 (snd (sh_stage h)) of
              (tm2, h2, Inl e) \<Rightarrow> Some (tm2, h2, Inl e)
            | (tm2, h2, Inr _) \<Rightarrow> stage_loop k tm2 h2 (drop n p)
       else stage_loop k (poke A g tm1) k1 (drop n p))"
    proof -
      have sel: "sh_stage (h\<lparr>sh_off := off\<rparr>) = sh_stage h" "sh_stage_fill (h\<lparr>sh_off := off\<rparr>) = sh_stage_fill h"
        "h\<lparr>sh_off := off, sh_stage_fill := sh_stage_fill h + n\<rparr> = k1" by (simp_all add: k1_def h1_def)
      show ?thesis
        unfolding stage_loop_step [OF False, of k "poke A g tm" "h\<lparr>sh_off := off\<rparr>"] sel(1,2) n_def [symmetric]
        unfolding sel(3) pk by (simp add: k1_def)
    qed
    have fit1: "stage_fits h1" "stage_span h1 = stage_span h"
      using less.prems by (auto simp: stage_fits_def h1_def n_def stage_span_def)
    show ?thesis
    proof (cases "sh_stage_fill h1 = snd (sh_stage h)")
      case full: True
      obtain tm2 h2 res where f: "flush_block k tm1 h1 (snd (sh_stage h)) = (tm2, h2, res)" by (metis prod_cases3)
      have fp: "flush_block k (poke A g tm1) k1 (snd (sh_stage h)) = (poke A g tm2, h2\<lparr>sh_off := off\<rparr>, res)"
        using flush_block_poke [of "snd (sh_stage h)" h1 A k g tm1 off] fit1(2) less.prems(2) f by (simp add: h1_def k1_def)
      show ?thesis
      proof (cases res)
        case (Inl e)
        with full f fp step stepp show ?thesis by simp
      next
        case (Inr v)
        have h2: "h2 = h1\<lparr>sh_flushed := sh_flushed h1 + snd (sh_stage h), sh_stage_fill := 0\<rparr>"
          using flush_block_same [OF f] Inr by simp
        have dec: "2 * length (drop n p) + of_bool (sh_stage_fill h2 = snd (sh_stage h2)) <
            2 * length p + (of_bool (sh_stage_fill h = snd (sh_stage h)) :: nat)"
          using less.prems(1) full False by (auto simp: h2 h1_def n_def stage_fits_def)
        have "stage_fits h2" "stage_span h2 \<inter> A = {}" using fit1 less.prems(2) by (simp_all add: h2 stage_fits_def stage_span_def)
        from less.hyps [OF dec this, of tm2] full f fp Inr step stepp show ?thesis by simp
      qed
    next
      case part: False
      have dec: "2 * length (drop n p) + of_bool (sh_stage_fill h1 = snd (sh_stage h1)) <
          2 * length p + (of_bool (sh_stage_fill h = snd (sh_stage h)) :: nat)"
        using less.prems(1) part False by (auto simp: h1_def n_def stage_fits_def)
      have "stage_span h1 \<inter> A = {}" using fit1(2) less.prems(2) by simp
      from less.hyps [OF dec fit1(1) this, of tm1] part step stepp show ?thesis by (simp add: k1_def)
    qed
  qed
qed

section \<open>A handle written in pieces\<close>

definition fill_head :: "store_handle \<Rightarrow> nat \<Rightarrow> bytes \<Rightarrow> tier_manager \<Rightarrow> tier_manager" where
  "fill_head h off chunk tm =
     (case sh_head h of
        None \<Rightarrow> tm
      | Some r \<Rightarrow> tm\<lparr>tm_mem := mem_put (rg_data r + off) (take (rg_len r - off) chunk) (tm_mem tm)\<rparr>)"

definition ram_only :: "store_handle \<Rightarrow> bool" where
  "ram_only h \<longleftrightarrow> ol_ssd_bytes (sh_layout h) = 0 \<and> ol_hdd_bytes (sh_layout h) = 0"

lemma handle_write_fill:
  assumes "u64 (sh_off h + length chunk) \<le> ol_size (sh_layout h)"
  shows "handle_write k tm h chunk =
    (if ram_only h then Some (fill_head h (sh_off h) chunk tm, h\<lparr>sh_off := sh_off h + length chunk\<rparr>, Inr ())
     else case stage_loop k (fill_head h (sh_off h) chunk tm) h chunk of
            None \<Rightarrow> None
          | Some (tm, h, Inl e) \<Rightarrow> Some (tm, h, Inl e)
          | Some (tm, h, Inr _) \<Rightarrow> Some (tm, h\<lparr>sh_off := sh_off h + length chunk\<rparr>, Inr ()))"
proof -
  have "(if off < min (off + length chunk) len
         then tm\<lparr>tm_mem := mem_put (a + off) (take (min (off + length chunk) len - off) chunk) (tm_mem tm)\<rparr> else tm) =
      tm\<lparr>tm_mem := mem_put (a + off) (take (len - off) chunk) (tm_mem tm)\<rparr>" for off len a :: nat
  proof (cases "off < min (off + length chunk) len")
    case True
    have "min (off + length chunk) len - off = min (length chunk) (len - off)" by linarith
    with True show ?thesis by (simp add: min.commute take_all_iff min_def)
  next
    case False
    then have t: "take (len - off) chunk = []" by auto
    show ?thesis unfolding if_not_P [OF False] t by simp
  qed
  then have "(case sh_head h of None \<Rightarrow> tm | Some r \<Rightarrow>
       let hend = min (sh_off h + length chunk) (rg_len r) in
       if sh_off h < hend
       then tm\<lparr>tm_mem := mem_put (rg_data r + sh_off h) (take (hend - sh_off h) chunk) (tm_mem tm)\<rparr> else tm) =
      fill_head h (sh_off h) chunk tm"
    by (simp add: fill_head_def Let_def split: option.split)
  with assms show ?thesis unfolding handle_write_def Let_def ram_only_def by (simp add: not_less)
qed

lemma fill_head_append: "fill_head h off (a @ b) tm = fill_head h (off + length a) b (fill_head h off a tm)"
proof -
  have "mem_put (p + off) (take (len - off) (a @ b)) m =
      mem_put (p + (off + length a)) (take (len - (off + length a)) b) (mem_put (p + off) (take (len - off) a) m)" for p len m
  proof (cases "length a \<le> len - off")
    case True
    then have "take (len - off) a = a" "len - (off + length a) = len - off - length a" by simp_all
    then show ?thesis using mem_put_append [of "p + off" a "take (len - off - length a) b" m] by (simp add: add.assoc)
  qed simp
  then show ?thesis by (simp add: fill_head_def split: option.split)
qed

lemma fill_head_poke: "\<exists>A g. A \<subseteq> head_span h \<and> (\<forall>tm. fill_head h off chunk tm = poke A g tm)"
proof (cases "sh_head h")
  case None
  then have "{} \<subseteq> head_span h \<and> (\<forall>tm. fill_head h off chunk tm = poke {} undefined tm)" by (simp add: fill_head_def)
  then show ?thesis by blast
next
  case (Some r)
  let ?a = "rg_data r + off" and ?bs = "take (rg_len r - off) chunk"
  have "mem_put ?a ?bs m = overlay {?a ..< ?a + length ?bs} (\<lambda>x. ?bs ! (x - ?a)) m" for m
    by (rule ext) (auto simp: mem_put_def overlay_def)
  moreover have "{?a ..< ?a + length ?bs} \<subseteq> head_span h" using Some by (auto simp: head_span_def)
  ultimately show ?thesis using Some by (intro exI conjI) (auto simp: fill_head_def poke_def)
qed

lemma handle_write_append:
  assumes fits: "stage_fits h" and apart: "stage_span h \<inter> head_span h = {}"
    and size: "sh_off h + length a + length b \<le> ol_size (sh_layout h)"
    and wa: "handle_write k tm h a = Some (tm1, h1, Inr u)" and wb: "handle_write k tm1 h1 b = Some (tm2, h2, Inr v)"
  shows "handle_write k tm h (a @ b) = Some (tm2, h2, Inr ())"
proof -
  have le: "u64 n \<le> n" for n by (simp add: u64_def)
  have sa: "u64 (sh_off h + length a) \<le> ol_size (sh_layout h)" using size le [of "sh_off h + length a"] by linarith
  have sab: "u64 (sh_off h + length (a @ b)) \<le> ol_size (sh_layout h)" using size le [of "sh_off h + length (a @ b)"] by simp
  note ha = wa [unfolded handle_write_fill [OF sa]]
  show ?thesis
  proof (cases "ram_only h")
    case True
    with ha have e: "tm1 = fill_head h (sh_off h) a tm" "h1 = h\<lparr>sh_off := sh_off h + length a\<rparr>" by auto
    have sb: "u64 (sh_off h1 + length b) \<le> ol_size (sh_layout h1)"
      using size le [of "sh_off h + length a + length b"] by (simp add: e(2))
    have "fill_head h1 = fill_head h" "ram_only h1" using True by (simp_all add: e(2) fill_head_def fun_eq_iff ram_only_def)
    with wb [unfolded handle_write_fill [OF sb]] True show ?thesis
      unfolding handle_write_fill [OF sab] fill_head_append by (auto simp: e add.assoc)
  next
    case False
    let ?t = "fill_head h (sh_off h) a tm"
    obtain t1 g1 res where l: "stage_loop k ?t h a = Some (t1, g1, res)" "same_handle h g1" "stage_fits g1" "sh_off g1 = sh_off h"
      using stage_loop_total [OF fits, of k ?t a] by blast
    with ha False have r: "res = Inr ()" and e: "tm1 = t1" "h1 = g1\<lparr>sh_off := sh_off h + length a\<rparr>"
      by (cases res; auto)+
    have same: "sh_head h1 = sh_head h" "sh_layout h1 = sh_layout h" "stage_span h1 = stage_span h" "head_span h1 = head_span h"
      using l(2) by (simp_all add: e(2) same_handle_def stage_span_def head_span_def)
    have sb: "u64 (sh_off h1 + length b) \<le> ol_size (sh_layout h1)"
      using size le [of "sh_off h + length a + length b"] by (simp add: e(2) same(2) [unfolded e(2)])
    obtain A g where A: "A \<subseteq> head_span h" "\<And>tm. fill_head h (sh_off h + length a) b tm = poke A g tm"
      using fill_head_poke [of h "sh_off h + length a" b] by blast
    have fh: "fill_head h1 (sh_off h1) b t1 = poke A g t1"
    proof -
      have "sh_off h1 = sh_off h + length a" by (simp add: e(2))
      moreover have "fill_head h1 n b t1 = fill_head h n b t1" for n by (simp only: fill_head_def same(1))
      ultimately show ?thesis using A(2) [of t1] by simp
    qed
    have fits1: "stage_fits h1" using l(3) by (simp add: e(2) stage_fits_def)
    obtain t2 g2 res2 where l2: "stage_loop k (poke A g t1) h1 b = Some (t2, g2, res2)" "sh_off g2 = sh_off h1"
      using stage_loop_total [OF fits1, of k "poke A g t1" b] by blast
    have "\<not> ram_only h1" using False same(2) by (simp add: ram_only_def)
    with wb [unfolded handle_write_fill [OF sb]] l2 have r2: "res2 = Inr ()"
      and e2: "tm2 = t2" "h2 = g2\<lparr>sh_off := sh_off h + length a + length b\<rparr>"
      unfolding e(1) fh by (cases res2; auto simp: e(2))+
    have dj: "stage_span h \<inter> A = {}" using apart A(1) by blast
    have id: "f\<lparr>sh_off := sh_off f\<rparr> = f" for f :: store_handle by simp
    have p1: "stage_loop k (poke A g ?t) h a = Some (poke A g t1, g1, Inr ())"
      using stage_loop_poke [OF fits dj, of k g ?t "sh_off h" a] l(1,4) r by simp
    have g1: "g1 = h1\<lparr>sh_off := sh_off h\<rparr>" using l(4) by (simp add: e(2))
    have p2: "stage_loop k (poke A g t1) g1 b = Some (t2, g2\<lparr>sh_off := sh_off h\<rparr>, Inr ())"
      using stage_loop_poke [OF fits1, of "{}" k undefined "poke A g t1" "sh_off h" b] l2(1) r2 by (simp add: g1)
    show ?thesis
      unfolding handle_write_fill [OF sab] fill_head_append A(2) stage_loop_append [OF fits] using False p1 p2
      by (simp add: e2 add.assoc)
  qed
qed

text \<open>All the pieces.\<close>

fun write_all :: "kernel \<Rightarrow> tier_manager \<Rightarrow> store_handle \<Rightarrow> bytes list \<Rightarrow> (tier_manager \<times> store_handle \<times> unit result) option" where
  "write_all k tm h [] = Some (tm, h, Inr ())"
| "write_all k tm h (c # cs) =
     (case handle_write k tm h c of
        None \<Rightarrow> None
      | Some (tm, h, Inl e) \<Rightarrow> Some (tm, h, Inl e)
      | Some (tm, h, Inr _) \<Rightarrow> write_all k tm h cs)"

lemma write_all_append:
  "write_all k tm h (cs @ ds) =
     (case write_all k tm h cs of Some (tm, h, Inr _) \<Rightarrow> write_all k tm h ds | r \<Rightarrow> r)"
  by (induction cs arbitrary: tm h) (auto split: option.split prod.split sum.split)

lemma handle_write_same_handle:
  assumes "stage_fits h" and "handle_write k tm h c = Some (tm', h', Inr u)"
  shows "same_handle h h'" "stage_fits h'" "sh_off h' = sh_off h + length c"
proof -
  have le: "u64 (sh_off h + length c) \<le> ol_size (sh_layout h)"
    using assms(2) by (rule contrapos_pp) (simp add: handle_write_def Let_def)
  let ?t = "fill_head h (sh_off h) c tm"
  obtain t1 g1 res where l: "stage_loop k ?t h c = Some (t1, g1, res)" "same_handle h g1" "stage_fits g1" "sh_off g1 = sh_off h"
    using stage_loop_total [OF assms(1), of k ?t c] by blast
  have "same_handle h h' \<and> stage_fits h' \<and> sh_off h' = sh_off h + length c"
  proof (cases "ram_only h")
    case True
    with assms show ?thesis by (auto simp: handle_write_fill [OF le] stage_fits_def)
  next
    case False
    with assms(2) l have "h' = g1\<lparr>sh_off := sh_off h + length c\<rparr>"
      by (cases res) (auto simp: handle_write_fill [OF le])
    with l(2,3) show ?thesis by (simp add: same_handle_def stage_fits_def)
  qed
  then show "same_handle h h'" "stage_fits h'" "sh_off h' = sh_off h + length c" by blast+
qed

lemma write_all_whole:
  assumes "write_all k tm h cs = Some (tm', h', Inr u)" and "stage_fits h" and "stage_span h \<inter> head_span h = {}"
    and "sh_off h + length (concat cs) \<le> ol_size (sh_layout h)"
  shows "handle_write k tm h (concat cs) = Some (tm', h', Inr ())"
  using assms
proof (induction cs arbitrary: tm h)
  case Nil
  have "u64 (sh_off h) \<le> ol_size (sh_layout h)" using Nil.prems(4) by (simp add: u64_def order_trans [OF mod_less_eq_dividend])
  moreover have "fill_head h (sh_off h) [] tm = tm" by (simp add: fill_head_def split: option.split)
  ultimately show ?case using Nil.prems(1) handle_write_fill [of h "[]" k tm] by (simp add: stage_loop.simps [of k _ _ "[]"])
next
  case (Cons c cs)
  then obtain tm1 h1 v where w: "handle_write k tm h c = Some (tm1, h1, Inr v)" and r: "write_all k tm1 h1 cs = Some (tm', h', Inr u)"
    by (auto split: option.splits prod.splits sum.splits)
  note s = handle_write_same_handle [OF Cons.prems(2) w]
  have "stage_span h1 \<inter> head_span h1 = {}" "sh_off h1 + length (concat cs) \<le> ol_size (sh_layout h1)"
    using Cons.prems(3,4) s by (simp_all add: same_handle_def stage_span_def head_span_def)
  from Cons.IH [OF r s(2) this] have b: "handle_write k tm1 h1 (concat cs) = Some (tm', h', Inr ())" .
  show ?case using handle_write_append [OF Cons.prems(2,3) _ w b] Cons.prems(4) by simp
qed

lemma commit_committed: "commit k now tm h flags expiry cas = (tm', h', Inr u) \<Longrightarrow> sh_committed h'"
  by (auto simp: commit_def publish_object_def install_object_def Let_def split: prod.splits sum.splits if_splits option.splits)

text \<open>A store whose value came in pieces is the store of the whole value.\<close>

lemma chunked_is_store:
  assumes w: "world_ok (tm, hs, ps)" and b: "begin_store k tm d (length (concat cs)) = (tm1, Inr h)"
    and c: "write_all k tm1 h cs = Some (tm2, h2, Inr u)" and m: "commit k now tm2 h2 flags expiry 0 = (tm3, h3, res)"
  shows "tm_store k now tm d (concat cs) flags expiry = Some (fst (abort_uncommitted k tm3 h3), res)"
proof -
  have w1: "world_ok (tm1, h # hs, ps)" using begin_store_world [OF w b] by simp
  have fits: "stage_fits h" using w1 by (simp add: world_ok.simps handle_ok_def)
  have "sh_off h = 0" "ol_size (sh_layout h) = length (concat cs)"
    by (rule begin_store_files [OF b]; simp)+
  with write_all_whole [OF c fits handle_head_apart [OF w1]] have "handle_write k tm1 h (concat cs) = Some (tm2, h2, Inr ())" by simp
  then show ?thesis using b m by (simp add: tm_store_def)
qed

end
