(* ===== verification/Mc_Safe.thy ===== *)
theory Mc_Safe
  imports Loop_Table Mc_Event_Loop Chunked_Store
begin

text \<open>
  The memcache protocol keeps the contract of the event loop (\<open>protocol_seams\<close>), so the
  invariant of the loop holds for the memcache server.
\<close>

declare world_ok.simps [simp del]

section \<open>Changes a parser may make\<close>

lemma tame_upd [simp]:
  "tame (c\<lparr>cn_in := i\<rparr>) = tame c" "tame (c\<lparr>cn_out := out\<rparr>) = tame c" "tame (c\<lparr>cn_meta := m\<rparr>) = tame c"
  "tame (c\<lparr>cn_quit_after := b\<rparr>) = tame c" "tame (c\<lparr>cn_inm := s\<rparr>) = tame c" "tame (c\<lparr>cn_req_range := r\<rparr>) = tame c"
  by (simp_all add: tame_def)

lemma tameD:
  assumes "tame c"
  shows "\<not> cn_closing c" "cn_inflight c = 0" "calm (cn_get c)" "quiet (cn_get c)"
    "cn_state c = St_idle \<and> pp_sh (cn_put c) = None \<or> cn_state c = St_set_body"
  using assms by (simp_all add: tame_def)

lemma held_reply [simp]: "held X (lp, reply s c) = held X (lp, c)" "tame (reply s c) = tame c"
  by (simp_all add: reply_def)

lemma calm_upd [simp]: "calm (g\<lparr>gp_with_cas := b\<rparr>) = calm g"
  by (simp add: calm_def)

text \<open>How a round of \<^verbatim>\<open>process\<close> leaves the connection: to be parsed on, to be sent or received for, or at rest.\<close>

definition settled :: "ctx \<Rightarrow> focus \<times> flow \<Rightarrow> bool" where
  "settled X = (\<lambda>((lp, c), fl). case fl of
     Go \<Rightarrow> held X (lp, c) \<and> tame c
   | Break \<Rightarrow> held X (lp, c) \<and> (tame c \<or> \<not> cn_closing c \<and> cn_inflight c = 0 \<and> quiet (cn_get c) \<and>
       pp_sh (cn_put c) = None \<and> cn_state c = St_get_header \<and> reaches (cn_get c) \<and> cn_out c \<noteq> [])
   | Return \<Rightarrow> rested X (lp, c))"

lemma settled_simps [simp]:
  "settled X ((lp, c), Go) \<longleftrightarrow> held X (lp, c) \<and> tame c"
  "settled X ((lp, c), Return) \<longleftrightarrow> rested X (lp, c)"
  by (simp_all add: settled_def)

lemma settled_break: "held X (lp, c) \<Longrightarrow> tame c \<Longrightarrow> settled X ((lp, c), Break)"
  by (simp add: settled_def)

section \<open>Storing\<close>

text \<open>Bytes for the writer of the connection in focus.\<close>

lemma write_held:
  assumes h: "held X (lp, c)" and sh: "pp_sh (cn_put c) = Some h0"
  obtains tm h1 r where "handle_write (ev_kernel ev) (lp_tm lp) h0 bs = Some (tm, h1, r)"
    "\<forall>p. pp_sh p = Some h1 \<longrightarrow> held X (lp\<lparr>lp_tm := tm\<rparr>, c\<lparr>cn_put := p\<rparr>)"
proof -
  have w: "world_ok (lp_tm lp, [] @ h0 # cx_hs X, conn_pins c @ cx_ps X)"
    using heldD(1) [OF h] sh by (simp add: conn_handles_def)
  then have "stage_fits h0" by (simp add: world_ok.simps handle_ok_def)
  from handle_write_total [OF this, of "ev_kernel ev" "lp_tm lp" bs] obtain tm h1 r where
    e: "handle_write (ev_kernel ev) (lp_tm lp) h0 bs = Some (tm, h1, r)" "same_books (lp_tm lp) tm" "same_handle h0 h1" "stage_fits h1"
    by blast
  have "world_ok (tm, [] @ h1 # cx_hs X, conn_pins c @ cx_ps X)" by (rule world_ok_handle [OF w e(2-4)])
  then have "held X (lp\<lparr>lp_tm := tm\<rparr>, c\<lparr>cn_put := p\<rparr>)" if "pp_sh p = Some h1" for p
    using heldD(5) [OF h] that by (intro held_tm [OF h]) (simp_all add: conn_handles_def)
  with that e(1) show ?thesis by blast
qed

lemma ingest_chunk_held:
  assumes "held X (lp, c)" and "tame c" and "cn_state c = St_set_body"
  shows "\<exists>lp' c'. ingest_chunk ev n (lp, c) = Some (lp', c') \<and> held X (lp', c') \<and> tame c' \<and> cn_state c' = St_set_body"
proof (cases "pp_sh (cn_put c)")
  case None
  with assms show ?thesis by (simp add: ingest_chunk_def)
next
  case (Some h)
  show ?thesis
  proof (cases "pp_failed (cn_put c)")
    case True
    with assms Some show ?thesis by (simp add: ingest_chunk_def)
  next
    case False
    obtain tm h1 r where w: "handle_write (ev_kernel ev) (lp_tm lp) h (str_bytes (take n (cn_in c))) = Some (tm, h1, r)"
      "\<forall>p. pp_sh p = Some h1 \<longrightarrow> held X (lp\<lparr>lp_tm := tm\<rparr>, c\<lparr>cn_put := p\<rparr>)"
      by (rule write_held [OF assms(1) Some, of ev "str_bytes (take n (cn_in c))"])
    have "tame (c\<lparr>cn_put := p\<rparr>)" for p using assms(2,3) by (simp add: tame_def)
    with w False Some assms(3) show ?thesis by (cases r) (simp_all add: ingest_chunk_def)
  qed
qed

lemma ingest_held:
  "held X f \<Longrightarrow> tame (snd f) \<Longrightarrow> cn_state (snd f) = St_set_body \<Longrightarrow>
     \<exists>lp' c'. ingest ev f = Some (lp', c') \<and> held X (lp', c') \<and> tame c' \<and> cn_state c' = St_set_body"
proof (induction ev f rule: ingest.induct)
  case (1 ev lp c)
  show ?case
  proof (cases "pp_remaining (cn_put c) > 0 \<and> cn_in c \<noteq> []")
    case True
    let ?n = "min (length (cn_in c)) (pp_remaining (cn_put c))"
    obtain lp1 c1 where i: "ingest_chunk ev ?n (lp, c) = Some (lp1, c1)" "held X (lp1, c1)" "tame c1" "cn_state c1 = St_set_body"
      using ingest_chunk_held [of X lp c ev ?n] "1.prems" by auto
    have "held X (lp1, ate ?n c1)"
      using i(2) held_put_cong [of "(cn_put c1)\<lparr>pp_remaining := pp_remaining (cn_put c1) - ?n\<rparr>" "c1\<lparr>cn_in := drop ?n (cn_in c1)\<rparr>" X lp1]
      by (simp add: ate_def)
    moreover have "tame (ate ?n c1)" "cn_state (ate ?n c1) = St_set_body" using i(3,4) by (simp_all add: ate_def tame_def)
    ultimately show ?thesis using "1.IH" [OF True refl i(1) refl] i(1) True by (simp add: ingest.simps [of ev lp c])
  next
    case False
    with "1.prems" show ?thesis by (auto simp: ingest.simps [of ev lp c])
  qed
qed

text \<open>After the body the writer is gone, committed or aborted.\<close>

lemma settle_reset_held:
  assumes h: "held X (lp, c)"
  shows "\<exists>lp' p r. reset_sh ev (fst (settle ev b (lp, c))) = (lp', c\<lparr>cn_put := p\<rparr>) \<and> snd (settle ev b (lp, c)) = r \<and>
    held X (lp', c\<lparr>cn_put := p\<rparr>) \<and> pp_sh p = None"
proof -
  let ?p = "(cn_put c)\<lparr>pp_sh := None\<rparr>"
  have triv: ?thesis if "fst (settle ev b (lp, c)) = (lp, c)"
  proof -
    obtain lp1 where "reset_sh ev (lp, c) = (lp1, c\<lparr>cn_put := ?p\<rparr>)" "held X (lp1, c\<lparr>cn_put := ?p\<rparr>)"
      by (rule reset_sh_held [OF h, of ev])
    with that show ?thesis by (intro exI [of _ lp1] exI [of _ ?p]) simp
  qed
  show ?thesis
  proof (cases "b \<and> \<not> pp_reject (cn_put c) \<and> \<not> pp_failed (cn_put c) \<and> pp_sh (cn_put c) \<noteq> None")
    case False
    then have "fst (settle ev b (lp, c)) = (lp, c)" by (auto simp: settle_def Let_def split: option.splits)
    then show ?thesis by (rule triv)
  next
    case True
    then obtain h0 where h0: "pp_sh (cn_put c) = Some h0" by auto
    let ?e = "if mp_meta (cn_meta c) then mp_expiry (cn_meta c) else exptime_to_expiry (pp_exptime (cn_put c)) (ev_now ev)"
    obtain tm h1 r where k: "commit (ev_kernel ev) (ev_now ev) (lp_tm lp) h0 (pp_flags (cn_put c)) ?e (pp_cas (cn_put c)) = (tm, h1, r)"
      by (metis prod_cases3)
    have s: "fst (settle ev b (lp, c)) = (lp\<lparr>lp_tm := tm\<rparr>, c\<lparr>cn_put := (cn_put c)\<lparr>pp_sh := Some h1\<rparr>\<rparr>)"
      using True h0 k by (simp add: settle_def Let_def)
    have w: "world_ok (lp_tm lp, [] @ h0 # cx_hs X, conn_pins c @ cx_ps X)"
      using heldD(1) [OF h] h0 by (simp add: conn_handles_def)
    note cw = commit_world [OF w k]
    show ?thesis
    proof (cases r)
      case (Inr u)
      then have "sh_committed h1" using commit_committed [of "ev_kernel ev"] k by auto
      then have "reset_sh ev (fst (settle ev b (lp, c))) = (lp\<lparr>lp_tm := tm\<rparr>, c\<lparr>cn_put := ?p\<rparr>)"
        by (simp add: s reset_sh_def abort_uncommitted_def)
      moreover have "held X (lp\<lparr>lp_tm := tm\<rparr>, c\<lparr>cn_put := ?p\<rparr>)"
        using heldD(5) [OF h] cw Inr by (intro held_tm [OF h]) (simp_all add: conn_handles_def)
      ultimately show ?thesis by (intro exI [of _ "lp\<lparr>lp_tm := tm\<rparr>"] exI [of _ ?p]) simp
    next
      case (Inl e)
      let ?c = "c\<lparr>cn_put := (cn_put c)\<lparr>pp_sh := Some h1\<rparr>\<rparr>"
      have "held X (lp\<lparr>lp_tm := tm\<rparr>, ?c)"
        using heldD(5) [OF h] cw Inl by (intro held_tm [OF h]) (simp_all add: conn_handles_def)
      then obtain lp1 where "reset_sh ev (lp\<lparr>lp_tm := tm\<rparr>, ?c) = (lp1, ?c\<lparr>cn_put := (cn_put ?c)\<lparr>pp_sh := None\<rparr>\<rparr>)"
        "held X (lp1, ?c\<lparr>cn_put := (cn_put ?c)\<lparr>pp_sh := None\<rparr>\<rparr>)" by (rule reset_sh_held)
      with s show ?thesis by (intro exI [of _ lp1] exI [of _ ?p]) simp
    qed
  qed
qed

lemma end_set_held:
  assumes "held X (lp, c)" and "tame c"
  shows "\<exists>lp' c'. end_set ev (lp, c) = (lp', c') \<and> held X (lp', c') \<and> tame c'"
proof -
  let ?c = "c\<lparr>cn_in := drop 2 (cn_in c)\<rparr>" and ?b = "take 2 (cn_in c) = CRLF"
  have "held X (lp, ?c)" using assms by simp
  from settle_reset_held [OF this, of ev ?b] obtain lp1 p r where
    s: "reset_sh ev (fst (settle ev ?b (lp, ?c))) = (lp1, ?c\<lparr>cn_put := p\<rparr>)" "snd (settle ev ?b (lp, ?c)) = r"
    "held X (lp1, ?c\<lparr>cn_put := p\<rparr>)" "pp_sh p = None" by blast
  have t: "tame ((reply out (?c\<lparr>cn_put := p\<rparr>))\<lparr>cn_state := St_idle\<rparr>)" for out using assms(2) s(4) by (simp add: tame_def reply_def)
  have "\<exists>lp2 out. end_set ev (lp, c) = (lp2, (reply out (?c\<lparr>cn_put := p\<rparr>))\<lparr>cn_state := St_idle\<rparr>) \<and> (lp2 = lp1 \<or> (\<exists>u. lp2 = bump u lp1))"
    using s(1,2) by (cases "settle ev ?b (lp, ?c)") (auto simp: end_set_def Let_def split: option.split)
  then obtain lp2 out where e: "end_set ev (lp, c) = (lp2, (reply out (?c\<lparr>cn_put := p\<rparr>))\<lparr>cn_state := St_idle\<rparr>)"
    "lp2 = lp1 \<or> (\<exists>u. lp2 = bump u lp1)" by blast
  have "held X (lp2, (reply out (?c\<lparr>cn_put := p\<rparr>))\<lparr>cn_state := St_idle\<rparr>)" using e(2) s(3) by auto
  with e(1) t show ?thesis by blast
qed

lemma body_round_settled:
  assumes "held X (lp, c)" and "tame c" and "cn_state c = St_set_body"
  shows "\<exists>r. body_round ev (lp, c) = Some r \<and> settled X r"
proof -
  from ingest_held [of X "(lp, c)" ev] assms obtain lp1 c1 where
    i: "ingest ev (lp, c) = Some (lp1, c1)" "held X (lp1, c1)" "tame c1" by auto
  from end_set_held [OF i(2,3), of ev] i settled_break [OF i(2,3)] show ?thesis by (auto simp: body_round_def)
qed

section \<open>Commands\<close>

lemma open_set_settled:
  assumes h: "held X (lp, c)" and t: "tame c" and st: "cn_state c = St_idle" and P: "cx_puts X"
  shows "settled X (open_set ev failed (lp, c))"
proof -
  note d = tameD [OF t]
  have sh: "pp_sh (cn_put c) = None" using d(5) st by simp
  obtain tm r where b: "begin_store (ev_kernel ev) (lp_tm lp) (pp_digest (cn_put c)) (pp_remaining (cn_put c)) = (tm, r)" by (metis surj_pair)
  have w: "world_ok (lp_tm lp, cx_hs X, conn_pins c @ cx_ps X)" using heldD(1) [OF h] sh by (simp add: conn_handles_def)
  note bw = begin_store_world [OF w b]
  have tb: "tame (c\<lparr>cn_put := p, cn_state := St_set_body\<rparr>)" for p using d by (simp add: tame_def)
  have keep: "held X (lp\<lparr>lp_tm := tm\<rparr>, c\<lparr>cn_put := p, cn_state := St_set_body\<rparr>)"
    if "case r of Inl e \<Rightarrow> pp_sh p = None | Inr h \<Rightarrow> pp_sh p = Some h" for p
    using heldD(5) [OF h] bw that by (intro held_tm [OF h]) (auto simp: conn_handles_def split: sum.splits)
  show ?thesis
  proof (cases "pp_reject (cn_put c)")
    case True
    have "held X (lp, c\<lparr>cn_put := cn_put c, cn_state := St_set_body\<rparr>)" using h by simp
    with True tb [of "cn_put c"] show ?thesis by (simp add: open_set_def Let_def)
  next
    case nr: False
    show ?thesis
    proof (cases r)
      case (Inr h1)
      with nr b tb keep [of "(cn_put c)\<lparr>pp_sh := Some h1\<rparr>"] show ?thesis by (simp add: open_set_def Let_def)
    next
      case (Inl e)
      show ?thesis
      proof (cases "code e = would_block")
        case False
        with nr b tb Inl sh keep [of "(cn_put c)\<lparr>pp_reject := True, pp_reply := failed\<rparr>"] show ?thesis
          by (simp add: open_set_def Let_def)
      next
        case True
        have "held X (lp\<lparr>lp_tm := tm\<rparr>, c)" using heldD(5) [OF h] bw Inl sh by (intro held_tm [OF h]) (simp_all add: conn_handles_def)
        then have "rested X (bump (\<lambda>s. s\<lparr>st_set_backpressure := u64 (st_set_backpressure s + 1)\<rparr>)
             (lp\<lparr>lp_tm := tm, lp_set_waiters := lp_set_waiters lp @ [cn_id c]\<rparr>), c\<lparr>cn_state := St_set_wait\<rparr>)"
          using d sh P by (clarsimp simp: stores_only_def rested_def held_def core_def bump_def shape_def parked_def want_ops_def fits_def)
        with True nr b Inl show ?thesis by (simp add: open_set_def Let_def)
      qed
    qed
  qed
qed

lemma frames_mc: "frames_hit frame_get_hit" "frames_miss frame_get_miss"
proof -
  have "frame_get_hit ev c key m = c\<lparr>cn_out := cn_out (frame_get_hit ev c key m),
      cn_get := (cn_get c)\<lparr>gp_pos := 0, gp_size := om_size m\<rparr>\<rparr>" for ev c key m
    by (simp add: frame_get_hit_def reply_def)
  then show "frames_hit frame_get_hit" unfolding frames_hit_def by blast
  have "frame_get_miss c = c\<lparr>cn_out := cn_out (frame_get_miss c), cn_state := St_idle\<rparr>" for c
    by (simp add: frame_get_miss_def reply_def)
  then show "frames_miss frame_get_miss" unfolding frames_miss_def by blast
qed

lemma begin_get_out:
  assumes "begin_get ev frame_get_hit miss key (lp, c) = ((lp', c'), True)" and "frames_miss miss" and "cn_state c' = St_get_header"
  shows "cn_out c' \<noteq> []"
proof -
  have ne: "cn_out ((frame_get_hit ev e key m)\<lparr>cn_state := st\<rparr>) \<noteq> []" for e m st
    by (simp add: frame_get_hit_def reply_def value_header_def value_header_cas_def)
  obtain out where "miss c = c\<lparr>cn_out := out, cn_state := St_idle\<rparr>" using assms(2) unfolding frames_miss_def by blast
  then have "cn_state (miss c) = St_idle" by simp
  then show ?thesis using assms(1,3) ne by (auto simp: begin_get_def open_hit_def Let_def split: prod.splits option.splits if_splits)
qed

lemma do_get_settled:
  assumes "held X (lp, c)" and "tame c" and "cn_state c = St_idle"
  shows "settled X (do_get ev key (lp, c))"
proof -
  note d = tameD [OF assms(2)]
  obtain lp1 c1 opened where b: "begin_get ev frame_get_hit frame_get_miss key (lp, c) = ((lp1, c1), opened)" by (metis surj_pair)
  have "pp_sh (cn_put c) = None" using d(5) assms(3) by simp
  from begin_get_held [OF frames_mc assms(1) d(1,2) this d(3,4) b]
  show ?thesis using begin_get_out [OF _ frames_mc(2)] b by (auto simp: do_get_def settled_def tame_def split: if_splits)
qed

lemma reset_sh_idle: "pp_sh (cn_put c) = None \<Longrightarrow> reset_sh ev (lp, c) = (lp, c)"
  by (simp add: reset_sh_def)

lemma do_set_settled:
  assumes h: "held X (lp, c)" and t: "tame c" and st: "cn_state c = St_idle" and P: "cx_puts X"
  shows "settled X (do_set ev cmd (lp, c))" "settled X (do_ms ev mc (lp, c))"
proof -
  have sh: "pp_sh (cn_put c) = None" using tameD(5) [OF t] st by simp
  have "held X (lp, c\<lparr>cn_meta := m, cn_put := p\<rparr>)" "tame (c\<lparr>cn_meta := m, cn_put := p\<rparr>)" if "pp_sh p = None" for m p
    using h t st that sh held_put_cong [of p "c\<lparr>cn_meta := m\<rparr>" X lp] by (simp_all add: tame_def)
  note o = open_set_settled [OF this _ P]
  show "settled X (do_set ev cmd (lp, c))" "settled X (do_ms ev mc (lp, c))"
    unfolding do_set_def do_ms_def Let_def reset_sh_idle [OF sh]
    by (auto split: prod.split intro!: o simp: sh st)
qed

lemma held_tm_only:
  "held X (lp, c) \<Longrightarrow> world_ok (tm, conn_handles c @ cx_hs X, conn_pins c @ cx_ps X) \<Longrightarrow> held X (lp\<lparr>lp_tm := tm\<rparr>, c)"
  by (simp add: held_def core_def)

lemma remove_held: "held X (lp, c) \<Longrightarrow> held X (lp\<lparr>lp_tm := fst (tm_remove k (lp_tm lp) d)\<rparr>, c)"
  using tm_remove_world [OF heldD(1), of X lp c k d] by (cases "tm_remove k (lp_tm lp) d") (simp add: held_tm_only)

lemma touch_held: "held X (lp, c) \<Longrightarrow> held X (lp\<lparr>lp_tm := fst (touch_ttl (lp_tm lp) d e)\<rparr>, c)"
  using touch_ttl_world [OF heldD(1), of X lp c d e] by (cases "touch_ttl (lp_tm lp) d e") (simp add: held_tm_only)

lemma with_cas_held: "held X (lp, c\<lparr>cn_get := (cn_get c)\<lparr>gp_with_cas := b\<rparr>\<rparr>) = held X (lp, c)"
  by (rule held_get_cong) simp_all

lemma tame_with_cas [simp]: "tame (c\<lparr>cn_get := (cn_get c)\<lparr>gp_with_cas := b\<rparr>\<rparr>) = tame c"
  by (simp add: tame_def)

lemma meta_line_settled:
  assumes h: "held X (lp, c)" and t: "tame c" and st: "cn_state c = St_idle" and P: "cx_puts X"
  shows "settled X (meta_line ev line (lp, c))"
proof (cases "parse_meta line")
  case (Inl e)
  with h t show ?thesis by (simp add: meta_line_def)
next
  case (Inr mc)
  have md: "settled X (do_md ev mc (lp, c), Go)"
    using h t remove_held [OF h] by (simp add: do_md_def Let_def)
  let ?lp = "case m_ttl mc of None \<Rightarrow> lp
    | Some x \<Rightarrow> lp\<lparr>lp_tm := fst (touch_ttl (lp_tm lp) (hash_key (m_key mc)) (meta_ttl x (ev_now ev)))\<rparr>"
  have h1: "held X (?lp, c)" using h touch_held [OF h] by (simp split: option.split)
  have "settled X (do_get ev key (?lp, c\<lparr>cn_get := (cn_get c)\<lparr>gp_with_cas := False\<rparr>, cn_meta := m\<rparr>))" for key m
    using h1 t st by (intro do_get_settled) (simp_all add: with_cas_held)
  then have mg: "settled X (do_mg ev mc (lp, c))" using h1 t by (simp add: do_mg_def Let_def)
  show ?thesis using Inr md mg do_set_settled(2) [OF h t st P] h t by (simp add: meta_line_def)
qed

lemma command_line_settled:
  assumes h: "held X (lp, c)" and t: "tame c" and st: "cn_state c = St_idle" and P: "cx_puts X"
  shows "settled X (command_line ev line (lp, c))"
proof (cases "parse_command line")
  case (Inl e)
  with h t show ?thesis by (simp add: command_line_def)
next
  case (Inr cmd)
  have "held X (lp, c\<lparr>cn_meta := m, cn_get := (cn_get c)\<lparr>gp_with_cas := b\<rparr>\<rparr>)" for m b
    using h with_cas_held [of X lp b "c\<lparr>cn_meta := m\<rparr>"] by simp
  then have g: "settled X (do_get ev key (lp, c\<lparr>cn_meta := m, cn_get := (cn_get c)\<lparr>gp_with_cas := b\<rparr>\<rparr>))" for key m b
    using t st by (intro do_get_settled) (simp_all add: tame_def)
  have q: "settled X ((lp, c\<lparr>cn_quit_after := True\<rparr>), Break)" using h t by (intro settled_break) simp_all
  have del: "settled X (case tm_remove (ev_kernel ev) (lp_tm lp) d of (tm, b) \<Rightarrow> ((lp\<lparr>lp_tm := tm\<rparr>, reply (s b) c), Go))" for d s
    using remove_held [OF h, of "ev_kernel ev" d] t by (auto split: prod.split)
  show ?thesis using Inr g q del do_set_settled(1) [OF h t st P] h t by (simp add: command_line_def split: verb.split)
qed

lemma process_step_settled:
  assumes "held X (lp, c)" and "tame c" and P: "cx_puts X"
  shows "\<exists>r. process_step ev (lp, c) = Some r \<and> settled X r"
proof (cases "cn_state c = St_set_body")
  case True
  with body_round_settled [OF assms(1,2)] show ?thesis by (simp add: process_step_def)
next
  case False
  then have st: "cn_state c = St_idle" using tameD(5) [OF assms(2)] by blast
  have "settled X (line_round ev (lp, c))"
  proof (cases "find_crlf (cn_in c)")
    case None
    with settled_break [OF assms(1,2)] show ?thesis by (simp add: line_round_def)
  next
    case (Some n)
    let ?c = "c\<lparr>cn_in := drop (n + 2) (cn_in c)\<rparr>"
    have "held X (lp, ?c)" "tame ?c" "cn_state ?c = St_idle" using assms st by simp_all
    from meta_line_settled [OF this P] command_line_settled [OF this P] Some show ?thesis by (simp add: line_round_def Let_def)
  qed
  with st show ?thesis by (simp add: process_step_def)
qed

section \<open>The contract\<close>

lemma process_step_in:
  assumes "process_step ev (lp, c) = Some ((lp', c'), fl)" and "tame c"
  shows "length (cn_in c') \<le> length (cn_in c)" and "fl = Return \<Longrightarrow> length (cn_in c') < length (cn_in c)"
proof -
  have "length (cn_in c') \<le> length (cn_in c) \<and> (fl = Return \<longrightarrow> length (cn_in c') < length (cn_in c))"
  proof (cases "cn_state c = St_set_body")
    case True
    then obtain lp1 c1 where i: "ingest ev (lp, c) = Some (lp1, c1)"
      "((lp', c'), fl) = (if pp_remaining (cn_put c1) > 0 \<or> length (cn_in c1) < 2 then ((lp1, c1), Break) else (end_set ev (lp1, c1), Go))"
      using assms(1) by (auto simp: process_step_def body_round_def split: option.splits)
    with ingest_in [OF i(1)] end_set_in [of ev "(lp1, c1)"] show ?thesis by (cases "end_set ev (lp1, c1)") (auto split: if_splits)
  next
    case False
    then have r: "line_round ev (lp, c) = ((lp', c'), fl)" using assms tameD(5) [OF assms(2)] by (simp add: process_step_def)
    show ?thesis
    proof (cases "find_crlf (cn_in c)")
      case None
      with r show ?thesis by (simp add: line_round_def)
    next
      case (Some n)
      have "cn_in c' = drop (n + 2) (cn_in c)"
        using r meta_line_in [of ev "take n (cn_in c)" "(lp, c\<lparr>cn_in := drop (n + 2) (cn_in c)\<rparr>)"]
          command_line_in [of ev "take n (cn_in c)" "(lp, c\<lparr>cn_in := drop (n + 2) (cn_in c)\<rparr>)"] Some
        by (simp add: line_round_def Let_def split: if_splits)
      with find_crlf_bound [OF Some] show ?thesis by auto
    qed
  qed
  then show "length (cn_in c') \<le> length (cn_in c)" "fl = Return \<Longrightarrow> length (cn_in c') < length (cn_in c)" by simp_all
qed

lemma process_loop_settled:
  "held X f \<Longrightarrow> tame (snd f) \<Longrightarrow> cx_puts X \<Longrightarrow>
     \<exists>f' b. process_loop ev f = Some (f', b) \<and> settled X (f', if b then Break else Return) \<and>
       length (cn_in (snd f')) \<le> length (cn_in (snd f)) \<and> (\<not> b \<longrightarrow> length (cn_in (snd f')) < length (cn_in (snd f)))"
proof (induction ev f rule: process_loop.induct)
  case (1 ev f)
  obtain lp c where f: "f = (lp, c)" by (cases f)
  from process_step_settled [of X lp c ev] "1.prems" obtain lp1 c1 fl where
    s: "process_step ev (lp, c) = Some ((lp1, c1), fl)" "settled X ((lp1, c1), fl)" by (auto simp: f)
  have t: "tame c" using "1.prems" by (simp add: f)
  note le = process_step_in [OF s(1) t]
  show ?case
  proof (cases fl)
    case Go
    with s "1.prems"(3) have "held X (lp1, c1)" "tame (snd (lp1, c1))" "cx_puts X" by simp_all
    from "1.IH" [of "((lp1, c1), Go)" "(lp1, c1)" Go, OF _ _ refl this] s(1) Go le(1) show ?thesis
      by (fastforce simp: f process_loop.simps [of ev "(lp, c)"])
  next
    case Break
    with s le show ?thesis by (simp add: f process_loop.simps [of ev "(lp, c)"] del: split_paired_Ex) blast
  next
    case Return
    with s le show ?thesis by (simp add: f process_loop.simps [of ev "(lp, c)"] del: split_paired_Ex) blast
  qed
qed

lemma process_tail_rested:
  assumes "settled X ((lp, c), Break)" and P: "cx_puts X"
  shows "rested X (process_tail ev (lp, c))" and "cn_in (snd (process_tail ev (lp, c))) = cn_in c"
    and "\<not> parked (cn_state (snd (process_tail ev (lp, c))))"
proof -
  have h: "held X (lp, c)" and nc: "\<not> cn_closing c" and i: "cn_inflight c = 0" and q: "quiet (cn_get c)"
    and np: "\<not> parked (cn_state c)" "cn_state c \<noteq> St_get_stream" "cn_state c \<noteq> St_get_trailer"
    and sh: "cn_state c \<noteq> St_set_body \<longrightarrow> pp_sh (cn_put c) = None"
    and ca: "cn_state c = St_idle \<or> cn_state c = St_set_body \<longrightarrow> calm (cn_get c)"
    and o: "cn_out c = [] \<longrightarrow> cn_state c = St_idle \<or> cn_state c = St_set_body"
    and re: "cn_state c = St_get_header \<or> cn_state c = St_get_send_head \<longrightarrow> reaches (cn_get c)"
    using assms by (auto simp: settled_def tame_def parked_def)
  obtain src where "posts X (lp, c) (Sq_send (cn_id c) src) (start_send ev (lp, c))" using start_held(2) [OF h nc] by blast
  then have s: "rested X (start_send ev (lp, c))" by (rule rested_posts [OF _ h nc i]) (use np sh ca q P re in \<open>simp_all add: stores_only_def\<close>)
  have r: "rested X (start_recv ev (lp, c))" if "cn_out c = []"
    by (rule rested_posts [OF start_held(1) [OF h nc] h nc i]) (use np sh ca q o that P re in \<open>simp_all add: stores_only_def\<close>)
  have cl: "rested X (lp, close_conn c)" using h np by (simp add: rested_closed)
  show "rested X (process_tail ev (lp, c))" using s r cl by (simp add: process_tail_def)
  show "cn_in (snd (process_tail ev (lp, c))) = cn_in c" by (simp add: process_tail_def in_kept close_conn_def)
  have "cn_state (snd (start_send ev (lp, c))) = cn_state c" "cn_state (snd (start_recv ev (lp, c))) = cn_state c"
    by (simp_all add: start_send_def start_recv_def post_def submit_def close_conn_def)
  with np show "\<not> parked (cn_state (snd (process_tail ev (lp, c))))" by (simp add: process_tail_def parked_def)
qed

lemma process_rested:
  assumes "held X (lp, c)" and "tame c" and P: "cx_puts X"
  shows "\<exists>lp' c'. process ev (lp, c) = Some (lp', c') \<and> rested X (lp', c') \<and>
    length (cn_in c') \<le> length (cn_in c) \<and> (parked (cn_state c') \<longrightarrow> length (cn_in c') < length (cn_in c))"
proof -
  from process_loop_settled [of X "(lp, c)" ev] assms obtain lp1 c1 b where
    p: "process_loop ev (lp, c) = Some ((lp1, c1), b)" "settled X ((lp1, c1), if b then Break else Return)"
    "length (cn_in c1) \<le> length (cn_in c)" "\<not> b \<longrightarrow> length (cn_in c1) < length (cn_in c)" by auto
  show ?thesis
  proof (cases b)
    case True
    then have "settled X ((lp1, c1), Break)" using p(2) by simp
    from process_tail_rested [OF this P, of ev] p True show ?thesis by (cases "process_tail ev (lp1, c1)") (simp add: process_def)
  next
    case False
    with p show ?thesis by (simp add: process_def)
  qed
qed

lemma value_sent_rested:
  assumes st: "streaming X (lp, c)" and i: "cn_inflight c = 0"
  shows "\<exists>lp' c'. on_value_sent ev (lp, c) = Some (lp', c') \<and> rested X (lp', c')"
proof -
  let ?c = "(reply (CRLF @ (if mp_meta (cn_meta c) then [] else kEnd)) c)\<lparr>cn_state := St_get_trailer\<rparr>"
  have h: "held X (lp, ?c)" "\<not> cn_closing ?c" "pp_sh (cn_put ?c) = None" "cn_inflight ?c = 0"
    using st i by (simp_all add: streaming_def reply_def)
  obtain src where "posts X (lp, ?c) (Sq_send (cn_id ?c) src) (start_send ev (lp, ?c))" using start_held(2) [OF h(1,2)] by blast
  then have "rested X (start_send ev (lp, ?c))" by (rule rested_posts [OF _ h(1,2,4)]) (use h in \<open>simp_all add: parked_def stores_only_def\<close>)
  then show ?thesis by (cases "start_send ev (lp, ?c)") (simp add: on_value_sent_def)
qed

interpretation mc: protocol_seams mc_seams True
  by unfold_locales (simp_all add: mc_seams_def frames_mc process_rested value_sent_rested)

end
