(* ===== verification/Http_Loop.thy ===== *)
theory Http_Loop
  imports Stream_Loop Http_Request Key_Derivation
begin

text \<open>
  HTTP on the event loop (\<^verbatim>\<open>http/http_loop.cpp\<close>, class \<^verbatim>\<open>HttpLoop\<close>): response heads, conditional
  and range requests, and the loop over the requests a client has sent. The request parser
  below \<^verbatim>\<open>parse_request\<close> (picohttpparser) and the key options are arguments.
\<close>

section \<open>Response heads\<close>

fun hex_str :: "nat \<Rightarrow> string" where
  "hex_str n = (if n < 16 then [hex_digits ! n] else hex_str (n div 16) @ [hex_digits ! (n mod 16)])"

declare hex_str.simps [simp del]

definition QUOTE :: string where "QUOTE = [char_of (34::nat)]"

definition make_etag :: "object_meta \<Rightarrow> string" where
  "make_etag m = QUOTE @ hex_str (om_size m) @ ''-'' @ hex_str (om_etag m) @ QUOTE"

fun has_part :: "string \<Rightarrow> string \<Rightarrow> bool" where
  "has_part p [] \<longleftrightarrow> p = []"
| "has_part p (c # s) \<longleftrightarrow> take (length p) (c # s) = p \<or> has_part p s"

definition inm_matches :: "string \<Rightarrow> string \<Rightarrow> bool" where
  "inm_matches header quoted_etag \<longleftrightarrow> CHR ''*'' \<in> set header \<or> has_part quoted_etag header"

definition CR_LF :: string where "CR_LF = [char_of (13::nat), char_of (10::nat)]"

definition connection_line :: "bool \<Rightarrow> string" where
  "connection_line keep_alive =
     (if keep_alive then ''Connection: keep-alive'' else ''Connection: close'') @ CR_LF @ CR_LF"

definition http_head :: "string \<Rightarrow> nat \<Rightarrow> bool \<Rightarrow> string \<Rightarrow> string \<Rightarrow> string" where
  "http_head status content_length keep_alive content_type etag =
     ''HTTP/1.1 '' @ status @ CR_LF @ ''Content-Length: '' @ dec_str content_length @ CR_LF @
     (if content_length > 0
      then ''Content-Type: '' @ content_type @ CR_LF @ ''Accept-Ranges: bytes'' @ CR_LF else []) @
     (if etag \<noteq> [] then ''ETag: '' @ etag @ CR_LF else []) @ connection_line keep_alive"

definition k400 :: string where
  "k400 = ''HTTP/1.1 400 Bad Request'' @ CR_LF @ ''Content-Length: 0'' @ CR_LF @ ''Connection: close'' @ CR_LF @ CR_LF"

definition k405 :: string where
  "k405 = ''HTTP/1.1 405 Method Not Allowed'' @ CR_LF @ ''Content-Length: 0'' @ CR_LF @ ''Allow: GET, HEAD'' @ CR_LF @
     ''Connection: close'' @ CR_LF @ CR_LF"

definition k421 :: string where
  "k421 = ''HTTP/1.1 421 Misdirected Request'' @ CR_LF @ ''Content-Length: 0'' @ CR_LF @ ''Connection: close'' @ CR_LF @ CR_LF"

section \<open>The GET seams\<close>

definition not_modified :: "string \<Rightarrow> bool \<Rightarrow> string" where
  "not_modified etag keep_alive =
     ''HTTP/1.1 304 Not Modified'' @ CR_LF @ ''ETag: '' @ etag @ CR_LF @ connection_line keep_alive"

definition set_range :: "nat \<Rightarrow> nat \<Rightarrow> conn \<Rightarrow> conn" where
  "set_range pos stop c = c\<lparr>cn_get := (cn_get c)\<lparr>gp_pos := pos, gp_size := stop\<rparr>\<rparr>"

definition http_get_hit :: "env \<Rightarrow> conn \<Rightarrow> string \<Rightarrow> object_meta \<Rightarrow> conn" where
  "http_get_hit ev c key m =
     (let keep_alive = \<not> cn_quit_after c; etag = make_etag m; ct = content_type_for key in
      if cn_inm c \<noteq> [] \<and> inm_matches (cn_inm c) etag
      then reply (not_modified etag keep_alive) (set_range 0 0 c)
      else (case cn_req_range c of
              None \<Rightarrow>
                reply (http_head ''200 OK'' (om_size m) keep_alive ct etag) (set_range 0 (om_size m) c)
            | Some rg \<Rightarrow>
                (case resolve_range rg (om_size m) of
                   None \<Rightarrow>
                     reply (''HTTP/1.1 416 Range Not Satisfiable'' @ CR_LF @ ''Content-Range: bytes */'' @
                            dec_str (om_size m) @ CR_LF @ ''Content-Length: 0'' @ CR_LF @ connection_line keep_alive)
                       (set_range 0 0 c)
                 | Some (off, len) \<Rightarrow>
                     reply (''HTTP/1.1 206 Partial Content'' @ CR_LF @ ''Content-Range: bytes '' @ dec_str off @ ''-'' @
                            dec_str (off + len - 1) @ ''/'' @ dec_str (om_size m) @ CR_LF @ ''Content-Length: '' @
                            dec_str len @ CR_LF @ ''Content-Type: '' @ ct @ CR_LF @ ''ETag: '' @ etag @ CR_LF @
                            connection_line keep_alive)
                       (set_range off (off + len) c))))"

definition http_get_miss :: "conn \<Rightarrow> conn" where
  "http_get_miss c =
     (reply (http_head ''404 Not Found'' 0 (\<not> cn_quit_after c) ''application/octet-stream'' []) c)
       \<lparr>cn_state := St_idle\<rparr>"

section \<open>Requests\<close>

type_synonym phr = "string \<Rightarrow> nat \<Rightarrow> phr_out"

definition http_quit :: "string \<Rightarrow> conn \<Rightarrow> conn" where
  "http_quit s c = (reply s c)\<lparr>cn_quit_after := True\<rparr>"

definition http_get :: "env \<Rightarrow> string \<Rightarrow> byte_range option \<Rightarrow> focus \<Rightarrow> focus \<times> flow" where
  "http_get ev key rg = (\<lambda>(lp, c).
     case begin_get ev http_get_hit http_get_miss key (lp, c\<lparr>cn_req_range := rg\<rparr>) of
       (f, opened) \<Rightarrow>
         (f, if \<not> opened then Return else if cn_state (snd f) = St_get_header then Break else Go))"

definition http_head_reply :: "env \<Rightarrow> string \<Rightarrow> loop \<Rightarrow> conn \<Rightarrow> string" where
  "http_head_reply ev key lp c =
     (let keep_alive = \<not> cn_quit_after c in
      case index_lookup (tm_index (lp_tm lp)) (hash_key key) of
        None \<Rightarrow> http_head ''404 Not Found'' 0 keep_alive ''application/octet-stream'' []
      | Some m \<Rightarrow>
          if is_expired m (ev_now ev) then http_head ''404 Not Found'' 0 keep_alive ''application/octet-stream'' []
          else
            let etag = make_etag m in
            if cn_inm c \<noteq> [] \<and> inm_matches (cn_inm c) etag then not_modified etag keep_alive
            else http_head ''200 OK'' (om_size m) keep_alive (content_type_for key) etag)"

definition http_step :: "phr \<Rightarrow> key_options \<Rightarrow> env \<Rightarrow> focus \<Rightarrow> focus \<times> flow" where
  "http_step phr ko ev = (\<lambda>(lp, c).
     if cn_state c \<noteq> St_idle then ((lp, c), Return)
     else
       let pr = parse_request phr (cn_in c) 0; rq = pr_req pr in
       if pr_status pr = P_partial then ((lp, c), Break)
       else if pr_status pr = P_bad then ((lp, http_quit k400 c), Break)
       else
         let key = derive_key (hr_host rq) (hr_target rq) ko;
             host_ok = (cn_sni c = [] \<or> normalize_host (hr_host rq) = cn_sni c);
             c = c\<lparr>cn_quit_after := \<not> hr_keep_alive rq, cn_inm := hr_if_none_match rq,
                    cn_in := drop (pr_consumed pr) (cn_in c)\<rparr>
         in if \<not> host_ok then ((lp, http_quit k421 c), Break)
            else (case hr_method rq of
                    H_get \<Rightarrow>
                      (case key of
                         None \<Rightarrow> ((lp, http_quit k400 c), Break)
                       | Some k \<Rightarrow> http_get ev k (hr_range rq) (lp, c))
                  | H_head \<Rightarrow>
                      (case key of
                         None \<Rightarrow> ((lp, http_quit k400 c), Break)
                       | Some k \<Rightarrow> ((lp, reply (http_head_reply ev k lp c) c), Go))
                  | H_other \<Rightarrow> ((lp, http_quit k405 c), Break)))"

text \<open>
  The loop ends when the parser, which is not under \<^verbatim>\<open>src\<close>, takes at least a byte of every
  request it accepts; a parser that takes none would make it spin.
\<close>

partial_function (option) http_loop :: "phr \<Rightarrow> key_options \<Rightarrow> env \<Rightarrow> focus \<Rightarrow> (focus \<times> bool) option" where
  "http_loop phr ko ev f =
     (case http_step phr ko ev f of (f, flow) \<Rightarrow>
        if flow = Go then http_loop phr ko ev f else Some (f, flow = Break))"

definition http_tail :: "env \<Rightarrow> focus \<Rightarrow> focus" where
  "http_tail ev = (\<lambda>(lp, c).
     if cn_out c \<noteq> [] then start_send ev (lp, c)
     else if cn_quit_after c then (lp, close_conn c)
     else start_recv ev (lp, c))"

definition http_process :: "phr \<Rightarrow> key_options \<Rightarrow> env \<Rightarrow> focus \<Rightarrow> focus option" where
  "http_process phr ko ev f =
     (case http_loop phr ko ev f of
        None \<Rightarrow> None
      | Some (f, brk) \<Rightarrow> Some (if brk then http_tail ev f else f))"

definition http_value_sent :: "phr \<Rightarrow> key_options \<Rightarrow> env \<Rightarrow> focus \<Rightarrow> focus option" where
  "http_value_sent phr ko ev f = finish_get ev (http_process phr ko) f"

definition http_seams :: "phr \<Rightarrow> key_options \<Rightarrow> seams" where
  "http_seams phr ko = \<lparr>sm_process = http_process phr ko, sm_frame_hit = http_get_hit,
     sm_frame_miss = http_get_miss, sm_value_sent = http_value_sent phr ko\<rparr>"

section \<open>The loop over the requests ends\<close>

text \<open>What the parser promises: an accepted request took at least one of the bytes there are.\<close>

definition phr_takes :: "phr \<Rightarrow> bool" where
  "phr_takes phr \<longleftrightarrow> (\<forall>buf prev. 0 \<le> phr_rc (phr buf prev) \<longrightarrow>
     0 < phr_rc (phr buf prev) \<and> nat (phr_rc (phr buf prev)) \<le> length buf)"

lemma http_frame_in [in_kept]: "cn_in (http_get_hit ev c key m) = cn_in c" "cn_in (http_get_miss c) = cn_in c"
  by (simp_all add: http_get_hit_def http_get_miss_def reply_def set_range_def Let_def split: option.split)

lemma http_get_in [in_kept]: "cn_in (snd (fst (http_get ev key rg f))) = cn_in (snd f)"
  by (cases f)
    (simp add: http_get_def begin_get_def park_get_def open_hit_def take_lanes_def in_kept Let_def
       split: prod.split option.split)

lemma http_quit_in [in_kept]: "cn_in (http_quit s c) = cn_in c"
  by (simp add: http_quit_def reply_def)

lemma http_step_shorter:
  assumes "phr_takes phr" and "http_step phr ko ev f = (f', Go)"
  shows "length (cn_in (snd f')) < length (cn_in (snd f))"
proof -
  obtain lp c where f: "f = (lp, c)" by (cases f)
  let ?r = "phr (cn_in c) 0" and ?n = "pr_consumed (parse_request phr (cn_in c) 0)"
  have ok: "pr_status (parse_request phr (cn_in c) 0) = P_ok"
    using assms(2) by (cases "pr_status (parse_request phr (cn_in c) 0)") (auto simp: f http_step_def Let_def split: if_splits)
  then have "0 \<le> phr_rc ?r" "?n = nat (phr_rc ?r)"
    by (auto simp: parse_request_def Let_def split: if_splits)
  with assms(1) have n: "0 < ?n" "?n \<le> length (cn_in c)" by (auto simp: phr_takes_def)
  have "cn_state c = St_idle" using assms(2) by (auto simp: f http_step_def split: if_splits)
  with ok have "cn_in (snd (fst (http_step phr ko ev f))) = drop ?n (cn_in c)"
    by (simp add: f http_step_def Let_def in_kept split: http_method.split option.split)
  with n assms(2) show ?thesis by (simp add: f)
qed

lemma http_loop_returns:
  assumes "phr_takes phr"
  shows "\<exists>f' b. http_loop phr ko ev f = Some (f', b)"
proof (induction f rule: measure_induct_rule [where f = "\<lambda>f. length (cn_in (snd f))"])
  case (less f)
  obtain f1 fl where s: "http_step phr ko ev f = (f1, fl)" by (cases "http_step phr ko ev f")
  show ?case
  proof (cases "fl = Go")
    case True
    with less [OF http_step_shorter [OF assms s [unfolded True]]] s show ?thesis
      by (simp add: http_loop.simps [of phr ko ev f])
  next
    case False
    with s show ?thesis by (simp add: http_loop.simps [of phr ko ev f])
  qed
qed

lemma http_process_returns: "phr_takes phr \<Longrightarrow> \<exists>f'. http_process phr ko ev f = Some f'"
  using http_loop_returns [of phr ko ev f] by (auto simp: http_process_def)

end
