(* ===== verification/Http_Safe.thy ===== *)
theory Http_Safe
  imports Loop_Table Http_Loop
begin

text \<open>
  HTTP keeps the contract of the event loop (\<open>protocol_seams\<close>) when the request parser takes at
  least one byte of every request it accepts. HTTP has no stores: it never takes a body.
\<close>

declare world_ok.simps [simp del]

text \<open>A connection whose requests are parsed: idle, nothing in flight, no GET open.\<close>

definition listening :: "ctx \<Rightarrow> focus \<Rightarrow> bool" where
  "listening X = (\<lambda>(lp, c). held X (lp, c) \<and> \<not> cn_closing c \<and> cn_inflight c = 0 \<and> calm (cn_get c) \<and> quiet (cn_get c) \<and>
     pp_sh (cn_put c) = None \<and> cn_state c = St_idle)"

lemma listening_upd [simp]:
  "listening X (lp, c\<lparr>cn_in := i\<rparr>) = listening X (lp, c)" "listening X (lp, c\<lparr>cn_quit_after := b\<rparr>) = listening X (lp, c)"
  "listening X (lp, c\<lparr>cn_inm := s\<rparr>) = listening X (lp, c)" "listening X (lp, c\<lparr>cn_req_range := r\<rparr>) = listening X (lp, c)"
  "listening X (lp, reply s c) = listening X (lp, c)" "listening X (lp, http_quit s c) = listening X (lp, c)"
  by (simp_all add: listening_def reply_def http_quit_def)

definition http_settled :: "ctx \<Rightarrow> focus \<times> flow \<Rightarrow> bool" where
  "http_settled X = (\<lambda>((lp, c), fl). case fl of
     Go \<Rightarrow> listening X (lp, c)
   | Break \<Rightarrow> listening X (lp, c) \<or> held X (lp, c) \<and> \<not> cn_closing c \<and> cn_inflight c = 0 \<and> quiet (cn_get c) \<and>
       pp_sh (cn_put c) = None \<and> cn_state c = St_get_header \<and> reaches (cn_get c) \<and> cn_out c \<noteq> []
   | Return \<Rightarrow> rested X (lp, c))"

lemma http_settled_simps [simp]:
  "http_settled X ((lp, c), Go) = listening X (lp, c)" "http_settled X ((lp, c), Return) = rested X (lp, c)"
  by (simp_all add: http_settled_def)

lemma http_settled_break: "listening X (lp, c) \<Longrightarrow> http_settled X ((lp, c), Break)"
  by (simp add: http_settled_def)

definition framed :: "nat \<Rightarrow> conn \<Rightarrow> conn \<Rightarrow> bool" where
  "framed sz c c' \<longleftrightarrow> (\<exists>out pos stop. pos \<le> stop \<and> stop \<le> sz \<and> c' = c\<lparr>cn_out := out, cn_get := (cn_get c)\<lparr>gp_pos := pos, gp_size := stop\<rparr>\<rparr> \<and> out \<noteq> [])"

lemma framed_reply: "s \<noteq> [] \<Longrightarrow> pos \<le> stop \<Longrightarrow> stop \<le> sz \<Longrightarrow> framed sz c (reply s (set_range pos stop c))"
proof -
  have "reply s (set_range pos stop c) = c\<lparr>cn_out := cn_out c @ s, cn_get := (cn_get c)\<lparr>gp_pos := pos, gp_size := stop\<rparr>\<rparr>"
    by (simp add: reply_def set_range_def)
  moreover assume "s \<noteq> []" "pos \<le> stop" "stop \<le> sz"
  ultimately show ?thesis unfolding framed_def by blast
qed

lemma u64_le: "u64 n \<le> n"
  by (simp add: u64_def)

lemma resolve_range_bounds: "resolve_range r sz = Some (off, len) \<Longrightarrow> off + len \<le> sz"
proof -
  assume a: "resolve_range r sz = Some (off, len)"
  have closed: "x + u64 (min y (sz - 1) - x + 1) \<le> sz" if "x < sz" for x y
    using that u64_le [of "min y (sz - 1) - x + 1"] by linarith
  from a closed show ?thesis
    by (auto simp: resolve_range_def Let_def split: range_kind.splits if_splits)
qed

lemma http_hit_framed: "framed (om_size m) c (http_get_hit ev c key m)"
proof -
  have "not_modified e b \<noteq> []" "http_head st n b ct e \<noteq> []" for e b st n ct
    by (simp_all add: not_modified_def http_head_def)
  moreover have "off + len \<le> om_size m" if "resolve_range rg (om_size m) = Some (off, len)" for rg off len
    using resolve_range_bounds [OF that] by simp
  ultimately show ?thesis unfolding http_get_hit_def Let_def
    by (auto split: option.split intro!: framed_reply)
qed

lemma http_hit_shape:
  "\<exists>out pos stop. pos \<le> stop \<and> stop \<le> om_size m \<and> http_get_hit ev c key m = c\<lparr>cn_out := out, cn_get := (cn_get c)\<lparr>gp_pos := pos, gp_size := stop\<rparr>\<rparr> \<and> out \<noteq> []"
  using http_hit_framed unfolding framed_def .

lemma frames_http: "frames_hit http_get_hit" "frames_miss http_get_miss"
proof -
  show "frames_hit http_get_hit" unfolding frames_hit_def using http_hit_shape by blast
  have "http_get_miss c = c\<lparr>cn_out := cn_out (http_get_miss c), cn_state := St_idle\<rparr>" for c
    by (simp add: http_get_miss_def reply_def)
  then show "frames_miss http_get_miss" unfolding frames_miss_def by blast
qed

lemma http_begin_out:
  assumes "begin_get ev http_get_hit http_get_miss key (lp, c) = ((lp', c'), True)" and "cn_state c' = St_get_header"
  shows "cn_out c' \<noteq> []"
proof -
  have ne: "cn_out ((http_get_hit ev e key m)\<lparr>cn_state := st\<rparr>) \<noteq> []" for e m st
  proof -
    obtain out pos stop where "http_get_hit ev e key m = e\<lparr>cn_out := out, cn_get := (cn_get e)\<lparr>gp_pos := pos, gp_size := stop\<rparr>\<rparr>" "out \<noteq> []"
      using http_hit_shape by blast
    then show ?thesis by simp
  qed
  have "cn_state (http_get_miss c) = St_idle" by (simp add: http_get_miss_def)
  with assms ne show ?thesis by (auto simp: begin_get_def open_hit_def Let_def split: prod.splits option.splits if_splits)
qed

lemma http_get_settled:
  assumes "listening X (lp, c)"
  shows "http_settled X (http_get ev key rg (lp, c))"
proof -
  let ?c = "c\<lparr>cn_req_range := rg\<rparr>"
  have l: "held X (lp, ?c)" "\<not> cn_closing ?c" "cn_inflight ?c = 0" "pp_sh (cn_put ?c) = None" "calm (cn_get ?c)" "quiet (cn_get ?c)"
    using assms by (simp_all add: listening_def)
  obtain lp1 c1 opened where b: "begin_get ev http_get_hit http_get_miss key (lp, ?c) = ((lp1, c1), opened)" by (metis surj_pair)
  from begin_get_held [OF frames_http l b] http_begin_out [of ev key lp ?c] b
  show ?thesis by (auto simp: http_get_def http_settled_def listening_def split: if_splits)
qed

lemma http_step_settled:
  assumes "listening X (lp, c)"
  shows "http_settled X (http_step phr ko ev (lp, c))"
proof -
  have "cn_state c = St_idle" using assms by (simp add: listening_def)
  with assms show ?thesis
    by (auto simp: http_step_def Let_def intro!: http_settled_break http_get_settled split: http_method.split option.split)
qed

lemma http_step_in:
  assumes p: "phr_takes phr" and s: "http_step phr ko ev (lp, c) = ((lp', c'), fl)" and st: "cn_state c = St_idle"
  shows "length (cn_in c') \<le> length (cn_in c)" and "fl = Return \<Longrightarrow> length (cn_in c') < length (cn_in c)"
proof -
  let ?pr = "parse_request phr (cn_in c) 0"
  have "length (cn_in c') \<le> length (cn_in c) \<and> (fl = Return \<longrightarrow> length (cn_in c') < length (cn_in c))"
  proof (cases "pr_status ?pr = P_ok")
    case True
    then have "0 \<le> phr_rc (phr (cn_in c) 0)" "pr_consumed ?pr = nat (phr_rc (phr (cn_in c) 0))"
      by (auto simp: parse_request_def Let_def split: if_splits)
    with p have n: "0 < pr_consumed ?pr" "pr_consumed ?pr \<le> length (cn_in c)" by (auto simp: phr_takes_def)
    have "cn_in (snd (fst (http_step phr ko ev (lp, c)))) = drop (pr_consumed ?pr) (cn_in c)"
      using True st by (simp add: http_step_def Let_def in_kept split: http_method.split option.split)
    with s n show ?thesis by auto
  next
    case False
    with s st show ?thesis by (cases "pr_status ?pr") (auto simp: http_step_def Let_def in_kept)
  qed
  then show "length (cn_in c') \<le> length (cn_in c)" "fl = Return \<Longrightarrow> length (cn_in c') < length (cn_in c)" by simp_all
qed

lemma http_loop_settled:
  assumes p: "phr_takes phr"
  shows "listening X f \<Longrightarrow>
     \<exists>f' b. http_loop phr ko ev f = Some (f', b) \<and> http_settled X (f', if b then Break else Return) \<and>
       length (cn_in (snd f')) \<le> length (cn_in (snd f)) \<and> (\<not> b \<longrightarrow> length (cn_in (snd f')) < length (cn_in (snd f)))"
proof (induction f rule: measure_induct_rule [where f = "\<lambda>f. length (cn_in (snd f))"])
  case (less f)
  obtain lp c where f: "f = (lp, c)" by (cases f)
  have l: "listening X (lp, c)" "cn_state c = St_idle" using less.prems by (simp_all add: f listening_def)
  obtain lp1 c1 fl where s: "http_step phr ko ev (lp, c) = ((lp1, c1), fl)" by (metis surj_pair)
  have st: "http_settled X ((lp1, c1), fl)" using http_step_settled [OF l(1), of phr ko ev] s by simp
  note le = http_step_in [OF p s l(2)]
  show ?case
  proof (cases "fl = Go")
    case True
    have lt: "length (cn_in (snd (lp1, c1))) < length (cn_in (snd f))" using http_step_shorter [OF p, of ko ev "(lp, c)" "(lp1, c1)"] s True by (simp add: f)
    from less.IH [OF this] st True obtain f' b where r: "http_loop phr ko ev (lp1, c1) = Some (f', b)"
      "http_settled X (f', if b then Break else Return)" "length (cn_in (snd f')) \<le> length (cn_in c1)" by auto
    then show ?thesis using s True lt by (intro exI [of _ f'] exI [of _ b]) (simp add: f http_loop.simps [of phr ko ev "(lp, c)"])
  next
    case False
    then have "fl = Break \<or> fl = Return" by (cases fl) simp_all
    with s st le False show ?thesis
      by (intro exI [of _ "(lp1, c1)"] exI [of _ "fl = Break"]) (auto simp: f http_loop.simps [of phr ko ev "(lp, c)"])
  qed
qed

lemma http_tail_rested:
  assumes "http_settled X ((lp, c), Break)"
  shows "rested X (http_tail ev (lp, c))" and "cn_in (snd (http_tail ev (lp, c))) = cn_in c"
    and "\<not> parked (cn_state (snd (http_tail ev (lp, c))))"
proof -
  have h: "held X (lp, c)" and nc: "\<not> cn_closing c" and i: "cn_inflight c = 0" and q: "quiet (cn_get c)"
    and np: "\<not> parked (cn_state c)" "cn_state c \<noteq> St_get_stream" "cn_state c \<noteq> St_get_trailer" "cn_state c \<noteq> St_set_body" "cn_state c \<noteq> St_set_wait"
    and re: "cn_state c = St_get_header \<or> cn_state c = St_get_send_head \<longrightarrow> reaches (cn_get c)"
    and sh: "pp_sh (cn_put c) = None" and ca: "cn_state c = St_idle \<longrightarrow> calm (cn_get c)" and o: "cn_out c = [] \<longrightarrow> cn_state c = St_idle"
    using assms by (auto simp: http_settled_def listening_def parked_def)
  obtain src where "posts X (lp, c) (Sq_send (cn_id c) src) (start_send ev (lp, c))" using start_held(2) [OF h nc] by blast
  then have s: "rested X (start_send ev (lp, c))" by (rule rested_posts [OF _ h nc i]) (use np sh ca q re in \<open>simp_all add: stores_only_def\<close>)
  have r: "rested X (start_recv ev (lp, c))" if "cn_out c = []"
    by (rule rested_posts [OF start_held(1) [OF h nc] h nc i]) (use np sh ca q o that re in \<open>simp_all add: stores_only_def\<close>)
  have cl: "rested X (lp, close_conn c)" using h np by (simp add: rested_closed)
  show "rested X (http_tail ev (lp, c))" using s r cl by (simp add: http_tail_def)
  show "cn_in (snd (http_tail ev (lp, c))) = cn_in c" by (simp add: http_tail_def in_kept close_conn_def)
  have "cn_state (snd (start_send ev (lp, c))) = cn_state c" "cn_state (snd (start_recv ev (lp, c))) = cn_state c"
    by (simp_all add: start_send_def start_recv_def post_def submit_def close_conn_def)
  with np show "\<not> parked (cn_state (snd (http_tail ev (lp, c))))" by (simp add: http_tail_def parked_def)
qed

lemma http_process_rested:
  assumes "phr_takes phr" and "listening X (lp, c)"
  shows "\<exists>lp' c'. http_process phr ko ev (lp, c) = Some (lp', c') \<and> rested X (lp', c') \<and>
    length (cn_in c') \<le> length (cn_in c) \<and> (parked (cn_state c') \<longrightarrow> length (cn_in c') < length (cn_in c))"
proof -
  from http_loop_settled [OF assms, of ko ev] obtain lp1 c1 b where
    p: "http_loop phr ko ev (lp, c) = Some ((lp1, c1), b)" "http_settled X ((lp1, c1), if b then Break else Return)"
    "length (cn_in c1) \<le> length (cn_in c)" "\<not> b \<longrightarrow> length (cn_in c1) < length (cn_in c)" by auto
  show ?thesis
  proof (cases b)
    case True
    then have "http_settled X ((lp1, c1), Break)" using p(2) by simp
    from http_tail_rested [OF this, of ev] p True show ?thesis by (cases "http_tail ev (lp1, c1)") (simp add: http_process_def)
  next
    case False
    with p show ?thesis by (simp add: http_process_def)
  qed
qed

lemma http_value_rested:
  assumes "phr_takes phr" and st: "streaming X (lp, c)" and "cn_inflight c = 0"
  shows "\<exists>lp' c'. http_value_sent phr ko ev (lp, c) = Some (lp', c') \<and> rested X (lp', c')"
proof -
  have h: "held X (lp, c)" using st by (simp add: streaming_def)
  from drop_get_held [OF h] obtain lp1 g where d: "drop_get (lp, c) = (lp1, c\<lparr>cn_get := g\<rparr>)"
    "held X (lp1, c\<lparr>cn_get := g\<rparr>)" "calm g" "quiet g" by metis
  have "listening X (lp1, c\<lparr>cn_get := g, cn_state := St_idle\<rparr>)" using st assms(3) d by (simp add: listening_def streaming_def)
  from http_process_rested [OF assms(1) this, of ko ev] d(1) show ?thesis by (auto simp: http_value_sent_def finish_get_def)
qed

lemma http_protocol: "phr_takes phr \<Longrightarrow> protocol_seams (http_seams phr ko) False"
proof
  assume p: "phr_takes phr"
  fix X lp c ev
  assume "held X (lp, c)" "tame c" "stores_only (cx_puts X) c" "cx_puts X = False"
  then have "listening X (lp, c)" by (auto simp: listening_def tame_def stores_only_def)
  from http_process_rested [OF p this, of ko ev]
  show "\<exists>lp' c'. sm_process (http_seams phr ko) ev (lp, c) = Some (lp', c') \<and> rested X (lp', c') \<and>
      length (cn_in c') \<le> length (cn_in c) \<and> (parked (cn_state c') \<longrightarrow> length (cn_in c') < length (cn_in c))"
    by (simp add: http_seams_def)
next
  assume p: "phr_takes phr"
  fix X lp c ev
  assume "streaming X (lp, c)" "cn_inflight c = 0"
  from http_value_rested [OF p this, of ko ev]
  show "\<exists>lp' c'. sm_value_sent (http_seams phr ko) ev (lp, c) = Some (lp', c') \<and> rested X (lp', c')" by (simp add: http_seams_def)
qed (simp_all add: http_seams_def frames_http)

end
