(* ===== verification/Loop_Properties.thy ===== *)
theory Loop_Properties
  imports Mc_Safe Http_Safe Tier_Roundtrip
begin

text \<open>
  What the invariant of the event loop gives the two servers.
\<close>

declare world_ok.simps [simp del]

section \<open>A small loop to start from\<close>

definition demo_env :: env where
  "demo_env = \<lparr>ev_kernel = ideal_kernel, ev_now = 0, ev_clock = 0, ev_room = (\<lambda>_ _. True), ev_pid = 1, ev_slots = (\<lambda>_. zero_stats)\<rparr>"

definition demo_io :: block_pool where
  "demo_io = blockpool_new 1048576 4096 2 False"

definition demo_loop :: loop where
  "demo_loop = arm_accept demo_env (loop_new demo_tm demo_io (\<lambda>_. 0) 0 None 1000 0)"

definition demo_accepted :: loop where
  "demo_accepted = on_accept demo_env 7 5 (demo_loop\<lparr>lp_sq := []\<rparr>)"

lemma demo_world: "world_ok (demo_tm, [], [])"
  by (rule reachable_world_ok [OF demo_reachable])

lemma demo_io_lent: "lent demo_io {}"
  unfolding demo_io_def by (rule lent_new) simp_all

lemma demo_accepts: "dispatch demo_env sm 7 (Sq_accept, 5, []) demo_loop = Some demo_accepted"
  by (simp add: dispatch_def demo_accepted_def demo_loop_def arm_accept_def submit_def demo_env_def loop_new_def Let_def)

lemma demo_completes: "completes [] demo_loop 7 (Sq_accept, 5, [])"
  by (simp add: completes_def closed_moves_nothing_def demo_loop_def arm_accept_def submit_def demo_env_def loop_new_def)

lemma demo_step: "loop_step sm ([], [], demo_loop) ([], [], demo_accepted)"
  by (rule loop_step.completion [OF demo_completes demo_accepts])

lemma demo_run:
  "(loop_step sm)\<^sup>*\<^sup>* ([], [], arm_accept demo_env (loop_new demo_tm demo_io (\<lambda>_. 0) 0 None 1000 0)) ([], [], demo_accepted)"
  using demo_step by (auto simp: demo_loop_def)

lemma demo_accepted_sel:
  "\<exists>c. lp_conns demo_accepted = [(7, c)] \<and> \<not> cn_closing c \<and> cn_state c = St_idle" "lp_sq demo_accepted = [Sq_accept, Sq_recv 7]"
  by (simp_all add: demo_accepted_def on_accept_def arm_accept_def submit_def demo_env_def demo_loop_def loop_new_def Let_def
      bump_def put_conn_def start_recv_def post_def new_conn_def)

section \<open>From the invariant\<close>

lemma loop_ok_find: "loop_ok puts hs ps lp \<Longrightarrow> map_of (lp_conns lp) i = Some c \<Longrightarrow> conn_ok puts (lp_sq lp) (i, c)"
  by (auto simp: loop_ok_def dest: map_of_SomeD)

lemma loop_ok_op:
  "loop_ok puts hs ps lp \<Longrightarrow> s \<in> set (lp_sq lp) \<Longrightarrow> sq_conn s = Some i \<Longrightarrow> \<exists>c. map_of (lp_conns lp) i = Some c"
  by (cases "map_of (lp_conns lp) i") (force simp: loop_ok_def map_of_eq_None_iff)+

lemma loop_ok_queue:
  assumes "loop_ok puts hs ps lp"
  shows "i \<in> set (lp_set_waiters lp) \<longleftrightarrow> (\<exists>c. map_of (lp_conns lp) i = Some c \<and> cn_state c = St_set_wait)"
    "i \<in> set (lp_get_waiters lp) \<longleftrightarrow> (\<exists>c. map_of (lp_conns lp) i = Some c \<and> cn_state c = St_get_wait)"
proof -
  have d: "distinct (map fst (lp_conns lp))" using assms by (simp add: loop_ok_def)
  have q: "queue_ok St_set_wait (lp_set_waiters lp) (lp_conns lp)" "queue_ok St_get_wait (lp_get_waiters lp) (lp_conns lp)"
    using assms by (simp_all add: loop_ok_def)
  have e: "(i, c) \<in> set (lp_conns lp) \<longleftrightarrow> map_of (lp_conns lp) i = Some c" for c using d by (simp add: map_of_eq_Some_iff)
  show "i \<in> set (lp_set_waiters lp) \<longleftrightarrow> (\<exists>c. map_of (lp_conns lp) i = Some c \<and> cn_state c = St_set_wait)"
    "i \<in> set (lp_get_waiters lp) \<longleftrightarrow> (\<exists>c. map_of (lp_conns lp) i = Some c \<and> cn_state c = St_get_wait)"
    using q e by (auto simp: queue_ok_def)
qed

lemma steps_from_new:
  assumes p: "protocol_seams sm puts" and "world_ok (tm, hs, ps)" and "length ps < 2 ^ 32" and "lent io {}"
    and "(loop_step sm)\<^sup>*\<^sup>* (hs, ps, arm_accept ev (loop_new tm io mem slot reg timeout clock)) (hs', ps', lp)"
  shows "loop_ok puts hs' ps' lp"
  by (rule protocol_seams.loop_steps_ok [OF p assms(5) arm_accept_ok [OF loop_new_ok [OF assms(2-4)]]])

lemma loop_ok_no_dangling:
  assumes ok: "loop_ok puts hs ps lp"
  shows "(\<forall>s \<in> set (lp_sq lp). \<forall>i. sq_conn s = Some i \<longrightarrow> (\<exists>c. map_of (lp_conns lp) i = Some c \<and> 0 < cn_inflight c)) \<and>
    (\<forall>i \<in> set (lp_set_waiters lp) \<union> set (lp_get_waiters lp). \<exists>c. map_of (lp_conns lp) i = Some c \<and> \<not> cn_closing c \<and> cn_inflight c = 0)"
proof (intro conjI ballI allI impI)
  fix s i
  assume s: "s \<in> set (lp_sq lp)" "sq_conn s = Some i"
  obtain c where c: "map_of (lp_conns lp) i = Some c" using loop_ok_op [OF ok s] by blast
  have "s \<in> set (own i (lp_sq lp))" using s by (simp add: own_def)
  then have "0 < cn_inflight c" using loop_ok_find [OF ok c] by (auto simp: conn_ok_def)
  with c show "\<exists>c. map_of (lp_conns lp) i = Some c \<and> 0 < cn_inflight c" by blast
next
  fix i
  assume "i \<in> set (lp_set_waiters lp) \<union> set (lp_get_waiters lp)"
  then obtain c where c: "map_of (lp_conns lp) i = Some c" "parked (cn_state c)"
    using loop_ok_queue [OF ok, of i] by (auto simp: parked_def)
  with loop_ok_find [OF ok c(1)] show "\<exists>c. map_of (lp_conns lp) i = Some c \<and> \<not> cn_closing c \<and> cn_inflight c = 0"
    by (auto simp: conn_ok_def shape_def want_ops_def)
qed

lemma flows_order:
  assumes "flows g" and "gp_send_i g < 2"
  shows "gp_send_pos g + pending g = gp_plan_pos g \<and> gp_plan_pos g \<le> gp_size g \<and>
    (busy g 0 \<or> busy g 1 \<longrightarrow> busy g (gp_send_i g)) \<and> (gp_send_lane g = None \<or> gp_send_lane g = Some (gp_send_i g))"
proof -
  have "busy g 0 \<or> busy g 1 \<longrightarrow> (if gp_send_i g = 0 then busy g 0 else busy g 1)"
    using assms(1) by (simp add: flows_def flow_ok_def)
  moreover have "gp_send_i g = 0 \<or> gp_send_i g = 1" using assms(2) by linarith
  ultimately have "busy g 0 \<or> busy g 1 \<longrightarrow> busy g (gp_send_i g)" by (elim disjE) simp_all
  with assms(1) show ?thesis by (simp add: flows_def flow_ok_def)
qed

section \<open>Properties\<close>




lemma demo_loop_ok: "loop_ok puts [] [] demo_loop"
  unfolding demo_loop_def by (rule arm_accept_ok [OF loop_new_ok [OF demo_world _ demo_io_lent]]) simp

lemma demo_all_complete: "all_complete demo_env sm [] [(7, Sq_accept, 5, [])] demo_loop"
  by (simp add: demo_completes demo_accepts)







definition demo_phr :: phr where
  "demo_phr = (\<lambda>buf prev. \<lparr>phr_rc = (if buf = [] then - 2 else int (length buf)), phr_method = ''GET'', phr_path = ''/a'',
     phr_minor = 1, phr_headers = []\<rparr>)"


end
