(* ===== verification/Source_Loader.thy ===== *)
theory Source_Loader
  imports Chunked_Store Key_Derivation
begin

text \<open>
  Preloading directory trees at startup (\<^verbatim>\<open>http/source_loader.cpp\<close>): every regular file below a
  source directory is streamed into the store under the key its relative path gives. What
  \<^verbatim>\<open>std::filesystem\<close> and the system calls answer about the tree is the record \<open>source_file\<close>; reads may
  return fewer bytes than asked for.
\<close>

declare world_ok.simps [simp del]

section \<open>The tree\<close>

record source_file =
  sf_regular :: bool
  sf_size :: "nat option"
  sf_rel :: "string option"
  sf_open :: bool
  sf_read :: "nat \<Rightarrow> nat \<Rightarrow> bytes option"

record source_dir =
  sd_is_dir :: bool
  sd_walk :: "source_file list"

definition kSourceBuf :: nat where "kSourceBuf = 256 * 1024"

section \<open>One file\<close>

text \<open>
  The loop of \<^verbatim>\<open>load_file\<close>; \<open>pos\<close> is the offset of the descriptor. A read of nothing (the file
  shrank) is an error like a failed one.
\<close>

function load_loop ::
  "kernel \<Rightarrow> source_file \<Rightarrow> tier_manager \<Rightarrow> store_handle \<Rightarrow> nat \<Rightarrow> nat \<Rightarrow> (tier_manager \<times> store_handle \<times> unit result) option" where
  "load_loop k f tm h pos left =
     (if left = 0 then Some (tm, h, Inr ())
      else
        let want = min left kSourceBuf in
        case sf_read f pos want of
          None \<Rightarrow> Some (tm, h, err io_error ''read'')
        | Some bs \<Rightarrow>
            let bs = take want bs in
            if bs = [] then Some (tm, h, err io_error ''read'')
            else (case handle_write k tm h bs of
                    None \<Rightarrow> None
                  | Some (tm, h, Inl e) \<Rightarrow> Some (tm, h, Inl e)
                  | Some (tm, h, Inr _) \<Rightarrow> load_loop k f tm h (pos + length bs) (left - length bs)))"
  by pat_completeness auto
termination
  by (relation "measure (\<lambda>(k, f, tm, h, pos, left). left)") (auto simp: Let_def)

declare load_loop.simps [simp del]

text \<open>The handle is destroyed on every way out.\<close>

definition load_file ::
  "kernel \<Rightarrow> nat \<Rightarrow> tier_manager \<Rightarrow> digest \<Rightarrow> source_file \<Rightarrow> nat \<Rightarrow> (tier_manager \<times> unit result) option" where
  "load_file k now tm d f sz =
     (case begin_store k tm d sz of
        (tm, Inl e) \<Rightarrow> Some (tm, Inl e)
      | (tm, Inr h) \<Rightarrow>
          (case (if 0 < sz
                 then if \<not> sf_open f then Some (tm, h, err io_error ''open'') else load_loop k f tm h 0 sz
                 else Some (tm, h, Inr ())) of
             None \<Rightarrow> None
           | Some (tm, h, Inl e) \<Rightarrow> Some (fst (abort_uncommitted k tm h), Inl e)
           | Some (tm, h, Inr _) \<Rightarrow>
               (case commit k now tm h 0 0 0 of
                  (tm, h, res) \<Rightarrow> Some (fst (abort_uncommitted k tm h), res))))"

section \<open>The trees\<close>

text \<open>One entry of a walk: skipped, failed, or loaded and counted.\<close>

definition preload_entry ::
  "kernel \<Rightarrow> nat \<Rightarrow> key_options \<Rightarrow> source_file \<Rightarrow> tier_manager \<times> nat \<Rightarrow> (tier_manager \<times> nat) option" where
  "preload_entry k now opt f = (\<lambda>(tm, loaded).
     if \<not> sf_regular f then Some (tm, loaded)
     else case sf_size f of
       None \<Rightarrow> Some (tm, loaded)
     | Some sz \<Rightarrow>
         (case sf_rel f of
            None \<Rightarrow> Some (tm, loaded)
          | Some rel \<Rightarrow>
              if rel = [] then Some (tm, loaded)
              else (case load_file k now tm (hash_key (derive_key_from_relpath rel opt)) f sz of
                      None \<Rightarrow> None
                    | Some (tm, Inl _) \<Rightarrow> Some (tm, loaded)
                    | Some (tm, Inr _) \<Rightarrow> Some (tm, loaded + 1))))"

fun preload_walk ::
  "kernel \<Rightarrow> nat \<Rightarrow> key_options \<Rightarrow> source_file list \<Rightarrow> tier_manager \<times> nat \<Rightarrow> (tier_manager \<times> nat) option" where
  "preload_walk k now opt [] st = Some st"
| "preload_walk k now opt (f # fs) st =
     (case preload_entry k now opt f st of None \<Rightarrow> None | Some st \<Rightarrow> preload_walk k now opt fs st)"

fun preload_dirs ::
  "kernel \<Rightarrow> nat \<Rightarrow> key_options \<Rightarrow> source_dir list \<Rightarrow> tier_manager \<times> nat \<Rightarrow> (tier_manager \<times> nat) option" where
  "preload_dirs k now opt [] st = Some st"
| "preload_dirs k now opt (d # ds) st =
     (if \<not> sd_is_dir d then preload_dirs k now opt ds st
      else case preload_walk k now opt (sd_walk d) st of
             None \<Rightarrow> None
           | Some st \<Rightarrow> preload_dirs k now opt ds st)"

definition preload_sources ::
  "kernel \<Rightarrow> nat \<Rightarrow> source_dir list \<Rightarrow> key_options \<Rightarrow> tier_manager \<Rightarrow> (tier_manager \<times> nat) option" where
  "preload_sources k now ds opt tm = preload_dirs k now opt ds (tm, 0)"

section \<open>Lemmas\<close>

text \<open>What \<^verbatim>\<open>read\<close> documents: the bytes are those of the file at the offset, as many as are returned.\<close>

definition reads_file :: "source_file \<Rightarrow> bytes \<Rightarrow> bool" where
  "reads_file f content \<longleftrightarrow> (\<forall>pos want bs. sf_read f pos want = Some bs \<longrightarrow> bs = take (length bs) (drop pos content))"

lemma take_own_length: "xs = take n ys \<Longrightarrow> xs = take (length xs) ys"
  by (simp add: min_def)

lemma take_pieces:
  assumes "b = take (length b) xs" and "length b \<le> n" and "c = take (n - length b) (drop (length b) xs)"
  shows "b @ c = take n xs"
  using assms take_add [of "length b" "n - length b" xs] by simp

text \<open>The loop writes the file in pieces.\<close>

lemma load_loop_pieces:
  "load_loop k f tm h pos left = Some (tm', h', Inr u) \<Longrightarrow> reads_file f content \<Longrightarrow>
     \<exists>cs. write_all k tm h cs = Some (tm', h', Inr ()) \<and> concat cs = take left (drop pos content) \<and> length (concat cs) = left"
proof (induction k f tm h pos left rule: load_loop.induct)
  case (1 k f tm h pos left)
  show ?case
  proof (cases "left = 0")
    case True
    with 1(2) have "tm' = tm" "h' = h" by (simp_all add: load_loop.simps)
    with True show ?thesis by (intro exI [of _ "[]"]) simp
  next
    case False
    let ?want = "min left kSourceBuf"
    from 1(2) False obtain bs tm1 h1 v where r: "sf_read f pos ?want = Some bs" and ne: "take ?want bs \<noteq> []"
      and w: "handle_write k tm h (take ?want bs) = Some (tm1, h1, Inr v)"
      and l: "load_loop k f tm1 h1 (pos + length (take ?want bs)) (left - length (take ?want bs)) = Some (tm', h', Inr u)"
      by (subst (asm) load_loop.simps) (auto simp: Let_def split: option.splits if_splits prod.splits sum.splits)
    have n: "length (take ?want bs) \<le> left" by simp
    from 1(1) [OF False refl r refl ne w refl refl refl l 1(3)]
    obtain cs where cs: "write_all k tm1 h1 cs = Some (tm', h', Inr ())"
      "concat cs = take (left - length (take ?want bs)) (drop (pos + length (take ?want bs)) content)"
      "length (concat cs) = left - length (take ?want bs)" by blast
    have bs: "take ?want bs = take (length (take ?want bs)) (drop pos content)"
    proof -
      have "bs = take (length bs) (drop pos content)" using 1(3) r unfolding reads_file_def by blast
      then have "take ?want bs = take ?want (take (length bs) (drop pos content))" by simp
      then have "take ?want bs = take (min ?want (length bs)) (drop pos content)" by (simp only: take_take)
      then show ?thesis by (rule take_own_length)
    qed
    have "take ?want bs @ concat cs = take left (drop pos content)"
      by (rule take_pieces [OF bs n]) (simp only: cs(2) drop_drop add.commute)
    moreover have "write_all k tm h (take ?want bs # cs) = Some (tm', h', Inr ())" using w cs(1) by simp
    moreover have "length (concat (take ?want bs # cs)) = left" using cs(3) n by simp
    ultimately show ?thesis by (intro exI [of _ "take ?want bs # cs"]) (simp only: concat.simps simp_thms)
  qed
qed

text \<open>A file that was loaded is the file stored in one call.\<close>

lemma load_file_is_store:
  assumes w: "world_ok (tm, hs, ps)" and f: "reads_file f content" and l: "load_file k now tm d f sz = Some (tm', Inr u)"
  shows "sz \<le> length content" and "tm_store k now tm d (take sz content) 0 0 = Some (tm', Inr u)"
proof -
  obtain tm1 h where b: "begin_store k tm d sz = (tm1, Inr h)"
    using l by (auto simp: load_file_def split: prod.splits sum.splits)
  have "\<exists>tm2 h2 cs. write_all k tm1 h cs = Some (tm2, h2, Inr ()) \<and> concat cs = take sz content \<and> length (concat cs) = sz \<and>
      (case commit k now tm2 h2 0 0 0 of (tm, h, res) \<Rightarrow> Some (fst (abort_uncommitted k tm h), res)) = Some (tm', Inr u)"
  proof (cases "sz = 0")
    case True
    with l b show ?thesis by (intro exI [of _ tm1] exI [of _ h] exI [of _ "[]"]) (simp add: load_file_def)
  next
    case False
    with l b obtain tm2 h2 v where ll: "load_loop k f tm1 h 0 sz = Some (tm2, h2, Inr v)"
      and c: "(case commit k now tm2 h2 0 0 0 of (tm, h, res) \<Rightarrow> Some (fst (abort_uncommitted k tm h), res)) = Some (tm', Inr u)"
      by (auto simp: load_file_def split: option.splits if_splits prod.splits sum.splits)
    from load_loop_pieces [OF ll f] c show ?thesis by auto
  qed
  then obtain tm2 h2 cs where cs: "write_all k tm1 h cs = Some (tm2, h2, Inr ())" "concat cs = take sz content"
    "length (concat cs) = sz"
    and c: "(case commit k now tm2 h2 0 0 0 of (tm, h, res) \<Rightarrow> Some (fst (abort_uncommitted k tm h), res)) = Some (tm', Inr u)"
    by blast
  show "sz \<le> length content" using cs(2,3) by simp
  obtain tm3 h3 res where m: "commit k now tm2 h2 0 0 0 = (tm3, h3, res)" by (metis prod_cases3)
  have "begin_store k tm d (length (concat cs)) = (tm1, Inr h)" using b cs(3) by simp
  from chunked_is_store [OF w this cs(1) m] c m show "tm_store k now tm d (take sz content) 0 0 = Some (tm', Inr u)"
    by (simp add: cs(2))
qed

text \<open>Loading returns and keeps the engine's invariant, whatever the disks answer.\<close>

lemma load_loop_total:
  "world_ok (tm, h # hs, ps) \<Longrightarrow>
     \<exists>tm' h' res. load_loop k f tm h pos left = Some (tm', h', res) \<and> world_ok (tm', h' # hs, ps)"
proof (induction k f tm h pos left rule: load_loop.induct)
  case (1 k f tm h pos left)
  show ?case
  proof (cases "left = 0")
    case True
    with 1(2) show ?thesis by (simp add: load_loop.simps)
  next
    case False
    let ?want = "min left kSourceBuf"
    show ?thesis
    proof (cases "\<exists>bs. sf_read f pos ?want = Some bs \<and> take ?want bs \<noteq> []")
      case None: False
      then have "load_loop k f tm h pos left = Some (tm, h, err io_error ''read'')"
        using False by (subst load_loop.simps) (auto simp: Let_def split: option.splits)
      with 1(2) show ?thesis by simp
    next
      case True
      then obtain bs where r: "sf_read f pos ?want = Some bs" "take ?want bs \<noteq> []" by blast
      then have pos: "?want \<noteq> 0" by auto
      have fits: "stage_fits h" using 1(2) by (simp add: world_ok.simps handle_ok_def)
      obtain tm1 h1 res where w: "handle_write k tm h (take ?want bs) = Some (tm1, h1, res)"
        and s: "same_books tm tm1" "same_handle h h1" "stage_fits h1"
        using handle_write_total [OF fits, of k tm "take ?want bs"] by blast
      have w1: "world_ok (tm1, h1 # hs, ps)" using world_ok_handle [of tm "[]" h hs ps] 1(2) s by simp
      show ?thesis
      proof (cases res)
        case (Inl e)
        with False r pos w have "load_loop k f tm h pos left = Some (tm1, h1, Inl e)"
          using pos by (subst load_loop.simps) (simp only: Let_def if_False option.case prod.case sum.case)
        with w1 show ?thesis by simp
      next
        case (Inr v)
        with False r pos w have "load_loop k f tm h pos left =
            load_loop k f tm1 h1 (pos + length (take ?want bs)) (left - length (take ?want bs))"
          using pos by (subst load_loop.simps) (simp only: Let_def if_False option.case prod.case sum.case)
        with 1(1) [OF False refl r(1) refl r(2) w refl refl Inr w1] show ?thesis by simp
      qed
    qed
  qed
qed

lemma load_file_total:
  assumes "world_ok (tm, hs, ps)"
  shows "\<exists>tm' res. load_file k now tm d f sz = Some (tm', res) \<and> world_ok (tm', hs, ps)"
proof -
  obtain tm1 r where b: "begin_store k tm d sz = (tm1, r)" by (metis surj_pair)
  note w = begin_store_world [OF assms b]
  show ?thesis
  proof (cases r)
    case (Inl e)
    with b w show ?thesis by (simp add: load_file_def)
  next
    case (Inr h)
    with w have w1: "world_ok (tm1, h # hs, ps)" by simp
    let ?l = "if 0 < sz then if \<not> sf_open f then Some (tm1, h, err io_error ''open'') else load_loop k f tm1 h 0 sz
       else Some (tm1, h, Inr ())"
    obtain tm2 h2 r2 where l: "?l = Some (tm2, h2, r2)" and w2: "world_ok (tm2, h2 # hs, ps)"
      using w1 load_loop_total [OF w1, of k f 0 sz] by (cases "0 < sz"; cases "sf_open f") auto
    have ab: "world_ok (fst (abort_uncommitted k t g), hs, ps)" if "world_ok (t, g # hs, ps)" for t g
      using abort_world [of t "[]" g hs ps k] that by (metis append_Nil fst_conv surj_pair)
    show ?thesis
    proof (cases r2)
      case (Inl e)
      have "load_file k now tm d f sz = Some (fst (abort_uncommitted k tm2 h2), Inl e)"
        unfolding load_file_def b Inr prod.case sum.case l Inl by simp
      with ab [OF w2] show ?thesis by blast
    next
      case v: (Inr v)
      obtain tm3 h3 r3 where c: "commit k now tm2 h2 0 0 0 = (tm3, h3, r3)" by (metis prod_cases3)
      have e: "load_file k now tm d f sz = Some (fst (abort_uncommitted k tm3 h3), r3)"
        unfolding load_file_def b Inr prod.case sum.case l v by (simp add: c)
      have "world_ok (fst (abort_uncommitted k tm3 h3), hs, ps)"
      proof (cases r3)
        case (Inl e)
        with commit_world [of tm2 "[]" h2 hs ps] w2 c show ?thesis by (intro ab) fastforce
      next
        case (Inr u)
        have "sh_committed h3" by (rule commit_committed [OF c [unfolded Inr]])
        with commit_world [of tm2 "[]" h2 hs ps] w2 c Inr show ?thesis by (fastforce simp: abort_uncommitted_def)
      qed
      with e show ?thesis by blast
    qed
  qed
qed

lemma preload_entry_total:
  assumes "world_ok (tm, hs, ps)"
  shows "\<exists>tm' n'. preload_entry k now opt f (tm, n) = Some (tm', n') \<and> world_ok (tm', hs, ps) \<and> n \<le> n' \<and> n' \<le> n + 1"
proof -
  have "\<exists>tm' n'. (case load_file k now tm d f sz of None \<Rightarrow> None | Some (tm, Inl _) \<Rightarrow> Some (tm, n) | Some (tm, Inr _) \<Rightarrow> Some (tm, n + 1)) =
      Some (tm', n') \<and> world_ok (tm', hs, ps) \<and> n \<le> n' \<and> n' \<le> n + 1" for d sz
  proof -
    obtain tm1 res where "load_file k now tm d f sz = Some (tm1, res)" "world_ok (tm1, hs, ps)"
      using load_file_total [OF assms, of k now d f sz] by blast
    then show ?thesis by (cases res) simp_all
  qed
  with assms show ?thesis by (auto simp: preload_entry_def split: option.split)
qed

lemma preload_walk_total:
  "world_ok (tm, hs, ps) \<Longrightarrow>
     \<exists>tm' n'. preload_walk k now opt fs (tm, n) = Some (tm', n') \<and> world_ok (tm', hs, ps) \<and> n' \<le> n + length fs"
proof (induction fs arbitrary: tm n)
  case (Cons f fs)
  from preload_entry_total [OF Cons.prems, of k now opt f n] obtain tm1 n1 where
    e: "preload_entry k now opt f (tm, n) = Some (tm1, n1)" "world_ok (tm1, hs, ps)" "n1 \<le> n + 1" by blast
  from Cons.IH [OF e(2), of n1] e show ?case by auto
qed simp

lemma preload_dirs_total:
  "world_ok (tm, hs, ps) \<Longrightarrow>
     \<exists>tm' n'. preload_dirs k now opt ds (tm, n) = Some (tm', n') \<and> world_ok (tm', hs, ps) \<and>
       n' \<le> n + length (concat (map sd_walk ds))"
proof (induction ds arbitrary: tm n)
  case (Cons d ds)
  show ?case
  proof (cases "sd_is_dir d")
    case False
    with Cons.IH [OF Cons.prems, of n] show ?thesis by force
  next
    case True
    from preload_walk_total [OF Cons.prems, of k now opt "sd_walk d" n] obtain tm1 n1 where
      e: "preload_walk k now opt (sd_walk d) (tm, n) = Some (tm1, n1)" "world_ok (tm1, hs, ps)" "n1 \<le> n + length (sd_walk d)" by blast
    from Cons.IH [OF e(2), of n1] e True show ?thesis by auto
  qed
qed simp

section \<open>Properties\<close>

text \<open>
  Property C18. A preloaded file is served: when \<^verbatim>\<open>load_file\<close> reports success, however short the reads
  were, the file had the size the walk saw, and a read of the object at any device-block offset
  returns the bytes of the file from there on.
\<close>

theorem preloaded_file_served:
  assumes "reachable tm0 (tm, hs, ps)" and "disks_ok tm d sz"
    and "ram_head (tm_tiers tm) < 2 ^ 32" and "kDeviceBlock dvd ram_head (tm_tiers tm)"
    and "kDeviceBlock dvd ssd_prefix (tm_tiers tm)"
    and "reads_file f content" and "load_file k now tm d f sz = Some (tm', Inr u)"
    and "index_lookup (tm_index tm') d \<noteq> None" and "kind_kernel k'" and "kDeviceBlock dvd off"
  shows "sz \<le> length content \<and> (\<exists>out'. tm_read k' tm' d off out = Inr (out', min (length out) (sz - off)) \<and>
    length out' = length out \<and>
    take (min (length out) (sz - off)) out' = slice off (min (length out) (sz - off)) content)"
proof -
  have w: "world_ok (tm, hs, ps)" by (rule reachable_world_ok [OF assms(1)])
  obtain m where m: "index_lookup (tm_index tm') d = Some m" using assms(8) by blast
  note l = load_file_is_store [OF w assms(6,7)]
  have len: "length (take sz content) = sz" using l(1) by simp
  have dk: "disks_ok tm d (length (take sz content))" using assms(2) len by simp
  note s = store_stored [OF w dk assms(3) l(2) m assms(9)]
  have "length (take sz content) + kDeviceBlock \<le> 2 ^ 64" using dk by (simp add: disks_ok_def pool_fits_def)
  then have r: "\<exists>out'. tm_read k' tm' d off out = Inr (out', min (length out) (length (take sz content) - off)) \<and>
      length out' = length out \<and>
      take (min (length out) (length (take sz content) - off)) out' =
        slice off (min (length out) (length (take sz content) - off)) (take sz content)"
    by (intro read_stored [OF s(1) assms(9,10)]) (simp_all only: s(2) assms)
  have "slice off (min (length out) (sz - off)) (take sz content) = slice off (min (length out) (sz - off)) content"
    by (simp add: slice_def drop_take min_def)
  with r l(1) show ?thesis by (simp only: len simp_thms)
qed

definition demo_file :: source_file where
  "demo_file = \<lparr>sf_regular = True, sf_size = Some 3, sf_rel = Some ''a'', sf_open = True,
     sf_read = (\<lambda>pos want. Some (take want (drop pos [1, 2, 3])))\<rparr>"

lemma demo_reads: "reads_file demo_file [1, 2, 3]"
  by (auto simp: reads_file_def demo_file_def min_def)

lemma demo_load: "load_file ideal_kernel 0 demo_tm d demo_file 3 = Some (demo_stored d, Inr ())"
proof -
  have "load_loop ideal_kernel demo_file tm h 0 3 =
      (case handle_write ideal_kernel tm h [1, 2, 3] of None \<Rightarrow> None
       | Some (tm, h, Inl e) \<Rightarrow> Some (tm, h, Inl e) | Some (tm, h, Inr _) \<Rightarrow> Some (tm, h, Inr ()))" for tm h
    by (subst load_loop.simps) (simp add: Let_def kSourceBuf_def demo_file_def load_loop.simps [of _ _ _ _ _ 0] numeral_3_eq_3 [symmetric]
        split: option.split prod.split sum.split)
  then show ?thesis
    by (simp add: load_file_def demo_begin [simplified] demo_write demo_commit abort_uncommitted_def numeral_3_eq_3 [symmetric])
      (simp add: demo_file_def)
qed

theorem preloaded_file_served_witness:
  "\<exists>out'. tm_read ideal_kernel (demo_stored []) [] 0 [9, 9, 9, 9] = Inr (out', 3) \<and> take 3 out' = [1, 2, 3]"
proof -
  have "3 \<le> length [1, 2, 3 :: byte] \<and> (\<exists>out'. tm_read ideal_kernel (demo_stored []) [] 0 [9, 9, 9, 9] =
      Inr (out', min (length [9, 9, 9, 9 :: byte]) (3 - 0)) \<and> length out' = length [9, 9, 9, 9 :: byte] \<and>
    take (min (length [9, 9, 9, 9 :: byte]) (3 - 0)) out' = slice 0 (min (length [9, 9, 9, 9 :: byte]) (3 - 0)) [1, 2, 3])"
    by (rule preloaded_file_served [OF demo_reachable demo_disks_ok _ _ _ demo_reads demo_load])
      (simp_all add: demo_tm_def size_defs demo_stored_index kind_kernel_def ideal_kernel_def)
  then show ?thesis by (simp add: slice_def numeral_3_eq_3) blast
qed

text \<open>
  Preloading ends and harms nothing: from every state of the engine in which its
  invariant holds, walking the source trees returns, whatever the disks answer, with the
  invariant intact and no handle left open; it counts at most the entries it saw.
\<close>

lemma preload_returns:
  assumes "world_ok (tm, hs, ps)"
  shows "\<exists>tm' n. preload_sources k now ds opt tm = Some (tm', n) \<and> world_ok (tm', hs, ps) \<and>
    n \<le> length (concat (map sd_walk ds))"
  using preload_dirs_total [OF assms, of k now opt ds 0] by (simp add: preload_sources_def)

end
