(* ===== verification/Startup.thy ===== *)
theory Startup
  imports Mc_Protocol Source_Loader
begin

text \<open>
  The way to a running server (\<^verbatim>\<open>main.cpp\<close>): the command line becomes a configuration, which is
  validated; the pool directories are wiped (\<^verbatim>\<open>storage/pool_dir.cpp\<close>), the engine is opened, and the
  source trees are preloaded. The banner and the help text are not modelled, error messages are.
\<close>

declare world_ok.simps [simp del]

section \<open>Numbers on the command line\<close>

definition parse_size :: "string \<Rightarrow> nat option" where
  "parse_size s =
     (if s = [] then None
      else
        let (mult, s) =
          (if last s = CHR ''k'' \<or> last s = CHR ''K'' then (KiB, butlast s)
           else if last s = CHR ''m'' \<or> last s = CHR ''M'' then (MiB, butlast s)
           else if last s = CHR ''g'' \<or> last s = CHR ''G'' then (GiB, butlast s)
           else (1, s))
        in case from_chars_u UINT64_MAX s of
             None \<Rightarrow> None
           | Some (v, rest) \<Rightarrow> if rest \<noteq> [] then None else Some (u64 (v * mult)))"

definition parse_int :: "nat \<Rightarrow> string \<Rightarrow> nat option" where
  "parse_int mx s =
     (case from_chars_u mx s of
        None \<Rightarrow> None
      | Some (v, rest) \<Rightarrow> if rest \<noteq> [] then None else Some v)"

section \<open>Options\<close>

text \<open>After an option: go on with the rest of the arguments, or leave \<^verbatim>\<open>main\<close> with a code and a message.\<close>

datatype opt_end = Next "string list" server_config | Leave nat string

definition with_arg :: "string \<Rightarrow> string list \<Rightarrow> (string \<Rightarrow> string + server_config) \<Rightarrow> opt_end" where
  "with_arg a rest f =
     (case rest of
        [] \<Rightarrow> Leave 2 (''error: '' @ a @ '' needs an argument'')
      | v # rest \<Rightarrow> (case f v of Inl msg \<Rightarrow> Leave 2 msg | Inr cfg \<Rightarrow> Next rest cfg))"

definition bad :: "string \<Rightarrow> string \<Rightarrow> string" where
  "bad what v = ''error: bad '' @ what @ '' '' @ [char_of (39 :: nat)] @ v @ [char_of (39 :: nat)]"

definition with_number :: "nat option \<Rightarrow> string \<Rightarrow> (nat \<Rightarrow> server_config) \<Rightarrow> string + server_config" where
  "with_number n msg f = (case n of None \<Rightarrow> Inl msg | Some n \<Rightarrow> Inr (f n))"

definition size_option :: "string \<Rightarrow> server_config \<Rightarrow> nat \<Rightarrow> server_config" where
  "size_option a cfg n =
     (if a = ''--memory'' then cfg\<lparr>memory := (memory cfg)\<lparr>total_bytes := n\<rparr>\<rparr>
      else if a = ''--block'' then cfg\<lparr>memory := (memory cfg)\<lparr>block_bytes := n\<rparr>\<rparr>
      else if a = ''--ram-head'' then cfg\<lparr>tiers := (tiers cfg)\<lparr>ram_head := n\<rparr>\<rparr>
      else if a = ''--ssd-prefix'' then cfg\<lparr>tiers := (tiers cfg)\<lparr>ssd_prefix := n\<rparr>\<rparr>
      else cfg\<lparr>io_chunk_bytes := n\<rparr>)"

definition apply_option :: "string \<Rightarrow> string list \<Rightarrow> server_config \<Rightarrow> opt_end" where
  "apply_option a rest cfg =
     (if a = ''--help'' \<or> a = ''-h'' then Leave 0 []
      else if a = ''--ssd-dir'' then with_arg a rest (\<lambda>v. Inr (cfg\<lparr>ssd := (ssd cfg)\<lparr>dirs := dirs (ssd cfg) @ [v]\<rparr>\<rparr>))
      else if a = ''--hdd-dir'' then with_arg a rest (\<lambda>v. Inr (cfg\<lparr>hdd := (hdd cfg)\<lparr>dirs := dirs (hdd cfg) @ [v]\<rparr>\<rparr>))
      else if a = ''--source'' then with_arg a rest (\<lambda>v. Inr (cfg\<lparr>sources := sources cfg @ [v]\<rparr>))
      else if a = ''--http-vhost'' then Next rest (cfg\<lparr>http_vhost := True\<rparr>)
      else if a = ''--key-on-query'' then Next rest (cfg\<lparr>key_on_query := True\<rparr>)
      else if a = ''--key-strip-slash'' then Next rest (cfg\<lparr>key_strip_slash := True\<rparr>)
      else if a = ''--http-index'' then with_arg a rest (\<lambda>v. Inr (cfg\<lparr>http_index := v\<rparr>))
      else if a = ''--no-http-index'' then Next rest (cfg\<lparr>http_index := []\<rparr>)
      else if a = ''--no-http'' then Next rest (cfg\<lparr>enable_http := False\<rparr>)
      else if a = ''--no-memcache'' then Next rest (cfg\<lparr>enable_memcache := False\<rparr>)
      else if a = ''--no-read-ahead'' then Next rest (cfg\<lparr>read_ahead := False\<rparr>)
      else if a = ''--no-mlock'' then Next rest (cfg\<lparr>memory := (memory cfg)\<lparr>lock_memory := False\<rparr>\<rparr>)
      else if a = ''--eviction''
      then with_arg a rest (\<lambda>v.
        if v = ''s3fifo'' then Inr (cfg\<lparr>eviction := (eviction cfg)\<lparr>policy := s3fifo\<rparr>\<rparr>)
        else Inl (''error: eviction '' @ [char_of (39 :: nat)] @ v @ [char_of (39 :: nat)] @ '' not implemented yet (only s3fifo)''))
      else if a = ''--max-objects''
      then with_arg a rest (\<lambda>v. with_number (parse_int UINT64_MAX v) (bad ''max-objects'' v)
        (\<lambda>n. cfg\<lparr>eviction := (eviction cfg)\<lparr>max_ssd_objects := n\<rparr>\<rparr>))
      else if a = ''--tls-cert'' then with_arg a rest (\<lambda>v. Inr (cfg\<lparr>tls_cert_paths := tls_cert_paths cfg @ [v]\<rparr>))
      else if a = ''--tls-key'' then with_arg a rest (\<lambda>v. Inr (cfg\<lparr>tls_key_paths := tls_key_paths cfg @ [v]\<rparr>))
      else if a = ''--https-port''
      then with_arg a rest (\<lambda>v. with_number (parse_int UINT16_MAX v) (bad ''port'' v) (\<lambda>p. cfg\<lparr>https_port := p\<rparr>))
      else if a \<in> set [''--memory'', ''--block'', ''--ram-head'', ''--ssd-prefix'', ''--io-chunk'']
      then with_arg a rest (\<lambda>v. with_number (parse_size v) (bad ''size'' v) (size_option a cfg))
      else if a = ''--memcache-port'' \<or> a = ''--http-port''
      then with_arg a rest (\<lambda>v. with_number (parse_int UINT16_MAX v) (bad ''port'' v)
        (\<lambda>p. if a = ''--memcache-port'' then cfg\<lparr>memcache_port := p\<rparr> else cfg\<lparr>http_port := p\<rparr>))
      else if a = ''--cores''
      then with_arg a rest (\<lambda>v. with_number (parse_int UINT32_MAX v) (bad ''cores'' v) (\<lambda>n. cfg\<lparr>cores := n\<rparr>))
      else if a = ''--net''
      then with_arg a rest (\<lambda>v.
        if v = ''blocking'' then Inr (cfg\<lparr>net := blocking\<rparr>)
        else if v = ''async'' then Inr (cfg\<lparr>net := async\<rparr>)
        else Inl (bad ''net mode'' v))
      else if a = ''--io-buffers''
      then with_arg a rest (\<lambda>v. with_number (case parse_int UINT32_MAX v of None \<Rightarrow> None | Some n \<Rightarrow> if n = 0 then None else Some n)
        (bad ''io-buffers'' v) (\<lambda>n. cfg\<lparr>io_buffers := n\<rparr>))
      else if a = ''--io-timeout''
      then with_arg a rest (\<lambda>v. with_number (parse_int UINT32_MAX v) (bad ''io-timeout'' v) (\<lambda>n. cfg\<lparr>io_timeout_ms := n\<rparr>))
      else Leave 2 (''error: unknown option '' @ [char_of (39 :: nat)] @ a @ [char_of (39 :: nat)] @ '' (try --help)''))"

text \<open>Every option keeps a property of the configuration, and no option puts arguments back.\<close>

definition step_keeps :: "(server_config \<Rightarrow> bool) \<Rightarrow> string list \<Rightarrow> opt_end \<Rightarrow> bool" where
  "step_keeps P rest r = (case r of Next rest' cfg' \<Rightarrow> length rest' \<le> length rest \<and> P cfg' | Leave _ _ \<Rightarrow> True)"

lemma step_keeps_intros:
  "step_keeps P rest (Leave rc msg)" "P cfg \<Longrightarrow> step_keeps P rest (Next rest cfg)"
  "(\<And>v cfg. f v = Inr cfg \<Longrightarrow> P cfg) \<Longrightarrow> step_keeps P rest (with_arg a rest f)"
  "step_keeps P rest x \<Longrightarrow> step_keeps P rest y \<Longrightarrow> step_keeps P rest (if b then x else y)"
  by (auto simp: step_keeps_def with_arg_def split: list.splits sum.splits)

lemma with_number_Inr: "with_number n msg f = Inr cfg \<Longrightarrow> \<exists>v. n = Some v \<and> cfg = f v"
  by (auto simp: with_number_def split: option.splits)

lemma apply_option_shorter: "apply_option a rest cfg = Next rest' cfg' \<Longrightarrow> length rest' \<le> length rest"
proof -
  have "step_keeps (\<lambda>_. True) rest (apply_option a rest cfg)"
    unfolding apply_option_def by (intro step_keeps_intros TrueI)
  then show "apply_option a rest cfg = Next rest' cfg' \<Longrightarrow> length rest' \<le> length rest" by (simp add: step_keeps_def)
qed

function parse_args :: "string list \<Rightarrow> server_config \<Rightarrow> (nat \<times> string) + server_config" where
  "parse_args [] cfg = Inr cfg"
| "parse_args (a # rest) cfg =
     (case apply_option a rest cfg of
        Leave rc msg \<Rightarrow> Inl (rc, msg)
      | Next rest cfg \<Rightarrow> parse_args rest cfg)"
  by pat_completeness auto
termination
  by (relation "measure (\<lambda>(args, cfg). length args)") (auto dest: apply_option_shorter)

text \<open>The configuration the server starts with: the options, the derived TLS switch, the checks.\<close>

definition main_config :: "string list \<Rightarrow> (nat \<times> string) + server_config" where
  "main_config args =
     (case parse_args args default_config of
        Inl stop \<Rightarrow> Inl stop
      | Inr cfg \<Rightarrow>
          let cfg = cfg\<lparr>enable_https := (tls_cert_paths cfg \<noteq> [])\<rparr> in
          (case validate cfg of
             Inl e \<Rightarrow> Inl (1, ''config error: '' @ detail e)
           | Inr _ \<Rightarrow> Inr cfg))"

section \<open>What the options give\<close>

definition args_ok :: "server_config \<Rightarrow> bool" where
  "args_ok c \<longleftrightarrow> sizes_in_range c \<and> memcache_port c < 2 ^ 16 \<and> http_port c < 2 ^ 16 \<and> https_port c < 2 ^ 16 \<and>
     cores c < 2 ^ 32 \<and> io_buffers c < 2 ^ 32 \<and> io_timeout_ms c < 2 ^ 32 \<and> max_ssd_objects (eviction c) < 2 ^ 64"

lemma parse_int_less: "parse_int mx v = Some n \<Longrightarrow> n \<le> mx"
  by (auto simp: parse_int_def from_chars_u_def Let_def split: option.splits if_splits)

lemma parse_size_less: "parse_size v = Some n \<Longrightarrow> n < 2 ^ 64"
  by (auto simp: parse_size_def Let_def u64_def split: option.splits if_splits prod.splits)

lemma apply_option_ok: "args_ok cfg \<Longrightarrow> step_keeps args_ok rest (apply_option a rest cfg)"
  unfolding apply_option_def
  by (intro step_keeps_intros)
    (auto simp: args_ok_def sizes_in_range_def size_option_def
       dest!: with_number_Inr parse_int_less parse_size_less split: if_splits option.splits)

lemma parse_args_ok: "args_ok cfg \<Longrightarrow> parse_args args cfg = Inr c \<Longrightarrow> args_ok c"
proof (induction args cfg rule: parse_args.induct)
  case (2 a rest cfg)
  from 2(3) obtain rest' cfg' where o: "apply_option a rest cfg = Next rest' cfg'" and p: "parse_args rest' cfg' = Inr c"
    by (auto split: opt_end.splits)
  have "args_ok cfg'" using apply_option_ok [OF 2(2), of rest a] o by (simp add: step_keeps_def)
  from 2(1) [OF o this p] show ?case .
qed simp

lemma args_ok_default: "args_ok default_config"
  by (simp add: args_ok_def sizes_in_range_def default_defs size_defs)

lemma main_config_parts:
  assumes "main_config args = Inr c"
  shows "args_ok c" and "validate c = Inr ()" and "enable_https c = (tls_cert_paths c \<noteq> [])"
proof -
  from assms obtain cfg where p: "parse_args args default_config = Inr cfg"
    and c: "c = cfg\<lparr>enable_https := (tls_cert_paths cfg \<noteq> [])\<rparr>" and v: "validate c = Inr ()"
    by (auto simp: main_config_def Let_def split: sum.splits)
  have "args_ok cfg" by (rule parse_args_ok [OF args_ok_default p])
  then show "args_ok c" by (simp add: c args_ok_def sizes_in_range_def)
  show "validate c = Inr ()" by (rule v)
  show "enable_https c = (tls_cert_paths c \<noteq> [])" by (simp add: c)
qed

section \<open>Pool directories\<close>

text \<open>
  A pool directory as \<^verbatim>\<open>std::filesystem\<close> shows it, in the order it is iterated, and what can go wrong.
  A directory iterator that fails to advance becomes the end iterator, and the status of a path
  that does not exist is reported as an error as well as as \<^verbatim>\<open>not_found\<close>.
\<close>

datatype entry = Regular string | Tree

datatype node = Absent | Plain | Directory "(string \<times> entry) list"

record dir_os =
  os_mkdir :: "string option"
  os_stat :: "string option"
  os_empty :: "string option"
  os_open :: "string option"
  os_stops :: "string \<Rightarrow> bool"
  os_remove :: "string \<Rightarrow> string option"
  os_write :: bool

definition kMarkerName :: string where "kMarkerName = ''.goblin-store-marker''"

definition kNoEntry :: string where "kNoEntry = ''No such file or directory''"

text \<open>\<^verbatim>\<open>is_regular_file\<close> on the marker's path: the answer and the error code.\<close>

definition marker_status :: "dir_os \<Rightarrow> node \<Rightarrow> bool \<times> string option" where
  "marker_status os d =
     (case os_stat os of
        Some msg \<Rightarrow> (False, Some msg)
      | None \<Rightarrow>
          (case d of
             Directory es \<Rightarrow>
               (case map_of es kMarkerName of
                  None \<Rightarrow> (False, Some kNoEntry)
                | Some (Regular _) \<Rightarrow> (True, None)
                | Some Tree \<Rightarrow> (False, None))
           | _ \<Rightarrow> (False, Some kNoEntry)))"

definition has_marker :: "dir_os \<Rightarrow> node \<Rightarrow> bool result" where
  "has_marker os d = (case marker_status os d of (_, Some msg) \<Rightarrow> err io_error msg | (b, None) \<Rightarrow> Inr b)"

definition prepare_pool_dir :: "dir_os \<Rightarrow> string \<Rightarrow> node \<Rightarrow> node \<times> unit result" where
  "prepare_pool_dir os dir d =
     (case os_mkdir os of
        Some msg \<Rightarrow> (d, err io_error (''mkdir -p '' @ dir @ '': '' @ msg))
      | None \<Rightarrow>
          let d = (if d = Absent then Directory [] else d) in
          (case d of
             Directory es \<Rightarrow>
               if os_stat os \<noteq> None then (d, err invalid_argument (dir @ '' is not a directory''))
               else (case os_empty os of
                  Some msg \<Rightarrow> (d, err io_error (''stat '' @ dir @ '': '' @ msg))
                | None \<Rightarrow>
                    if es \<noteq> [] then (d, err already_exists (dir @ '' is not empty; refusing to mark it as a goblin store''))
                    else if \<not> os_write os then (Directory [(kMarkerName, Regular [])], err io_error (''cannot write marker in '' @ dir))
                    else (Directory [(kMarkerName, Regular (''goblin-store-marker v1'' @ [char_of (10 :: nat)]))], Inr ()))
           | _ \<Rightarrow> (d, err invalid_argument (dir @ '' is not a directory''))))"

text \<open>
  The loop of \<^verbatim>\<open>wipe_pool_dir\<close> over the entries still to come; \<open>kept\<close> are those passed over. When the
  iterator stops early the loop ends as if there were no more entries.
\<close>

fun wipe_loop :: "dir_os \<Rightarrow> string \<Rightarrow> (string \<times> entry) list \<Rightarrow> (string \<times> entry) list \<Rightarrow> (string \<times> entry) list \<times> unit result" where
  "wipe_loop os dir kept [] = (kept, Inr ())"
| "wipe_loop os dir kept ((name, e) # es) =
     (if name = kMarkerName
      then if os_stops os name then (kept @ (name, e) # es, Inr ()) else wipe_loop os dir (kept @ [(name, e)]) es
      else case os_remove os name of
             Some msg \<Rightarrow> (kept @ (name, e) # es, err io_error (''remove '' @ dir @ ''/'' @ name @ '': '' @ msg))
           | None \<Rightarrow> if os_stops os name then (kept @ es, Inr ()) else wipe_loop os dir kept es)"

definition wipe_pool_dir :: "dir_os \<Rightarrow> string \<Rightarrow> node \<Rightarrow> node \<times> unit result" where
  "wipe_pool_dir os dir d =
     (case has_marker os d of
        Inl e \<Rightarrow> (d, Inl e)
      | Inr marked \<Rightarrow>
          if \<not> marked
          then (d, err invalid_argument (dir @ '' has no '' @ kMarkerName @ ''; refusing to wipe (run goblin-store-path-prep first)''))
          else (case os_open os of
                  Some msg \<Rightarrow> (d, err io_error (''iterate '' @ dir @ '': '' @ msg))
                | None \<Rightarrow>
                    (case d of
                       Directory es \<Rightarrow> (case wipe_loop os dir [] es of (es, r) \<Rightarrow> (Directory es, r))
                     | _ \<Rightarrow> (d, Inr ()))))"

section \<open>Starting\<close>

text \<open>
  The two loops over the pool directories: all of them are wiped, or the first failure ends the
  process. The state of the file system is a map from directory names.
\<close>

fun wipe_dirs :: "(string \<Rightarrow> dir_os) \<Rightarrow> string list \<Rightarrow> (string \<Rightarrow> node) \<Rightarrow> (string \<Rightarrow> node) \<times> unit result" where
  "wipe_dirs os [] fs = (fs, Inr ())"
| "wipe_dirs os (dir # ds) fs =
     (case wipe_pool_dir (os dir) dir (fs dir) of
        (d, Inl e) \<Rightarrow> (fs(dir := d), Inl e)
      | (d, Inr _) \<Rightarrow> wipe_dirs os ds (fs(dir := d)))"

definition wipe_pools :: "(string \<Rightarrow> dir_os) \<Rightarrow> server_config \<Rightarrow> (string \<Rightarrow> node) \<Rightarrow> (string \<Rightarrow> node) \<times> unit result" where
  "wipe_pools os cfg fs =
     (case wipe_dirs os (dirs (ssd cfg)) fs of
        (fs, Inl e) \<Rightarrow> (fs, Inl e)
      | (fs, Inr _) \<Rightarrow> wipe_dirs os (dirs (hdd cfg)) fs)"

definition main_key_options :: "server_config \<Rightarrow> key_options" where
  "main_key_options cfg =
     default_key_options\<lparr>ko_mode := (if http_vhost cfg then mode_vhost else mode_path),
       ko_keep_query := key_on_query cfg, ko_strip_leading_slash := key_strip_slash cfg\<rparr>"

text \<open>
  \<^verbatim>\<open>main\<close> up to the call of \<^verbatim>\<open>serve\<close>. The host gives the allocators, the kernel, the clock, RAM and the
  file systems as the engine finds them, the source trees, and whether io_uring is there.
\<close>

record host =
  ho_dir :: "string \<Rightarrow> dir_os"
  ho_ram_alloc :: "nat \<Rightarrow> nat \<Rightarrow> nat option"
  ho_io_alloc :: "nat \<Rightarrow> nat \<Rightarrow> nat option"
  ho_mlock :: "nat \<Rightarrow> nat \<Rightarrow> bool"
  ho_kernel :: kernel
  ho_now :: nat
  ho_mem :: ram
  ho_fs :: dir_fs
  ho_uring :: bool
  ho_tree :: "string \<Rightarrow> source_dir"

datatype started = Exits nat string | Serving server_config tier_manager nat | Hangs

definition main_start :: "host \<Rightarrow> string list \<Rightarrow> (string \<Rightarrow> node) \<Rightarrow> (string \<Rightarrow> node) \<times> started" where
  "main_start ho args fs =
     (case main_config args of
        Inl (rc, msg) \<Rightarrow> (fs, Exits rc msg)
      | Inr cfg \<Rightarrow>
          (case wipe_pools (ho_dir ho) cfg fs of
             (fs, Inl e) \<Rightarrow> (fs, Exits 1 (''startup: '' @ detail e))
           | (fs, Inr _) \<Rightarrow>
               (fs,
                case tm_open (ho_ram_alloc ho) (ho_io_alloc ho) (ho_mlock ho) (ho_kernel ho) (tiers cfg) (memory cfg) (eviction cfg)
                       (ssd cfg) (hdd cfg) (index_new 8) (io_chunk_bytes cfg) (io_buffers cfg) (cache_bypass cfg = o_direct)
                       (ho_mem ho) (ho_fs ho) of
                  Inl e \<Rightarrow> Exits 1 (''startup: '' @ detail e)
                | Inr tm \<Rightarrow>
                    if \<not> ho_uring ho then Exits 1 ''startup: io_uring unavailable (need liburing + io_uring_setup allowed)''
                    else if sources cfg = [] then Serving cfg tm 0
                    else (case preload_sources (ho_kernel ho) (ho_now ho) (map (ho_tree ho) (sources cfg)) (main_key_options cfg) tm of
                            None \<Rightarrow> Hangs
                          | Some (tm, n) \<Rightarrow> Serving cfg tm n))))"

text \<open>The tool that blesses directories: every one is tried, any failure makes the exit code 1.\<close>

fun path_prep :: "(string \<Rightarrow> dir_os) \<Rightarrow> string list \<Rightarrow> (string \<Rightarrow> node) \<times> nat \<Rightarrow> (string \<Rightarrow> node) \<times> nat" where
  "path_prep os [] st = st"
| "path_prep os (dir # ds) (fs, rc) =
     (case prepare_pool_dir (os dir) dir (fs dir) of
        (d, Inr _) \<Rightarrow> path_prep os ds (fs(dir := d), rc)
      | (d, Inl _) \<Rightarrow> path_prep os ds (fs(dir := d), 1))"

definition path_prep_main :: "(string \<Rightarrow> dir_os) \<Rightarrow> string list \<Rightarrow> (string \<Rightarrow> node) \<Rightarrow> (string \<Rightarrow> node) \<times> nat" where
  "path_prep_main os args fs = (if args = [] then (fs, 2) else path_prep os args (fs, 0))"

section \<open>Lemmas\<close>

definition marked :: "node \<Rightarrow> bool" where
  "marked d \<longleftrightarrow> (\<exists>es c. d = Directory es \<and> map_of es kMarkerName = Some (Regular c))"

lemma has_marker_marked: "has_marker os d = Inr True \<Longrightarrow> marked d"
  by (auto simp: has_marker_def marker_status_def marked_def split: option.splits node.splits entry.splits)

lemma wipe_unmarked: "\<not> marked d \<Longrightarrow> \<exists>e. wipe_pool_dir os dir d = (d, Inl e)"
  using has_marker_marked [of os d] by (cases "has_marker os d") (auto simp: wipe_pool_dir_def)

lemma wipe_loop_marker: "wipe_loop os dir kept es = (es', r) \<Longrightarrow> map_of es' kMarkerName = map_of (kept @ es) kMarkerName"
  by (induction os dir kept es rule: wipe_loop.induct) (auto simp: map_add_def split: if_splits option.splits)

lemma wipe_loop_only:
  "wipe_loop os dir kept es = (es', Inr u) \<Longrightarrow> (\<forall>(name, e) \<in> set es. \<not> os_stops os name) \<Longrightarrow>
     (\<forall>(name, e) \<in> set kept. name = kMarkerName) \<Longrightarrow> \<forall>(name, e) \<in> set es'. name = kMarkerName"
  by (induction os dir kept es rule: wipe_loop.induct) (auto split: if_splits option.splits)

lemma wipe_marked:
  assumes "wipe_pool_dir os dir d = (d', r)" and "marked d"
  shows "marked d'"
proof -
  obtain es c where d: "d = Directory es" "map_of es kMarkerName = Some (Regular c)" using assms(2) by (auto simp: marked_def)
  obtain es' r' where w: "wipe_loop os dir [] es = (es', r')" by (metis surj_pair)
  have "d' = d \<or> d' = Directory es'"
    using assms(1) d(1) w by (auto simp: wipe_pool_dir_def split: sum.splits if_splits option.splits)
  with wipe_loop_marker [OF w] d assms(2) show ?thesis by (auto simp: marked_def)
qed

lemma wipe_dirs_spec:
  "wipe_dirs os ds fs = (fs', r) \<Longrightarrow>
     (\<forall>dir. \<not> marked (fs dir) \<longrightarrow> fs' dir = fs dir) \<and> (\<forall>dir. marked (fs dir) \<longrightarrow> marked (fs' dir)) \<and>
     (\<forall>u. r = Inr u \<longrightarrow> (\<forall>dir \<in> set ds. marked (fs dir)))"
proof (induction os ds fs rule: wipe_dirs.induct)
  case (2 os dir ds fs)
  obtain d res where w: "wipe_pool_dir (os dir) dir (fs dir) = (d, res)" by (metis surj_pair)
  show ?case
  proof (cases "marked (fs dir)")
    case False
    then obtain e where "d = fs dir" "res = Inl e" using wipe_unmarked [OF False, of "os dir" dir] w by auto
    with 2(2) w show ?thesis by auto
  next
    case True
    have md: "marked d" by (rule wipe_marked [OF w True])
    show ?thesis
    proof (cases res)
      case (Inl e)
      with 2(2) w True md show ?thesis by auto
    next
      case (Inr u)
      with 2(2) w have "wipe_dirs os ds (fs(dir := d)) = (fs', r)" by simp
      from 2(1) [OF w [symmetric] Inr this] True md show ?thesis by (auto split: if_splits)
    qed
  qed
qed simp

lemma wipe_pools_spec:
  assumes "wipe_pools os cfg fs = (fs', r)"
  shows "(\<forall>dir. \<not> marked (fs dir) \<longrightarrow> fs' dir = fs dir) \<and>
    (\<forall>u. r = Inr u \<longrightarrow> (\<forall>dir \<in> set (dirs (ssd cfg)) \<union> set (dirs (hdd cfg)). marked (fs dir)))"
proof -
  obtain fs1 r1 where w: "wipe_dirs os (dirs (ssd cfg)) fs = (fs1, r1)" by (metis surj_pair)
  note a = wipe_dirs_spec [OF w]
  show ?thesis
  proof (cases r1)
    case (Inl e)
    with assms w a show ?thesis by (auto simp: wipe_pools_def)
  next
    case (Inr u)
    with assms w have "wipe_dirs os (dirs (hdd cfg)) fs1 = (fs', r)" by (simp add: wipe_pools_def)
    note b = wipe_dirs_spec [OF this]
    have un: "\<not> marked (fs1 dir) \<longleftrightarrow> \<not> marked (fs dir)" for dir using a by metis
    from a b un Inr show ?thesis by auto
  qed
qed

lemma main_start_serving:
  assumes "main_start ho args fs = (fs', Serving cfg tm n)"
  obtains fs1 tm0 where "main_config args = Inr cfg" "wipe_pools (ho_dir ho) cfg fs = (fs', Inr ())"
    "tm_open (ho_ram_alloc ho) (ho_io_alloc ho) (ho_mlock ho) (ho_kernel ho) (tiers cfg) (memory cfg) (eviction cfg)
       (ssd cfg) (hdd cfg) (index_new 8) (io_chunk_bytes cfg) (io_buffers cfg) (cache_bypass cfg = o_direct)
       (ho_mem ho) (ho_fs ho) = Inr tm0"
    "tm = tm0 \<or> preload_sources (ho_kernel ho) (ho_now ho) (map (ho_tree ho) (sources cfg)) (main_key_options cfg) tm0 = Some (tm, n)"
  using assms
  by (auto simp: main_start_def split: sum.splits prod.splits if_splits option.splits)

lemma main_start_wipes:
  assumes "main_start ho args fs = (fs', st)"
  shows "fs' = fs \<or> (\<exists>cfg r. wipe_pools (ho_dir ho) cfg fs = (fs', r))"
  using assms by (auto simp: main_start_def split: sum.splits prod.splits)

lemma main_start_hangs:
  assumes "main_start ho args fs = (fs', Hangs)"
  obtains cfg tm0 where "main_config args = Inr cfg"
    "tm_open (ho_ram_alloc ho) (ho_io_alloc ho) (ho_mlock ho) (ho_kernel ho) (tiers cfg) (memory cfg) (eviction cfg)
       (ssd cfg) (hdd cfg) (index_new 8) (io_chunk_bytes cfg) (io_buffers cfg) (cache_bypass cfg = o_direct)
       (ho_mem ho) (ho_fs ho) = Inr tm0"
    "preload_sources (ho_kernel ho) (ho_now ho) (map (ho_tree ho) (sources cfg)) (main_key_options cfg) tm0 = None"
  using assms by (auto simp: main_start_def split: sum.splits prod.splits if_splits option.splits)

lemma preload_keeps:
  assumes "world_ok (tm, hs, ps)"
  shows "preload_sources k now ds opt tm \<noteq> None" and "preload_sources k now ds opt tm = Some (tm', n) \<Longrightarrow> world_ok (tm', hs, ps)"
  using preload_returns [OF assms, of k now ds opt] by auto

section \<open>Properties\<close>


definition demo_os :: dir_os where
  "demo_os = \<lparr>os_mkdir = None, os_stat = None, os_empty = None, os_open = None, os_stops = (\<lambda>_. False), os_remove = (\<lambda>_. None), os_write = True\<rparr>"

definition demo_host :: host where
  "demo_host = \<lparr>ho_dir = (\<lambda>_. demo_os), ho_ram_alloc = (\<lambda>_ n. if n \<le> 2 ^ 40 then Some 0 else None), ho_io_alloc = (\<lambda>_ _. Some (2 ^ 40)), ho_mlock = (\<lambda>_ _. True),
     ho_kernel = ideal_kernel, ho_now = 0, ho_mem = (\<lambda>_. 0), ho_fs = demo_fs, ho_uring = True,
     ho_tree = (\<lambda>_. \<lparr>sd_is_dir = False, sd_walk = []\<rparr>)\<rparr>"

lemma demo_unmarked: "\<not> marked (Directory [(''precious'', Regular ''data'')])"
  by (simp add: marked_def kMarkerName_def)

lemma demo_main_config: "main_config [''--ssd-dir'', ''/mnt''] = Inr (default_config\<lparr>ssd := default_pool\<lparr>dirs := [''/mnt'']\<rparr>\<rparr>)"
  by (simp add: main_config_def apply_option_def with_arg_def validate_def cfg_three_layer_def is_power_of_two_def is_aligned_def
      default_defs size_defs)

lemma demo_host_open: "open_ok (ho_ram_alloc demo_host) (ho_io_alloc demo_host) (memory default_config) (io_chunk_bytes default_config) (io_buffers default_config)"
  by (auto simp: open_ok_def demo_host_def default_defs size_defs kNone_def split: if_splits)




text \<open>
  Property C35. Wiping never harms what it was not given: without the marker, a regular file, the
  directory stays as it is and an error is returned; with it, the marker survives; and when the
  iteration of the directory does not fail, success means that nothing but the marker is left.
\<close>

theorem wipe_exact:
  assumes "wipe_pool_dir os dir d = (d', r)"
  shows "(\<not> marked d \<longrightarrow> d' = d \<and> (\<exists>e. r = Inl e)) \<and> (marked d \<longrightarrow> marked d') \<and>
    ((\<forall>name. \<not> os_stops os name) \<and> r = Inr () \<longrightarrow> (\<exists>es. d' = Directory es \<and> fst ` set es = {kMarkerName}))"
proof (intro conjI impI)
  show "d' = d" "\<exists>e. r = Inl e" if "\<not> marked d" using wipe_unmarked [OF that, of os dir] assms by auto
  show "marked d'" if "marked d" by (rule wipe_marked [OF assms that])
  assume s: "(\<forall>name. \<not> os_stops os name) \<and> r = Inr ()"
  have mk: "marked d" using s wipe_unmarked [of d os dir] assms by auto
  then obtain es where d: "d = Directory es" by (auto simp: marked_def)
  obtain es' where w: "wipe_loop os dir [] es = (es', Inr ())" and d': "d' = Directory es'"
    using assms s d by (cases "wipe_loop os dir [] es") (auto simp: wipe_pool_dir_def split: sum.splits if_splits option.splits)
  have "\<forall>(name, e) \<in> set es'. name = kMarkerName" by (rule wipe_loop_only [OF w]) (use s in auto)
  moreover have "es' \<noteq> []" using wipe_marked [OF assms mk] d' by (auto simp: marked_def)
  ultimately have "fst ` set es' = {kMarkerName}" by (cases es') force+
  with d' show "\<exists>es. d' = Directory es \<and> fst ` set es = {kMarkerName}" by blast
qed

theorem wipe_exact_witness:
  "wipe_pool_dir demo_os ''/mnt'' (Directory [(''a'', Regular []), (kMarkerName, Regular []), (''b'', Tree)]) =
     (Directory [(kMarkerName, Regular [])], Inr ()) \<and> fst ` set [(kMarkerName, Regular [])] = {kMarkerName}"
proof -
  have "wipe_pool_dir demo_os ''/mnt'' (Directory [(''a'', Regular []), (kMarkerName, Regular []), (''b'', Tree)]) =
      (Directory [(kMarkerName, Regular [])], Inr ())"
    by (simp add: wipe_pool_dir_def has_marker_def marker_status_def demo_os_def kMarkerName_def)
  from wipe_exact [OF this] this show ?thesis by (simp add: demo_os_def)
qed



end
