(* ===== verification/Blocking_Server.thy ===== *)
theory Blocking_Server
  imports Chunked_Store Mc_Event_Loop
begin

text \<open>
  The blocking memcache server (\<^verbatim>\<open>protocol/memcache/server.cpp\<close>, \<^verbatim>\<open>--net blocking\<close>): one worker serves
  one connection at a time with plain \<^verbatim>\<open>recv\<close> and \<^verbatim>\<open>send\<close>. The client's bytes are a stream the kernel
  cuts as it likes (\<open>bs_cuts\<close>), and it takes of every reply as much as it likes (\<open>bs_sends\<close>); a cut or a
  send of nothing, or the end of the list, is a closed or timed out socket. A worker that waits
  for a buffer yields; what the other workers do to the shared engine then is the parameter
  \<open>others\<close>. A worker that would spin for ever has no result.
\<close>

declare world_ok.simps [simp del]

section \<open>The socket\<close>

record bconn =
  bs_tm :: tier_manager
  bs_io :: block_pool
  bs_mem :: "nat \<Rightarrow> byte"
  bs_buf :: string
  bs_rest :: string
  bs_cuts :: "nat list"
  bs_out :: string
  bs_sends :: "nat list"
  bs_yields :: nat

definition bytes_str :: "bytes \<Rightarrow> string" where
  "bytes_str bs = map (\<lambda>b. char_of (unat b)) bs"

function send_raw :: "string \<Rightarrow> bconn \<Rightarrow> bconn \<times> bool" where
  "send_raw s st =
     (if s = [] then (st, True)
      else case bs_sends st of
             [] \<Rightarrow> (st, False)
           | w # ws \<Rightarrow>
               if w = 0 then (st\<lparr>bs_sends := ws\<rparr>, False)
               else send_raw (drop w s) (st\<lparr>bs_sends := ws, bs_out := bs_out st @ take w s\<rparr>))"
  by pat_completeness auto
termination
  by (relation "measure (\<lambda>(s, st). length s)") auto

declare send_raw.simps [simp del]

definition kRecvBuf :: nat where "kRecvBuf = 16384"

definition recv_more :: "bconn \<Rightarrow> bconn \<times> bool" where
  "recv_more st =
     (case bs_cuts st of
        [] \<Rightarrow> (st, False)
      | c # cs \<Rightarrow>
          let n = min c (min kRecvBuf (length (bs_rest st))) in
          if n = 0 then (st\<lparr>bs_cuts := cs\<rparr>, False)
          else (st\<lparr>bs_cuts := cs, bs_rest := drop n (bs_rest st), bs_buf := bs_buf st @ take n (bs_rest st)\<rparr>, True))"

lemma recv_more_True:
  assumes "recv_more st = (st', True)"
  obtains n cs where "0 < n" "n \<le> length (bs_rest st)" "length cs < length (bs_cuts st)"
    "st' = st\<lparr>bs_cuts := cs, bs_rest := drop n (bs_rest st), bs_buf := bs_buf st @ take n (bs_rest st)\<rparr>"
proof -
  obtain c cs where c: "bs_cuts st = c # cs" using assms by (cases "bs_cuts st") (simp_all add: recv_more_def)
  define n where "n = min c (min kRecvBuf (length (bs_rest st)))"
  have r: "recv_more st = (if n = 0 then (st\<lparr>bs_cuts := cs\<rparr>, False)
      else (st\<lparr>bs_cuts := cs, bs_rest := drop n (bs_rest st), bs_buf := bs_buf st @ take n (bs_rest st)\<rparr>, True))"
    by (simp only: recv_more_def c Let_def n_def list.case)
  have "n \<le> length (bs_rest st)" by (simp add: n_def)
  with assms c r show thesis by (intro that [of n cs]) (auto split: if_splits)
qed

lemma recv_more_False: "recv_more st = (st', False) \<Longrightarrow> \<exists>cs. st' = st\<lparr>bs_cuts := cs\<rparr>"
  by (auto simp: recv_more_def Let_def split: list.splits if_splits intro: exI [of _ "[]"] exI [of _ "bs_cuts st"])

lemma recv_more_cuts: "recv_more st = (st', True) \<Longrightarrow> length (bs_cuts st') < length (bs_cuts st)"
  by (erule recv_more_True) simp

lemma recv_more_buf: "recv_more st = (st', True) \<Longrightarrow> bs_buf st' \<noteq> []"
  by (erule recv_more_True) auto

text \<open>The command line: receive until the buffer has a CRLF.\<close>

function read_line :: "bconn \<Rightarrow> bconn \<times> nat option" where
  "read_line st =
     (case find_crlf (bs_buf st) of
        Some eol \<Rightarrow> (st, Some eol)
      | None \<Rightarrow>
          (case recv_more st of
             (st, False) \<Rightarrow> (st, None)
           | (st, True) \<Rightarrow> read_line st))"
  by pat_completeness auto
termination
  by (relation "measure (\<lambda>st. length (bs_cuts st))") (auto dest!: recv_more_cuts [OF sym])

declare read_line.simps [simp del]

section \<open>GET\<close>

partial_function (option) stream_loop ::
  "kernel \<Rightarrow> digest \<Rightarrow> nat \<Rightarrow> nat \<times> nat \<Rightarrow> nat \<Rightarrow> bconn \<Rightarrow> (bconn \<times> bool) option" where
  "stream_loop k d sz chunk pos st =
     (if pos < sz
      then let want = min (snd chunk) (sz - pos) in
           case tm_read k (bs_tm st) d pos (mem_get (bs_mem st) (fst chunk) want) of
             Inl e \<Rightarrow> Some (st, False)
           | Inr (bs, n) \<Rightarrow>
               let st = st\<lparr>bs_mem := mem_put (fst chunk) bs (bs_mem st)\<rparr> in
               if n \<noteq> want then Some (st, False)
               else (case send_raw (bytes_str (mem_get (bs_mem st) (fst chunk) want)) st of
                       (st, sent) \<Rightarrow> if sent then stream_loop k d sz chunk (pos + want) st else Some (st, False))
      else Some (st, True))"

text \<open>The read buffers are the worker's own: when it finds none, none will ever come back.\<close>

definition stream_value :: "kernel \<Rightarrow> digest \<Rightarrow> object_meta \<Rightarrow> bconn \<Rightarrow> (bconn \<times> bool) option" where
  "stream_value k d m st =
     (if om_size m = 0 then Some (st, True)
      else case iopool_acquire (bs_io st) of
             None \<Rightarrow> None
           | Some (chunk, io) \<Rightarrow>
               (case stream_loop k d (om_size m) chunk 0 (st\<lparr>bs_io := io\<rparr>) of
                  None \<Rightarrow> None
                | Some (st, good) \<Rightarrow> Some (st\<lparr>bs_io := iopool_release (bs_io st) chunk\<rparr>, good)))"

definition do_get_blocking :: "kernel \<Rightarrow> nat \<Rightarrow> command \<Rightarrow> bconn \<Rightarrow> (bconn \<times> bool) option" where
  "do_get_blocking k now cmd st =
     (let d = hash_key (c_key cmd) in
      case index_lookup (tm_index (bs_tm st)) d of
        None \<Rightarrow> Some (send_raw kEnd st)
      | Some m \<Rightarrow>
          if is_expired m now then Some (send_raw kEnd st)
          else
            (case send_raw (if c_verb cmd = V_gets
                            then value_header_cas (c_key cmd) (om_flags m) (om_size m) (om_etag m)
                            else value_header (c_key cmd) (om_flags m) (om_size m))
                    (st\<lparr>bs_tm := tm_touch (bs_tm st) d\<rparr>) of
               (st, False) \<Rightarrow> Some (st, False)
             | (st, True) \<Rightarrow>
                 (case stream_value k d m st of
                    None \<Rightarrow> None
                  | Some (st, False) \<Rightarrow> Some (st, False)
                  | Some (st, True) \<Rightarrow>
                      (case send_raw CRLF st of
                         (st, False) \<Rightarrow> Some (st, False)
                       | (st, True) \<Rightarrow> Some (send_raw kEnd st)))))"

section \<open>Storing\<close>

text \<open>Opening the writer: wait while the staging buffers are out, give up on any other error.\<close>

partial_function (option) begin_retry ::
  "kernel \<Rightarrow> (nat \<Rightarrow> tier_manager \<Rightarrow> tier_manager) \<Rightarrow> digest \<Rightarrow> nat \<Rightarrow> bconn \<Rightarrow> (bconn \<times> store_handle option) option" where
  "begin_retry k others d n st =
     (case begin_store k (bs_tm st) d n of
        (tm, Inr h) \<Rightarrow> Some (st\<lparr>bs_tm := tm\<rparr>, Some h)
      | (tm, Inl e) \<Rightarrow>
          if code e \<noteq> would_block then Some (st\<lparr>bs_tm := tm\<rparr>, None)
          else begin_retry k others d n (st\<lparr>bs_tm := others (bs_yields st) tm, bs_yields := bs_yields st + 1\<rparr>))"

text \<open>A piece of the body goes to the writer, if there is one and it has not failed.\<close>

definition body_chunk ::
  "kernel \<Rightarrow> string \<Rightarrow> store_handle option \<Rightarrow> bool \<Rightarrow> bconn \<Rightarrow> (bconn \<times> store_handle option \<times> bool) option" where
  "body_chunk k s h good st =
     (case h of
        None \<Rightarrow> Some (st, h, good)
      | Some g \<Rightarrow>
          if \<not> good then Some (st, h, good)
          else (case handle_write k (bs_tm st) g (str_bytes s) of
                  None \<Rightarrow> None
                | Some (tm, g, r) \<Rightarrow> Some (st\<lparr>bs_tm := tm\<rparr>, Some g, (case r of Inl _ \<Rightarrow> False | Inr _ \<Rightarrow> True))))"

lemma body_chunk_buf: "body_chunk k s h good st = Some (st', h', good') \<Longrightarrow> bs_buf st' = bs_buf st"
  by (auto simp: body_chunk_def split: option.splits if_splits)

lemma body_left: "(xs :: 'a list) \<noteq> [] \<Longrightarrow> w < n \<Longrightarrow> n - (w + min (length xs) (n - w)) < n - w"
  by (cases xs) (auto simp: min_def)

text \<open>The body; the last component says whether the client is still there.\<close>

function read_body ::
  "kernel \<Rightarrow> nat \<Rightarrow> nat \<Rightarrow> store_handle option \<Rightarrow> bool \<Rightarrow> bconn \<Rightarrow> (bconn \<times> store_handle option \<times> bool \<times> bool) option" where
  "read_body k nbytes written h good st =
     (if written < nbytes
      then (case (if bs_buf st = [] then recv_more st else (st, True)) of
              (st, False) \<Rightarrow> Some (st, h, good, False)
            | (st, True) \<Rightarrow>
                let n = min (length (bs_buf st)) (nbytes - written) in
                (case body_chunk k (take n (bs_buf st)) h good st of
                   None \<Rightarrow> None
                 | Some (st, h, good) \<Rightarrow>
                     read_body k nbytes (written + n) h good (st\<lparr>bs_buf := drop n (bs_buf st)\<rparr>)))
      else Some (st, h, good, True))"
  by pat_completeness auto
termination
  by (relation "measure (\<lambda>(k, nbytes, written, h, good, st). nbytes - written)")
    (auto dest: recv_more_buf [OF sym] intro: body_left split: if_splits)

declare read_body.simps [simp del]

function fill_two :: "bconn \<Rightarrow> bconn \<times> bool" where
  "fill_two st =
     (if length (bs_buf st) < 2
      then (case recv_more st of
              (st, False) \<Rightarrow> (st, False)
            | (st, True) \<Rightarrow> fill_two st)
      else (st, True))"
  by pat_completeness auto
termination
  by (relation "measure (\<lambda>st. length (bs_cuts st))") (auto dest!: recv_more_cuts [OF sym])

declare fill_two.simps [simp del]

text \<open>The outcome of a store, and the writer as it leaves its scope.\<close>

definition store_reply ::
  "kernel \<Rightarrow> nat \<Rightarrow> command \<Rightarrow> bool \<times> string \<times> nat \<Rightarrow> bool \<Rightarrow> store_handle option \<Rightarrow> bool \<Rightarrow> bconn \<Rightarrow>
     bconn \<times> store_handle option \<times> string" where
  "store_reply k now cmd adm crlf h good st =
     (case adm of (rej, rej_reply, cas) \<Rightarrow>
        if rej then (st, h, rej_reply)
        else if \<not> crlf then (st, h, kBadDataChunk)
        else case h of
               None \<Rightarrow> (st, h, kNotStored)
             | Some g \<Rightarrow>
                 if \<not> good then (st, h, kNotStored)
                 else (case commit k now (bs_tm st) g (c_flags cmd) (exptime_to_expiry (c_exptime cmd) now) cas of
                         (tm, g, r) \<Rightarrow>
                           (st\<lparr>bs_tm := tm\<rparr>, Some g,
                            (case r of
                               Inl e \<Rightarrow> if code e = cas_mismatch then kExists else kNotStored
                             | Inr _ \<Rightarrow> kStored))))"

definition drop_handle :: "kernel \<Rightarrow> store_handle option \<Rightarrow> bconn \<Rightarrow> bconn" where
  "drop_handle k h st =
     (case h of None \<Rightarrow> st | Some g \<Rightarrow> st\<lparr>bs_tm := fst (abort_uncommitted k (bs_tm st) g)\<rparr>)"

definition do_store_blocking ::
  "kernel \<Rightarrow> nat \<Rightarrow> (nat \<Rightarrow> tier_manager \<Rightarrow> tier_manager) \<Rightarrow> command \<Rightarrow> bconn \<Rightarrow> (bconn \<times> bool) option" where
  "do_store_blocking k now others cmd st =
     (let d = hash_key (c_key cmd);
          adm = admit_classic (c_verb cmd) (c_cas cmd) now (index_lookup (tm_index (bs_tm st)) d)
      in case (if fst adm then Some (st, None) else begin_retry k others d (c_bytes cmd) st) of
           None \<Rightarrow> None
         | Some (st, h) \<Rightarrow>
             (case read_body k (c_bytes cmd) 0 h True st of
                None \<Rightarrow> None
              | Some (st, h, good, False) \<Rightarrow> Some (drop_handle k h st, False)
              | Some (st, h, good, True) \<Rightarrow>
                  (case fill_two st of
                     (st, False) \<Rightarrow> Some (drop_handle k h st, False)
                   | (st, True) \<Rightarrow>
                       let crlf = (take 2 (bs_buf st) = CRLF);
                           (st, h, r) = store_reply k now cmd adm crlf h good (st\<lparr>bs_buf := drop 2 (bs_buf st)\<rparr>);
                           (st, alive) = (if c_noreply cmd then (st, True) else send_raw r st)
                       in Some (drop_handle k h st, alive))))"

section \<open>One request, one connection\<close>

definition erase_line :: "nat \<Rightarrow> bconn \<Rightarrow> bconn" where
  "erase_line eol st = st\<lparr>bs_buf := drop (eol + 2) (bs_buf st)\<rparr>"

definition after_line :: "nat \<Rightarrow> (bconn \<times> bool) option \<Rightarrow> (bconn \<times> bool) option" where
  "after_line eol = map_option (\<lambda>(st, alive). (if alive then erase_line eol st else st, alive))"

definition conn_round ::
  "kernel \<Rightarrow> nat \<Rightarrow> (nat \<Rightarrow> tier_manager \<Rightarrow> tier_manager) \<Rightarrow> bconn \<Rightarrow> (bconn \<times> bool) option" where
  "conn_round k now others st =
     (case read_line st of
        (st, None) \<Rightarrow> Some (st, False)
      | (st, Some eol) \<Rightarrow>
          (case parse_command (take eol (bs_buf st)) of
             Inl e \<Rightarrow> after_line eol (Some (send_raw kError st))
           | Inr cmd \<Rightarrow>
               if is_storage cmd then do_store_blocking k now others cmd (erase_line eol st)
               else after_line eol
                 (case c_verb cmd of
                    V_get \<Rightarrow> do_get_blocking k now cmd st
                  | V_gets \<Rightarrow> do_get_blocking k now cmd st
                  | V_del \<Rightarrow>
                      (case tm_remove k (bs_tm st) (hash_key (c_key cmd)) of
                         (tm, erased) \<Rightarrow>
                           let st = st\<lparr>bs_tm := tm\<rparr> in
                           Some (if c_noreply cmd then (st, True) else send_raw (if erased then kDeleted else kNotFound) st))
                  | V_version \<Rightarrow> Some (send_raw kVersion st)
                  | V_quit \<Rightarrow> Some (st, False)
                  | _ \<Rightarrow> Some (send_raw kError st))))"

text \<open>The clock advances from one request to the next.\<close>

partial_function (option) handle_conn ::
  "kernel \<Rightarrow> (nat \<Rightarrow> nat) \<Rightarrow> (nat \<Rightarrow> tier_manager \<Rightarrow> tier_manager) \<Rightarrow> bconn \<Rightarrow> bconn option" where
  "handle_conn k clock others st =
     (case conn_round k (clock 0) others st of
        None \<Rightarrow> None
      | Some (st, alive) \<Rightarrow> if alive then handle_conn k (\<lambda>i. clock (Suc i)) others st else Some st)"

section \<open>What the socket operations change\<close>

definition inp :: "bconn \<Rightarrow> string" where
  "inp st = bs_buf st @ bs_rest st"

lemma send_raw_frame: "send_raw s st = (st', b) \<Longrightarrow> \<exists>ws out. st' = st\<lparr>bs_sends := ws, bs_out := out\<rparr> \<and> (b \<longrightarrow> out = bs_out st @ s)"
proof (induction s st arbitrary: st' rule: send_raw.induct)
  case (1 s st)
  show ?case
  proof (cases "s = []")
    case True
    with 1(2) show ?thesis by (intro exI [of _ "bs_sends st"] exI [of _ "bs_out st"]) (simp add: send_raw.simps)
  next
    case False
    show ?thesis
    proof (cases "bs_sends st")
      case Nil
      with 1(2) False show ?thesis by (intro exI [of _ "bs_sends st"] exI [of _ "bs_out st"]) (simp add: send_raw.simps)
    next
      case (Cons w ws)
      show ?thesis
      proof (cases "w = 0")
        case True
        with 1(2) False Cons show ?thesis by (intro exI [of _ ws] exI [of _ "bs_out st"]) (auto simp: send_raw.simps [of s])
      next
        case w: False
        with 1(2) False Cons have r: "send_raw (drop w s) (st\<lparr>bs_sends := ws, bs_out := bs_out st @ take w s\<rparr>) = (st', b)"
          by (simp add: send_raw.simps [of s])
        from 1(1) [OF False Cons w r] show ?thesis by auto
      qed
    qed
  qed
qed

lemma send_raw_sel:
  assumes "send_raw s st = (st', b)"
  shows "bs_tm st' = bs_tm st" "bs_io st' = bs_io st" "bs_mem st' = bs_mem st" "bs_buf st' = bs_buf st" "bs_rest st' = bs_rest st"
    "bs_cuts st' = bs_cuts st" "bs_yields st' = bs_yields st" "inp st' = inp st" "b \<Longrightarrow> bs_out st' = bs_out st @ s"
  using send_raw_frame [OF assms] by (auto simp: inp_def)

lemma recv_more_frame:
  assumes "recv_more st = (st', b)"
  shows "\<exists>cs rest buf. st' = st\<lparr>bs_cuts := cs, bs_rest := rest, bs_buf := buf\<rparr> \<and> buf @ rest = inp st"
proof (cases b)
  case True
  with assms have "recv_more st = (st', True)" by simp
  then show ?thesis
  proof (rule recv_more_True)
    fix n cs
    assume "st' = st\<lparr>bs_cuts := cs, bs_rest := drop n (bs_rest st), bs_buf := bs_buf st @ take n (bs_rest st)\<rparr>"
    moreover have "(bs_buf st @ take n (bs_rest st)) @ drop n (bs_rest st) = inp st" by (simp add: inp_def)
    ultimately show ?thesis by blast
  qed
next
  case False
  with assms obtain cs where "st' = st\<lparr>bs_cuts := cs\<rparr>" using recv_more_False by auto
  moreover have "bs_buf st @ bs_rest st = inp st" by (simp add: inp_def)
  moreover have "st\<lparr>bs_cuts := cs\<rparr> = st\<lparr>bs_cuts := cs, bs_rest := bs_rest st, bs_buf := bs_buf st\<rparr>" for cs by simp
  ultimately show ?thesis by blast
qed

text \<open>Receiving changes how much of the stream is buffered, nothing else.\<close>

definition received :: "bconn \<Rightarrow> bconn \<Rightarrow> bool" where
  "received st st' \<longleftrightarrow> inp st' = inp st \<and> bs_tm st' = bs_tm st \<and> bs_io st' = bs_io st \<and> bs_mem st' = bs_mem st \<and>
     bs_out st' = bs_out st \<and> bs_sends st' = bs_sends st \<and> bs_yields st' = bs_yields st"

lemma received_refl [simp]: "received st st"
  by (simp add: received_def)

lemma received_trans: "received a b \<Longrightarrow> received b c \<Longrightarrow> received a c"
  by (simp add: received_def)

lemma recv_more_received: "recv_more st = (st', b) \<Longrightarrow> received st st'"
  using recv_more_frame [of st st' b] by (auto simp: received_def inp_def)

lemma read_line_received: "read_line st = (st', eol) \<Longrightarrow> received st st' \<and> (\<forall>n. eol = Some n \<longrightarrow> find_crlf (bs_buf st') = Some n)"
proof (induction st arbitrary: st' rule: read_line.induct)
  case (1 st)
  obtain st1 b where r: "recv_more st = (st1, b)" by (metis surj_pair)
  show ?case
  proof (cases "find_crlf (bs_buf st)")
    case (Some n)
    with 1(2) show ?thesis by (auto simp: read_line.simps)
  next
    case None
    show ?thesis
    proof (cases b)
      case True
      with None r 1(2) have "read_line st1 = (st', eol)" by (simp add: read_line.simps [of st])
      from 1(1) [OF None _ _ this] r True recv_more_received [OF r] show ?thesis by (auto intro: received_trans)
    next
      case False
      with None r 1(2) recv_more_received [OF r] show ?thesis by (auto simp: read_line.simps [of st])
    qed
  qed
qed

lemma fill_two_received: "fill_two st = (st', b) \<Longrightarrow> received st st' \<and> (b \<longrightarrow> 2 \<le> length (bs_buf st'))"
proof (induction st arbitrary: st' rule: fill_two.induct)
  case (1 st)
  obtain st1 c where r: "recv_more st = (st1, c)" by (metis surj_pair)
  show ?case
  proof (cases "length (bs_buf st) < 2")
    case False
    with 1(2) show ?thesis by (auto simp: fill_two.simps)
  next
    case True
    show ?thesis
    proof (cases c)
      case c: True
      with True r 1(2) have "fill_two st1 = (st', b)" by (simp add: fill_two.simps [of st])
      from 1(1) [OF True _ _ this] r c recv_more_received [OF r] show ?thesis by (auto intro: received_trans)
    next
      case False
      with True r 1(2) recv_more_received [OF r] show ?thesis by (auto simp: fill_two.simps [of st])
    qed
  qed
qed

lemma find_crlf_append: "find_crlf s = Some n \<Longrightarrow> find_crlf (s @ t) = Some n"
  by (induction s arbitrary: n rule: find_crlf.induct) (auto split: if_splits)

text \<open>The line that is read is the first of the stream.\<close>

lemma read_line_first:
  assumes "read_line st = (st', Some eol)" and "inp st = line @ CRLF @ later" and "find_crlf (line @ CRLF) = Some (length line)"
  shows "eol = length line" "take eol (bs_buf st') = line" "inp (erase_line eol st') = later" "received st st'"
proof -
  have r: "received st st'" "find_crlf (bs_buf st') = Some eol" using read_line_received [OF assms(1)] by simp_all
  have i: "bs_buf st' @ bs_rest st' = line @ CRLF @ later" using r(1) assms(2) by (simp add: received_def inp_def)
  have "find_crlf (bs_buf st' @ bs_rest st') = Some eol" by (rule find_crlf_append [OF r(2)])
  moreover have "find_crlf (line @ CRLF @ later) = Some (length line)" using find_crlf_append [OF assms(3), of later] by simp
  ultimately show e: "eol = length line" using i by simp
  have n: "length line + 2 \<le> length (bs_buf st')" using find_crlf_bound [OF r(2)] e by simp
  have "take (length line) (bs_buf st' @ bs_rest st') = line" unfolding i by simp
  then show "take eol (bs_buf st') = line" using n e by simp
  have "drop (length line + 2) (bs_buf st' @ bs_rest st') = later" unfolding i by (simp add: CRLF_def)
  then show "inp (erase_line eol st') = later" using n e by (simp add: inp_def erase_line_def)
  show "received st st'" by (rule r(1))
qed

section \<open>A store, from the wire to the engine\<close>

lemma str_bytes_append: "str_bytes (a @ b) = str_bytes a @ str_bytes b"
  by (simp add: str_bytes_def)

lemma length_str_bytes [simp]: "length (str_bytes s) = length s"
  by (simp add: str_bytes_def)

text \<open>
  What reading the body did: it took the next bytes of the stream, touched nothing else of the
  connection, and a writer that is still good got exactly those bytes.
\<close>

definition took_body ::
  "kernel \<Rightarrow> string \<Rightarrow> store_handle option \<Rightarrow> bconn \<Rightarrow> bconn \<Rightarrow> store_handle option \<Rightarrow> bool \<Rightarrow> bool" where
  "took_body k s h st st' h' good \<longleftrightarrow>
     inp st = s @ inp st' \<and> bs_out st' = bs_out st \<and> bs_io st' = bs_io st \<and> bs_mem st' = bs_mem st \<and> bs_yields st' = bs_yields st \<and>
     (h = None \<longrightarrow> h' = None) \<and>
     (\<forall>g. h = Some g \<and> good \<longrightarrow> (\<exists>g' cs. h' = Some g' \<and> write_all k (bs_tm st) g cs = Some (bs_tm st', g', Inr ()) \<and> concat cs = str_bytes s))"

lemma body_chunk_took:
  assumes "body_chunk k s h good st = Some (st', h', good')"
  shows "(good' \<longrightarrow> good) \<and> bs_buf st' = bs_buf st \<and> bs_rest st' = bs_rest st \<and> bs_out st' = bs_out st \<and> bs_io st' = bs_io st \<and>
    bs_mem st' = bs_mem st \<and> bs_yields st' = bs_yields st \<and> (h = None \<longrightarrow> h' = None) \<and>
    (\<forall>g. h = Some g \<and> good' \<longrightarrow> (\<exists>g' u. h' = Some g' \<and> handle_write k (bs_tm st) g (str_bytes s) = Some (bs_tm st', g', Inr u)))"
  using assms by (auto simp: body_chunk_def split: option.splits if_splits sum.splits)

lemma took_body_step:
  assumes c: "body_chunk k (take n (bs_buf st)) h good st = Some (st1, h1, good1)" and n: "n \<le> length (bs_buf st)"
    and t: "took_body k s h1 (st1\<lparr>bs_buf := drop n (bs_buf st1)\<rparr>) st' h' good'" and g: "good' \<longrightarrow> good1"
  shows "took_body k (take n (bs_buf st) @ s) h st st' h' good'"
proof -
  note b = body_chunk_took [OF c]
  have "\<exists>g' cs. h' = Some g' \<and> write_all k (bs_tm st) x cs = Some (bs_tm st', g', Inr ()) \<and> concat cs = str_bytes (take n (bs_buf st) @ s)"
    if x: "h = Some x" "good'" for x
  proof -
    from b g x obtain x1 u where x1: "h1 = Some x1" "handle_write k (bs_tm st) x (str_bytes (take n (bs_buf st))) = Some (bs_tm st1, x1, Inr u)"
      by blast
    with t x obtain g' cs where "h' = Some g'" "write_all k (bs_tm st1) x1 cs = Some (bs_tm st', g', Inr ())" "concat cs = str_bytes s"
      by (auto simp: took_body_def)
    with x1(2) show ?thesis
      by (intro exI [of _ g'] exI [of _ "str_bytes (take n (bs_buf st)) # cs"]) (simp add: str_bytes_append)
  qed
  moreover have "inp st = (take n (bs_buf st) @ s) @ inp st'"
  proof -
    have "inp (st1\<lparr>bs_buf := drop n (bs_buf st1)\<rparr>) = s @ inp st'" using t by (simp add: took_body_def)
    then have "drop n (bs_buf st) @ bs_rest st = s @ inp st'" using b by (simp add: inp_def)
    moreover have "inp st = take n (bs_buf st) @ drop n (bs_buf st) @ bs_rest st" by (simp add: inp_def)
    ultimately show ?thesis by simp
  qed
  ultimately show ?thesis using t b by (auto simp: took_body_def)
qed

lemma read_body_took:
  "read_body k n w h good st = Some (st', h', good', True) \<Longrightarrow>
     (good' \<longrightarrow> good) \<and> (\<exists>s. length s = n - w \<and> took_body k s h st st' h' good')"
proof (induction k n w h good st rule: read_body.induct)
  case (1 k n w h good st)
  show ?case
  proof (cases "w < n")
    case False
    with 1(2) have "st' = st" "h' = h" "good' = good" by (simp_all add: read_body.simps [of k n w])
    with False show ?thesis by (intro conjI exI [of _ "[]"]) (auto simp: took_body_def str_bytes_def intro!: exI [of _ "[]"])
  next
    case True
    obtain st0 b where r: "(if bs_buf st = [] then recv_more st else (st, True)) = (st0, b)" by (metis surj_pair)
    have b: "b" using 1(2) True r by (cases b) (simp_all add: read_body.simps [of k n w])
    have rc: "received st st0" using r b recv_more_received by (auto split: if_splits)
    let ?n = "min (length (bs_buf st0)) (n - w)"
    from 1(2) True r b obtain st1 h1 good1 where
      c: "body_chunk k (take ?n (bs_buf st0)) h good st0 = Some (st1, h1, good1)"
      and l: "read_body k n (w + ?n) h1 good1 (st1\<lparr>bs_buf := drop ?n (bs_buf st1)\<rparr>) = Some (st', h', good', True)"
      by (simp add: read_body.simps [of k n w] Let_def split: option.splits prod.splits)
    from 1(1) [OF True r [symmetric] eqTrueI [OF b] refl c refl refl l] obtain s where
      s: "good' \<longrightarrow> good1" "length s = n - (w + ?n)" "took_body k s h1 (st1\<lparr>bs_buf := drop ?n (bs_buf st1)\<rparr>) st' h' good'"
      by auto
    have "took_body k (take ?n (bs_buf st0) @ s) h st0 st' h' good'" by (rule took_body_step [OF c _ s(3,1)]) simp
    then have "took_body k (take ?n (bs_buf st0) @ s) h st st' h' good'" using rc by (simp add: took_body_def received_def)
    moreover have "length (take ?n (bs_buf st0) @ s) = n - w" using s(2) True by simp
    moreover have "good' \<longrightarrow> good" using s(1) body_chunk_took [OF c] by blast
    ultimately show ?thesis by blast
  qed
qed

definition retried :: "kernel \<Rightarrow> digest \<Rightarrow> nat \<Rightarrow> bconn \<Rightarrow> bconn \<times> store_handle option \<Rightarrow> bool" where
  "retried k d n st r \<longleftrightarrow>
     (\<exists>tm y. fst r = st\<lparr>bs_tm := tm, bs_yields := y\<rparr> \<and> bs_yields st \<le> y \<and>
       (y = bs_yields st \<longrightarrow> (\<forall>g. snd r = Some g \<longrightarrow> begin_store k (bs_tm st) d n = (tm, Inr g))))"

lemma begin_retry_first: "begin_retry k others d n st = Some r \<Longrightarrow> retried k d n st r"
proof (rule begin_retry.raw_induct [of "\<lambda>k others d n st r. retried k d n st r"])
  fix f k others d n st r
  assume ih: "\<And>k others d n st r. f k others d n st = Some r \<Longrightarrow> retried k d n st r"
    and e: "(case begin_store k (bs_tm st) d n of
        (tm, Inl e) \<Rightarrow> if code e \<noteq> would_block then Some (st\<lparr>bs_tm := tm\<rparr>, None)
          else f k others d n (st\<lparr>bs_tm := others (bs_yields st) tm, bs_yields := bs_yields st + 1\<rparr>)
      | (tm, Inr h) \<Rightarrow> Some (st\<lparr>bs_tm := tm\<rparr>, Some h)) = Some r"
  obtain tm res where b: "begin_store k (bs_tm st) d n = (tm, res)" by (metis surj_pair)
  show "retried k d n st r"
  proof (cases "\<exists>e. res = Inl e \<and> code e = would_block")
    case True
    with e b have "f k others d n (st\<lparr>bs_tm := others (bs_yields st) tm, bs_yields := bs_yields st + 1\<rparr>) = Some r" by auto
    from ih [OF this] obtain tm1 y where
      "fst r = st\<lparr>bs_tm := tm1, bs_yields := y\<rparr>" "bs_yields st + 1 \<le> y" by (auto simp: retried_def)
    then show ?thesis unfolding retried_def by (intro exI [of _ tm1] exI [of _ y]) simp
  next
    case False
    with e b have "fst r = st\<lparr>bs_tm := tm\<rparr> \<and> (\<forall>g. snd r = Some g \<longrightarrow> res = Inr g)" by (cases res) auto
    with b show ?thesis unfolding retried_def by (intro exI [of _ tm] exI [of _ "bs_yields st"]) auto
  qed
qed

lemma kStored_other: "kStored \<noteq> kNotStored" "kStored \<noteq> kBadDataChunk" "kStored \<noteq> kExists" "kStored \<noteq> kNotFound"
  by (simp_all add: kStored_def kNotStored_def kBadDataChunk_def kExists_def kNotFound_def)

lemma store_reply_stored:
  assumes "store_reply k now cmd adm crlf h good st = (st', h', kStored)" and "\<not> fst adm"
  shows "\<exists>g tm g' u. h = Some g \<and> good \<and> crlf \<and> h' = Some g' \<and> st' = st\<lparr>bs_tm := tm\<rparr> \<and>
    commit k now (bs_tm st) g (c_flags cmd) (exptime_to_expiry (c_exptime cmd) now) (snd (snd adm)) = (tm, g', Inr u)"
  using assms kStored_other
  by (auto simp: store_reply_def split: prod.splits if_splits option.splits sum.splits)

lemma admit_set: "admit_classic V_set cas now exist = (False, kNotStored, 0)"
  by (simp add: admit_classic_def)

text \<open>When the client is told \<^verbatim>\<open>STORED\<close>, the engine is where the one-call store would have left it.\<close>

lemma store_round:
  assumes r: "do_store_blocking k now others cmd st = Some (st', True)" and v: "c_verb cmd = V_set" "\<not> c_noreply cmd"
    and out: "bs_out st' = bs_out st @ kStored" and y: "bs_yields st' = bs_yields st" and w: "world_ok (bs_tm st, hs, ps)"
    and i: "inp st = s @ CRLF @ later" "length s = c_bytes cmd"
  shows "tm_store k now (bs_tm st) (hash_key (c_key cmd)) (str_bytes s) (c_flags cmd) (exptime_to_expiry (c_exptime cmd) now) =
      Some (bs_tm st', Inr ())"
    and "inp st' = later" and "bs_io st' = bs_io st"
proof -
  let ?d = "hash_key (c_key cmd)" and ?e = "exptime_to_expiry (c_exptime cmd) now"
  obtain st1 h where b: "begin_retry k others ?d (c_bytes cmd) st = Some (st1, h)"
    using r by (cases "begin_retry k others ?d (c_bytes cmd) st") (auto simp: do_store_blocking_def Let_def v admit_set)
  obtain st2 h2 good alive where rb: "read_body k (c_bytes cmd) 0 h True st1 = Some (st2, h2, good, alive)"
    using r b by (cases "read_body k (c_bytes cmd) 0 h True st1") (auto simp: do_store_blocking_def Let_def v admit_set)
  have al: "alive" using r b rb by (cases alive) (auto simp: do_store_blocking_def Let_def v admit_set)
  obtain st3 two where ft: "fill_two st2 = (st3, two)" by (metis surj_pair)
  have two: "two" using r b rb al ft by (cases two) (auto simp: do_store_blocking_def Let_def v admit_set)
  obtain st4 h4 rep where sr: "store_reply k now cmd (False, kNotStored, 0) (take 2 (bs_buf st3) = CRLF) h2 good
      (st3\<lparr>bs_buf := drop 2 (bs_buf st3)\<rparr>) = (st4, h4, rep)" by (metis prod_cases3)
  obtain st5 sent where se: "send_raw rep st4 = (st5, sent)" by (metis surj_pair)
  have fin: "st' = drop_handle k h4 st5" "sent"
    using r b rb al ft two sr se v(2) by (auto simp: do_store_blocking_def Let_def v(1) admit_set)
  from begin_retry_first [OF b] obtain tm yy where
    bb: "st1 = st\<lparr>bs_tm := tm, bs_yields := yy\<rparr>" "bs_yields st \<le> yy"
    "yy = bs_yields st \<longrightarrow> (\<forall>g. h = Some g \<longrightarrow> begin_store k (bs_tm st) ?d (c_bytes cmd) = (tm, Inr g))"
    by (auto simp: retried_def)
  from read_body_took [OF rb [unfolded eqTrueI [OF al]]] obtain s' where
    s': "length s' = c_bytes cmd" "took_body k s' h st1 st2 h2 good" by auto
  note rc = fill_two_received [OF ft]
  have sr': "bs_out st4 = bs_out st3" "bs_yields st4 = bs_yields st3" "bs_io st4 = bs_io st3"
      "bs_buf st4 = drop 2 (bs_buf st3)" "bs_rest st4 = bs_rest st3"
    using sr by (auto simp: store_reply_def split: if_splits option.splits prod.splits)
  have dh: "bs_out (drop_handle k g t) = bs_out t" "bs_yields (drop_handle k g t) = bs_yields t" "inp (drop_handle k g t) = inp t"
    "bs_io (drop_handle k g t) = bs_io t" for g t
    by (simp_all add: drop_handle_def inp_def split: option.split)
  note ss = send_raw_sel [OF se]
  have out5: "bs_out st' = bs_out st @ rep"
    using ss(9) [OF fin(2)] sr'(1) rc s'(2) bb(1) by (simp add: fin(1) dh received_def took_body_def)
  with out have rep: "rep = kStored" by simp
  have yy: "yy = bs_yields st" using y ss(7) sr'(2) rc s'(2) bb(1) by (simp add: fin(1) dh received_def took_body_def)
  from store_reply_stored [OF sr [unfolded rep]] obtain g2 tm4 g4 u where
    c: "h2 = Some g2" "good" "h4 = Some g4" "st4 = st3\<lparr>bs_buf := drop 2 (bs_buf st3), bs_tm := tm4\<rparr>"
    "commit k now (bs_tm st3) g2 (c_flags cmd) ?e 0 = (tm4, g4, Inr u)" by auto
  obtain g where g: "h = Some g" using s'(2) c(1) by (cases h) (auto simp: took_body_def)
  with s'(2) c(1,2) obtain cs where cs: "write_all k tm g cs = Some (bs_tm st2, g2, Inr ())" "concat cs = str_bytes s'"
    by (auto simp: took_body_def bb(1))
  have in1: "inp st = s' @ inp st2" using s'(2) by (simp add: took_body_def bb(1) inp_def)
  with i s'(1) have se': "s' = s" "inp st2 = CRLF @ later" by simp_all
  have "begin_store k (bs_tm st) ?d (length (concat cs)) = (tm, Inr g)" using bb(3) yy g s'(1) cs(2) by simp
  moreover have "commit k now (bs_tm st2) g2 (c_flags cmd) ?e 0 = (tm4, g4, Inr u)" using c(5) rc by (simp add: received_def)
  ultimately have "tm_store k now (bs_tm st) ?d (concat cs) (c_flags cmd) ?e = Some (fst (abort_uncommitted k tm4 g4), Inr u)"
    by (rule chunked_is_store [OF w _ cs(1)])
  moreover have "bs_tm st' = fst (abort_uncommitted k tm4 g4)" using ss(1) by (simp add: fin(1) drop_handle_def c(3,4))
  ultimately show "tm_store k now (bs_tm st) ?d (str_bytes s) (c_flags cmd) ?e = Some (bs_tm st', Inr ())"
    by (simp add: cs(2) se'(1))
  have "inp st4 = drop 2 (inp st3)" using rc two sr'(4,5) by (simp add: inp_def)
  then have "inp st' = drop 2 (inp st3)" by (simp add: fin(1) dh(3) ss(8))
  then show "inp st' = later" using rc se'(2) by (simp add: received_def CRLF_def)
  show "bs_io st' = bs_io st" using ss(2) sr'(3) rc s'(2) bb(1) by (simp add: fin(1) dh received_def took_body_def)
qed

section \<open>A GET, from the engine to the wire\<close>

text \<open>The engine holds the object, and its tiers are cut at device blocks.\<close>

definition at_rest :: "kernel \<Rightarrow> tier_manager \<Rightarrow> digest \<Rightarrow> bytes \<Rightarrow> object_meta \<Rightarrow> bool" where
  "at_rest k tm d data m \<longleftrightarrow> kind_kernel k \<and> object_stored k tm d data m \<and> length data + kDeviceBlock \<le> 2 ^ 64 \<and>
     kDeviceBlock dvd ram_head (tm_tiers tm) \<and> kDeviceBlock dvd ssd_prefix (tm_tiers tm)"

lemma at_rest_touch: "at_rest k (tm_touch tm d') d data m = at_rest k tm d data m"
  by (simp add: at_rest_def object_stored_def tm_touch_def three_layer_def head_stored_def tier_stored_def Let_def)

lemma at_rest_index: "at_rest k tm d data m \<Longrightarrow> index_lookup (tm_index tm) d = Some m \<and> om_size m = length data"
  by (simp add: at_rest_def object_stored_def Let_def)

lemma at_rest_read:
  assumes "at_rest k tm d data m" and "kDeviceBlock dvd pos" and "length buf = w" and "w \<le> length data - pos"
  shows "tm_read k tm d pos buf = Inr (slice pos w data, w)"
proof -
  have r: "kind_kernel k" "object_stored k tm d data m" "length data + kDeviceBlock \<le> 2 ^ 64"
    "kDeviceBlock dvd ram_head (tm_tiers tm)" "kDeviceBlock dvd ssd_prefix (tm_tiers tm)" using assms(1) by (simp_all add: at_rest_def)
  from read_stored [OF r(2,1) assms(2) r(4,5,3), of buf] assms(3,4) show ?thesis by auto
qed

definition streamed :: "kernel \<Rightarrow> digest \<Rightarrow> nat \<Rightarrow> nat \<times> nat \<Rightarrow> nat \<Rightarrow> bconn \<Rightarrow> bconn \<times> bool \<Rightarrow> bool" where
  "streamed k d sz chunk pos st r \<longleftrightarrow>
     bs_tm (fst r) = bs_tm st \<and> bs_io (fst r) = bs_io st \<and> bs_buf (fst r) = bs_buf st \<and> bs_rest (fst r) = bs_rest st \<and> bs_yields (fst r) = bs_yields st \<and>
     (\<forall>data m. snd r \<and> at_rest k (bs_tm st) d data m \<and> sz = length data \<and> kDeviceBlock dvd snd chunk \<and>
        (pos < sz \<longrightarrow> kDeviceBlock dvd pos) \<longrightarrow> bs_out (fst r) = bs_out st @ bytes_str (drop pos data))"

lemma stream_loop_streamed: "stream_loop k d sz chunk pos st = Some r \<Longrightarrow> streamed k d sz chunk pos st r"
proof (rule stream_loop.raw_induct [of "\<lambda>k d sz chunk pos st r. streamed k d sz chunk pos st r"])
  fix f k d sz chunk pos st r
  assume ih: "\<And>k d sz chunk pos st r. f k d sz chunk pos st = Some r \<Longrightarrow> streamed k d sz chunk pos st r"
    and e: "(if pos < sz
      then let want = min (snd chunk) (sz - pos) in
           case tm_read k (bs_tm st) d pos (mem_get (bs_mem st) (fst chunk) want) of
             Inl e \<Rightarrow> Some (st, False)
           | Inr (bs, n) \<Rightarrow>
               let st = st\<lparr>bs_mem := mem_put (fst chunk) bs (bs_mem st)\<rparr> in
               if n \<noteq> want then Some (st, False)
               else (case send_raw (bytes_str (mem_get (bs_mem st) (fst chunk) want)) st of
                       (st, sent) \<Rightarrow> if sent then f k d sz chunk (pos + want) st else Some (st, False))
      else Some (st, True)) = Some r"
  let ?want = "min (snd chunk) (sz - pos)"
  show "streamed k d sz chunk pos st r"
  proof (cases "pos < sz")
    case False
    with e show ?thesis by (auto simp: streamed_def bytes_str_def)
  next
    case True
    show ?thesis
    proof (cases "tm_read k (bs_tm st) d pos (mem_get (bs_mem st) (fst chunk) ?want)")
      case (Inl x)
      with e True show ?thesis by (auto simp: streamed_def)
    next
      case (Inr p)
      obtain bs n where p: "p = (bs, n)" by (cases p)
      define st1 where "st1 = st\<lparr>bs_mem := mem_put (fst chunk) bs (bs_mem st)\<rparr>"
      obtain st2 sent where se: "send_raw (bytes_str (mem_get (bs_mem st1) (fst chunk) ?want)) st1 = (st2, sent)" by (metis surj_pair)
      note ss = send_raw_sel [OF se]
      have e': "(if n \<noteq> ?want then Some (st1, False) else if sent then f k d sz chunk (pos + ?want) st2 else Some (st2, False)) = Some r"
        using e unfolding Let_def if_P [OF True] Inr p sum.case prod.case st1_def [symmetric] se .
      have st1: "bs_tm st1 = bs_tm st" "bs_io st1 = bs_io st" "bs_buf st1 = bs_buf st" "bs_rest st1 = bs_rest st"
          "bs_yields st1 = bs_yields st" "bs_out st1 = bs_out st"
        by (simp_all add: st1_def)
      show ?thesis
      proof (cases "n = ?want \<and> sent")
        case False
        with e' have "\<not> snd r" "fst r = st1 \<or> fst r = st2" by (auto split: if_splits)
        with ss st1 show ?thesis by (auto simp: streamed_def)
      next
        case go: True
        with e' have "f k d sz chunk (pos + ?want) st2 = Some r" by simp
        from ih [OF this] have i: "streamed k d sz chunk (pos + ?want) st2 r" .
        have "bs_out (fst r) = bs_out st @ bytes_str (drop pos data)"
          if h: "snd r" "at_rest k (bs_tm st) d data m" "sz = length data" "kDeviceBlock dvd snd chunk" "kDeviceBlock dvd pos" for data m
        proof -
          have "tm_read k (bs_tm st) d pos (mem_get (bs_mem st) (fst chunk) ?want) = Inr (slice pos ?want data, ?want)"
            by (rule at_rest_read [OF h(2,5)]) (simp_all add: h(3))
          then have bs: "bs = slice pos ?want data" using Inr p by simp
          have "length bs = ?want" by (simp add: bs slice_def h(3))
          then have "mem_get (bs_mem st1) (fst chunk) ?want = bs" using mem_get_put [of "fst chunk" bs "bs_mem st"] by (simp add: st1_def)
          then have o2: "bs_out st2 = bs_out st @ bytes_str (slice pos ?want data)" using ss(9) go st1 bs by simp
          have "pos + ?want < sz \<longrightarrow> ?want = snd chunk" by linarith
          then have dv: "pos + ?want < sz \<longrightarrow> kDeviceBlock dvd pos + ?want" using h(4,5) by (metis dvd_add)
          have "bs_out (fst r) = bs_out st2 @ bytes_str (drop (pos + ?want) data)"
            using i h dv ss(1) st1(1) unfolding streamed_def by metis
          moreover have "slice pos ?want data @ drop (pos + ?want) data = drop pos data"
            using append_take_drop_id [of ?want "drop pos data"] by (simp add: slice_def add.commute)
          ultimately show ?thesis using o2 by (simp add: bytes_str_def flip: map_append)
        qed
        with i ss st1 True show ?thesis unfolding streamed_def by (metis fst_conv)
      qed
    qed
  qed
qed

lemma get_round:
  assumes g: "do_get_blocking k now cmd st = Some (st', True)" and v: "c_verb cmd = V_get"
    and a: "at_rest k (bs_tm st) (hash_key (c_key cmd)) data m" and e: "\<not> is_expired m now"
    and io: "kDeviceBlock dvd bp_block_bytes (bs_io st)"
  shows "bs_out st' = bs_out st @ value_header (c_key cmd) (om_flags m) (length data) @ bytes_str data @ CRLF @ kEnd"
    and "bs_buf st' = bs_buf st" and "bs_rest st' = bs_rest st"
proof -
  let ?d = "hash_key (c_key cmd)"
  have m: "index_lookup (tm_index (bs_tm st)) ?d = Some m" "om_size m = length data" using at_rest_index [OF a] by simp_all
  define st0 where "st0 = st\<lparr>bs_tm := tm_touch (bs_tm st) ?d\<rparr>"
  let ?h = "value_header (c_key cmd) (om_flags m) (length data)"
  obtain st1 b1 where s1: "send_raw ?h st0 = (st1, b1)" by (metis surj_pair)
  have b1: "b1" using g m e v s1 by (cases b1) (auto simp: do_get_blocking_def Let_def st0_def)
  obtain st2 b2 where s2: "stream_value k ?d m st1 = Some (st2, b2)"
    using g m e v s1 b1 by (cases "stream_value k ?d m st1") (auto simp: do_get_blocking_def Let_def st0_def)
  have b2: "b2" using g m e v s1 b1 s2 by (cases b2) (auto simp: do_get_blocking_def Let_def st0_def)
  obtain st3 b3 where s3: "send_raw CRLF st2 = (st3, b3)" by (metis surj_pair)
  have b3: "b3" using g m e v s1 b1 s2 b2 s3 by (cases b3) (auto simp: do_get_blocking_def Let_def st0_def)
  have s4: "send_raw kEnd st3 = (st', True)" using g m e v s1 b1 s2 b2 s3 b3 by (simp add: do_get_blocking_def Let_def st0_def)
  note x1 = send_raw_sel [OF s1] and x3 = send_raw_sel [OF s3] and x4 = send_raw_sel [OF s4]
  have a1: "at_rest k (bs_tm st1) ?d data m" using a x1(1) by (simp add: st0_def at_rest_touch)
  have io1: "kDeviceBlock dvd bp_block_bytes (bs_io st1)" using io x1(2) by (simp add: st0_def)
  have x2: "bs_out st2 = bs_out st1 @ bytes_str data \<and> bs_buf st2 = bs_buf st1 \<and> bs_rest st2 = bs_rest st1"
  proof (cases "om_size m = 0")
    case True
    with s2 m(2) show ?thesis by (simp add: stream_value_def bytes_str_def)
  next
    case False
    then obtain chunk io' where ac: "iopool_acquire (bs_io st1) = Some (chunk, io')"
      using s2 by (cases "iopool_acquire (bs_io st1)") (auto simp: stream_value_def)
    then have sz: "snd chunk = bp_block_bytes (bs_io st1)"
      by (auto simp: iopool_acquire_def blockpool_acquire_def split: option.splits if_splits)
    obtain st1' where l: "stream_loop k ?d (length data) chunk 0 (st1\<lparr>bs_io := io'\<rparr>) = Some (st1', True)"
      and st2: "st2 = st1'\<lparr>bs_io := iopool_release (bs_io st1') chunk\<rparr>"
      using s2 b2 False ac m(2) by (auto simp: stream_value_def split: option.splits)
    from stream_loop_streamed [OF l] a1 io1 sz show ?thesis by (auto simp: streamed_def st2)
  qed
  show "bs_out st' = bs_out st @ ?h @ bytes_str data @ CRLF @ kEnd"
    using x4(9) x3(9) [OF b3] x2 x1(9) [OF b1] by (simp add: st0_def)
  show "bs_buf st' = bs_buf st" "bs_rest st' = bs_rest st" using x4(4,5) x3(4,5) x2 x1(4,5) by (simp_all add: st0_def)
qed

lemma bytes_str_bytes: "bytes_str (str_bytes s) = s"
proof -
  have "char_of (unat (of_char c :: byte)) = c" for c
  proof -
    have "unat (of_nat (of_char c) :: byte) = (of_char c :: nat) mod 256" by (simp add: unat_of_nat)
    then have "unat (of_char c :: byte) = of_char c" using nat_of_char_less_256 [of c] by (simp add: of_nat_of_char)
    then show ?thesis by simp
  qed
  then show ?thesis by (simp add: bytes_str_def str_bytes_def map_idI)
qed

lemma at_rest_stored:
  assumes w: "world_ok (tm, hs, ps)" and dk: "disks_ok tm d (length data)" and rh: "ram_head (tm_tiers tm) < 2 ^ 32"
    and al: "kDeviceBlock dvd ram_head (tm_tiers tm)" "kDeviceBlock dvd ssd_prefix (tm_tiers tm)"
    and st: "tm_store k now tm d data flags expiry = Some (tm', Inr u)"
    and ix: "index_lookup (tm_index tm') d = Some m" and kind: "kind_kernel k"
  shows "at_rest k tm' d data m" and "om_flags m = flags" and "om_expiry m = expiry"
proof -
  note s = store_stored [OF w dk rh st ix kind]
  have "length data + kDeviceBlock \<le> 2 ^ 64" using dk by (simp add: disks_ok_def pool_fits_def)
  with s al kind show "at_rest k tm' d data m" by (simp add: at_rest_def)
  obtain tm1 h tm2 h2 tm3 h3 tm4 where b: "begin_store k tm d (length data) = (tm1, Inr h)"
    and hw: "handle_write k tm1 h data = Some (tm2, h2, Inr ())" and ft: "flush_tail k tm2 h2 = (tm3, h3, Inr ())"
    and pt: "publish_tiers k tm3 h3 = (tm4, Inr ())"
    and tm': "tm' = enforce_object_bound k (swap_in tm4 h3 (index_lookup (tm_index tm3) (sh_digest h3)) flags expiry)"
    by (rule tm_store_parts [OF st])
  have w1: "world_ok (tm1, h # hs, ps)" using begin_store_world [OF w b] by simp
  have fits: "stage_fits h" using w1 by (simp add: world_ok.simps handle_ok_def)
  have sb2: "same_books tm1 tm2" "same_handle h h2" "stage_fits h2" using handle_write_total [OF fits, of k tm1 data] hw by auto
  have sb4: "same_books tm1 tm4" "same_handle h h3"
    using flush_tail_same [OF ft sb2(3)] publish_tiers_same [OF pt] sb2 same_books_trans same_handle_trans by blast+
  have d: "sh_digest h3 = d" using sb4(2) by (rule_tac begin_store_files [OF b]) (simp add: same_handle_def)
  have ix4: "index_ok (tm_index tm4)" using w1 sb4(1) by (simp add: world_ok.simps same_books_def books_but_def)
  define tm5 where "tm5 = swap_in tm4 h3 (index_lookup (tm_index tm3) (sh_digest h3)) flags expiry"
  note sw = swap_in_index [OF ix4, of h3 "index_lookup (tm_index tm3) (sh_digest h3)" flags expiry, folded tm5_def]
  have "thin tm5 tm'" unfolding tm' tm5_def [symmetric] by (rule enforce_object_bound_thin [OF sw(1)])
  then obtain m0 where m0: "index_lookup (tm_index tm5) d = Some m0" "m = m0\<lparr>om_head := om_head m\<rparr>"
    using ix by (auto simp: thin_def thinned_def)
  then have "m0 = new_meta tm4 h3 flags expiry" using sw(2) d by simp
  then have "om_flags m0 = flags" "om_expiry m0 = expiry" by (simp_all add: new_meta_def)
  with arg_cong [OF m0(2), of om_flags] arg_cong [OF m0(2), of om_expiry] show "om_flags m = flags" "om_expiry m = expiry" by simp_all
qed

section \<open>Properties\<close>


text \<open>A client that sets three bytes and asks for them.\<close>

definition demo_body :: string where
  "demo_body = map char_of [1, 2, 3 :: nat]"

definition demo_wire :: bconn where
  "demo_wire = \<lparr>bs_tm = demo_tm, bs_io = blockpool_new 1048576 4096 2 False, bs_mem = (\<lambda>_. 0),
     bs_buf = ''set a 0 0 3'' @ CRLF @ demo_body @ CRLF @ ''get a'' @ CRLF, bs_rest = [], bs_cuts = [], bs_out = [],
     bs_sends = [99, 99, 99, 99, 99], bs_yields = 0\<rparr>"

definition demo_wire1 :: bconn where
  "demo_wire1 = demo_wire\<lparr>bs_tm := demo_stored (hash_key ''a''), bs_buf := ''get a'' @ CRLF, bs_out := kStored, bs_sends := [99, 99, 99, 99]\<rparr>"

definition demo_set :: command where
  "demo_set = \<lparr>c_verb = V_set, c_key = ''a'', c_flags = 0, c_exptime = 0, c_bytes = 3, c_cas = 0, c_noreply = False\<rparr>"

definition demo_get :: command where
  "demo_get = \<lparr>c_verb = V_get, c_key = ''a'', c_flags = 0, c_exptime = 0, c_bytes = 0, c_cas = 0, c_noreply = False\<rparr>"

lemma demo_set_parses: "parse_command ''set a 0 0 3'' = Inr demo_set"
proof -
  have "tokens 7 ''set a 0 0 3'' = [''set'', ''a'', ''0'', ''0'', ''3'']" by code_simp
  moreover have "to_int_u mx ''0'' = Some 0" "3 \<le> mx \<Longrightarrow> to_int_u mx ''3'' = Some 3" for mx
  proof -
    have "dec_str 0 = ''0''" "dec_str 3 = ''3''" by code_simp+
    then show "to_int_u mx ''0'' = Some 0" "3 \<le> mx \<Longrightarrow> to_int_u mx ''3'' = Some 3"
      using to_int_u_dec_str [of 0 mx] to_int_u_dec_str [of 3 mx] by simp_all
  qed
  ultimately show ?thesis by (simp add: parse_command_def Let_def verb_of_def demo_set_def empty_command_def)
qed

lemma demo_lines:
  "find_crlf (''set a 0 0 3'' @ CRLF) = Some 11" "find_crlf (''get a'' @ CRLF) = Some 5" "parse_command ''get a'' = Inr demo_get"
  by code_simp+

lemma demo_body_bytes: "str_bytes demo_body = [1, 2, 3]" "length demo_body = 3"
  by code_simp+

lemma demo_short: "length kStored = 8" "length kEnd = 5" "length CRLF = 2" "length (value_header ''a'' 0 3) = 13"
  by code_simp+

lemma send_raw_once: "bs_sends st = w # ws \<Longrightarrow> 0 < length s \<Longrightarrow> length s \<le> w \<Longrightarrow> send_raw s st = (st\<lparr>bs_sends := ws, bs_out := bs_out st @ s\<rparr>, True)"
  by (cases w) (simp_all add: send_raw.simps [of s] send_raw.simps [of "[]"])

lemma demo_line1:
  "read_line demo_wire = (demo_wire, Some 11)" "take 11 (bs_buf demo_wire) = ''set a 0 0 3''"
  "bs_buf (erase_line 11 demo_wire) = demo_body @ CRLF @ ''get a'' @ CRLF"
proof -
  have "find_crlf (bs_buf demo_wire) = Some 11"
    using find_crlf_append [OF demo_lines(1), of "demo_body @ CRLF @ ''get a'' @ CRLF"] by (simp add: demo_wire_def)
  then show "read_line demo_wire = (demo_wire, Some 11)" by (simp add: read_line.simps)
  show "take 11 (bs_buf demo_wire) = ''set a 0 0 3''" "bs_buf (erase_line 11 demo_wire) = demo_body @ CRLF @ ''get a'' @ CRLF"
    by (simp_all add: demo_wire_def erase_line_def CRLF_def)
qed

lemma demo_round1: "conn_round ideal_kernel 0 (\<lambda>_. id) demo_wire = Some (demo_wire1, True)"
proof -
  let ?d = "hash_key ''a''" and ?st = "erase_line 11 demo_wire" and ?h = "demo_handle (hash_key ''a'')"
  have b: "begin_retry ideal_kernel (\<lambda>_. id) ?d 3 ?st = Some (?st\<lparr>bs_tm := demo_begun\<rparr>, Some ?h)"
    by (subst begin_retry.simps) (simp add: demo_begin erase_line_def demo_wire_def)
  let ?st2 = "?st\<lparr>bs_tm := demo_written, bs_buf := CRLF @ ''get a'' @ CRLF\<rparr>"
  have rb: "read_body ideal_kernel 3 0 (Some ?h) True (?st\<lparr>bs_tm := demo_begun\<rparr>) = Some (?st2, Some (?h\<lparr>sh_off := 3\<rparr>), True, True)"
    by (simp add: read_body.simps [of _ 3 0] read_body.simps [of _ 3 3] Let_def demo_line1(3) demo_body_bytes body_chunk_def demo_write)
  have ft: "fill_two ?st2 = (?st2, True)" by (simp add: fill_two.simps CRLF_def)
  let ?st4 = "?st2\<lparr>bs_buf := ''get a'' @ CRLF, bs_tm := demo_stored ?d\<rparr>"
  have sr: "store_reply ideal_kernel 0 demo_set (False, kNotStored, 0) True (Some (?h\<lparr>sh_off := 3\<rparr>)) True (?st2\<lparr>bs_buf := ''get a'' @ CRLF\<rparr>) =
      (?st4, Some (?h\<lparr>sh_off := 3, sh_stage := (0, 0), sh_committed := True\<rparr>), kStored)"
    by (simp add: store_reply_def demo_set_def exptime_to_expiry_def demo_commit)
  have se: "send_raw kStored ?st4 = (?st4\<lparr>bs_sends := [99, 99, 99, 99], bs_out := kStored\<rparr>, True)"
    using send_raw_once [of ?st4 99 "[99, 99, 99, 99]" kStored] demo_short(1) by (simp add: erase_line_def demo_wire_def)
  have "do_store_blocking ideal_kernel 0 (\<lambda>_. id) demo_set ?st = Some (demo_wire1, True)"
    using b rb ft sr se
    by (simp add: do_store_blocking_def demo_set_def admit_set CRLF_def drop_handle_def abort_uncommitted_def demo_wire1_def)
      (simp add: erase_line_def demo_wire_def)
  then show ?thesis using demo_line1 demo_set_parses by (simp add: conn_round_def is_storage_def demo_set_def)
qed

lemma demo_at_rest:
  "at_rest ideal_kernel (demo_stored d) d [1, 2, 3] \<lparr>om_size = 3, om_flags = 0, om_expiry = 0, om_etag = 1, om_head = \<lparr>hl_block = 0, hl_offset = 0, hl_len = 3\<rparr>\<rparr>"
proof (rule at_rest_stored(1) [OF reachable_world_ok [OF demo_reachable] demo_disks_ok _ _ _ demo_store])
  show "index_lookup (tm_index (demo_stored d)) d =
      Some \<lparr>om_size = 3, om_flags = 0, om_expiry = 0, om_etag = 1, om_head = \<lparr>hl_block = 0, hl_offset = 0, hl_len = 3\<rparr>\<rparr>"
    by (simp add: demo_stored_index)
qed (simp_all add: demo_tm_def size_defs kind_kernel_def ideal_kernel_def)

definition demo_wire2 :: bconn where
  "demo_wire2 = demo_wire1\<lparr>bs_tm := tm_touch (demo_stored (hash_key ''a'')) (hash_key ''a''), bs_mem := mem_put 1048576 [1, 2, 3] (\<lambda>_. 0),
     bs_buf := [], bs_out := kStored @ value_header ''a'' 0 3 @ demo_body @ CRLF @ kEnd, bs_sends := []\<rparr>"

lemma demo_io_cycle:
  "iopool_acquire (blockpool_new 1048576 4096 2 False) = Some ((1048576, 4096), (blockpool_new 1048576 4096 2 False)\<lparr>bp_free := [1]\<rparr>)"
  "iopool_release ((blockpool_new 1048576 4096 2 False)\<lparr>bp_free := [1]\<rparr>) (1048576, 4096) = blockpool_new 1048576 4096 2 False"
  by (simp_all add: iopool_acquire_def blockpool_acquire_def blockpool_new_def blockpool_block_data_def upt_rec iopool_release_def
      blockpool_release_def u32_def)

lemma demo_round2: "conn_round ideal_kernel 0 (\<lambda>_. id) demo_wire1 = Some (demo_wire2, True)"
proof -
  let ?d = "hash_key ''a''" and ?m = "\<lparr>om_size = 3, om_flags = 0, om_expiry = 0, om_etag = 1, om_head = \<lparr>hl_block = 0, hl_offset = 0, hl_len = 3\<rparr>\<rparr>"
  have rl: "read_line demo_wire1 = (demo_wire1, Some 5)" by (simp add: read_line.simps demo_wire1_def demo_lines [simplified])
  let ?st0 = "demo_wire1\<lparr>bs_tm := tm_touch (demo_stored ?d) ?d\<rparr>"
  let ?st1 = "?st0\<lparr>bs_sends := [99, 99, 99], bs_out := kStored @ value_header ''a'' 0 3\<rparr>"
  have s1: "send_raw (value_header ''a'' 0 3) ?st0 = (?st1, True)"
    using send_raw_once [of ?st0 99 "[99, 99, 99]" "value_header ''a'' 0 3"] demo_short(4) by (simp add: demo_wire1_def)
  let ?st1i = "?st1\<lparr>bs_io := (blockpool_new 1048576 4096 2 False)\<lparr>bp_free := [1]\<rparr>, bs_mem := mem_put 1048576 [1, 2, 3] (\<lambda>_. 0)\<rparr>"
  let ?st2i = "?st1i\<lparr>bs_sends := [99, 99], bs_out := kStored @ value_header ''a'' 0 3 @ demo_body\<rparr>"
  have rd: "tm_read ideal_kernel (tm_touch (demo_stored ?d) ?d) ?d 0 buf = Inr ([1, 2, 3], 3)" if "length buf = 3" for buf
    using at_rest_read [of ideal_kernel "tm_touch (demo_stored ?d) ?d" ?d "[1, 2, 3]" ?m 0 buf 3] demo_at_rest [of ?d] that
    by (simp add: at_rest_touch slice_def numeral_3_eq_3)
  have bd: "bytes_str [1, 2, 3] = demo_body" using demo_body_bytes(1) bytes_str_bytes [of demo_body] by simp
  have mg: "mem_get (mem_put 1048576 [1, 2, 3] (\<lambda>_. 0)) 1048576 3 = [1, 2, 3]"
    using mem_get_put [of 1048576 "[1, 2, 3]" "\<lambda>_. 0"] by (simp add: numeral_3_eq_3)
  have s2: "send_raw demo_body ?st1i = (?st2i, True)"
    using send_raw_once [of ?st1i 99 "[99, 99]" demo_body] demo_body_bytes(2) by simp
  have sl: "stream_loop ideal_kernel ?d 3 (1048576, 4096) 0 (?st1\<lparr>bs_io := (blockpool_new 1048576 4096 2 False)\<lparr>bp_free := [1]\<rparr>\<rparr>) = Some (?st2i, True)"
    using s2 by (simp add: stream_loop.simps [of _ _ _ _ 0] stream_loop.simps [of _ _ 3 _ 3] rd demo_wire1_def demo_wire_def Let_def mg bd)
  let ?st2 = "?st2i\<lparr>bs_io := blockpool_new 1048576 4096 2 False\<rparr>"
  have sv: "stream_value ideal_kernel ?d ?m ?st1 = Some (?st2, True)"
    using sl demo_io_cycle by (simp add: stream_value_def demo_wire1_def demo_wire_def)
  let ?st3 = "?st2\<lparr>bs_sends := [99], bs_out := kStored @ value_header ''a'' 0 3 @ demo_body @ CRLF\<rparr>"
  have s3: "send_raw CRLF ?st2 = (?st3, True)" using send_raw_once [of ?st2 99 "[99]" CRLF] demo_short(3) by simp
  have s4: "send_raw kEnd ?st3 = (?st3\<lparr>bs_sends := [], bs_out := kStored @ value_header ''a'' 0 3 @ demo_body @ CRLF @ kEnd\<rparr>, True)"
    using send_raw_once [of ?st3 99 "[]" kEnd] demo_short(2) by simp
  have tm1: "bs_tm demo_wire1 = demo_stored ?d" by (simp add: demo_wire1_def)
  have "do_get_blocking ideal_kernel 0 demo_get demo_wire1 =
      Some (?st3\<lparr>bs_sends := [], bs_out := kStored @ value_header ''a'' 0 3 @ demo_body @ CRLF @ kEnd\<rparr>, True)"
    using s1 sv s3 s4 by (simp add: do_get_blocking_def demo_get_def tm1 demo_stored_index is_expired_def Let_def)
  moreover have "take 5 (bs_buf demo_wire1) = ''get a''" by (simp add: demo_wire1_def)
  moreover have "erase_line 5 (?st3\<lparr>bs_sends := [], bs_out := kStored @ value_header ''a'' 0 3 @ demo_body @ CRLF @ kEnd\<rparr>) = demo_wire2"
    by (simp add: erase_line_def demo_wire2_def demo_wire1_def demo_wire_def demo_short)
  moreover have "\<not> is_storage demo_get" "c_verb demo_get = V_get" by (simp_all add: is_storage_def demo_get_def)
  ultimately show ?thesis using rl demo_lines(3) by (simp add: conn_round_def after_line_def)
qed


end
