(* ===== verification/Blocking_Clean.thy ===== *)
theory Blocking_Clean
  imports Blocking_Server
begin

text \<open>
  No way through a connection of the blocking server leaks: on every path out, whether the client
  is served, disconnects or is refused, the writer and the read buffer are given back, and, when
  every wait for a staging buffer ends, the handler returns.
\<close>

declare world_ok.simps [simp del]

section \<open>The writer\<close>

text \<open>A worker's part in the engine: it has a writer open, or none.\<close>

definition holding :: "store_handle list \<Rightarrow> head_pin list \<Rightarrow> store_handle option \<Rightarrow> tier_manager \<Rightarrow> bool" where
  "holding hs ps h tm =
     (case h of
        None \<Rightarrow> world_ok (tm, hs, ps)
      | Some g \<Rightarrow> if sh_committed g then world_ok (tm, hs, ps) else world_ok (tm, g # hs, ps))"

lemma holding_None [simp]: "holding hs ps None tm = world_ok (tm, hs, ps)"
  by (simp add: holding_def)

lemma world_open: "world_ok (tm, g # hs, ps) \<Longrightarrow> \<not> sh_committed g \<and> stage_fits g"
  by (simp add: world_ok.simps handle_ok_def)

lemma holding_open: "world_ok (tm, g # hs, ps) \<Longrightarrow> holding hs ps (Some g) tm"
  using world_open by (simp add: holding_def)

lemma drop_handle_clean: "holding hs ps h (bs_tm st) \<Longrightarrow> world_ok (bs_tm (drop_handle k h st), hs, ps)"
proof (cases h)
  case (Some g)
  assume h: "holding hs ps h (bs_tm st)"
  obtain tm g' where a: "abort_uncommitted k (bs_tm st) g = (tm, g')" by (metis surj_pair)
  show ?thesis
  proof (cases "sh_committed g")
    case True
    with h Some show ?thesis by (simp add: drop_handle_def holding_def abort_uncommitted_def)
  next
    case False
    with h Some have "world_ok (bs_tm st, [] @ g # hs, ps)" by (simp add: holding_def)
    from abort_world [OF this a] a Some show ?thesis by (simp add: drop_handle_def)
  qed
qed (simp add: drop_handle_def)

lemma drop_handle_sel [simp]: "bs_io (drop_handle k h st) = bs_io st" "inp (drop_handle k h st) = inp st"
  by (simp_all add: drop_handle_def inp_def split: option.split)

definition kept_world :: "(nat \<Rightarrow> tier_manager \<Rightarrow> tier_manager) \<Rightarrow> store_handle list \<Rightarrow> head_pin list \<Rightarrow> bool" where
  "kept_world others hs ps \<longleftrightarrow> (\<forall>i tm. world_ok (tm, hs, ps) \<longrightarrow> world_ok (others i tm, hs, ps))"

definition opened :: "store_handle list \<Rightarrow> head_pin list \<Rightarrow> bconn \<Rightarrow> bconn \<times> store_handle option \<Rightarrow> bool" where
  "opened hs ps st r \<longleftrightarrow> (\<exists>tm y. fst r = st\<lparr>bs_tm := tm, bs_yields := y\<rparr> \<and>
     (world_ok (bs_tm st, hs, ps) \<longrightarrow> (case snd r of None \<Rightarrow> world_ok (tm, hs, ps) | Some g \<Rightarrow> world_ok (tm, g # hs, ps))))"

lemma begin_retry_opened:
  assumes "kept_world others hs ps" and "begin_retry k others d n st = Some r"
  shows "opened hs ps st r"
proof -
  have "kept_world others hs ps \<longrightarrow> opened hs ps st r"
  proof (rule begin_retry.raw_induct [OF _ assms(2), of "\<lambda>k others d n st r. kept_world others hs ps \<longrightarrow> opened hs ps st r"], rule impI)
    fix f k others d n st r
    assume ih: "\<And>k others d n st r. f k others d n st = Some r \<Longrightarrow> kept_world others hs ps \<longrightarrow> opened hs ps st r"
      and e: "(case begin_store k (bs_tm st) d n of
          (tm, Inl e) \<Rightarrow> if code e \<noteq> would_block then Some (st\<lparr>bs_tm := tm\<rparr>, None)
            else f k others d n (st\<lparr>bs_tm := others (bs_yields st) tm, bs_yields := bs_yields st + 1\<rparr>)
        | (tm, Inr h) \<Rightarrow> Some (st\<lparr>bs_tm := tm\<rparr>, Some h)) = Some r"
      and kw: "kept_world others hs ps"
    obtain tm res where b: "begin_store k (bs_tm st) d n = (tm, res)" by (metis surj_pair)
    note bw = begin_store_world [OF _ b, of hs ps]
    show "opened hs ps st r"
    proof (cases "\<exists>e. res = Inl e \<and> code e = would_block")
      case True
      let ?st = "st\<lparr>bs_tm := others (bs_yields st) tm, bs_yields := bs_yields st + 1\<rparr>"
      from True e b have "f k others d n ?st = Some r" by auto
      with ih kw have "opened hs ps ?st r" by blast
      moreover have "world_ok (others (bs_yields st) tm, hs, ps)" if "world_ok (bs_tm st, hs, ps)"
        using bw [OF that] True kw by (auto simp: kept_world_def)
      ultimately show ?thesis unfolding opened_def by auto
    next
      case False
      with e b have "fst r = st\<lparr>bs_tm := tm\<rparr> \<and> (\<forall>e. res = Inl e \<longrightarrow> snd r = None) \<and> (\<forall>g. res = Inr g \<longrightarrow> snd r = Some g)"
        by (cases res) auto
      with bw show ?thesis unfolding opened_def
        by (intro exI [of _ tm] exI [of _ "bs_yields st"]) (auto split: option.split sum.splits)
    qed
  qed
  with assms(1) show ?thesis by blast
qed

lemma body_chunk_clean:
  assumes "holding hs ps h (bs_tm st)" and "\<forall>g. h = Some g \<longrightarrow> \<not> sh_committed g"
  shows "\<exists>st' h' good'. body_chunk k s h good st = Some (st', h', good') \<and> holding hs ps h' (bs_tm st') \<and>
    (\<forall>g. h' = Some g \<longrightarrow> \<not> sh_committed g) \<and> bs_io st' = bs_io st \<and> inp st' = inp st"
proof (cases "\<exists>g. h = Some g \<and> good")
  case False
  with assms show ?thesis by (auto simp: body_chunk_def split: option.split)
next
  case True
  then obtain g where g: "h = Some g" "good" by blast
  have w: "world_ok (bs_tm st, [] @ g # hs, ps)" using assms g by (simp add: holding_def)
  obtain tm g' r where hw: "handle_write k (bs_tm st) g (str_bytes s) = Some (tm, g', r)" "same_books (bs_tm st) tm" "same_handle g g'" "stage_fits g'"
    using handle_write_total [of g k "bs_tm st" "str_bytes s"] world_open [of "bs_tm st" g hs ps] w by auto
  have w': "world_ok (tm, g' # hs, ps)" using world_ok_handle [OF w hw(2-4)] by simp
  show ?thesis using g hw(1) holding_open [OF w'] world_open [OF w'] by (simp add: body_chunk_def inp_def)
qed

lemma read_body_clean:
  "holding hs ps h (bs_tm st) \<Longrightarrow> (\<forall>g. h = Some g \<longrightarrow> \<not> sh_committed g) \<Longrightarrow>
     \<exists>st' h' good' b. read_body k n w h good st = Some (st', h', good', b) \<and> holding hs ps h' (bs_tm st') \<and>
       (\<forall>g. h' = Some g \<longrightarrow> \<not> sh_committed g) \<and> bs_io st' = bs_io st \<and> length (inp st') \<le> length (inp st)"
proof (induction k n w h good st rule: read_body.induct)
  case (1 k n w h good st)
  show ?case
  proof (cases "w < n")
    case False
    with 1(2,3) show ?thesis by (auto simp: read_body.simps [of k n w])
  next
    case True
    obtain st0 b where r: "(if bs_buf st = [] then recv_more st else (st, True)) = (st0, b)" by (metis surj_pair)
    have rc: "received st st0" using r recv_more_received by (auto split: if_splits)
    have h0: "holding hs ps h (bs_tm st0)" using 1(2) rc by (simp add: received_def)
    show ?thesis
    proof (cases b)
      case False
      with True r h0 1(3) rc show ?thesis by (auto simp: read_body.simps [of k n w] received_def)
    next
      case b: True
      let ?n = "min (length (bs_buf st0)) (n - w)"
      obtain st1 h1 good1 where c: "body_chunk k (take ?n (bs_buf st0)) h good st0 = Some (st1, h1, good1)"
        and c1: "holding hs ps h1 (bs_tm st1)" "\<forall>g. h1 = Some g \<longrightarrow> \<not> sh_committed g" "bs_io st1 = bs_io st0" "inp st1 = inp st0"
        using body_chunk_clean [OF h0 1(3), of k "take ?n (bs_buf st0)" good] by blast
      let ?st = "st1\<lparr>bs_buf := drop ?n (bs_buf st1)\<rparr>"
      have e: "read_body k n w h good st = read_body k n (w + ?n) h1 good1 ?st"
        using True r b c by (simp add: read_body.simps [of k n w] Let_def)
      have "holding hs ps h1 (bs_tm ?st)" using c1(1) by simp
      from 1(1) [OF True r [symmetric] eqTrueI [OF b] refl c refl refl this c1(2)] obtain st' h' good' b' where
        "read_body k n (w + ?n) h1 good1 ?st = Some (st', h', good', b')" "holding hs ps h' (bs_tm st')"
        "\<forall>g. h' = Some g \<longrightarrow> \<not> sh_committed g" "bs_io st' = bs_io ?st" "length (inp st') \<le> length (inp ?st)" by blast
      moreover have "length (inp ?st) \<le> length (inp st1)" by (simp add: inp_def)
      ultimately show ?thesis using e c1(3,4) rc by (auto simp: received_def)
    qed
  qed
qed

lemma store_reply_clean:
  assumes "holding hs ps h (bs_tm st)" and "\<forall>g. h = Some g \<longrightarrow> \<not> sh_committed g"
    and "store_reply k now cmd adm crlf h good st = (st', h', rep)"
  shows "holding hs ps h' (bs_tm st')" and "bs_io st' = bs_io st" and "inp st' = inp st"
proof -
  obtain rej rr cas where adm: "adm = (rej, rr, cas)" by (metis prod_cases3)
  have "holding hs ps h' (bs_tm st') \<and> bs_io st' = bs_io st \<and> inp st' = inp st"
  proof (cases "\<not> rej \<and> crlf \<and> good \<and> h \<noteq> None")
    case False
    with assms show ?thesis by (auto simp: store_reply_def adm split: if_splits option.splits)
  next
    case True
    then obtain g where g: "h = Some g" by blast
    obtain tm g' r where c: "commit k now (bs_tm st) g (c_flags cmd) (exptime_to_expiry (c_exptime cmd) now) cas = (tm, g', r)"
      by (metis prod_cases3)
    have e: "st' = st\<lparr>bs_tm := tm\<rparr>" "h' = Some g'" using assms(3) True g c by (auto simp: store_reply_def adm)
    have w: "world_ok (bs_tm st, [] @ g # hs, ps)" using assms(1,2) g by (simp add: holding_def)
    note cw = commit_world [OF w c]
    have "holding hs ps (Some g') tm"
    proof (cases r)
      case (Inl x)
      with cw show ?thesis by (intro holding_open) simp
    next
      case (Inr u)
      with cw commit_committed [OF c [unfolded Inr]] show ?thesis by (simp add: holding_def)
    qed
    then show ?thesis by (simp add: e inp_def)
  qed
  then show "holding hs ps h' (bs_tm st')" "bs_io st' = bs_io st" "inp st' = inp st" by blast+
qed

section \<open>The read buffer\<close>

lemma iopool_cycle:
  assumes "blockpool_ok io" and "iopool_acquire io = Some (chunk, io')"
  shows "iopool_release io' chunk = io" and "0 < snd chunk"
proof -
  have ne: "bp_free io \<noteq> []" using assms(2) by (auto simp: iopool_acquire_def blockpool_acquire_def split: if_splits)
  then obtain xs i where x: "bp_free io = xs @ [i]" by (cases "bp_free io" rule: rev_cases) simp_all
  have c: "chunk = chunk_at io i" "io' = io\<lparr>bp_free := xs\<rparr>"
    using assms(2) x by (simp_all add: iopool_acquire_def blockpool_acquire_def chunk_at_def blockpool_block_data_def)
  have "i < bp_num_blocks io" using assms(1) x by (simp add: blockpool_ok_def)
  from chunk_at_index [OF assms(1) this] show "iopool_release io' chunk = io"
    by (simp add: iopool_release_def blockpool_release_def c flip: x)
  show "0 < snd chunk" using assms(1) by (simp add: c chunk_at_def blockpool_ok_def)
qed

lemma stream_loop_total: "0 < snd chunk \<Longrightarrow> \<exists>r. stream_loop k d sz chunk pos st = Some r"
proof (induction "sz - pos" arbitrary: pos st rule: less_induct)
  case less
  let ?want = "min (snd chunk) (sz - pos)"
  show ?case
  proof (cases "pos < sz")
    case False
    then show ?thesis by (auto simp: stream_loop.simps [of _ _ _ _ pos])
  next
    case True
    then have "sz - (pos + ?want) < sz - pos" using less.prems by auto
    from less.hyps [OF this less.prems] True show ?thesis
      by (subst stream_loop.simps) (auto simp: Let_def split: sum.split prod.split)
  qed
qed

definition ready :: "block_pool \<Rightarrow> bool" where
  "ready io \<longleftrightarrow> blockpool_ok io \<and> bp_free io \<noteq> []"

text \<open>What a request that opens no writer leaves: the stream as it was or shorter, and its buffer back.\<close>

definition leaves :: "store_handle list \<Rightarrow> head_pin list \<Rightarrow> bconn \<Rightarrow> bconn \<Rightarrow> bool" where
  "leaves hs ps st st' \<longleftrightarrow> (world_ok (bs_tm st, hs, ps) \<longrightarrow> world_ok (bs_tm st', hs, ps)) \<and> bs_io st' = bs_io st"

definition serves :: "store_handle list \<Rightarrow> head_pin list \<Rightarrow> bconn \<Rightarrow> (bconn \<times> bool) option \<Rightarrow> bool" where
  "serves hs ps st r \<longleftrightarrow> (\<exists>st' b. r = Some (st', b) \<and> leaves hs ps st st' \<and> length (inp st') \<le> length (inp st) \<and>
     bs_buf st' = bs_buf st \<and> bs_rest st' = bs_rest st)"

lemma leaves_refl [simp]: "leaves hs ps st st"
  by (simp add: leaves_def)

lemma leaves_trans: "leaves hs ps a b \<Longrightarrow> leaves hs ps b c \<Longrightarrow> leaves hs ps a c"
  by (simp add: leaves_def)

lemma serves_trans:
  "leaves hs ps st st1 \<Longrightarrow> bs_buf st1 = bs_buf st \<Longrightarrow> bs_rest st1 = bs_rest st \<Longrightarrow> serves hs ps st1 r \<Longrightarrow> serves hs ps st r"
  by (auto simp: serves_def inp_def intro: leaves_trans)

lemma serves_send: "serves hs ps st (Some (send_raw s st))"
  using send_raw_sel [of s st] by (cases "send_raw s st") (auto simp: serves_def leaves_def)

lemma send_raw_leaves: "send_raw s st = (st', b) \<Longrightarrow> leaves hs ps st st' \<and> bs_buf st' = bs_buf st \<and> bs_rest st' = bs_rest st"
  using send_raw_sel [of s st st' b] by (simp add: leaves_def)

lemma serves_stop: "leaves hs ps st st' \<and> bs_buf st' = bs_buf st \<and> bs_rest st' = bs_rest st \<Longrightarrow> serves hs ps st (Some (st', b))"
  by (auto simp: serves_def inp_def)

lemma stream_value_serves:
  assumes "ready (bs_io st)"
  shows "serves hs ps st (stream_value k d m st)"
proof (cases "om_size m = 0")
  case True
  then show ?thesis by (auto simp: stream_value_def intro: serves_stop)
next
  case False
  obtain chunk io where a: "iopool_acquire (bs_io st) = Some (chunk, io)"
    using assms by (auto simp: ready_def iopool_acquire_def blockpool_acquire_def)
  note c = iopool_cycle [OF _ a]
  obtain st' b where l: "stream_loop k d (om_size m) chunk 0 (st\<lparr>bs_io := io\<rparr>) = Some (st', b)"
    using stream_loop_total [OF c(2)] assms unfolding ready_def by (metis surj_pair)
  have "bs_tm st' = bs_tm st" "bs_io st' = io" "bs_buf st' = bs_buf st" "bs_rest st' = bs_rest st"
    using stream_loop_streamed [OF l] by (simp_all add: streamed_def)
  with False a l c(1) assms show ?thesis by (auto simp: stream_value_def serves_def leaves_def inp_def ready_def)
qed

lemma tm_touch_world: "world_ok (tm, hs, ps) \<Longrightarrow> world_ok (tm_touch tm d, hs, ps)"
  using touch_world(1) [OF touch_world(2), of tm hs ps d d] by (simp add: tm_touch_def)

lemma do_get_serves:
  assumes "ready (bs_io st)"
  shows "serves hs ps st (do_get_blocking k now cmd st)"
proof (cases "index_lookup (tm_index (bs_tm st)) (hash_key (c_key cmd))")
  case None
  then show ?thesis by (simp add: do_get_blocking_def serves_send)
next
  case (Some m)
  let ?d = "hash_key (c_key cmd)"
  let ?s = "if c_verb cmd = V_gets then value_header_cas (c_key cmd) (om_flags m) (om_size m) (om_etag m)
     else value_header (c_key cmd) (om_flags m) (om_size m)"
  let ?st = "st\<lparr>bs_tm := tm_touch (bs_tm st) ?d\<rparr>"
  obtain st1 b1 where s1: "send_raw ?s ?st = (st1, b1)" by (metis surj_pair)
  have l1: "leaves hs ps st st1" "bs_buf st1 = bs_buf st" "bs_rest st1 = bs_rest st" "bs_io st1 = bs_io st"
    using send_raw_sel [OF s1] tm_touch_world by (simp_all add: leaves_def)
  from stream_value_serves [of st1 hs ps k ?d m] assms l1(4) obtain st2 b2 where
    s2: "stream_value k ?d m st1 = Some (st2, b2)" "leaves hs ps st1 st2" "bs_buf st2 = bs_buf st1" "bs_rest st2 = bs_rest st1"
    by (auto simp: serves_def)
  have l2: "leaves hs ps st st2" using leaves_trans [OF l1(1) s2(2)] .
  obtain st3 b3 where s3: "send_raw CRLF st2 = (st3, b3)" by (metis surj_pair)
  note l3 = send_raw_leaves [OF s3, of hs ps]
  have "serves hs ps st (Some (send_raw kEnd st3))"
    by (rule serves_trans [OF leaves_trans [OF l2] _ _ serves_send]) (use l1 s2 l3 in simp_all)
  moreover have "serves hs ps st (Some (st3, False))" "serves hs ps st (Some (st2, False))" "serves hs ps st (Some (st1, False))"
    using l1 s2 l2 l3 leaves_trans [OF l2] by (auto intro!: serves_stop)
  ultimately show ?thesis
    using Some s1 s2(1) s3 by (simp add: do_get_blocking_def Let_def serves_send split: bool.split)
qed

section \<open>A request\<close>

definition spins :: "kernel \<Rightarrow> (nat \<Rightarrow> tier_manager \<Rightarrow> tier_manager) \<Rightarrow> bconn \<Rightarrow> bool" where
  "spins k others st =
     (case read_line st of
        (st, None) \<Rightarrow> False
      | (st, Some eol) \<Rightarrow>
          (case parse_command (take eol (bs_buf st)) of
             Inl e \<Rightarrow> False
           | Inr cmd \<Rightarrow> is_storage cmd \<and>
               begin_retry k others (hash_key (c_key cmd)) (c_bytes cmd) (erase_line eol st) = None))"

text \<open>A request that is answered: the stream is no longer than it was, nothing is held.\<close>

definition answers :: "store_handle list \<Rightarrow> head_pin list \<Rightarrow> bconn \<Rightarrow> (bconn \<times> bool) option \<Rightarrow> bool" where
  "answers hs ps st r \<longleftrightarrow> (\<exists>st' b. r = Some (st', b) \<and> leaves hs ps st st' \<and> length (inp st') \<le> length (inp st))"

lemma do_store_answers:
  assumes kw: "kept_world others hs ps" and w: "world_ok (bs_tm st, hs, ps)"
    and t: "begin_retry k others (hash_key (c_key cmd)) (c_bytes cmd) st \<noteq> None"
  shows "answers hs ps st (do_store_blocking k now others cmd st)"
proof -
  let ?d = "hash_key (c_key cmd)"
  let ?adm = "admit_classic (c_verb cmd) (c_cas cmd) now (index_lookup (tm_index (bs_tm st)) ?d)"
  obtain st1 h1 where b: "(if fst ?adm then Some (st, None) else begin_retry k others ?d (c_bytes cmd) st) = Some (st1, h1)"
    using t by (cases "fst ?adm") (auto split: prod.split)
  have h1: "holding hs ps h1 (bs_tm st1)" "\<forall>g. h1 = Some g \<longrightarrow> \<not> sh_committed g" "bs_io st1 = bs_io st" "inp st1 = inp st"
  proof -
    have "opened hs ps st (st, None)"
      unfolding opened_def by (intro exI [of _ "bs_tm st"] exI [of _ "bs_yields st"]) simp
    then have "opened hs ps st (st1, h1)"
      using b begin_retry_opened [OF kw, of k ?d "c_bytes cmd" st] by (cases "fst ?adm") auto
    then show "holding hs ps h1 (bs_tm st1)" "\<forall>g. h1 = Some g \<longrightarrow> \<not> sh_committed g" "bs_io st1 = bs_io st" "inp st1 = inp st"
      using w world_open holding_open by (cases h1; force simp: opened_def inp_def)+
  qed
  obtain st2 h2 good c where r: "read_body k (c_bytes cmd) 0 h1 True st1 = Some (st2, h2, good, c)"
    and h2: "holding hs ps h2 (bs_tm st2)" "\<forall>g. h2 = Some g \<longrightarrow> \<not> sh_committed g" "bs_io st2 = bs_io st1" "length (inp st2) \<le> length (inp st1)"
    using read_body_clean [OF h1(1,2), of k "c_bytes cmd" 0 True] by blast
  have dropped: "answers hs ps st (Some (drop_handle k h s, al))"
    if "holding hs ps h (bs_tm s)" "bs_io s = bs_io st" "length (inp s) \<le> length (inp st)" for h s al
    using drop_handle_clean [OF that(1)] that(2,3) by (simp add: answers_def leaves_def)
  obtain st3 c3 where f: "fill_two st2 = (st3, c3)" by (metis surj_pair)
  have f3: "received st2 st3" using fill_two_received [OF f] by blast
  let ?st4 = "st3\<lparr>bs_buf := drop 2 (bs_buf st3)\<rparr>"
  obtain st5 h5 rep where s: "store_reply k now cmd ?adm (take 2 (bs_buf st3) = CRLF) h2 good ?st4 = (st5, h5, rep)" by (metis prod_cases3)
  have "holding hs ps h2 (bs_tm ?st4)" using h2(1) f3 by (simp add: received_def)
  note s5 = store_reply_clean [OF this h2(2) s]
  obtain st6 al where e: "(if c_noreply cmd then (st5, True) else send_raw rep st5) = (st6, al)" by (metis surj_pair)
  have s6: "bs_tm st6 = bs_tm st5" "bs_io st6 = bs_io st5" "inp st6 = inp st5"
    using e send_raw_sel [of rep st5 st6 al] by (auto split: if_splits)
  have "length (inp ?st4) \<le> length (inp st3)" by (simp add: inp_def)
  then have "answers hs ps st (Some (drop_handle k h5 st6, al))"
    using s5 s6 h1 h2 f3 by (intro dropped) (auto simp: received_def)
  moreover have "answers hs ps st (Some (drop_handle k h2 st3, False))" "answers hs ps st (Some (drop_handle k h2 st2, False))"
    using h1 h2 f3 by (auto intro!: dropped simp: received_def)
  ultimately show ?thesis using b r f s e
    by (simp add: do_store_blocking_def Let_def split: bool.split)
qed

definition shortens :: "store_handle list \<Rightarrow> head_pin list \<Rightarrow> bconn \<Rightarrow> (bconn \<times> bool) option \<Rightarrow> bool" where
  "shortens hs ps st r \<longleftrightarrow> (\<exists>st' b. r = Some (st', b) \<and> leaves hs ps st st' \<and> (b \<longrightarrow> length (inp st') < length (inp st)))"

lemma after_line_shortens:
  assumes "serves hs ps st r" and "eol + 2 \<le> length (bs_buf st)"
  shows "shortens hs ps st (after_line eol r)"
proof -
  from assms(1) obtain st' b where "r = Some (st', b)" "leaves hs ps st st'" "bs_buf st' = bs_buf st" "bs_rest st' = bs_rest st"
    by (auto simp: serves_def)
  with assms(2) show ?thesis by (auto simp: shortens_def after_line_def leaves_def erase_line_def inp_def)
qed

lemma conn_round_shortens:
  assumes kw: "kept_world others hs ps" and w: "world_ok (bs_tm st, hs, ps)" and io: "ready (bs_io st)" and sp: "\<not> spins k others st"
  shows "shortens hs ps st (conn_round k now others st)"
proof -
  obtain sa eo where rl: "read_line st = (sa, eo)" by (metis surj_pair)
  have rc: "received st sa" "eo = Some n \<Longrightarrow> find_crlf (bs_buf sa) = Some n" for n using read_line_received [OF rl] by auto
  have la: "leaves hs ps st sa" "inp sa = inp st" "bs_io sa = bs_io st" using rc(1) by (simp_all add: received_def leaves_def)
  have lift: "shortens hs ps st r" if "shortens hs ps sa r" for r
    using that leaves_trans [OF la(1)] la(2) by (auto simp: shortens_def)
  show ?thesis
  proof (cases eo)
    case None
    with rl la(1) show ?thesis by (auto simp: conn_round_def shortens_def)
  next
    case (Some eol)
    have len: "eol + 2 \<le> length (bs_buf sa)" using find_crlf_bound rc(2) Some by blast
    note sh = lift [OF after_line_shortens [OF _ len]]
    show ?thesis
    proof (cases "parse_command (take eol (bs_buf sa))")
      case (Inl e)
      with rl Some sh [OF serves_send] show ?thesis by (simp add: conn_round_def)
    next
      case (Inr cmd)
      show ?thesis
      proof (cases "is_storage cmd")
        case True
        let ?st = "erase_line eol sa"
        have "world_ok (bs_tm ?st, hs, ps)" using w rc(1) by (simp add: erase_line_def received_def)
        moreover have "begin_retry k others (hash_key (c_key cmd)) (c_bytes cmd) ?st \<noteq> None"
          using sp rl Some Inr True by (simp add: spins_def)
        ultimately have a: "answers hs ps ?st (do_store_blocking k now others cmd ?st)" by (rule do_store_answers [OF kw])
        have "length (inp ?st) < length (inp sa)" using len by (simp add: erase_line_def inp_def)
        moreover have "leaves hs ps st ?st" using la(1) by (simp add: erase_line_def leaves_def)
        ultimately have "shortens hs ps st (do_store_blocking k now others cmd ?st)"
          using a la(2) by (auto simp: answers_def shortens_def intro: leaves_trans)
        with rl Some Inr True show ?thesis by (simp add: conn_round_def)
      next
        case False
        obtain tm e where rm: "tm_remove k (bs_tm sa) (hash_key (c_key cmd)) = (tm, e)" by (metis surj_pair)
        let ?st = "sa\<lparr>bs_tm := tm\<rparr>"
        have lr: "leaves hs ps sa ?st" using tm_remove_world [OF _ rm] by (simp add: leaves_def)
        have "serves hs ps sa (Some (if c_noreply cmd then (?st, True) else send_raw s ?st))" for s
          using serves_trans [OF lr _ _ serves_send, of s] serves_stop [of hs ps sa ?st True] lr by simp
        moreover have "serves hs ps sa (Some (sa, False))" by (rule serves_stop) simp
        moreover have "serves hs ps sa (do_get_blocking k now cmd sa)" using do_get_serves io la(3) by simp
        ultimately show ?thesis using rl Some Inr False rm sh serves_send [of hs ps sa]
          by (auto simp: conn_round_def Let_def split: verb.split)
      qed
    qed
  qed
qed

section \<open>A connection\<close>

inductive rounds :: "kernel \<Rightarrow> (nat \<Rightarrow> nat) \<Rightarrow> (nat \<Rightarrow> tier_manager \<Rightarrow> tier_manager) \<Rightarrow> bconn \<Rightarrow> bconn \<Rightarrow> bool" where
  here: "rounds k clock others st st"
| further: "conn_round k (clock 0) others st = Some (st', True) \<Longrightarrow> rounds k (\<lambda>i. clock (Suc i)) others st' st'' \<Longrightarrow>
    rounds k clock others st st''"

inductive_cases rounds_cases: "rounds k clock others st st'"

text \<open>As long as no wait for a staging buffer lasts for ever, the handler returns, with nothing held.\<close>

lemma handle_conn_clean:
  assumes "world_ok (bs_tm st, hs, ps)" and "kept_world others hs ps" and "ready (bs_io st)"
    and "\<forall>st'. rounds k clock others st st' \<longrightarrow> \<not> spins k others st'"
  shows "\<exists>st'. handle_conn k clock others st = Some st' \<and> world_ok (bs_tm st', hs, ps) \<and> bs_io st' = bs_io st"
  using assms
proof (induction "length (inp st)" arbitrary: st clock rule: less_induct)
  case less
  have "\<not> spins k others st" using less.prems(4) here by blast
  from conn_round_shortens [OF less.prems(2,1,3) this, of "clock 0"] obtain st1 b where
    r: "conn_round k (clock 0) others st = Some (st1, b)" and l: "leaves hs ps st st1" "b \<longrightarrow> length (inp st1) < length (inp st)"
    by (auto simp: shortens_def)
  have w1: "world_ok (bs_tm st1, hs, ps)" "bs_io st1 = bs_io st" using l(1) less.prems(1) by (simp_all add: leaves_def)
  show ?case
  proof (cases b)
    case False
    with r w1 show ?thesis by (simp add: handle_conn.simps [of k clock])
  next
    case True
    have "\<forall>st'. rounds k (\<lambda>i. clock (Suc i)) others st1 st' \<longrightarrow> \<not> spins k others st'"
      using less.prems(4) further [of k clock others st st1, OF r [unfolded eqTrueI [OF True]]] by blast
    with less.hyps [of st1 "\<lambda>i. clock (Suc i)"] l(2) True w1 less.prems(2,3) r show ?thesis
      by (simp add: handle_conn.simps [of k clock])
  qed
qed

lemma demo_ends: "read_line demo_wire2 = (demo_wire2, None)" "conn_round ideal_kernel 0 (\<lambda>_. id) demo_wire2 = Some (demo_wire2, False)"
proof -
  show r: "read_line demo_wire2 = (demo_wire2, None)"
  proof -
    have "bs_buf demo_wire2 = []" "bs_cuts demo_wire2 = []" by (simp_all add: demo_wire2_def demo_wire1_def demo_wire_def)
    then have "find_crlf (bs_buf demo_wire2) = None" "recv_more demo_wire2 = (demo_wire2, False)" by (simp_all add: recv_more_def)
    then show ?thesis by (subst read_line.simps) simp
  qed
  then show "conn_round ideal_kernel 0 (\<lambda>_. id) demo_wire2 = Some (demo_wire2, False)" by (simp add: conn_round_def)
qed

lemma demo_rounds: "rounds ideal_kernel (\<lambda>_. 0) (\<lambda>_. id) demo_wire st \<Longrightarrow> st \<in> {demo_wire, demo_wire1, demo_wire2}"
proof -
  have e: "st = demo_wire2" if "rounds ideal_kernel (\<lambda>_. 0) (\<lambda>_. id) demo_wire2 st"
    using that by (rule rounds_cases) (simp_all add: demo_ends)
  have e1: "st \<in> {demo_wire1, demo_wire2}" if "rounds ideal_kernel (\<lambda>_. 0) (\<lambda>_. id) demo_wire1 st"
    using that by (rule rounds_cases) (use e in \<open>auto simp: demo_round2\<close>)
  assume "rounds ideal_kernel (\<lambda>_. 0) (\<lambda>_. id) demo_wire st"
  then show ?thesis by (rule rounds_cases) (use e1 in \<open>auto simp: demo_round1\<close>)
qed

lemma demo_no_spin: "st \<in> {demo_wire, demo_wire1, demo_wire2} \<Longrightarrow> \<not> spins ideal_kernel (\<lambda>_. id) st"
proof -
  have "begin_retry ideal_kernel (\<lambda>_. id) d 3 (erase_line 11 demo_wire) \<noteq> None" for d
    by (subst begin_retry.simps) (simp add: demo_begin erase_line_def demo_wire_def)
  then have "\<not> spins ideal_kernel (\<lambda>_. id) demo_wire"
    by (simp add: spins_def demo_line1 demo_set_parses demo_set_def)
  moreover have "read_line demo_wire1 = (demo_wire1, Some 5)" "take 5 (bs_buf demo_wire1) = ''get a''"
    by (simp_all add: read_line.simps demo_wire1_def demo_lines [simplified])
  then have "\<not> spins ideal_kernel (\<lambda>_. id) demo_wire1"
    by (simp add: spins_def demo_lines is_storage_def demo_get_def)
  moreover have "\<not> spins ideal_kernel (\<lambda>_. id) demo_wire2" by (simp add: spins_def demo_ends)
  ultimately show "st \<in> {demo_wire, demo_wire1, demo_wire2} \<Longrightarrow> \<not> spins ideal_kernel (\<lambda>_. id) st" by auto
qed

end
