(* ===== verification/Tls.thy ===== *)
theory Tls
  imports Loop_Properties
begin

text \<open>
  HTTPS (\<^verbatim>\<open>tls/context.cpp\<close>, \<^verbatim>\<open>http/https_loop.cpp\<close>): the certificate contexts, which certificate a client
  is shown, the handshake and the reads of a connection. OpenSSL is outside: what it finds in the
  files is the record \<open>openssl\<close>, and what \<^verbatim>\<open>SSL_accept\<close> and \<^verbatim>\<open>SSL_read\<close> answer is a list the handlers
  consume. Replies go through the kernel's TLS as ordinary sends of the stream loop.
\<close>

section \<open>Certificates\<close>

record certificate =
  ce_sans :: "string list"
  ce_cn :: "string option"

record openssl =
  ssl_new :: "nat \<Rightarrow> bool"
  ssl_chain :: "string \<Rightarrow> bool"
  ssl_key :: "string \<Rightarrow> bool"
  ssl_check :: "string \<Rightarrow> string \<Rightarrow> bool"
  ssl_leaf :: "string \<Rightarrow> certificate option"

definition tls_lower :: "string \<Rightarrow> string" where
  "tls_lower s = map to_lower s"

definition hostnames :: "certificate \<Rightarrow> string list" where
  "hostnames ce =
     filter (\<lambda>s. s \<noteq> []) (ce_sans ce) @ (case ce_cn ce of None \<Rightarrow> [] | Some s \<Rightarrow> if s \<noteq> [] then [s] else [])"

text \<open>The loop of \<^verbatim>\<open>Context::create\<close>; contexts are numbered in the order they are made.\<close>

fun load_certs :: "openssl \<Rightarrow> nat \<Rightarrow> (string \<times> string) list \<Rightarrow> (string \<rightharpoonup> nat) \<Rightarrow> (string \<rightharpoonup> nat) result" where
  "load_certs ssl i [] m = Inr m"
| "load_certs ssl i ((cert_path, key_path) # cs) m =
     (if \<not> ssl_new ssl i then err unsupported ''SSL_CTX_new failed''
      else if \<not> ssl_chain ssl cert_path then err invalid_argument (''load certificate: '' @ cert_path)
      else if \<not> ssl_key ssl key_path then err invalid_argument (''load private key: '' @ key_path)
      else if \<not> ssl_check ssl cert_path key_path then err invalid_argument (''key does not match certificate: '' @ cert_path)
      else case ssl_leaf ssl cert_path of
             None \<Rightarrow> err invalid_argument (''no certificate in '' @ cert_path)
           | Some ce \<Rightarrow> load_certs ssl (Suc i) cs (fold (\<lambda>h m. m(tls_lower h \<mapsto> i)) (hostnames ce) m))"

text \<open>The default context is the first one; the map of names is the argument of the callback.\<close>

record tls_context =
  tc_default :: nat
  tc_by_host :: "string \<rightharpoonup> nat"

definition context_create :: "openssl \<Rightarrow> (string \<times> string) list \<Rightarrow> tls_context result" where
  "context_create ssl certs =
     (if certs = [] then err invalid_argument ''no TLS certificates configured''
      else case load_certs ssl 0 certs Map.empty of
             Inl e \<Rightarrow> Inl e
           | Inr m \<Rightarrow> Inr \<lparr>tc_default = 0, tc_by_host = m\<rparr>)"

text \<open>The callback: the context to go on with, or a fatal alert.\<close>

definition sni_select :: "tls_context \<Rightarrow> string option \<Rightarrow> nat option" where
  "sni_select ctx sni = (case sni of None \<Rightarrow> None | Some s \<Rightarrow> tc_by_host ctx (tls_lower s))"

section \<open>A connection\<close>

datatype ssl_answer = Ssl_done | Ssl_data string | Ssl_want_read | Ssl_want_write | Ssl_fails

text \<open>The entry of a connection in \<^verbatim>\<open>tls_\<close>: the name its client asked for, and whether the handshake goes on.\<close>

record tls_state =
  ts_sni :: "string option"
  ts_handshaking :: bool

definition POLLIN :: nat where "POLLIN = 1"

definition POLLOUT :: nat where "POLLOUT = 4"

definition kSslBuf :: nat where "kSslBuf = 16 * 1024"

definition arm_poll :: "env \<Rightarrow> nat \<Rightarrow> focus \<Rightarrow> focus" where
  "arm_poll ev events = (\<lambda>(lp, c). if cn_closing c then (lp, c) else post ev (Sq_poll (cn_id c) events) (lp, c))"

text \<open>
  \<^verbatim>\<open>ssl_read_step\<close>, which is \<^verbatim>\<open>start_recv\<close> of this loop: \<^verbatim>\<open>process\<close> comes back to it when a request is
  not complete yet.
\<close>

fun ssl_read_step :: "phr \<Rightarrow> key_options \<Rightarrow> env \<Rightarrow> ssl_answer list \<Rightarrow> focus \<Rightarrow> (focus \<times> ssl_answer list) option" where
  "ssl_read_step phr ko ev [] (lp, c) = Some ((lp, if cn_closing c then c else close_conn c), [])"
| "ssl_read_step phr ko ev (a # as) (lp, c) =
     (if cn_closing c then Some ((lp, c), a # as)
      else case a of
             Ssl_data bs \<Rightarrow>
               if bs = [] then Some ((lp, close_conn c), as)
               else (case http_loop phr ko ev (lp, c\<lparr>cn_in := cn_in c @ take kSslBuf bs\<rparr>) of
                       None \<Rightarrow> None
                     | Some ((lp, c), brk) \<Rightarrow>
                         if \<not> brk then Some ((lp, c), as)
                         else if cn_out c \<noteq> [] then Some (start_send ev (lp, c), as)
                         else if cn_quit_after c then Some ((lp, close_conn c), as)
                         else ssl_read_step phr ko ev as (lp, c))
           | Ssl_want_read \<Rightarrow> Some (arm_poll ev POLLIN (lp, c), as)
           | Ssl_want_write \<Rightarrow> Some (arm_poll ev POLLOUT (lp, c), as)
           | _ \<Rightarrow> Some ((lp, close_conn c), as))"

definition drive_handshake ::
  "phr \<Rightarrow> key_options \<Rightarrow> env \<Rightarrow> ssl_answer list \<Rightarrow> tls_state \<Rightarrow> focus \<Rightarrow> (focus \<times> ssl_answer list \<times> tls_state) option" where
  "drive_handshake phr ko ev as ts = (\<lambda>(lp, c).
     if cn_closing c then Some ((lp, c), as, ts)
     else case as of
            [] \<Rightarrow> Some ((lp, close_conn c), [], ts)
          | Ssl_done # as \<Rightarrow>
              let c = (case ts_sni ts of None \<Rightarrow> c | Some s \<Rightarrow> c\<lparr>cn_sni := tls_lower s\<rparr>) in
              map_option (\<lambda>(f, as). (f, as, ts\<lparr>ts_handshaking := False\<rparr>)) (ssl_read_step phr ko ev as (lp, c))
          | Ssl_want_read # as \<Rightarrow> Some (arm_poll ev POLLIN (lp, c), as, ts)
          | Ssl_want_write # as \<Rightarrow> Some (arm_poll ev POLLOUT (lp, c), as, ts)
          | _ # as \<Rightarrow> Some ((lp, close_conn c), as, ts))"

text \<open>A new connection; \<open>made\<close> is whether \<^verbatim>\<open>SSL_new\<close> gives a session.\<close>

definition https_on_connection ::
  "phr \<Rightarrow> key_options \<Rightarrow> env \<Rightarrow> bool \<Rightarrow> string option \<Rightarrow> ssl_answer list \<Rightarrow> focus \<Rightarrow>
     (focus \<times> ssl_answer list \<times> tls_state option) option" where
  "https_on_connection phr ko ev made sni as = (\<lambda>(lp, c).
     if \<not> made then Some ((lp, close_conn c), as, None)
     else map_option (\<lambda>(f, as, ts). (f, as, Some ts))
            (drive_handshake phr ko ev as \<lparr>ts_sni = sni, ts_handshaking = True\<rparr> (lp, c)))"

definition https_on_poll ::
  "phr \<Rightarrow> key_options \<Rightarrow> env \<Rightarrow> ssl_answer list \<Rightarrow> tls_state option \<Rightarrow> focus \<Rightarrow>
     (focus \<times> ssl_answer list \<times> tls_state option) option" where
  "https_on_poll phr ko ev as tls = (\<lambda>(lp, c).
     if cn_closing c then Some ((lp, c), as, tls)
     else case tls of
            None \<Rightarrow> Some ((lp, close_conn c), as, None)
          | Some ts \<Rightarrow>
              if ts_handshaking ts
              then map_option (\<lambda>(f, as, ts). (f, as, Some ts)) (drive_handshake phr ko ev as ts (lp, c))
              else map_option (\<lambda>(f, as). (f, as, tls)) (ssl_read_step phr ko ev as (lp, c)))"

text \<open>The entry goes with the connection.\<close>

definition https_on_destroy :: "nat \<Rightarrow> (nat \<rightharpoonup> tls_state) \<Rightarrow> nat \<rightharpoonup> tls_state" where
  "https_on_destroy i tls = tls(i := None)"

section \<open>Which names a context answers to\<close>

lemma fold_names: "fold (\<lambda>h m. m(tls_lower h \<mapsto> i)) hs m n = (if n \<in> tls_lower ` set hs then Some i else m n)"
  by (induction hs arbitrary: m) auto

text \<open>Every name leads to a certificate that carries it.\<close>

definition names_ok :: "openssl \<Rightarrow> (string \<times> string) list \<Rightarrow> (string \<rightharpoonup> nat) \<Rightarrow> bool" where
  "names_ok ssl certs m \<longleftrightarrow> (\<forall>n i. m n = Some i \<longrightarrow>
     i < length certs \<and> (\<exists>ce. ssl_leaf ssl (fst (certs ! i)) = Some ce \<and> n \<in> tls_lower ` set (hostnames ce)))"

lemma load_certs_names:
  "load_certs ssl (length pre) cs m = Inr m' \<Longrightarrow> names_ok ssl pre m \<Longrightarrow> names_ok ssl (pre @ cs) m'"
proof (induction cs arbitrary: pre m)
  case (Cons ck cs)
  obtain cp kp where ck: "ck = (cp, kp)" by (cases ck)
  from Cons.prems(1) obtain ce where l: "ssl_leaf ssl cp = Some ce"
    and r: "load_certs ssl (Suc (length pre)) cs (fold (\<lambda>h m. m(tls_lower h \<mapsto> length pre)) (hostnames ce) m) = Inr m'"
    by (auto simp: ck split: if_splits option.splits)
  have "names_ok ssl (pre @ [ck]) (fold (\<lambda>h m. m(tls_lower h \<mapsto> length pre)) (hostnames ce) m)"
    using Cons.prems(2) l by (auto simp: names_ok_def fold_names ck nth_append less_Suc_eq)
  with Cons.IH [of "pre @ [ck]"] r show ?case by simp
qed simp

lemma context_names: "context_create ssl certs = Inr ctx \<Longrightarrow> names_ok ssl certs (tc_by_host ctx)"
  using load_certs_names [of ssl "[]" certs Map.empty]
  by (auto simp: context_create_def names_ok_def split: if_splits sum.splits)

lemma hostnames_nonempty: "h \<in> set (hostnames ce) \<Longrightarrow> h \<noteq> []"
  by (auto simp: hostnames_def split: option.splits if_splits)

section \<open>The name stays with the connection\<close>

named_theorems sni_kept \<open>what leaves the name of a connection alone\<close>

lemma post_sni [sni_kept]: "cn_sni (snd (post ev s f)) = cn_sni (snd f)"
  by (cases f) (simp add: post_def close_conn_def split: option.split)

lemma send_sni [sni_kept]: "cn_sni (snd (start_send ev f)) = cn_sni (snd f)" "cn_sni (snd (arm_poll ev e f)) = cn_sni (snd f)"
  by (cases f; simp add: start_send_def arm_poll_def sni_kept)+

lemma close_sni [sni_kept]: "cn_sni (close_conn c) = cn_sni c"
  by (simp add: close_conn_def)

lemma http_frame_sni [sni_kept]: "cn_sni (http_get_hit ev c key m) = cn_sni c" "cn_sni (http_get_miss c) = cn_sni c"
  by (simp_all add: http_get_hit_def http_get_miss_def reply_def set_range_def Let_def split: option.split)

lemma http_get_sni [sni_kept]: "cn_sni (snd (fst (http_get ev key rg f))) = cn_sni (snd f)"
  by (cases f)
    (simp add: http_get_def begin_get_def park_get_def open_hit_def take_lanes_def sni_kept Let_def
       split: prod.split option.split)

lemma http_quit_sni [sni_kept]: "cn_sni (http_quit s c) = cn_sni c"
  by (simp add: http_quit_def reply_def)

lemma http_step_sni [sni_kept]: "cn_sni (snd (fst (http_step phr ko ev f))) = cn_sni (snd f)"
  by (cases f) (simp add: http_step_def Let_def sni_kept reply_def split: http_method.split option.split)

lemma http_loop_sni: "http_loop phr ko ev f = Some r \<Longrightarrow> cn_sni (snd (fst r)) = cn_sni (snd f)"
proof (rule http_loop.raw_induct [of "\<lambda>phr ko ev f r. cn_sni (snd (fst r)) = cn_sni (snd f)"])
  fix lf phr ko ev f r
  assume ih: "\<And>phr ko ev f r. lf phr ko ev f = Some r \<Longrightarrow> cn_sni (snd (fst r)) = cn_sni (snd f)"
    and e: "(case http_step phr ko ev f of (f, flow) \<Rightarrow> if flow = Go then lf phr ko ev f else Some (f, flow = Break)) = Some r"
  obtain f1 fl where s: "http_step phr ko ev f = (f1, fl)" by (metis surj_pair)
  have "cn_sni (snd (fst r)) = cn_sni (snd f1)" using e s ih by (auto split: if_splits)
  with http_step_sni [of phr ko ev f] s show "cn_sni (snd (fst r)) = cn_sni (snd f)" by simp
qed

lemma ssl_read_sni: "ssl_read_step phr ko ev as f = Some (f', as') \<Longrightarrow> cn_sni (snd f') = cn_sni (snd f)"
proof (induction phr ko ev as f rule: ssl_read_step.induct)
  case (2 phr ko ev a as lp c)
  show ?case
  proof (cases "\<not> cn_closing c \<and> (\<exists>bs. a = Ssl_data bs \<and> bs \<noteq> [])")
    case False
    with "2.prems" show ?thesis by (auto simp: sni_kept split: if_splits ssl_answer.splits)
  next
    case True
    then obtain bs where a: "a = Ssl_data bs" "bs \<noteq> []" "\<not> cn_closing c" by blast
    obtain lp1 c1 brk where l: "http_loop phr ko ev (lp, c\<lparr>cn_in := cn_in c @ take kSslBuf bs\<rparr>) = Some ((lp1, c1), brk)"
      using "2.prems" a by (cases "http_loop phr ko ev (lp, c\<lparr>cn_in := cn_in c @ take kSslBuf bs\<rparr>)") auto
    have s: "cn_sni c1 = cn_sni c" using http_loop_sni [OF l] by simp
    show ?thesis
    proof (cases "brk \<and> cn_out c1 = [] \<and> \<not> cn_quit_after c1")
      case True
      with "2.prems" a l have "ssl_read_step phr ko ev as (lp1, c1) = Some (f', as')" by simp
      with 2(1) [OF a(3) a(1) a(2) l] True s show ?thesis by simp
    next
      case False
      with "2.prems" a l s show ?thesis by (auto simp: sni_kept split: if_splits)
    qed
  qed
qed (auto simp: sni_kept)

section \<open>Properties\<close>

text \<open>
  What OpenSSL documents: when the callback answers with a fatal alert the handshake fails, so
  \<^verbatim>\<open>SSL_accept\<close> succeeds only for a name the callback found.
\<close>

definition honours_alert :: "tls_context \<Rightarrow> string option \<Rightarrow> ssl_answer list \<Rightarrow> bool" where
  "honours_alert ctx sni as \<longleftrightarrow> (Ssl_done \<in> set as \<longrightarrow> sni_select ctx sni \<noteq> None)"

lemma handshake_name:
  assumes "drive_handshake phr ko ev as ts (lp, c) = Some ((lp', c'), as', ts')" and "ts_handshaking ts" and "\<not> ts_handshaking ts'"
    and "honours_alert ctx (ts_sni ts) as"
  obtains s i where "ts_sni ts = Some s" "tc_by_host ctx (tls_lower s) = Some i" "cn_sni c' = tls_lower s"
proof -
  from assms(1-3) obtain as1 where as: "as = Ssl_done # as1" "\<not> cn_closing c"
    by (cases as; cases "hd as"; cases "cn_closing c") (auto simp: drive_handshake_def)
  with assms(4) obtain s i where s: "ts_sni ts = Some s" "tc_by_host ctx (tls_lower s) = Some i"
    by (auto simp: honours_alert_def sni_select_def split: option.splits)
  have "ssl_read_step phr ko ev as1 (lp, c\<lparr>cn_sni := tls_lower s\<rparr>) = Some ((lp', c'), as')"
    using assms(1) as s(1) by (auto simp: drive_handshake_def)
  from ssl_read_sni [OF this] that s show ?thesis by simp
qed

lemma http_step_misdirected:
  assumes "cn_state c = St_idle" and "pr_status (parse_request phr (cn_in c) 0) = P_ok" and "cn_sni c \<noteq> []"
    and "normalize_host (hr_host (pr_req (parse_request phr (cn_in c) 0))) \<noteq> cn_sni c"
  shows "\<exists>c'. http_step phr ko ev (lp, c) = ((lp, c'), Break) \<and> cn_out c' = cn_out c @ k421 \<and> cn_quit_after c'"
  using assms by (simp add: http_step_def Let_def http_quit_def reply_def)


text \<open>One certificate, for \<^verbatim>\<open>a.example\<close>; a client that then asks for \<^verbatim>\<open>b.example\<close>.\<close>

definition demo_ssl :: openssl where
  "demo_ssl = \<lparr>ssl_new = (\<lambda>_. True), ssl_chain = (\<lambda>_. True), ssl_key = (\<lambda>_. True), ssl_check = (\<lambda>_ _. True),
     ssl_leaf = (\<lambda>_. Some \<lparr>ce_sans = [''a.example''], ce_cn = None\<rparr>)\<rparr>"

definition demo_tls :: tls_context where
  "demo_tls = \<lparr>tc_default = 0, tc_by_host = [''a.example'' \<mapsto> 0]\<rparr>"

definition demo_session :: tls_state where
  "demo_session = \<lparr>ts_sni = Some ''A.example'', ts_handshaking = True\<rparr>"

definition demo_other :: phr where
  "demo_other = (\<lambda>buf prev. \<lparr>phr_rc = (if buf = [] then - 2 else int (length buf)), phr_method = ''GET'', phr_path = ''/a'',
     phr_minor = 1, phr_headers = [(''Host'', ''b.example'')]\<rparr>)"

definition demo_asking :: conn where
  "demo_asking = (new_conn 7 5 0)\<lparr>cn_sni := ''a.example'', cn_in := ''GET''\<rparr>"

lemma demo_names: "tls_lower ''a.example'' = ''a.example''" "tls_lower ''A.example'' = ''a.example''" "normalize_host (trim ''b.example'') = ''b.example''"
  by code_simp+

lemma demo_context: "context_create demo_ssl [(''c'', ''k'')] = Inr demo_tls"
  by (simp add: context_create_def demo_ssl_def demo_tls_def hostnames_def demo_names)

lemma demo_other_host: "hr_host (pr_req (parse_request demo_other ''GET'' 0)) = trim ''b.example''" "pr_status (parse_request demo_other ''GET'' 0) = P_ok"
proof -
  have "iequals ''Host'' ''host''" by code_simp
  then show "hr_host (pr_req (parse_request demo_other ''GET'' 0)) = trim ''b.example''" "pr_status (parse_request demo_other ''GET'' 0) = P_ok"
    by (simp_all add: parse_request_def demo_other_def Let_def)
qed

lemma demo_handshake:
  "\<exists>lp1 c1 as1 ts1. drive_handshake demo_other ko demo_env [Ssl_done, Ssl_want_read] demo_session (demo_loop, new_conn 7 5 0) = Some ((lp1, c1), as1, ts1) \<and>
     cn_sni c1 = ''a.example'' \<and> \<not> ts_handshaking ts1"
proof -
  let ?c = "(new_conn 7 5 0)\<lparr>cn_sni := ''a.example''\<rparr>"
  obtain lp1 c1 where a: "arm_poll demo_env POLLIN (demo_loop, ?c) = (lp1, c1)" by (metis surj_pair)
  have "cn_sni c1 = ''a.example''" using send_sni(2) [of demo_env POLLIN "(demo_loop, ?c)"] a by simp
  with a show ?thesis by (simp add: drive_handshake_def demo_session_def demo_names new_conn_def)
qed


end
