(* ===== verification/Serve.thy ===== *)
theory Serve
  imports Startup Blocking_Clean Tls
begin

text \<open>
  The threads of the server (\<^verbatim>\<open>serve\<close> and the workers of \<^verbatim>\<open>protocol/memcache/server.cpp\<close>): listeners,
  how every kind of worker sets itself up, the accept loop of the blocking worker, the reaper, and
  the decisions of \<^verbatim>\<open>serve\<close>. Threads run as the operating system likes; what they do to each other
  is in the models of the engine and of the loops, so \<open>serve\<close> yields the threads it starts.
\<close>

declare world_ok.simps [simp del]

section \<open>Listeners\<close>

text \<open>What the kernel answers to the three calls, and the open descriptors.\<close>

record sock_os =
  so_socket :: "nat option"
  so_bind :: "nat \<Rightarrow> bool"
  so_listen :: bool

record listener =
  li_fd :: nat
  li_port :: nat
  li_reuseport :: bool

definition make_listener :: "sock_os \<Rightarrow> nat \<Rightarrow> bool \<Rightarrow> nat list \<Rightarrow> nat list \<times> listener result" where
  "make_listener so port reuseport fds =
     (case so_socket so of
        None \<Rightarrow> (fds, err io_error ''socket'')
      | Some fd \<Rightarrow>
          let fds = fd # fds in
          if \<not> so_bind so port then (remove1 fd fds, err io_error ''bind'')
          else if \<not> so_listen so then (remove1 fd fds, err io_error ''listen'')
          else (fds, Inr \<lparr>li_fd = fd, li_port = port, li_reuseport = reuseport\<rparr>))"

lemma make_listener_leaks_nothing: "make_listener so port r fds = (fds', Inl e) \<Longrightarrow> fds' = fds"
  by (auto simp: make_listener_def Let_def split: option.splits if_splits)

section \<open>Setting a worker up\<close>

record worker_os =
  wo_reactor :: "error option"
  wo_alloc :: "nat \<Rightarrow> nat \<Rightarrow> nat option"
  wo_mlock :: "nat \<Rightarrow> nat \<Rightarrow> bool"
  wo_sock :: sock_os

definition worker_pool :: "worker_os \<Rightarrow> server_config \<Rightarrow> block_pool result" where
  "worker_pool wo cfg =
     (case wo_reactor wo of
        Some e \<Rightarrow> Inl e
      | None \<Rightarrow> iopool_create (wo_alloc wo) (wo_mlock wo) (io_chunk_bytes cfg) (io_buffers cfg) (lock_memory (memory cfg)))"

definition worker_keys :: "server_config \<Rightarrow> key_options" where
  "worker_keys cfg =
     default_key_options\<lparr>ko_mode := (if http_vhost cfg then mode_vhost else mode_path), ko_keep_query := key_on_query cfg,
       ko_strip_leading_slash := key_strip_slash cfg, ko_index_name := http_index cfg\<rparr>"

text \<open>
  An event-loop worker until it runs: its own reactor and buffers, its own listener on the shared
  port, then a fresh loop. What goes wrong ends this worker only.
\<close>

definition loop_worker ::
  "worker_os \<Rightarrow> server_config \<Rightarrow> nat \<Rightarrow> tier_manager \<Rightarrow> ram \<Rightarrow> stats_registry \<Rightarrow> nat \<Rightarrow> nat \<Rightarrow> nat list \<Rightarrow>
     nat list \<times> (listener \<times> loop) result" where
  "loop_worker wo cfg port tm mem reg slot clock fds =
     (case worker_pool wo cfg of
        Inl e \<Rightarrow> (fds, Inl e)
      | Inr io \<Rightarrow>
          (case make_listener (wo_sock wo) port True fds of
             (fds, Inl e) \<Rightarrow> (fds, Inl e)
           | (fds, Inr li) \<Rightarrow>
               (fds, Inr (li, (loop_new tm io mem slot (Some reg) (io_timeout_ms cfg) clock)\<lparr>lp_read_ahead := read_ahead cfg\<rparr>))))"

definition async_worker ::
  "worker_os \<Rightarrow> server_config \<Rightarrow> tier_manager \<Rightarrow> ram \<Rightarrow> stats_registry \<Rightarrow> nat \<Rightarrow> env \<Rightarrow> tick list \<Rightarrow> nat list \<Rightarrow>
     nat list \<times> loop option result" where
  "async_worker wo cfg tm mem reg slot ev ts fds =
     (case loop_worker wo cfg (memcache_port cfg) tm mem reg slot (ev_clock ev) fds of
        (fds, Inl e) \<Rightarrow> (fds, Inl e)
      | (fds, Inr (li, lp)) \<Rightarrow> (remove1 (li_fd li) fds, Inr (run mc_seams (shutdown_grace_ms cfg) ev ts lp)))"

definition http_worker ::
  "phr \<Rightarrow> worker_os \<Rightarrow> server_config \<Rightarrow> tier_manager \<Rightarrow> ram \<Rightarrow> stats_registry \<Rightarrow> nat \<Rightarrow> env \<Rightarrow> tick list \<Rightarrow> nat list \<Rightarrow>
     nat list \<times> loop option result" where
  "http_worker phr wo cfg tm mem reg slot ev ts fds =
     (case loop_worker wo cfg (http_port cfg) tm mem reg slot (ev_clock ev) fds of
        (fds, Inl e) \<Rightarrow> (fds, Inl e)
      | (fds, Inr (li, lp)) \<Rightarrow>
          (remove1 (li_fd li) fds, Inr (run (http_seams phr (worker_keys cfg)) (shutdown_grace_ms cfg) ev ts lp)))"

section \<open>The blocking worker\<close>

text \<open>
  A client as the kernel delivers it, and what a turn of the accept loop finds. The end of the list
  of turns is the shutdown flag; \<open>meanwhile\<close> is what the other workers do to the engine until then.
\<close>

record client =
  cl_bytes :: string
  cl_cuts :: "nat list"
  cl_sends :: "nat list"
  cl_clock :: "nat \<Rightarrow> nat"
  cl_others :: "nat \<Rightarrow> tier_manager \<Rightarrow> tier_manager"

datatype turn = Poll_nothing | Accept_interrupted | Accept_fails | Accepts client

record worker =
  wk_tm :: tier_manager
  wk_io :: block_pool
  wk_mem :: "nat \<Rightarrow> byte"

definition connect :: "worker \<Rightarrow> client \<Rightarrow> bconn" where
  "connect w cl = \<lparr>bs_tm = wk_tm w, bs_io = wk_io w, bs_mem = wk_mem w, bs_buf = [], bs_rest = cl_bytes cl, bs_cuts = cl_cuts cl,
     bs_out = [], bs_sends = cl_sends cl, bs_yields = 0\<rparr>"

definition hang_up :: "bconn \<Rightarrow> worker" where
  "hang_up st = \<lparr>wk_tm = bs_tm st, wk_io = bs_io st, wk_mem = bs_mem st\<rparr>"

fun worker_turns :: "kernel \<Rightarrow> (turn \<times> (tier_manager \<Rightarrow> tier_manager)) list \<Rightarrow> worker \<Rightarrow> worker option" where
  "worker_turns k [] w = Some w"
| "worker_turns k ((t, meanwhile) # ts) w =
     (let w = w\<lparr>wk_tm := meanwhile (wk_tm w)\<rparr> in
      case t of
        Poll_nothing \<Rightarrow> worker_turns k ts w
      | Accept_interrupted \<Rightarrow> worker_turns k ts w
      | Accept_fails \<Rightarrow> Some w
      | Accepts cl \<Rightarrow>
          (case handle_conn k (cl_clock cl) (cl_others cl) (connect w cl) of
             None \<Rightarrow> None
           | Some st \<Rightarrow> worker_turns k ts (hang_up st)))"

definition worker_loop ::
  "kernel \<Rightarrow> worker_os \<Rightarrow> server_config \<Rightarrow> tier_manager \<Rightarrow> (nat \<Rightarrow> byte) \<Rightarrow> (turn \<times> (tier_manager \<Rightarrow> tier_manager)) list \<Rightarrow>
     worker option result" where
  "worker_loop k wo cfg tm mem ts =
     (case worker_pool wo cfg of
        Inl e \<Rightarrow> Inl e
      | Inr io \<Rightarrow> Inr (worker_turns k ts \<lparr>wk_tm = tm, wk_io = io, wk_mem = mem\<rparr>))"

section \<open>The reaper\<close>

text \<open>The interval between two passes, slept in slices; \<open>down\<close> is the shutdown flag as it is read.\<close>

partial_function (option) reap_sleep :: "(nat \<Rightarrow> bool) \<Rightarrow> nat \<Rightarrow> nat \<Rightarrow> nat \<Rightarrow> nat list option" where
  "reap_sleep down ttl slept i =
     (if slept < ttl \<and> \<not> down i
      then Option.bind (reap_sleep down ttl (u32 (slept + 100)) (Suc i)) (\<lambda>ms. Some (min 100 (ttl - slept) # ms))
      else Some [])"

text \<open>The passes of the reaper until the shutdown flag is seen, at the times they happen.\<close>

fun reaper :: "kernel \<Rightarrow> (nat \<times> (tier_manager \<Rightarrow> tier_manager)) list \<Rightarrow> tier_manager \<Rightarrow> tier_manager" where
  "reaper k [] tm = tm"
| "reaper k ((now, meanwhile) # ts) tm = reaper k ts (fst (reap_expired k now (meanwhile tm)))"

section \<open>Serving\<close>

datatype thread = Async_worker nat | Blocking_worker nat nat | Http_worker nat | Https_worker nat | Reaper

text \<open>
  How \<^verbatim>\<open>serve\<close> ends: it joins its threads; it returns an error; or it returns while threads are
  running, when the destructor of a joinable \<^verbatim>\<open>std::thread\<close> calls \<^verbatim>\<open>std::terminate\<close>.
\<close>

datatype served = Joins "thread list" | Refuses error | Terminates "thread list" error

definition leave_serve :: "thread list \<Rightarrow> error \<Rightarrow> served" where
  "leave_serve ws e = (if ws = [] then Refuses e else Terminates ws e)"

definition worker_count :: "nat \<Rightarrow> server_config \<Rightarrow> nat" where
  "worker_count hw cfg = (let n = (if cores cfg \<noteq> 0 then cores cfg else hw) in if n = 0 then 1 else n)"

definition memcache_threads :: "sock_os \<Rightarrow> server_config \<Rightarrow> nat \<Rightarrow> nat list \<Rightarrow> nat list \<times> thread list result" where
  "memcache_threads so cfg n fds =
     (if \<not> enable_memcache cfg then (fds, Inr [])
      else if net cfg = async then (fds, Inr (map Async_worker [0..<n]))
      else case make_listener so (memcache_port cfg) False fds of
             (fds, Inl e) \<Rightarrow> (fds, Inl e)
           | (fds, Inr li) \<Rightarrow> (fds, Inr (map (Blocking_worker (li_fd li)) [0..<n])))"

text \<open>The certificate contexts; a build without OpenSSL refuses HTTPS.\<close>

definition https_context :: "openssl option \<Rightarrow> server_config \<Rightarrow> tls_context option result" where
  "https_context tls cfg =
     (if \<not> enable_https cfg then Inr None
      else case tls of
             None \<Rightarrow> err unsupported (''built without OpenSSL '' @ map char_of [226, 128, 148 :: nat] @ '' HTTPS unavailable'')
           | Some ssl \<Rightarrow>
               map_sum id Some
                 (context_create ssl (map (\<lambda>i. (tls_cert_paths cfg ! i, tls_key_paths cfg ! i)) [0..<length (tls_cert_paths cfg)])))"

definition serve ::
  "nat \<Rightarrow> openssl option \<Rightarrow> sock_os \<Rightarrow> server_config \<Rightarrow> served" where
  "serve hw tls so cfg =
     (let n = worker_count hw cfg in
      case memcache_threads so cfg n [] of
        (fds, Inl e) \<Rightarrow> leave_serve [] e
      | (fds, Inr ws) \<Rightarrow>
          let ws = ws @ (if enable_http cfg then map Http_worker [0..<n] else []) in
          (case https_context tls cfg of
             Inl e \<Rightarrow> leave_serve ws e
           | Inr _ \<Rightarrow>
               Joins (ws @ (if enable_https cfg then map Https_worker [0..<n] else []) @ (if 0 < ttl_reap_ms cfg then [Reaper] else []))))"

section \<open>Lemmas\<close>

text \<open>No client makes the worker wait for ever.\<close>

fun unstuck :: "kernel \<Rightarrow> (turn \<times> (tier_manager \<Rightarrow> tier_manager)) list \<Rightarrow> worker \<Rightarrow> bool" where
  "unstuck k [] w \<longleftrightarrow> True"
| "unstuck k ((t, meanwhile) # ts) w \<longleftrightarrow>
     (let w = w\<lparr>wk_tm := meanwhile (wk_tm w)\<rparr> in
      case t of
        Accepts cl \<Rightarrow>
          (\<forall>st. rounds k (cl_clock cl) (cl_others cl) (connect w cl) st \<longrightarrow> \<not> spins k (cl_others cl) st) \<and>
          (\<forall>st. handle_conn k (cl_clock cl) (cl_others cl) (connect w cl) = Some st \<longrightarrow> unstuck k ts (hang_up st))
      | Accept_fails \<Rightarrow> True
      | _ \<Rightarrow> unstuck k ts w)"

text \<open>The other workers keep the engine's invariant, between connections and during them.\<close>

definition well_behaved :: "store_handle list \<Rightarrow> head_pin list \<Rightarrow> turn \<times> (tier_manager \<Rightarrow> tier_manager) \<Rightarrow> bool" where
  "well_behaved hs ps t \<longleftrightarrow> (\<forall>tm. world_ok (tm, hs, ps) \<longrightarrow> world_ok (snd t tm, hs, ps)) \<and>
     (\<forall>cl. fst t = Accepts cl \<longrightarrow> kept_world (cl_others cl) hs ps)"

lemma worker_turns_clean:
  "world_ok (wk_tm w, hs, ps) \<Longrightarrow> ready (wk_io w) \<Longrightarrow> \<forall>t \<in> set ts. well_behaved hs ps t \<Longrightarrow> unstuck k ts w \<Longrightarrow>
     \<exists>w'. worker_turns k ts w = Some w' \<and> world_ok (wk_tm w', hs, ps) \<and> wk_io w' = wk_io w"
proof (induction k ts w rule: worker_turns.induct)
  case (2 k t meanwhile ts w)
  let ?w = "w\<lparr>wk_tm := meanwhile (wk_tm w)\<rparr>"
  have w': "world_ok (wk_tm ?w, hs, ps)" "ready (wk_io ?w)" "\<forall>t \<in> set ts. well_behaved hs ps t"
    using "2.prems" by (simp_all add: well_behaved_def)
  show ?case
  proof (cases t)
    case Poll_nothing
    with 2(1) [OF refl _ w'] "2.prems"(4) show ?thesis by simp
  next
    case Accept_interrupted
    with 2(2) [OF refl _ w'] "2.prems"(4) show ?thesis by simp
  next
    case Accept_fails
    with w' show ?thesis by simp
  next
    case (Accepts cl)
    have "kept_world (cl_others cl) hs ps" using "2.prems"(3) Accepts by (simp add: well_behaved_def)
    moreover have "\<forall>st. rounds k (cl_clock cl) (cl_others cl) (connect ?w cl) st \<longrightarrow> \<not> spins k (cl_others cl) st"
      using "2.prems"(4) Accepts by (simp add: Let_def)
    ultimately obtain st where h: "handle_conn k (cl_clock cl) (cl_others cl) (connect ?w cl) = Some st"
        "world_ok (bs_tm st, hs, ps)" "bs_io st = wk_io w"
      using handle_conn_clean [of "connect ?w cl" hs ps "cl_others cl" k "cl_clock cl"] w' by (auto simp: connect_def)
    have "unstuck k ts (hang_up st)" using "2.prems"(4) Accepts h(1) by (simp add: Let_def)
    with 2(3) [OF refl Accepts h(1)] h w' Accepts show ?thesis by (simp add: hang_up_def)
  qed
qed simp

lemma worker_pool_ready:
  assumes "worker_pool wo cfg = Inr io" and "io_buffers cfg < 2 ^ 32"
  shows "ready io"
proof -
  obtain p where "io = blockpool_new p (io_chunk_bytes cfg) (io_buffers cfg) (lock_memory (memory cfg))" "0 < io_buffers cfg" "0 < io_chunk_bytes cfg"
    using assms(1) by (auto simp: worker_pool_def iopool_create_def blockpool_create_def Let_def size_defs split: option.splits if_splits)
  with assms(2) show ?thesis by (simp add: ready_def blockpool_new_ok blockpool_new_free)
qed

text \<open>The slices add up to the interval, and the sleep ends.\<close>

lemma reap_sleep_sum:
  "ttl + 100 \<le> 2 ^ 32 \<Longrightarrow>
     \<exists>ms. reap_sleep down ttl slept i = Some ms \<and> sum_list ms \<le> ttl - slept \<and> ((\<forall>j. \<not> down j) \<longrightarrow> sum_list ms = ttl - slept)"
proof (induction "ttl - slept" arbitrary: slept i rule: less_induct)
  case less
  show ?case
  proof (cases "slept < ttl \<and> \<not> down i")
    case False
    then show ?thesis by (subst reap_sleep.simps) auto
  next
    case True
    then have u: "u32 (slept + 100) = slept + 100" using less.prems by (simp add: u32_def)
    have "ttl - (slept + 100) < ttl - slept" using True by linarith
    from less.hyps [OF this less.prems, of "Suc i"] obtain ms where
      "reap_sleep down ttl (slept + 100) (Suc i) = Some ms" "sum_list ms \<le> ttl - (slept + 100)"
      "(\<forall>j. \<not> down j) \<longrightarrow> sum_list ms = ttl - (slept + 100)" by blast
    with True u show ?thesis by (subst reap_sleep.simps) auto
  qed
qed

section \<open>Properties\<close>


definition demo_client :: client where
  "demo_client = \<lparr>cl_bytes = bs_buf demo_wire, cl_cuts = [99], cl_sends = [99, 99, 99, 99, 99], cl_clock = (\<lambda>_. 0), cl_others = (\<lambda>_. id)\<rparr>"

definition demo_worker_os :: worker_os where
  "demo_worker_os = \<lparr>wo_reactor = None, wo_alloc = (\<lambda>_ _. Some 1048576), wo_mlock = (\<lambda>_ _. True),
     wo_sock = \<lparr>so_socket = None, so_bind = (\<lambda>_. False), so_listen = False\<rparr>\<rparr>"

definition demo_worker_cfg :: server_config where
  "demo_worker_cfg = default_config\<lparr>io_chunk_bytes := 4096, io_buffers := 2, memory := (memory default_config)\<lparr>lock_memory := False\<rparr>\<rparr>"

definition demo_worker :: worker where
  "demo_worker = \<lparr>wk_tm = demo_tm, wk_io = blockpool_new 1048576 4096 2 False, wk_mem = (\<lambda>_. 0)\<rparr>"

lemma demo_worker_pool: "worker_pool demo_worker_os demo_worker_cfg = Inr (blockpool_new 1048576 4096 2 False)"
  by (simp add: worker_pool_def demo_worker_os_def demo_worker_cfg_def iopool_create_def blockpool_create_def is_power_of_two_def size_defs Let_def)

lemma demo_length: "length (bs_buf demo_wire) = 25"
  by (simp add: demo_wire_def demo_body_bytes demo_short)

lemma demo_connects: "read_line (connect demo_worker demo_client) = read_line demo_wire"
proof -
  let ?st = "connect demo_worker demo_client"
  have e: "bs_buf ?st = []" "bs_cuts ?st = [99]" "bs_rest ?st = bs_buf demo_wire" by (simp_all add: connect_def demo_client_def)
  have "demo_wire = ?st\<lparr>bs_cuts := [], bs_rest := [], bs_buf := bs_buf demo_wire\<rparr>"
    by (simp add: connect_def demo_worker_def demo_client_def demo_wire_def)
  moreover have "length (bs_rest ?st) = 25" by (simp only: e demo_length)
  ultimately have "recv_more ?st = (demo_wire, True)" by (simp add: recv_more_def e kRecvBuf_def Let_def)
  then show ?thesis by (subst read_line.simps) (simp add: e)
qed

lemma demo_client_rounds:
  assumes "rounds ideal_kernel (\<lambda>_. 0) (\<lambda>_. id) (connect demo_worker demo_client) st"
  shows "\<not> spins ideal_kernel (\<lambda>_. id) st"
proof -
  let ?st = "connect demo_worker demo_client"
  have c: "conn_round ideal_kernel 0 (\<lambda>_. id) ?st = conn_round ideal_kernel 0 (\<lambda>_. id) demo_wire"
    by (simp add: conn_round_def demo_connects)
  have s: "spins ideal_kernel (\<lambda>_. id) ?st = spins ideal_kernel (\<lambda>_. id) demo_wire" by (simp add: spins_def demo_connects)
  from assms show ?thesis
  proof (rule rounds_cases)
    assume "st = ?st"
    with s demo_no_spin show ?thesis by simp
  next
    fix st'
    assume "conn_round ideal_kernel 0 (\<lambda>_. id) ?st = Some (st', True)" "rounds ideal_kernel (\<lambda>i. 0) (\<lambda>_. id) st' st"
    then have "rounds ideal_kernel (\<lambda>_. 0) (\<lambda>_. id) demo_wire st" unfolding c by (rule further)
    from demo_no_spin [OF demo_rounds [OF this]] show ?thesis .
  qed
qed



text \<open>A server with a certificate that does not load.\<close>

definition demo_tls_args :: "string list" where
  "demo_tls_args = [''--ssd-dir'', ''/mnt'', ''--tls-cert'', ''c'', ''--tls-key'', ''k'']"


end
