(* ===== verification/Spec2Isabelle.thy ===== *)
theory Spec2Isabelle
  imports Tier_Roundtrip Mc_Protocol Key_Derivation Http_Request Loop_Properties Serve
begin

text \<open>
  Goblin-store is a tiered object cache: a memcache server (event driven or blocking) and a
  read-only HTTP/HTTPS server over one storage engine that keeps the head of every object in
  locked RAM, its prefix striped over SSDs and its tail striped over HDDs. This library models
  the C++ sources under \<^verbatim>\<open>src/goblin\<close> as functions on explicit states and proves what makes
  the parts and their composition correct. File names below are relative to that directory.

  \<^bold>\<open>How the parts fit.\<close> \<^verbatim>\<open>main\<close> turns the command line into a configuration, wipes the pool
  directories, opens the engine, preloads source trees and calls \<^verbatim>\<open>serve\<close>, which starts the
  workers. A worker is either an event loop (one ring, one pool of read buffers, many
  connections) running the memcache or the HTTP protocol, or a blocking memcache worker. All of
  them share the engine: they open writers, commit or abort them, take snapshots with pins on
  RAM heads, remove objects and touch them. The engine keeps its index, two eviction policies,
  the RAM pool, the staging buffers and the files of the two disk tiers in step.

  \<^bold>\<open>The theories and the code they model.\<close>
  \<^item> \<^verbatim>\<open>Prelude\<close>: machine integers as \<^typ>\<open>nat\<close> with \<open>u32\<close> and \<open>u64\<close> written where the code can wrap,
    byte lists, decimal text, shared list lemmas. \<^verbatim>\<open>Common\<close>: \<^verbatim>\<open>common/types.hpp\<close>, \<^verbatim>\<open>error.*\<close>, \<^verbatim>\<open>config.*\<close>
    (records with the defaults, \<open>validate\<close>). Errors are \<open>'a result\<close>, the sum of an error record and a value.
  \<^item> \<^verbatim>\<open>Layout\<close> (\<^verbatim>\<open>storage/layout.*\<close>), \<^verbatim>\<open>Drive_Pool\<close> (\<^verbatim>\<open>storage/drive_pool.*\<close>), \<^verbatim>\<open>Striped_Io\<close>
    (\<^verbatim>\<open>storage/striped_io.*\<close>): where every byte of an object lives, and the system-call loops that
    put it there. \<^verbatim>\<open>Sha256\<close> (\<^verbatim>\<open>crypto/sha256.*\<close>). \<^verbatim>\<open>Pool_Files\<close>: \<^verbatim>\<open>ObjectFiles\<close> and \<^verbatim>\<open>Pool\<close> of
    \<^verbatim>\<open>storage/tier_manager.cpp\<close> over a file system of directories and inodes.
  \<^item> \<^verbatim>\<open>Region_Allocator\<close> (an interface), \<^verbatim>\<open>Buddy_Allocator\<close> and \<^verbatim>\<open>Buffer_Pool\<close> (\<^verbatim>\<open>core/buffer_pool.*\<close>),
    \<^verbatim>\<open>S3_Fifo\<close> (\<^verbatim>\<open>storage/eviction.*\<close>, \<^verbatim>\<open>storage/s3fifo.*\<close>), \<^verbatim>\<open>Object_Index\<close> (\<^verbatim>\<open>storage/index.*\<close>), \<^verbatim>\<open>Stats\<close>
    (\<^verbatim>\<open>core/stats.hpp\<close>).
  \<^item> \<^verbatim>\<open>Tier_State\<close>: \<^verbatim>\<open>TierManager\<close> and \<^verbatim>\<open>StoreHandle\<close> of \<^verbatim>\<open>storage/tier_manager.*\<close>, one definition for each
    operation, on a record with RAM contents and file system. \<^verbatim>\<open>Tier_Books\<close>, \<^verbatim>\<open>Head_Cache\<close>,
    \<^verbatim>\<open>Tier_World\<close>: its invariant \<open>world_ok\<close> over the engine, the open writers and the pins, kept by the
    step relation \<open>tm_step\<close> that interleaves the operations of any clients. \<^verbatim>\<open>Tier_Engine\<close>,
    \<^verbatim>\<open>Tier_Versions\<close>: what follows in every reachable state. \<^verbatim>\<open>Extents\<close>, \<^verbatim>\<open>Tier_Roundtrip\<close>,
    \<^verbatim>\<open>Chunked_Store\<close>: the way of the bytes through staging, stripes and heads and back.
  \<^item> \<^verbatim>\<open>Mc_Protocol\<close> (\<^verbatim>\<open>protocol/memcache/protocol.*\<close>), \<^verbatim>\<open>Http_Request\<close> (\<^verbatim>\<open>http/request.*\<close>), \<^verbatim>\<open>Key_Derivation\<close>
    (\<^verbatim>\<open>http/key_derivation.*\<close>): the pure parsers and printers.
  \<^item> \<^verbatim>\<open>Stream_Loop\<close>, \<^verbatim>\<open>Stream_Table\<close>: \<^verbatim>\<open>StreamLoop\<close> of \<^verbatim>\<open>net/stream_loop.*\<close>, first what it does with one connection, then
    the table of connections, waiting queues, sweeps, turns and draining. \<^verbatim>\<open>Mc_Event_Loop\<close>
    (\<^verbatim>\<open>protocol/memcache/event_loop.cpp\<close>) and \<^verbatim>\<open>Http_Loop\<close> (\<^verbatim>\<open>http/http_loop.cpp\<close>) fill its virtual functions (\<open>seams\<close>).
    \<^verbatim>\<open>Loop_Inv\<close>, \<^verbatim>\<open>Loop_Safe\<close>, \<^verbatim>\<open>Loop_Table\<close>: the invariant \<open>loop_ok\<close> and that every turn keeps it, for
    any protocol that keeps the contract \<open>protocol_seams\<close>; \<^verbatim>\<open>Mc_Safe\<close> and \<^verbatim>\<open>Http_Safe\<close> discharge it;
    \<^verbatim>\<open>Loop_Properties\<close> draws the consequences.
  \<^item> \<^verbatim>\<open>Blocking_Server\<close>, \<^verbatim>\<open>Blocking_Clean\<close>: the blocking connection handler of
    \<^verbatim>\<open>protocol/memcache/server.cpp\<close>. \<^verbatim>\<open>Tls\<close>: \<^verbatim>\<open>tls/context.*\<close> and the handlers of \<^verbatim>\<open>http/https_loop.*\<close>. \<^verbatim>\<open>Source_Loader\<close>:
    \<^verbatim>\<open>http/source_loader.cpp\<close>. \<^verbatim>\<open>Startup\<close>: \<^verbatim>\<open>main.cpp\<close>, \<^verbatim>\<open>storage/pool_dir.*\<close>, \<^verbatim>\<open>tools/path_prep.cpp\<close>. \<^verbatim>\<open>Serve\<close>: the workers and
    \<^verbatim>\<open>serve\<close> of \<^verbatim>\<open>protocol/memcache/server.cpp\<close>.

  \<^bold>\<open>Interfaces.\<close> \<open>region_allocator\<close> (what the head cache needs of RAM; interpreted on the buddy
  allocator and on the buffer pool), \<open>chunk_stock\<close> (blocks, staging and read buffers),
  \<open>eviction_policy\<close> (S3-FIFO), \<open>meta_index\<close> (the sharded index as one map), \<open>placement_map\<close> (striping as an
  injective placement, from which the striped calls refine a flat array), \<open>protocol_seams\<close> (what a
  protocol may do to a connection; interpreted on memcache, and instantiated on HTTP for every
  request parser that takes what it accepts).

  \<^bold>\<open>What is shown.\<close> A value stored, in one piece or in any pieces, is read back exactly, also
  through the blocking server over the wire and from a preloaded file; bytes behind a pin never
  change; index, policies and bounds agree in every reachable state; commits are compare-and-swap
  and a token wins once; the reaper removes exactly the expired; RAM and buffers are never lost.
  The event loops: no operation and no queue refers to a freed connection, buffers held are those
  of live connections, the two lanes of a transfer deliver the bytes in order, and every turn
  returns. Allocation, striping, layout, eviction, index, SHA-256, the protocol and HTTP parsers
  and key derivation each have their specification. The blocking worker leaks nothing; a start
  harms no unmarked directory and establishes the invariant; a TLS connection gets nothing of
  a host its certificate does not name. Some properties pin down defects: wrapping sums and
  casts, a queue that grows, a failing start that terminates the process.

  \<^bold>\<open>Conventions.\<close> A function whose result is an \<open>option\<close> beyond what the code returns uses \<open>None\<close> for
  a loop that does not end or for behaviour the code leaves undefined; totality is proved where a
  property needs a result, never assumed. There is no fuel: loops are structural, have a
  termination measure, or are \<open>partial_function\<close>s with a separate proof that they return.

  \<^bold>\<open>What is assumed of the outside\<close>, by name. The kernel's file calls are the record \<open>kernel\<close>; that
  opens succeed, the ring has room and reads deliver the file's bytes (\<open>kind_kernel\<close>) is needed only
  to read back what was stored. The two allocations are disjoint and within the sizes the engine
  can number (\<open>open_ok\<close>); the file system is well formed, the pools use different directories and
  their stripes stay within 64 bits (\<open>disks_ok\<close>). A completion answers a submitted operation, and a
  closed socket moves no bytes (\<open>completes\<close>, \<open>closed_moves_nothing\<close>), which is what the comments of the
  code rely on; a kernel that still delivered bytes to a swept connection would break the event
  loop. The HTTP parser takes at least a byte of what it accepts (\<open>phr_takes\<close>); a source file
  reads as its bytes (\<open>reads_file\<close>); OpenSSL fails a handshake whose callback raises a fatal alert
  (\<open>honours_alert\<close>); other workers keep the engine's invariant (\<open>kept_world\<close>, \<open>well_behaved\<close>), as every step of
  theirs does.

  \<^bold>\<open>Not modelled.\<close> \<^verbatim>\<open>core/reactor.*\<close> (a wrapper of liburing: it appears as submission with or without
  room and completions in any order); OpenSSL, picohttpparser and the kernel, which are
  parameters; \<^verbatim>\<open>tools/bench.cpp\<close> (a load generator); the composition of \<^verbatim>\<open>HttpsLoop\<close> with the send
  completions of the stream loop, and \<^verbatim>\<open>https_worker\<close>; moves and destructors that only pass
  ownership on; help, banner and log output, signal handlers, socket options and the scheduling
  of threads. Operations of the engine are atomic steps, as its locks make them; memory orders
  of the atomic counters are not modelled.
\<close>

end
